(* ===== verification/Prelude.thy ===== *)
theory Prelude
  imports Main "HOL-Library.Word"
begin

text \<open>
  Shared vocabulary of the development: the machine types of the C++ sources, the
  errors a call can end in, the state-and-error calls that the member functions are
  written in, the contract every clocked simulator satisfies, and the generic facts on
  words and lists the component theories use.

  The C++ types are read for the x86-64 host the programs are built for: \<open>int\<close> and
  \<open>unsigned\<close> have 32 bits, \<open>long\<close> has 64, \<open>char\<close> has 8.
\<close>

unbundle bit_operations_syntax

named_theorems enc_simps \<open>equations of the host-side encoders\<close>
named_theorems dec_simps \<open>equations of the decoders\<close>
named_theorems sim_simps \<open>one-step equations of the simulators\<close>

type_synonym byte = "8 word"
type_synonym busw = "32 word"
type_synonym u64 = "64 word"

subsection \<open>Errors\<close>

text \<open>
  What a call can end in besides a value: the C++ exceptions of the sources
  (\<open>throw BUSERR(a)\<close>, \<open>throw "Read-Failure"\<close>, \<open>throw "Write-Failure"\<close>), a failed
  \<open>assert\<close>, \<open>exit(n)\<close>, an access outside an array, a shift by the width of the
  type or more, the use of a null or freed pointer, a division by zero, an endless empty loop, and \<open>OutOfFuel\<close>, which is not an
  outcome of the program: it marks that a loop modelled with fuel was given too little.
\<close>

datatype exn =
    BUSERR busw
  | ReadFailure
  | WriteFailure
  | AssertFail
  | ExitWith int
  | OutOfBounds
  | BadShift
  | BadPointer
  | DivByZero
  | Hang
  | OutOfFuel

subsection \<open>Calls that change a state and may fail\<close>

text \<open>
  A member function is a function from the object's state to an outcome: the value or
  the error it ends in, and the state it leaves behind. An exception does not undo the
  assignments made before it.
\<close>

type_synonym ('s, 'a) call = "'s \<Rightarrow> (exn + 'a) \<times> 's"

definition returnE :: "'a \<Rightarrow> ('s, 'a) call" where
  "returnE x s = (Inr x, s)"

definition throwE :: "exn \<Rightarrow> ('s, 'a) call" where
  "throwE e s = (Inl e, s)"

definition modifyE :: "('s \<Rightarrow> 's) \<Rightarrow> ('s, unit) call" where
  "modifyE f s = (Inr (), f s)"

definition getsE :: "('s \<Rightarrow> 'a) \<Rightarrow> ('s, 'a) call" where
  "getsE f s = (Inr (f s), s)"

definition bindE :: "('s, 'a) call \<Rightarrow> ('a \<Rightarrow> ('s, 'b) call) \<Rightarrow> ('s, 'b) call" where
  "bindE m f s = (case m s of (Inl e, s') \<Rightarrow> (Inl e, s') | (Inr x, s') \<Rightarrow> f x s')"

definition liftE :: "exn + 'a \<Rightarrow> ('s, 'a) call" where
  "liftE r s = (r, s)"

definition assertE :: "bool \<Rightarrow> ('s, unit) call" where
  "assertE b s = (if b then Inr () else Inl AssertFail, s)"

definition whenE :: "bool \<Rightarrow> ('s, unit) call \<Rightarrow> ('s, unit) call" where
  "whenE b m = (if b then m else returnE ())"

lemmas call_defs = returnE_def throwE_def modifyE_def getsE_def liftE_def assertE_def

lemma returnE_bind [simp]: "bindE (returnE x) f = f x"
  by (rule ext) (simp add: bindE_def returnE_def)

lemma bindE_Inr: "m s = (Inr x, s') \<Longrightarrow> bindE m f s = f x s'"
  by (simp add: bindE_def)

lemma bindE_Inl: "m s = (Inl e, s') \<Longrightarrow> bindE m f s = (Inl e, s')"
  by (simp add: bindE_def)

lemma bindE_assoc: "bindE (bindE m f) g = bindE m (\<lambda>x. bindE (f x) g)"
  by (rule ext) (simp add: bindE_def split: prod.splits sum.splits)

lemma bindE_eq_Inr_iff:
  "bindE m f s = (Inr y, t) \<longleftrightarrow> (\<exists>x s'. m s = (Inr x, s') \<and> f x s' = (Inr y, t))"
  by (auto simp: bindE_def split: prod.splits sum.splits)

lemma whenE_simps [simp]: "whenE True m = m" "whenE False m = returnE ()"
  by (simp_all add: whenE_def)

text \<open>Weakest preconditions: the call succeeds, with a value and a state that satisfy \<open>Q\<close>.\<close>

definition wpE :: "('s, 'a) call \<Rightarrow> ('a \<Rightarrow> 's \<Rightarrow> bool) \<Rightarrow> 's \<Rightarrow> bool" where
  "wpE m Q s = (case m s of (Inl e, t) \<Rightarrow> False | (Inr v, t) \<Rightarrow> Q v t)"

lemma wpE_iff: "wpE m Q s \<longleftrightarrow> (\<exists>v t. m s = (Inr v, t) \<and> Q v t)"
  by (auto simp: wpE_def split: prod.splits sum.splits)

lemma wpE_simps [simp]:
  "wpE (bindE m f) Q = wpE m (\<lambda>v. wpE (f v) Q)" "wpE (returnE x) Q = Q x"
  "wpE (modifyE g) U s = U () (g s)" "wpE (getsE h) R s = R (h s) s"
  "wpE (liftE r) W s = (case r of Inl e \<Rightarrow> False | Inr v \<Rightarrow> W v s)" "wpE (throwE e) Q s = False"
  by (auto simp: wpE_def fun_eq_iff bindE_def call_defs split: prod.splits sum.splits)

lemma wpE_mono: "wpE m Q s \<Longrightarrow> (\<And>v t. Q v t \<Longrightarrow> R v t) \<Longrightarrow> wpE m R s"
  by (auto simp: wpE_iff)

text \<open>Memory safety: the call does not end in an access out of range, and if it returns, \<open>Q\<close> holds.\<close>

definition safeE :: "('s, 'a) call \<Rightarrow> ('a \<Rightarrow> 's \<Rightarrow> bool) \<Rightarrow> 's \<Rightarrow> bool" where
  "safeE m Q s = (case m s of (Inl e, t) \<Rightarrow> e \<noteq> OutOfBounds | (Inr v, t) \<Rightarrow> Q v t)"

lemma safeE_simps [simp]:
  "safeE (bindE m f) Q = safeE m (\<lambda>v. safeE (f v) Q)" "safeE (returnE x) Q = Q x"
  "safeE (modifyE g) U s = U () (g s)" "safeE (getsE h) R s = R (h s) s"
  "safeE (liftE r) W s = (case r of Inl e \<Rightarrow> e \<noteq> OutOfBounds | Inr v \<Rightarrow> W v s)" "safeE (throwE e) Q s = (e \<noteq> OutOfBounds)"
  "safeE (assertE b) U s = (b \<longrightarrow> U () s)"
  by (auto simp: safeE_def fun_eq_iff bindE_def call_defs split: prod.splits sum.splits)

lemma safeE_mono: "safeE m Q s \<Longrightarrow> (\<And>v t. Q v t \<Longrightarrow> R v t) \<Longrightarrow> safeE m R s"
  by (auto simp: safeE_def split: prod.splits sum.splits)

text \<open>Both outcomes of a call: an error and the state it leaves satisfy \<open>P\<close>, a value and the state \<open>Q\<close>.\<close>

definition outcomeE :: "('s, 'a) call \<Rightarrow> (exn \<Rightarrow> 's \<Rightarrow> bool) \<Rightarrow> ('a \<Rightarrow> 's \<Rightarrow> bool) \<Rightarrow> 's \<Rightarrow> bool" where
  "outcomeE m P Q s = (case m s of (Inl e, t) \<Rightarrow> P e t | (Inr v, t) \<Rightarrow> Q v t)"

lemma outcomeE_simps [simp]:
  "outcomeE (bindE m f) P Q = outcomeE m P (\<lambda>v. outcomeE (f v) P Q)" "outcomeE (returnE x) P Q = Q x"
  "outcomeE (modifyE g) P U s = U () (g s)" "outcomeE (getsE h) P R s = R (h s) s"
  "outcomeE (liftE r) P W s = (case r of Inl e \<Rightarrow> P e s | Inr v \<Rightarrow> W v s)" "outcomeE (throwE e) P Q s = P e s"
  by (auto simp: outcomeE_def fun_eq_iff bindE_def call_defs split: prod.splits sum.splits)

lemma outcomeE_mono:
  "outcomeE m P Q s \<Longrightarrow> (\<And>e t. P e t \<Longrightarrow> P' e t) \<Longrightarrow> (\<And>v t. Q v t \<Longrightarrow> Q' v t) \<Longrightarrow> outcomeE m P' Q' s"
  by (auto simp: outcomeE_def split: prod.splits sum.splits)

lemma outcomeE_error: "outcomeE m P Q s \<Longrightarrow> fst (m s) = Inl e \<Longrightarrow> P e (snd (m s))"
  by (auto simp: outcomeE_def split: prod.splits sum.splits)

lemma outcomeE_state: "outcomeE m P Q s \<Longrightarrow> (\<And>e t. P e t \<Longrightarrow> R t) \<Longrightarrow> (\<And>v t. Q v t \<Longrightarrow> R t) \<Longrightarrow> R (snd (m s))"
  by (auto simp: outcomeE_def split: prod.splits sum.splits)

text \<open>The same sequencing for computations without a state.\<close>

fun bindS :: "exn + 'a \<Rightarrow> ('a \<Rightarrow> exn + 'b) \<Rightarrow> exn + 'b" where
  "bindS (Inl e) f = Inl e"
| "bindS (Inr x) f = f x"

text \<open>A computation without a state that succeeds with a value that satisfies \<open>Q\<close>.\<close>

definition wpS :: "exn + 'a \<Rightarrow> ('a \<Rightarrow> bool) \<Rightarrow> bool" where
  "wpS r Q = (case r of Inl e \<Rightarrow> False | Inr x \<Rightarrow> Q x)"

lemma wpS_simps [simp]: "wpS (Inr x) Q = Q x" "wpS (Inl e) Q = False" "wpS (bindS m f) Q = wpS m (\<lambda>x. wpS (f x) Q)"
  "wpS (if b then r else r') Q = (if b then wpS r Q else wpS r' Q)" "wpS (let x = y in g x) Q = (let x = y in wpS (g x) Q)"
  by (cases m; simp add: wpS_def)+ 

lemma wpS_mono: "wpS m Q \<Longrightarrow> (\<And>x. Q x \<Longrightarrow> R x) \<Longrightarrow> wpS m R"
  by (cases m) (auto simp: wpS_def)

text \<open>\<open>mapS f xs\<close> runs a fallible function over a list, stopping at the first error.\<close>

fun mapS :: "('a \<Rightarrow> exn + 'b) \<Rightarrow> 'a list \<Rightarrow> exn + 'b list" where
  "mapS f [] = Inr []"
| "mapS f (x # xs) = bindS (f x) (\<lambda>y. bindS (mapS f xs) (\<lambda>ys. Inr (y # ys)))"

lemma mapS_Inr: "(\<And>x. x \<in> set xs \<Longrightarrow> f x = Inr (g x)) \<Longrightarrow> mapS f xs = Inr (map g xs)"
  by (induction xs) auto

lemma mapS_Inl: "mapS f xs = Inl e \<Longrightarrow> \<exists>x \<in> set xs. f x = Inl e"
proof (induction xs)
  case (Cons x xs)
  then show ?case by (cases "f x"; cases "mapS f xs") auto
qed simp

lemma mapS_length: "mapS f xs = Inr ys \<Longrightarrow> length ys = length xs"
proof (induction xs arbitrary: ys)
  case (Cons x xs)
  then show ?case by (cases "f x"; cases "mapS f xs") auto
qed simp

subsection \<open>Storing into a character array\<close>

text \<open>
  \<open>store_at off xs buf\<close> writes the characters \<open>xs\<close> at \<open>buf[off], buf[off+1], ...\<close>;
  a store past the end of the array is an error, as it would be undefined behaviour.
\<close>

definition store_at :: "nat \<Rightarrow> 'a list \<Rightarrow> 'a list \<Rightarrow> exn + 'a list" where
  "store_at off xs buf =
     (if off + length xs \<le> length buf
      then Inr (take off buf @ xs @ drop (off + length xs) buf)
      else Inl OutOfBounds)"

lemma store_at_length: "store_at off xs buf = Inr buf' \<Longrightarrow> length buf' = length buf"
  by (auto simp: store_at_def split: if_splits)

lemma store_at_fits: "off + length xs \<le> length buf \<Longrightarrow>
    store_at off xs buf = Inr (take off buf @ xs @ drop (off + length xs) buf)"
  by (simp add: store_at_def)

lemma store_at_prefix:
  "store_at off xs buf = Inr buf' \<Longrightarrow> take (off + length xs) buf' = take off buf @ xs"
  by (auto simp: store_at_def split: if_splits)

text \<open>One element of a character array; outside the array it is an error.\<close>

definition buf_put :: "nat \<Rightarrow> byte \<Rightarrow> byte list \<Rightarrow> exn + byte list" where
  "buf_put i v buf = (if i < length buf then Inr (buf[i := v]) else Inl OutOfBounds)"

definition buf_get :: "nat \<Rightarrow> byte list \<Rightarrow> exn + byte" where
  "buf_get i buf = (if i < length buf then Inr (buf ! i) else Inl OutOfBounds)"

text \<open>What \<open>%s\<close> prints.\<close>

definition c_string :: "byte list \<Rightarrow> byte list" where
  "c_string buf = takeWhile (\<lambda>c. c \<noteq> 0) buf"

subsection \<open>Two streams on one line\<close>

text \<open>
  The serial line carries two streams: characters with the top bit set belong to the debugging bus,
  those with the top bit clear to the console.
\<close>

definition cmd_bytes :: "byte list \<Rightarrow> byte list" where
  "cmd_bytes bs = map (\<lambda>b. b AND 0x7f) (filter (\<lambda>b. bit b 7) bs)"

definition con_bytes :: "byte list \<Rightarrow> byte list" where
  "con_bytes bs = map (\<lambda>b. b AND 0x7f) (filter (\<lambda>b. \<not> bit b 7) bs)"

subsection \<open>Clocked components\<close>

text \<open>
  The contract the simulated devices share: from an initial state that satisfies the
  component's invariant, every clock tick keeps it, whatever the inputs. A run of any
  length then keeps it too.
\<close>

locale clocked =
  fixes tick :: "'i \<Rightarrow> 's \<Rightarrow> 's"
    and inv :: "'s \<Rightarrow> bool"
    and start :: 's
  assumes inv_start: "inv start"
    and inv_tick: "inv s \<Longrightarrow> inv (tick i s)"
begin

lemma inv_run_from: "inv s \<Longrightarrow> inv (fold tick is s)"
  by (induction "is" arbitrary: s) (auto intro: inv_tick)

lemma inv_run: "inv (fold tick is start)"
  by (rule inv_run_from [OF inv_start])

end

subsection \<open>Words\<close>

lemma unat_and_mask [simp]:
  fixes w :: "'a::len word"
  shows "unat (w AND mask n) = unat w mod 2 ^ n"
  by (simp flip: take_bit_eq_mask take_bit_eq_mod unsigned_take_bit_eq)

lemma unat_drop_bit:
  fixes w :: "'a::len word"
  shows "unat (drop_bit n w) = unat w div 2 ^ n"
  by (simp add: unat_drop_bit_eq flip: drop_bit_eq_div)

lemma unat_of_nat_lt: "n < 2 ^ LENGTH('a) \<Longrightarrow> unat (of_nat n :: 'a::len word) = n"
  by (simp add: unsigned_of_nat take_bit_nat_eq_self)

lemma not_bit_small: "v < 2 ^ k \<Longrightarrow> k \<le> n \<Longrightarrow> \<not> bit v n" for v :: nat
  by (metis bit_take_bit_iff not_le take_bit_nat_eq_self_iff)

lemma unat_and_3f [simp]: "unat (w AND 0x3f) = unat w mod 64" for w :: busw
  using unat_and_mask [of w 6] by (simp add: mask_eq_exp_minus_1)

lemma unat_and_3 [simp]: "unat (w AND 3) = unat w mod 4" for w :: busw
  using unat_and_mask [of w 2] by (simp add: mask_eq_exp_minus_1)

lemma of_nat_and_3f: "v < 64 \<Longrightarrow> (of_nat v :: busw) AND 0x3f = of_nat v"
  by (simp add: word_unat_eq_iff unsigned_of_nat take_bit_nat_eq_self del: unsigned_and_eq)

lemma of_nat_and_not_3f: "v < 64 \<Longrightarrow> (of_nat v :: busw) AND NOT 0x3f = 0"
  by (subst of_nat_and_3f [symmetric], assumption) (simp only: and.assoc bit.conj_cancel_right bit.conj_zero_right)

text \<open>Appending a six-bit digit to a word by shift and or, as the decoders do.\<close>

lemma push6_or:
  fixes r :: busw
  assumes "v < 64"
  shows "push_bit 6 r OR (of_nat v AND 0x3f) = 64 * r + of_nat v"
proof -
  have "push_bit 6 r AND of_nat v = 0"
    using assms not_bit_small [of v 6] by (intro bit_word_eqI) (auto simp: bit_simps)
  then show ?thesis
    by (simp add: of_nat_and_3f [OF assms] push_bit_eq_mult mult.commute flip: disjunctive_add_eq_or)
qed

lemma horner6:
  fixes n :: nat
  assumes "n < 2 ^ 32"
  shows "64 * (64 * (64 * (64 * (64 * (n div 2 ^ 30 mod 4) + n div 2 ^ 24 mod 64)
      + n div 2 ^ 18 mod 64) + n div 2 ^ 12 mod 64) + n div 2 ^ 6 mod 64) + n mod 64 = n"
proof -
  have step: "64 * (n div 2 ^ (k + 6)) + n div 2 ^ k mod 64 = n div 2 ^ k" for k
    by (simp add: power_add div_mult2_eq)
  have "n div 2 ^ 30 mod 4 = n div 2 ^ 30" using assms by simp
  then show ?thesis
    using step [of 24] step [of 18] step [of 12] step [of 6] step [of 0] by simp
qed

lemma unat_lt32: "unat w < 2 ^ 32" for w :: busw
  using unsigned_less [of w, where 'a=nat] by simp

lemma unat_ucast32: "unat (ucast v :: busw) = unat v mod 2 ^ 32" for v :: u64
  by (simp add: unsigned_ucast_eq take_bit_eq_mod)

lemma unat_ucast64: "unat (ucast w :: u64) = unat w" for w :: busw
  using unat_lt32 [of w] by (simp add: unsigned_ucast_eq take_bit_nat_eq_self)

lemma sint_clear: "\<not> bit n 31 \<Longrightarrow> sint n = int (unat n)" for n :: busw
proof -
  assume nb: "\<not> bit n 31"
  have "sint n = uint n"
  proof (rule bit_eqI)
    fix k show "bit (sint n) k = bit (uint n) k"
      using nb bit_imp_le_length [of n k] by (cases "k < 31") (auto simp: bit_sint_iff bit_uint_iff not_less le_less_Suc_eq)
  qed
  then show ?thesis by simp
qed

lemma sint_nonneg: "0 \<le> sint n \<Longrightarrow> sint n = int (unat n)" for n :: busw
  by (rule sint_clear) (simp add: sint_uint bit_uint_iff)

lemma sint_small: "unat n < 2 ^ 31 \<Longrightarrow> sint n = int (unat n)" for n :: busw
  using not_bit_small [of "unat n" 31 31] by (intro sint_clear) (simp add: bit_unsigned_iff)

lemma unat_pow2_lt: "k < 32 \<Longrightarrow> unat (2 ^ k :: busw) = 2 ^ k"
  using unat_of_nat_lt [of "2 ^ k", where 'a = 32] power_strict_increasing [of k 32 "2::nat"] by simp

lemma nibble: "unat (drop_bit i val AND 0x0f) = unat val div 2 ^ i mod 16" for val :: busw
  using unat_and_mask [of "drop_bit i val" 4] by (simp add: mask_eq_exp_minus_1 unat_drop_bit)

lemma nibbles_value: "foldl (\<lambda>a i. 16 * a + unat v div 2 ^ i mod 16) 0 [28, 24, 20, 16, 12, 8, 4, 0] = unat v" for v :: busw
proof -
  let ?v = "unat v"
  have step: "16 * (?v div 2 ^ (i + 4)) + ?v div 2 ^ i mod 16 = ?v div 2 ^ i" for i
    by (simp add: power_add div_mult2_eq)
  have "?v div 2 ^ 28 mod 16 = ?v div 2 ^ 28" using unat_lt32 [of v] by simp
  then show ?thesis
    unfolding foldl.simps
    using step [of 24] step [of 20] step [of 16] step [of 12] step [of 8] step [of 4] step [of 0] by simp
qed

lemma div_lt32: "unat w div 4 < 4294967296" for w :: busw
  using unat_lt32 [of w] by simp

lemma int_and_ff: "x AND 0xff = x mod 256" for x :: int
  using take_bit_eq_mask [of 8 x] by (simp add: mask_eq_exp_minus_1 take_bit_eq_mod)

lemma and_mask_int: "int d AND 63 = int (d mod 64)" "drop_bit k (int d) AND 63 = int (d div 2 ^ k mod 64)"
  using take_bit_eq_mask [of 6 "int d"] take_bit_eq_mask [of 6 "drop_bit k (int d)"]
  by (simp_all add: mask_eq_exp_minus_1 take_bit_eq_mod drop_bit_eq_div zmod_int zdiv_int)

lemma digits_sum:
  fixes d :: nat
  shows "d < 2 ^ 12 \<Longrightarrow> d div 2 ^ 6 mod 64 * 2 ^ 6 + d mod 64 = d"
    "d < 2 ^ 18 \<Longrightarrow> d div 2 ^ 12 mod 64 * 2 ^ 12 + d div 2 ^ 6 mod 64 * 2 ^ 6 + d mod 64 = d"
    "d < 2 ^ 24 \<Longrightarrow> d div 2 ^ 18 mod 64 * 2 ^ 18 + d div 2 ^ 12 mod 64 * 2 ^ 12 + d div 2 ^ 6 mod 64 * 2 ^ 6 + d mod 64 = d"
proof -
  have step: "d div 2 ^ (k + 6) * 2 ^ (k + 6) + d div 2 ^ k mod 64 * 2 ^ k = d div 2 ^ k * 2 ^ k" for k
  proof -
    have "d div 2 ^ (k + 6) * 64 + d div 2 ^ k mod 64 = d div 2 ^ k"
      by (simp add: power_add div_mult2_eq)
    then have "(d div 2 ^ (k + 6) * 64 + d div 2 ^ k mod 64) * 2 ^ k = d div 2 ^ k * 2 ^ k" by simp
    then show ?thesis by (simp add: power_add algebra_simps)
  qed
  note s = step [of 0] step [of 6] step [of 12]
  show "d < 2 ^ 12 \<Longrightarrow> d div 2 ^ 6 mod 64 * 2 ^ 6 + d mod 64 = d" using s by simp
  show "d < 2 ^ 18 \<Longrightarrow> d div 2 ^ 12 mod 64 * 2 ^ 12 + d div 2 ^ 6 mod 64 * 2 ^ 6 + d mod 64 = d"
    using s by simp
  show "d < 2 ^ 24 \<Longrightarrow> d div 2 ^ 18 mod 64 * 2 ^ 18 + d div 2 ^ 12 mod 64 * 2 ^ 12 + d div 2 ^ 6 mod 64 * 2 ^ 6 + d mod 64 = d"
    using s by simp
qed

lemma nth_Cons_1: "(x # y # zs) ! 1 = y"
  by simp

lemma field4:
  fixes q b :: nat
  assumes "q < 4" and "b < 2"
  shows "(24 + 2 * q + b) div 2 mod 4 = q" "(16 + 2 * q + b) div 2 mod 4 = q" "(56 + 2 * q + b) div 2 mod 4 = q"
proof -
  have "(8 * k + 2 * q + b) div 2 mod 4 = q" for k
  proof -
    have "(8 * k + 2 * q + b) div 2 = q + k * 4" using assms(2) by auto
    then show ?thesis using assms(1) by (simp only: mod_mult_self1) simp
  qed
  from this [of 3] this [of 2] this [of 7]
  show "(24 + 2 * q + b) div 2 mod 4 = q" "(16 + 2 * q + b) div 2 mod 4 = q" "(56 + 2 * q + b) div 2 mod 4 = q"
    by simp_all
qed

lemma bit_ff: "bit (0xff :: busw) n \<longleftrightarrow> n < 8"
proof -
  have "(0xff :: busw) = mask 8" by (simp add: mask_eq_exp_minus_1)
  then show ?thesis by (simp only: bit_mask_iff) auto
qed

lemma unat_and_ff: "unat (w AND 0xff) = unat w mod 256" for w :: busw
  using unat_and_mask [of w 8] by (simp add: mask_eq_exp_minus_1)

lemma unat_and_ffff: "unat (w AND 0xffff) = unat w mod 65536" for w :: busw
  using unat_and_mask [of w 16] by (simp add: mask_eq_exp_minus_1)

text \<open>The absolute value, with the most negative number wrapping to itself.\<close>

lemma unat_abs:
  fixes v :: "'a::len word"
  shows "unat (if v <s 0 then - v else v) = nat \<bar>sint v\<bar>"
proof -
  have v: "v = of_int (sint v)" by simp
  have r: "- (2 ^ (LENGTH('a) - 1)) \<le> sint v" "sint v < 2 ^ (LENGTH('a) - 1)" using sint_ge [of v] sint_lt [of v] by simp_all
  have half: "(2 :: int) ^ (LENGTH('a) - 1) < 2 ^ LENGTH('a)" by (rule power_strict_increasing) simp_all
  have n: "unat (of_int i :: 'a word) = nat i" if "0 \<le> i" "i < 2 ^ LENGTH('a)" for i
  proof -
    have "(of_int i :: 'a word) = of_nat (nat i)" using that(1) by (metis of_nat_nat of_int_of_nat_eq)
    moreover have "nat i < 2 ^ LENGTH('a)" using that by (simp add: nat_less_iff)
    ultimately show ?thesis using unat_of_nat_lt [of "nat i", where 'a = 'a] by simp
  qed
  show ?thesis
  proof (cases "v <s 0")
    case True
    then have neg: "sint v < 0" by (simp add: word_sless_alt)
    have e: "- v = of_int (- sint v)" by simp
    have "unat (- v) = nat (- sint v)" unfolding e by (rule n) (use neg r half in linarith)+
    then show ?thesis using True neg by simp
  next
    case False
    then have pos: "0 \<le> sint v" by (simp add: word_sless_alt)
    have "unat v = nat (sint v)" by (subst v, rule n) (use pos r half in linarith)+
    then show ?thesis using False pos by simp
  qed
qed

end
