(* ===== verification/TtyCodec.thy ===== *)
theory TtyCodec
  imports Prelude
begin

text \<open>
  The character codes of the debugging bus (\<open>src/sw/host/ttybus.cpp\<close>): six bits per
  printable character, 32-bit words as six characters, and the read command. A \<open>char\<close>
  is a byte: the comparisons of \<open>chardec\<close> against letters and digits give the same
  result on signed and unsigned characters, because both bounds are below 128.

  The theory ends with the interface every receiver of these characters relies on, the
  locale \<open>sixbit_receiver\<close>, and its interpretation for the host's own decoder.
\<close>

subsection \<open>Definitions\<close>

definition TTYC_IDLE :: byte where "TTYC_IDLE = 0x30"
definition TTYC_BUSY :: byte where "TTYC_BUSY = 0x31"
definition TTYC_WRITE :: byte where "TTYC_WRITE = 0x32"
definition TTYC_RESET :: byte where "TTYC_RESET = 0x33"
definition TTYC_INT :: byte where "TTYC_INT = 0x34"
definition TTYC_ERR :: byte where "TTYC_ERR = 0x35"

text \<open>The newline that ends a command line.\<close>

abbreviation newline :: byte where "newline \<equiv> 0x0a"

definition charenc :: "int \<Rightarrow> exn + byte" where
  "charenc sixbitval =
     (if sixbitval < 10 then Inr (word_of_int (0x30 + sixbitval))
      else if sixbitval < 10+26 then Inr (word_of_int (0x41 - 10 + sixbitval))
      else if sixbitval < 10+26+26 then Inr (word_of_int (0x61 - 10 - 26 + sixbitval))
      else if sixbitval = 0x3e then Inr 0x40
      else if sixbitval = 0x3f then Inr 0x25
      else if sixbitval AND NOT 0x03f = 0 then Inr 0
      else Inl AssertFail)"

definition chardec :: "byte \<Rightarrow> busw" where
  "chardec b =
     (if b \<ge> 0x30 \<and> b \<le> 0x39 then ucast b - 0x30
      else if b \<ge> 0x41 \<and> b \<le> 0x5a then ucast b - 0x41 + 10
      else if b \<ge> 0x61 \<and> b \<le> 0x7a then ucast b - 0x61 + 36
      else if b = 0x40 then 0x03e
      else if b = 0x25 then 0x03f
      else 0x0100)"

text \<open>The codes an expression such as \<open>charenc((val>>24)&0x3f)\<close> is applied to.\<close>

abbreviation sixbits_at :: "nat \<Rightarrow> busw \<Rightarrow> int" where
  "sixbits_at n val \<equiv> uint (drop_bit n val AND 0x3f)"

definition encode :: "int \<Rightarrow> busw \<Rightarrow> exn + byte list" where
  "encode hb val = mapS charenc
     [push_bit 2 hb OR uint (drop_bit 30 val AND 0x03),
      sixbits_at 24 val, sixbits_at 18 val, sixbits_at 12 val,
      sixbits_at 6 val, sixbits_at 0 val]"

definition decodestr :: "byte list \<Rightarrow> busw" where
  "decodestr buf =
     (let r = chardec (buf ! 0) AND 0x03;
          r = push_bit 6 r OR (chardec (buf ! 1) AND 0x03f);
          r = push_bit 6 r OR (chardec (buf ! 2) AND 0x03f);
          r = push_bit 6 r OR (chardec (buf ! 3) AND 0x03f);
          r = push_bit 6 r OR (chardec (buf ! 4) AND 0x03f);
          r = push_bit 6 r OR (chardec (buf ! 5) AND 0x03f)
      in r)"

definition decodehex :: "byte \<Rightarrow> int" where
  "decodehex hx =
     (if hx \<ge> 0x30 \<and> hx \<le> 0x39 then uint hx - 0x30
      else if hx \<ge> 0x41 \<and> hx \<le> 0x5a then uint hx - 0x41 + 10
      else if hx \<ge> 0x61 \<and> hx \<le> 0x7a then uint hx - 0x61 + 10
      else 0)"

definition readcmd :: "bool \<Rightarrow> int \<Rightarrow> exn + byte list" where
  "readcmd inc len =
     (if \<not> len < 520 then Inl AssertFail
      else if \<not> len > 0 then Inl AssertFail
      else if len \<le> 8 then
        mapS charenc [0x20 + push_bit 1 ((len - 1) AND 0x07) + (if inc then 1 else 0)]
      else
        mapS charenc [0x30 + (drop_bit 5 (len - 9) AND 0x0e) + (if inc then 1 else 0),
                      (len - 9) AND 0x03f])"

subsection \<open>Six-bit characters\<close>

text \<open>The encoder as a total function on the codes 0 to 63.\<close>

definition sixchar :: "nat \<Rightarrow> byte" where
  "sixchar v =
     (if v < 10 then of_nat (0x30 + v)
      else if v < 36 then of_nat (0x37 + v)
      else if v < 62 then of_nat (0x3d + v)
      else if v = 62 then 0x40 else 0x25)"

lemma charenc_sixchar [enc_simps]: "v < 64 \<Longrightarrow> charenc (int v) = Inr (sixchar v)"
  by (auto simp: charenc_def sixchar_def)

lemma charenc_range: "0 \<le> v \<Longrightarrow> v < 64 \<Longrightarrow> charenc v = Inr (sixchar (nat v))"
  using charenc_sixchar [of "nat v"] by simp

lemma charenc_rejects:
  assumes "64 \<le> v" shows "charenc v = Inl AssertFail"
proof -
  have "v AND NOT 63 \<noteq> 0"
  proof
    assume "v AND NOT 63 = 0"
    then have "v = v AND 63"
      by (metis and.commute bit.conj_disj_distrib bit.disj_cancel_right bit.conj_one_right or.right_neutral)
    also have "\<dots> < 64" using AND_upper2 [of 63 v] by simp
    finally show False using assms by simp
  qed
  then show ?thesis using assms by (simp add: charenc_def)
qed

lemma chardec_sixchar [dec_simps]:
  assumes "v < 64" shows "chardec (sixchar v) = of_nat v"
proof -
  have "\<forall>v \<in> set [0..<64]. chardec (sixchar v) = of_nat v"
    by (simp add: upt_rec sixchar_def chardec_def)
  with assms show ?thesis by simp
qed

lemma sixchar_not_newline:
  assumes "v < 64" shows "sixchar v \<noteq> newline"
proof
  assume "sixchar v = newline"
  then have "of_nat v = (0x100 :: busw)"
    using chardec_sixchar [OF assms] by (simp add: chardec_def)
  with assms show False by (auto simp: word_unat_eq_iff unsigned_of_nat take_bit_nat_eq_self)
qed

lemma chardec_newline: "chardec newline = 0x100"
  by (simp add: chardec_def)

lemma chardec_nat:
  "chardec b = (let n = unat b in
     if 48 \<le> n \<and> n \<le> 57 then of_nat (n - 48)
      else if 65 \<le> n \<and> n \<le> 90 then of_nat (n - 55)
      else if 97 \<le> n \<and> n \<le> 122 then of_nat (n - 61)
      else if n = 64 then 62
      else if n = 37 then 63
      else 256)"
  by (auto simp: chardec_def word_le_nat_alt Let_def word_unat_eq_iff [of b] of_nat_diff unsigned_ucast_eq)



lemma sixchar_nat: "unat (sixchar v) = (if v < 10 then 48 + v else if v < 36 then 55 + v else if v < 62 then 61 + v
   else if v = 62 then 64 else 37)"
  by (simp add: sixchar_def unat_of_nat_lt del: of_nat_add)

lemma unat_chardec:
  "unat (chardec b) = (let n = unat b in
     if 48 \<le> n \<and> n \<le> 57 then n - 48
      else if 65 \<le> n \<and> n \<le> 90 then n - 55
      else if 97 \<le> n \<and> n \<le> 122 then n - 61
      else if n = 64 then 62
      else if n = 37 then 63
      else 256)"
  by (auto simp: chardec_nat Let_def simp del: of_nat_diff intro!: unat_of_nat_lt)


text \<open>The characters \<open>chardec\<close> accepts are exactly the 64 characters \<open>charenc\<close> produces.\<close>

lemma chardec_valid_imp:
  assumes valid: "chardec b AND NOT 0x3f = 0" shows "\<exists>v<64. b = sixchar v"
proof -
  have "chardec b \<noteq> 256" using valid by auto
  then have "unat (chardec b) \<noteq> 256" by (simp add: word_unat_eq_iff)
  then consider "48 \<le> unat b" "unat b \<le> 57" | "65 \<le> unat b" "unat b \<le> 90"
    | "97 \<le> unat b" "unat b \<le> 122" | "unat b = 64" | "unat b = 37"
    by (auto simp: unat_chardec Let_def split: if_splits)
  then have "unat (sixchar (unat (chardec b))) = unat b \<and> unat (chardec b) < 64"
    by cases (auto simp: sixchar_nat unat_chardec Let_def)
  then show ?thesis by (metis word_unat_eq_iff)
qed

lemma chardec_valid_iff:
  "chardec b AND NOT 0x3f = 0 \<longleftrightarrow> (\<exists>v<64. b = sixchar v)"
  using chardec_valid_imp chardec_sixchar of_nat_and_not_3f by auto

subsection \<open>Packing and unpacking words\<close>

lemma sixbits_at_nat: "sixbits_at n val = int (unat val div 2 ^ n mod 64)"
  by (simp add: uint_nat unat_drop_bit del: unsigned_and_eq)

lemma mapS_charenc:
  "(\<And>v. v \<in> set vs \<Longrightarrow> v < 64) \<Longrightarrow> mapS charenc (map int vs) = Inr (map sixchar vs)"
  by (induction vs) (auto simp: charenc_sixchar)

text \<open>The six digits of a word, most significant first.\<close>

definition digits6 :: "busw \<Rightarrow> nat list" where
  "digits6 val = (let n = unat val in
     [n div 2 ^ 30 mod 4, n div 2 ^ 24 mod 64, n div 2 ^ 18 mod 64,
      n div 2 ^ 12 mod 64, n div 2 ^ 6 mod 64, n mod 64])"

lemma encode_digits [enc_simps]:
  assumes "hb < 16"
  shows "encode (int hb) val =
    Inr (map sixchar ((4 * hb + hd (digits6 val)) # tl (digits6 val)))"
proof -
  have hi: "uint (drop_bit 30 val AND 3) = int (unat val div 2 ^ 30 mod 4)"
    by (simp add: uint_nat unat_drop_bit del: unsigned_and_eq)
  have or4: "push_bit 2 (int hb) OR int d = int (4 * hb + d)" if "d < 4" for d
  proof -
    have "push_bit 2 hb AND d = 0"
      using that not_bit_small [of d 2] by (intro bit_eqI) (auto simp: bit_simps)
    then have "push_bit 2 hb OR d = 4 * hb + d"
      by (simp add: push_bit_eq_mult mult.commute flip: disjunctive_add_eq_or)
    then show ?thesis by (metis of_nat_or_eq of_nat_push_bit)
  qed
  let ?vs = "(4 * hb + hd (digits6 val)) # tl (digits6 val)"
  have "encode (int hb) val = mapS charenc (map int ?vs)"
    unfolding encode_def hi sixbits_at_nat by (simp add: digits6_def Let_def or4)
  also have "\<dots> = Inr (map sixchar ?vs)"
    using assms by (intro mapS_charenc) (auto simp: digits6_def Let_def)
  finally show ?thesis .
qed

lemma decodestr_digits [dec_simps]:
  assumes "hb < 16"
  shows "decodestr (map sixchar ((4 * hb + hd (digits6 val)) # tl (digits6 val))) = val"
proof -
  let ?n = "unat val"
  have n: "?n < 2 ^ 32" using unsigned_less [of val] by simp
  have hd4: "(of_nat (4 * hb + ?n div 2 ^ 30 mod 4) :: busw) AND 3 = of_nat (?n div 2 ^ 30 mod 4)"
    using assms by (simp add: word_unat_eq_iff unat_of_nat_lt del: unsigned_and_eq of_nat_add of_nat_mult)
  have "decodestr (map sixchar ((4 * hb + hd (digits6 val)) # tl (digits6 val))) =
      of_nat (64 * (64 * (64 * (64 * (64 * (?n div 2 ^ 30 mod 4) + ?n div 2 ^ 24 mod 64)
      + ?n div 2 ^ 18 mod 64) + ?n div 2 ^ 12 mod 64) + ?n div 2 ^ 6 mod 64) + ?n mod 64)"
    using assms hd4
    by (simp add: decodestr_def digits6_def Let_def chardec_sixchar push6_or del: of_nat_mod)
  then show ?thesis unfolding horner6 [OF n] by simp
qed

subsection \<open>The receiver's interface\<close>

text \<open>
  What a receiver of the character stream promises its clients: it reads the 64 code
  characters back to the codes they were made from, and takes the newline for none of
  them. The receivers are the host's \<open>chardec\<close> (interpreted here) and the FPGA's
  \<open>wbutohex\<close> (interpreted in theory \<open>WbuInput\<close>).
\<close>

locale sixbit_receiver =
  fixes dec :: "byte \<Rightarrow> nat option"
  assumes dec_six: "v < 64 \<Longrightarrow> dec (sixchar v) = Some v"
    and dec_nl: "dec newline = None"
begin

lemma dec_string:
  "(\<And>v. v \<in> set vs \<Longrightarrow> v < 64) \<Longrightarrow> map dec (map sixchar vs) = map Some vs"
  by (simp add: dec_six)

lemma sixchar_inj: "u < 64 \<Longrightarrow> v < 64 \<Longrightarrow> sixchar u = sixchar v \<Longrightarrow> u = v"
  using dec_six by (metis option.inject)

lemma dec_encode:
  assumes "encode (int hb) val = Inr buf" and "hb < 16"
  shows "map dec buf = map Some ((4 * hb + hd (digits6 val)) # tl (digits6 val))"
proof -
  have "buf = map sixchar ((4 * hb + hd (digits6 val)) # tl (digits6 val))"
    using assms by (simp add: encode_digits)
  moreover have "v < 64" if "v \<in> set ((4 * hb + hd (digits6 val)) # tl (digits6 val))" for v
    using that assms(2) by (auto simp: digits6_def Let_def)
  ultimately show ?thesis by (simp only: dec_string)
qed

end

definition host_sixbits :: "byte \<Rightarrow> nat option" where
  "host_sixbits b = (if chardec b AND NOT 0x3f = 0 then Some (unat (chardec b)) else None)"

interpretation host: sixbit_receiver host_sixbits
proof
  show "host_sixbits (sixchar v) = Some v" if "v < 64" for v
    using that chardec_valid_iff [of "sixchar v"]
    by (auto simp: host_sixbits_def chardec_sixchar unat_of_nat_lt)
  show "host_sixbits newline = None"
    by (simp add: host_sixbits_def chardec_def)
qed

subsection \<open>Properties\<close>

text \<open>Every six-bit code is sent as a printable character that \<open>chardec\<close> reads back
  to the same code, and a larger value stops at the assertion.\<close>

lemma charenc_chardec:
  assumes "0 \<le> v"
  shows "(v < 64 \<longrightarrow> (\<exists>b. charenc v = Inr b \<and> chardec b = word_of_int v \<and> 0x25 \<le> b \<and> b \<le> 0x7a)) \<and>
    (64 \<le> v \<longrightarrow> charenc v = Inl AssertFail)"
proof (cases "v < 64")
  case True
  then have v: "nat v < 64" "word_of_int v = (of_nat (nat v) :: busw)" using assms by auto
  have "0x25 \<le> sixchar (nat v) \<and> sixchar (nat v) \<le> 0x7a"
    using v(1) by (auto simp: word_le_nat_alt sixchar_nat)
  then show ?thesis using True assms v by (auto simp: charenc_range chardec_sixchar)
qed (simp add: charenc_rejects)

lemma charenc_chardec_witness:
  "(0::int) \<le> 45 \<and> (\<exists>b. charenc 45 = Inr b \<and> chardec b = 45)"
  using charenc_chardec [of 45] by auto

text \<open>A 32-bit word written as six characters by \<open>encode\<close> is read back unchanged by
  \<open>decodestr\<close>, and every one of the six characters is a valid code character.\<close>

lemma encode_decodestr_roundtrip:
  assumes "0 \<le> hb" and "hb < 16"
  shows "\<exists>buf. encode hb val = Inr buf \<and> length buf = 6 \<and> decodestr buf = val \<and>
    list_all (\<lambda>b. chardec b AND NOT 0x3f = 0) buf"
proof -
  define k where "k = nat hb"
  then have k: "hb = int k" "k < 16" using assms by auto
  let ?vs = "(4 * k + hd (digits6 val)) # tl (digits6 val)"
  have "v < 64" if "v \<in> set ?vs" for v
    using that k by (auto simp: digits6_def Let_def)
  then have "list_all (\<lambda>b. chardec b AND NOT 0x3f = 0) (map sixchar ?vs)"
    unfolding list_all_iff chardec_valid_iff by auto
  moreover have "length (map sixchar ?vs) = 6" by (simp add: digits6_def Let_def)
  ultimately show ?thesis
    unfolding k(1) encode_digits [OF k(2)] using decodestr_digits [OF k(2), of val] by blast
qed

lemma encode_decodestr_roundtrip_witness:
  "(0::int) \<le> 2 \<and> (2::int) < 16 \<and>
   (\<exists>buf. encode 2 0xdeadbeef = Inr buf \<and> length buf = 6 \<and> decodestr buf = 0xdeadbeef)"
  using encode_decodestr_roundtrip [of 2 "0xdeadbeef"] by auto

end
