(* ===== verification/LLComms.thy ===== *)
theory LLComms
  imports Prelude
begin

text \<open>
  The byte transport under the debugging bus (\<open>src/sw/host/llcomms.cpp\<close>). The operating
  system is not part of the program: its calls are the parameter \<open>os\<close> of every
  definition, a record of the system calls the code makes, over an unknown system
  state \<open>'o\<close>. What a theorem needs of them is a named hypothesis (\<open>stream_reads\<close>,
  \<open>stream_writes\<close> below).
\<close>

subsection \<open>System calls\<close>

text \<open>
  \<open>os_read os o fd n\<close> is \<open>::read(fd, buf, n)\<close>: the bytes it stores, where the empty
  list stands for a result of zero or below. \<open>os_write\<close> gives the result of \<open>::write\<close>,
  \<open>os_poll\<close> whether \<open>POLLIN\<close> is set, \<open>os_open\<close> and \<open>os_connect\<close> the descriptor or a
  negative number.
\<close>

record 'o os_ops =
  os_read :: "'o \<Rightarrow> int \<Rightarrow> nat \<Rightarrow> byte list \<times> 'o"
  os_write :: "'o \<Rightarrow> int \<Rightarrow> byte list \<Rightarrow> int \<times> 'o"
  os_poll :: "'o \<Rightarrow> int \<Rightarrow> busw \<Rightarrow> bool \<times> 'o"
  os_close :: "'o \<Rightarrow> int \<Rightarrow> 'o"
  os_shutdown :: "'o \<Rightarrow> int \<Rightarrow> 'o"
  os_open :: "'o \<Rightarrow> string \<Rightarrow> int \<times> 'o"

record 'o llcomms =
  m_fdw :: int
  m_fdr :: int
  ll_total_nread :: u64
  ll_total_nwrit :: u64
  ll_os :: 'o

subsection \<open>LLCOMMSI\<close>

definition LLCOMMSI :: "'o \<Rightarrow> 'o llcomms" where
  "LLCOMMSI o0 = \<lparr>m_fdw = -1, m_fdr = -1, ll_total_nread = 0, ll_total_nwrit = 0, ll_os = o0\<rparr>"

definition ll_write :: "'o os_ops \<Rightarrow> byte list \<Rightarrow> ('o llcomms, unit) call" where
  "ll_write os buf c =
     (let (nw, o') = os_write os (ll_os c) (m_fdw c) buf; c = c\<lparr>ll_os := o'\<rparr>
      in if nw \<le> 0 then (Inl WriteFailure, c)
         else let c = c\<lparr>ll_total_nwrit := ll_total_nwrit c + word_of_int nw\<rparr>
              in (if nw = int (length buf) then Inr () else Inl AssertFail, c))"

definition ll_read :: "'o os_ops \<Rightarrow> nat \<Rightarrow> ('o llcomms, byte list) call" where
  "ll_read os len c =
     (let (bs, o') = os_read os (ll_os c) (m_fdr c) len; c = c\<lparr>ll_os := o'\<rparr>
      in if bs = [] then (Inl ReadFailure, c)
         else (Inr bs, c\<lparr>ll_total_nread := ll_total_nread c + of_nat (length bs)\<rparr>))"

definition ll_close :: "'o os_ops \<Rightarrow> 'o llcomms \<Rightarrow> 'o llcomms" where
  "ll_close os c =
     (let c = (if m_fdw c \<ge> 0 then c\<lparr>ll_os := os_close os (ll_os c) (m_fdw c)\<rparr> else c);
          c = (if m_fdr c \<ge> 0 \<and> m_fdr c \<noteq> m_fdw c
               then c\<lparr>ll_os := os_close os (ll_os c) (m_fdr c)\<rparr> else c)
      in c\<lparr>m_fdw := -1, m_fdr := -1\<rparr>)"

definition ll_poll :: "'o os_ops \<Rightarrow> busw \<Rightarrow> 'o llcomms \<Rightarrow> bool \<times> 'o llcomms" where
  "ll_poll os ms c =
     (let (r, o') = os_poll os (ll_os c) (m_fdr c) ms in (r, c\<lparr>ll_os := o'\<rparr>))"

definition ll_available :: "'o os_ops \<Rightarrow> 'o llcomms \<Rightarrow> int \<times> 'o llcomms" where
  "ll_available os c = (let (r, c) = ll_poll os 0 c in (if r then 1 else 0, c))"

text \<open>The constructor of \<open>TTYCOMMS\<close>; the terminal settings it makes do not change the
  model's state.\<close>

definition TTYCOMMS :: "'o os_ops \<Rightarrow> string \<Rightarrow> 'o \<Rightarrow> (exn + 'o llcomms) \<times> 'o" where
  "TTYCOMMS os dev o0 =
     (let (fd, o') = os_open os o0 dev
      in if fd < 0 then (Inl (ExitWith (-1)), o')
         else (Inr ((LLCOMMSI o')\<lparr>m_fdr := fd, m_fdw := fd\<rparr>), o'))"

text \<open>\<open>NETCOMMS::close\<close> drains the socket before closing it; the drain loop has fuel.\<close>

fun net_drain :: "'o os_ops \<Rightarrow> nat \<Rightarrow> 'o llcomms \<Rightarrow> (exn + unit) \<times> 'o llcomms" where
  "net_drain os 0 c = (Inl OutOfFuel, c)"
| "net_drain os (Suc f) c =
     (let (bs, o') = os_read os (ll_os c) (m_fdr c) 256; c = c\<lparr>ll_os := o'\<rparr>
      in if bs = [] then (Inr (), c) else net_drain os f c)"

definition net_close :: "'o os_ops \<Rightarrow> nat \<Rightarrow> ('o llcomms, unit) call" where
  "net_close os fuel c =
     (let c = c\<lparr>ll_os := os_shutdown os (ll_os c) (m_fdw c)\<rparr>
      in bindE (net_drain os fuel)
           (\<lambda>_. modifyE (\<lambda>c. c\<lparr>ll_os := os_close os (ll_os c) (m_fdw c)\<rparr>)) c)"

subsection \<open>What a stream descriptor promises\<close>

text \<open>
  \<open>stream_reads os pend\<close>: \<open>pend\<close> gives the bytes that a system state will still
  deliver; a read with room for at least one byte takes a non-empty piece off its front,
  of any size up to the room, and nothing when no byte is left. Polling and writing do
  not consume input. This is what \<open>read(2)\<close> documents for a stream.
\<close>

definition stream_reads :: "'o os_ops \<Rightarrow> ('o \<Rightarrow> byte list) \<Rightarrow> bool" where
  "stream_reads os pend \<longleftrightarrow>
     (\<forall>o1 fd n bs o2. os_read os o1 fd n = (bs, o2) \<longrightarrow> 0 < n \<longrightarrow>
        pend o1 = bs @ pend o2 \<and> length bs \<le> n \<and> (pend o1 \<noteq> [] \<longrightarrow> bs \<noteq> [])) \<and>
     (\<forall>o1 fd ms. pend (snd (os_poll os o1 fd ms)) = pend o1) \<and>
     (\<forall>o1 fd bs. pend (snd (os_write os o1 fd bs)) = pend o1)"

text \<open>
  \<open>stream_writes os sent\<close>: \<open>sent\<close> gives the bytes already accepted; a write accepts the
  whole buffer and the other calls send nothing.
\<close>

definition stream_writes :: "'o os_ops \<Rightarrow> ('o \<Rightarrow> byte list) \<Rightarrow> bool" where
  "stream_writes os sent \<longleftrightarrow>
     (\<forall>o1 fd bs. bs \<noteq> [] \<longrightarrow> fst (os_write os o1 fd bs) = int (length bs)) \<and>
     (\<forall>o1 fd bs. sent (snd (os_write os o1 fd bs)) = sent o1 @ bs) \<and>
     (\<forall>o1 fd n. sent (snd (os_read os o1 fd n)) = sent o1) \<and>
     (\<forall>o1 fd ms. sent (snd (os_poll os o1 fd ms)) = sent o1)"

text \<open>\<open>stream_polls os pend\<close>: nothing is reported readable while no byte is pending.\<close>

definition stream_polls :: "'o os_ops \<Rightarrow> ('o \<Rightarrow> byte list) \<Rightarrow> bool" where
  "stream_polls os pend \<longleftrightarrow> (\<forall>o1 fd ms. pend o1 = [] \<longrightarrow> \<not> fst (os_poll os o1 fd ms))"

lemma stream_readsD:
  assumes "stream_reads os pend" and "os_read os o1 fd n = (bs, o2)" and "0 < n"
  shows "pend o1 = bs @ pend o2" "length bs \<le> n" "pend o1 \<noteq> [] \<Longrightarrow> bs \<noteq> []"
  using assms unfolding stream_reads_def by blast+

lemma ll_read_stream:
  assumes "stream_reads os pend" and "0 < n" and "pend (ll_os c) \<noteq> []"
  obtains bs c' where "ll_read os n c = (Inr bs, c')" "bs \<noteq> []" "length bs \<le> n"
    "pend (ll_os c) = bs @ pend (ll_os c')"
proof -
  obtain bs o' where r: "os_read os (ll_os c) (m_fdr c) n = (bs, o')" by fastforce
  note r' = stream_readsD [OF assms(1) r assms(2)]
  from r' assms(3) show thesis using that [OF _ r'(3) r'(2)] r by (simp add: ll_read_def)
qed

lemma ll_read_empty:
  assumes "stream_reads os pend" and "0 < n" and "pend (ll_os c) = []"
  shows "fst (ll_read os n c) = Inl ReadFailure"
proof -
  obtain bs o' where r: "os_read os (ll_os c) (m_fdr c) n = (bs, o')" by fastforce
  from stream_readsD(1) [OF assms(1) r assms(2)] show ?thesis
    using assms(3) r by (simp add: ll_read_def)
qed

lemma ll_write_stream:
  assumes "stream_writes os sent" and "bs \<noteq> []"
  shows "\<exists>c'. ll_write os bs c = (Inr (), c') \<and> sent (ll_os c') = sent (ll_os c) @ bs"
proof -
  obtain nw o' where w: "os_write os (ll_os c) (m_fdw c) bs = (nw, o')" by fastforce
  have "nw = int (length bs)" "sent o' = sent (ll_os c) @ bs"
    using assms w unfolding stream_writes_def by (metis fst_conv, metis snd_conv)
  then show ?thesis using w assms(2) by (auto simp: ll_write_def Let_def)
qed

text \<open>Fuel beyond the number of bytes the peer still sends is enough for the drain loop.\<close>

lemma net_drain_total:
  assumes "stream_reads os pend"
  shows "length (pend (ll_os c)) < fuel \<Longrightarrow>
    \<exists>c'. net_drain os fuel c = (Inr (), c') \<and> pend (ll_os c') = []"
proof (induction fuel arbitrary: c)
  case (Suc f)
  obtain bs o' where r: "os_read os (ll_os c) (m_fdr c) 256 = (bs, o')" by fastforce
  note p = stream_readsD [OF assms r, simplified]
  show ?case
  proof (cases "bs = []")
    case True
    with p(3) have "pend (ll_os c) = []" by blast
    with p(1) have "pend o' = []" by simp
    then show ?thesis using True r by simp
  next
    case False
    then have "length (pend (ll_os (c\<lparr>ll_os := o'\<rparr>))) < f" using Suc.prems p(1) by (cases bs) auto
    from Suc.IH [OF this] show ?thesis using False r by simp
  qed
qed simp

text \<open>C38: closing a network connection always comes back: with any stream whose peer sends
  finitely many more bytes, \<open>NETCOMMS::close\<close> reads them all and closes the socket.\<close>

theorem net_close_returns:
  assumes "stream_reads os pend"
    and "\<And>o1 fd. pend (os_shutdown os o1 fd) = pend o1"
    and "length (pend (ll_os c)) < fuel"
  shows "\<exists>c' o'. net_close os fuel c = (Inr (), c') \<and> ll_os c' = os_close os o' (m_fdw c) \<and> pend o' = []"
proof -
  let ?c = "c\<lparr>ll_os := os_shutdown os (ll_os c) (m_fdw c)\<rparr>"
  have fd: "m_fdw (snd (net_drain os f d)) = m_fdw d" for f d
    by (induction f arbitrary: d) (auto simp: Let_def split: prod.splits)
  obtain c' where "net_drain os fuel ?c = (Inr (), c')" "pend (ll_os c') = []"
    using net_drain_total [OF assms(1), of ?c fuel] assms(2,3) by auto
  then show ?thesis using fd [of fuel ?c] by (auto simp: net_close_def Let_def bindE_def modifyE_def)
qed

text \<open>A concrete stream: the bytes to come and the bytes sent, delivered whole.\<close>

definition list_os :: "(byte list \<times> byte list) os_ops" where
  "list_os = \<lparr>
     os_read = (\<lambda>(inp, out) fd n. (take n inp, (drop n inp, out))),
     os_write = (\<lambda>(inp, out) fd bs. (int (length bs), (inp, out @ bs))),
     os_poll = (\<lambda>(inp, out) fd ms. (inp \<noteq> [], (inp, out))),
     os_close = (\<lambda>s fd. s),
     os_shutdown = (\<lambda>s fd. s),
     os_open = (\<lambda>s name. (3, s))\<rparr>"

lemma list_os_reads: "stream_reads list_os fst"
  by (auto simp: stream_reads_def list_os_def)

lemma list_os_writes: "stream_writes list_os snd"
  by (auto simp: stream_writes_def list_os_def)

lemma list_os_polls: "stream_polls list_os fst"
  by (auto simp: stream_polls_def list_os_def)

theorem net_close_returns_witness:
  "\<exists>c'. net_close list_os 3 (LLCOMMSI ([1, 2], [])) = (Inr (), c')"
proof -
  have "fst (os_shutdown list_os o1 fd) = fst o1" for o1 fd by (simp add: list_os_def)
  then show ?thesis
    using net_close_returns [of list_os fst "LLCOMMSI ([1, 2], [])" 3] list_os_reads
    by (auto simp: LLCOMMSI_def)
qed

end
