(* ===== verification/TtyBus.thy ===== *)
theory TtyBus
  imports TtyCodec LLComms
begin

text \<open>
  The host's end of the debugging bus, class \<open>TTYBUS\<close> of \<open>src/sw/host/ttybus.cpp\<close> and
  \<open>ttybus.h\<close>: commands are encoded into the character buffer \<open>m_buf\<close>, sent over the
  transport of theory \<open>LLComms\<close>, and the answers decoded against the compression
  tables. The record has the members of the class that the code uses (\<open>m_rdfirst\<close>,
  \<open>m_rdlast\<close> and \<open>m_rdbuf\<close> are only initialised there). \<open>m_buf\<close> is the array the
  pointer of that name points to, the null pointer being the empty list; a pointer into
  it is an offset. Loops that wait for the device take fuel.
\<close>

record 'o ttybus =
  m_dev :: "'o llcomms"
  m_total_nread :: u64
  m_interrupt_flag :: bool
  m_decode_err :: bool
  m_addr_set :: bool
  m_bus_err :: bool
  m_lastaddr :: busw
  m_buflen :: int
  m_buf :: "byte list"
  m_wrloaded :: bool
  m_rdaddr :: int
  m_wraddr :: int
  m_readtbl :: "busw list"
  m_writetbl :: "busw list"

definition MAXRDLEN :: int where "MAXRDLEN = 1024"
definition MAXWRLEN :: nat where "MAXWRLEN = 32"

subsection \<open>Buffer and construction\<close>

definition bufalloc :: "int \<Rightarrow> 'o ttybus \<Rightarrow> 'o ttybus" where
  "bufalloc len s =
     (if m_buf s \<noteq> [] \<and> m_buflen s \<ge> len then s
      else let n = (len AND (-0x3f)) + 0x40
           in s\<lparr>m_buflen := n, m_buf := replicate (nat n) 0\<rparr>)"

text \<open>
  The constructor and \<open>init\<close>. The two tables and the last address are not initialised by
  the code, so their first contents are arguments.
\<close>

definition ttybus_init :: "'o llcomms \<Rightarrow> busw \<Rightarrow> busw list \<Rightarrow> busw list \<Rightarrow> 'o ttybus" where
  "ttybus_init dev last0 rdtbl0 wrtbl0 =
     bufalloc 64
       \<lparr>m_dev = dev, m_total_nread = 0, m_interrupt_flag = False, m_decode_err = False,
        m_addr_set = False, m_bus_err = False, m_lastaddr = last0, m_buflen = 0, m_buf = [],
        m_wrloaded = False, m_rdaddr = 0, m_wraddr = 0,
        m_readtbl = rdtbl0, m_writetbl = wrtbl0\<rparr>"

text \<open>Storing at an offset of \<open>m_buf\<close>, and \<open>*ptr++ = charenc(c)\<close> for a list of codes.\<close>

definition putbuf :: "nat \<Rightarrow> byte list \<Rightarrow> ('o ttybus, unit) call" where
  "putbuf off bs s = (case store_at off bs (m_buf s) of
      Inl e \<Rightarrow> (Inl e, s) | Inr b \<Rightarrow> (Inr (), s\<lparr>m_buf := b\<rparr>))"

definition emit :: "nat \<Rightarrow> int list \<Rightarrow> ('o ttybus, nat) call" where
  "emit ptr codes =
     bindE (liftE (mapS charenc codes)) (\<lambda>bs.
     bindE (putbuf ptr bs) (\<lambda>_. returnE (ptr + length bs)))"

text \<open>Calls on the transport.\<close>

definition on_dev :: "('o llcomms, 'a) call \<Rightarrow> ('o ttybus, 'a) call" where
  "on_dev m s = (case m (m_dev s) of (r, d) \<Rightarrow> (r, s\<lparr>m_dev := d\<rparr>))"

definition dev_write :: "'o os_ops \<Rightarrow> nat \<Rightarrow> ('o ttybus, unit) call" where
  "dev_write os n s = on_dev (ll_write os (take n (m_buf s))) s"

definition dev_available :: "'o os_ops \<Rightarrow> ('o ttybus, bool) call" where
  "dev_available os = on_dev (\<lambda>c. let (r, c) = ll_available os c in (Inr (r \<noteq> 0), c))"

subsection \<open>Receiving characters\<close>

text \<open>
  The loop of \<open>lclreadcode\<close> over the \<open>nr\<close> characters just read: \<open>buf\<close> is the array from
  the first of them on, \<open>sp\<close> and \<open>dp\<close> the offsets of the two pointers.
\<close>

fun lcl_loop :: "nat \<Rightarrow> byte list \<Rightarrow> nat \<Rightarrow> nat \<Rightarrow> int \<Rightarrow> byte list \<times> int" where
  "lcl_loop 0 buf sp dp ret = (buf, ret)"
| "lcl_loop (Suc k) buf sp dp ret =
     (if chardec (buf ! sp) AND NOT 0x3f \<noteq> 0
      then lcl_loop k buf (Suc sp) dp (ret - 1)
      else lcl_loop k (buf[sp := buf ! dp]) (Suc sp) (Suc dp) ret)"

definition lclreadcode :: "'o os_ops \<Rightarrow> nat \<Rightarrow> nat \<Rightarrow> ('o ttybus, int) call" where
  "lclreadcode os off len =
     bindE (on_dev (ll_read os len)) (\<lambda>bs.
     bindE (modifyE (\<lambda>s. s\<lparr>m_total_nread := m_total_nread s + of_nat (length bs)\<rparr>)) (\<lambda>_.
     (let (buf, ret) = lcl_loop (length bs) bs 0 0 (int (length bs))
      in bindE (putbuf off buf) (\<lambda>_. returnE ret))))"

text \<open>\<open>do { nr += lclreadcode(&m_buf[nr], k-nr); } while (nr < k);\<close>\<close>

fun fill_code :: "nat \<Rightarrow> 'o os_ops \<Rightarrow> int \<Rightarrow> int \<Rightarrow> ('o ttybus, int) call" where
  "fill_code 0 os k nr = throwE OutOfFuel"
| "fill_code (Suc f) os k nr =
     bindE (lclreadcode os (nat nr) (nat (k - nr))) (\<lambda>r.
       let nr = nr + r in if nr < k then fill_code f os k nr else returnE nr)"

text \<open>\<open>do { nr = lclreadcode(&m_buf[0], 1); } while (nr < 1);\<close>\<close>

fun wait_code :: "nat \<Rightarrow> 'o os_ops \<Rightarrow> ('o ttybus, int) call" where
  "wait_code 0 os = throwE OutOfFuel"
| "wait_code (Suc f) os =
     bindE (lclreadcode os 0 1) (\<lambda>nr. if nr < 1 then wait_code f os else returnE nr)"

text \<open>The code of \<open>m_buf[i]\<close>, and the value of the characters from \<open>m_buf[i]\<close> on.\<close>

definition bufdec :: "'o ttybus \<Rightarrow> nat \<Rightarrow> busw" where
  "bufdec s i = chardec (m_buf s ! i)"

fun accum :: "'o ttybus \<Rightarrow> busw \<Rightarrow> nat list \<Rightarrow> busw" where
  "accum s val [] = val"
| "accum s val (i # is) = accum s (push_bit 6 val OR (bufdec s i AND 0x03f)) is"

text \<open>The compressed address of \<open>nw\<close> characters, in both \<open>readword\<close> and \<open>readidle\<close>.\<close>

definition short_addr :: "'o ttybus \<Rightarrow> int \<Rightarrow> busw" where
  "short_addr s nw =
     (if nw = 2 then bufdec s 1
      else if nw = 3 then accum s (bufdec s 1) [2]
      else if nw = 4 then accum s (bufdec s 1) [2, 3]
      else accum s (bufdec s 1) [2, 3, 4])"

definition step_addr :: "busw \<Rightarrow> 'o ttybus \<Rightarrow> 'o ttybus" where
  "step_addr sixbits s =
     s\<lparr>m_lastaddr := m_lastaddr s + (if sixbits AND 1 \<noteq> 0 then 4 else 0)\<rparr>"

definition tbl_at :: "'o ttybus \<Rightarrow> int \<Rightarrow> busw" where
  "tbl_at s rdaddr = m_readtbl s ! nat (rdaddr AND 0x03ff)"

subsection \<open>readword\<close>

text \<open>
  The first loop of \<open>readword\<close>: skip idle codes, take in addresses and notifications, until
  a data code arrives. It leaves that code and the variable \<open>val\<close>, which still holds the
  last address received.
\<close>

fun rw_start :: "nat \<Rightarrow> 'o os_ops \<Rightarrow> busw \<Rightarrow> ('o ttybus, busw \<times> busw) call" where
  "rw_start 0 os val = throwE OutOfFuel"
| "rw_start (Suc f) os val =
     bindE (wait_code f os) (\<lambda>nr.
     bindE (getsE (\<lambda>s. bufdec s 0)) (\<lambda>sixbits.
       if sixbits AND NOT 0x03f \<noteq> 0 then rw_start f os val
       else if sixbits < 6 then
         (if sixbits = 3 \<or> sixbits = 5
          then bindE (modifyE (\<lambda>s. s\<lparr>m_bus_err := True\<rparr>)) (\<lambda>_. throwE (BUSERR 0))
          else if sixbits = 4
          then bindE (modifyE (\<lambda>s. s\<lparr>m_interrupt_flag := True\<rparr>)) (\<lambda>_. rw_start f os val)
          else rw_start f os val)
       else if 0x08 = sixbits AND 0x3c then
         bindE (fill_code f os 6 nr) (\<lambda>_.
         bindE (getsE (\<lambda>s. accum s (bufdec s 0 AND 0x03) [1, 2, 3, 4, 5])) (\<lambda>val.
         bindE (modifyE (\<lambda>s. s\<lparr>m_addr_set := True, m_lastaddr := push_bit 2 val\<rparr>)) (\<lambda>_.
           rw_start f os val)))
       else if 0x0c = sixbits AND 0x3c then
         (let nw = uint (sixbits AND 0x03) + 2 in
          bindE (fill_code f os nw nr) (\<lambda>_.
          bindE (getsE (\<lambda>s. short_addr s nw)) (\<lambda>val.
          bindE (modifyE (\<lambda>s. s\<lparr>m_addr_set := True, m_lastaddr := push_bit 2 val\<rparr>)) (\<lambda>_.
            rw_start f os val))))
       else returnE (sixbits, val)))"

text \<open>The data code itself, shared with the end of \<open>readidle\<close>; \<open>nr\<close> is 1 here.\<close>

definition rw_data :: "nat \<Rightarrow> 'o os_ops \<Rightarrow> busw \<Rightarrow> busw \<Rightarrow> ('o ttybus, busw) call" where
  "rw_data fuel os sixbits val =
     (if 0x06 = sixbits AND 0x03e then
        bindE (getsE (\<lambda>s. tbl_at s (m_rdaddr s - 1))) (\<lambda>val.
        bindE (modifyE (step_addr sixbits)) (\<lambda>_. returnE val))
      else if 0x10 = sixbits AND 0x030 then
        bindE (fill_code fuel os 2 1) (\<lambda>_.
        bindE (getsE (\<lambda>s.
          let idx = uint (drop_bit 1 (bufdec s 0) AND 0x07);
              idx = (push_bit 6 idx OR uint (bufdec s 1 AND 0x03f)) + 2 + 8
          in tbl_at s (m_rdaddr s - idx))) (\<lambda>val.
        bindE (modifyE (step_addr sixbits)) (\<lambda>_. returnE val)))
      else if 0x20 = sixbits AND 0x030 then
        bindE (getsE (\<lambda>s. tbl_at s (m_rdaddr s - (uint (drop_bit 1 sixbits AND 0x07) + 2)))) (\<lambda>val.
        bindE (modifyE (step_addr sixbits)) (\<lambda>_. returnE val))
      else if 0x38 = sixbits AND 0x038 then
        bindE (fill_code fuel os 6 1) (\<lambda>_.
        bindE (getsE (\<lambda>s. accum s (drop_bit 1 (bufdec s 0) AND 0x03) [1, 2, 3, 4, 5])) (\<lambda>val.
        bindE (modifyE (\<lambda>s. s\<lparr>m_readtbl := (m_readtbl s)[nat (m_rdaddr s) := val],
                              m_rdaddr := (m_rdaddr s + 1) AND 0x03ff\<rparr>)) (\<lambda>_.
        bindE (modifyE (step_addr sixbits)) (\<lambda>_. returnE val))))
      else returnE val)"

definition readword :: "nat \<Rightarrow> 'o os_ops \<Rightarrow> ('o ttybus, busw) call" where
  "readword fuel os =
     bindE (rw_start fuel os 0) (\<lambda>(sixbits, val). rw_data fuel os sixbits val)"

subsection \<open>readidle\<close>

text \<open>
  The loop reads a character in its condition and a second one in its body, and looks at
  the second only. It leaves \<open>Some\<close> code when a data code was found.
\<close>

fun ri_loop :: "nat \<Rightarrow> 'o os_ops \<Rightarrow> ('o ttybus, busw option) call" where
  "ri_loop 0 os = throwE OutOfFuel"
| "ri_loop (Suc f) os =
     bindE (dev_available os) (\<lambda>av.
     if \<not> av then returnE None else
     bindE (lclreadcode os 0 1) (\<lambda>nr0.
     if \<not> nr0 > 0 then returnE None else
     bindE (lclreadcode os 0 1) (\<lambda>nr.
     bindE (getsE (\<lambda>s. bufdec s 0)) (\<lambda>sixbits.
       if sixbits AND NOT 0x03f \<noteq> 0 then ri_loop f os
       else if sixbits < 6 then
         (if sixbits = 3 \<or> sixbits = 5
          then bindE (modifyE (\<lambda>s. s\<lparr>m_bus_err := True\<rparr>)) (\<lambda>_. throwE (BUSERR 0))
          else if sixbits = 4
          then bindE (modifyE (\<lambda>s. s\<lparr>m_interrupt_flag := True\<rparr>)) (\<lambda>_. ri_loop f os)
          else ri_loop f os)
       else if 0x08 = sixbits AND 0x3c then
         bindE (fill_code f os 6 nr) (\<lambda>_. ri_loop f os)
       else if 0x0c = sixbits AND 0x3c then
         bindE (fill_code f os (uint (sixbits AND 0x03) + 2) nr) (\<lambda>_. ri_loop f os)
       else returnE (Some sixbits)))))"

definition readidle :: "nat \<Rightarrow> 'o os_ops \<Rightarrow> ('o ttybus, unit) call" where
  "readidle fuel os =
     bindE (ri_loop fuel os) (\<lambda>r. case r of
        None \<Rightarrow> returnE ()
      | Some sixbits \<Rightarrow> bindE (rw_data fuel os sixbits 0) (\<lambda>_. returnE ()))"

subsection \<open>Addresses\<close>

definition encode_diff :: "int \<Rightarrow> ('o ttybus, nat) call" where
  "encode_diff diffaddr =
     (if diffaddr \<ge> -32 \<and> diffaddr < 32 then
        emit 0 [0x09, diffaddr AND 0x03f]
      else if diffaddr \<ge> -2048 \<and> diffaddr < 2048 then
        emit 0 [0x0b, drop_bit 6 diffaddr AND 0x03f, diffaddr AND 0x03f]
      else if diffaddr \<ge> -(2 ^ 17) \<and> diffaddr < 2 ^ 17 then
        emit 0 [0x0d, drop_bit 12 diffaddr AND 0x03f, drop_bit 6 diffaddr AND 0x03f,
                diffaddr AND 0x03f]
      else if diffaddr \<ge> -(2 ^ 23) \<and> diffaddr < 2 ^ 23 then
        emit 0 [0x0f, drop_bit 18 diffaddr AND 0x03f, drop_bit 12 diffaddr AND 0x03f,
                drop_bit 6 diffaddr AND 0x03f, diffaddr AND 0x03f]
      else returnE 0)"

definition encode_abs :: "busw \<Rightarrow> nat \<Rightarrow> ('o ttybus, nat) call" where
  "encode_abs addr ptr =
     (if addr \<le> 0x03f \<and> (ptr = 0 \<or> ptr \<ge> 2) then
        emit 0 [0x08, uint addr]
      else if addr \<le> 0x0fff \<and> (ptr = 0 \<or> ptr \<ge> 3) then
        emit 0 [0x0a, sixbits_at 6 addr, sixbits_at 0 addr]
      else if addr \<le> 0x03ffff \<and> (ptr = 0 \<or> ptr \<ge> 4) then
        emit 0 [0x0c, sixbits_at 12 addr, sixbits_at 6 addr, sixbits_at 0 addr]
      else if addr \<le> 0x0ffffff \<and> (ptr = 0 \<or> ptr \<ge> 5) then
        emit 0 [0x0e, sixbits_at 18 addr, sixbits_at 12 addr, sixbits_at 6 addr,
                sixbits_at 0 addr]
      else if ptr = 0 then
        bindE (liftE (encode 0 addr)) (\<lambda>bs. bindE (putbuf 0 bs) (\<lambda>_. returnE 6))
      else returnE ptr)"

text \<open>
  The difference of two \<open>unsigned\<close> addresses is shifted before it becomes an \<open>int\<close>, so
  \<open>diffaddr\<close> is never negative.
\<close>

definition encode_address :: "busw \<Rightarrow> ('o ttybus, nat) call" where
  "encode_address a s =
     (let addr = drop_bit 2 a in
      if a AND 3 \<noteq> 0 then (Inl (BUSERR a), s)
      else if m_addr_set s \<and> a = m_lastaddr s then (Inr 0, s)
      else bindE (if m_addr_set s
                  then bindE (encode_diff (uint (drop_bit 2 (a - m_lastaddr s)))) (\<lambda>ptr.
                       bindE (putbuf ptr [0]) (\<lambda>_. returnE ptr))
                  else returnE 0) (\<lambda>ptr.
           bindE (encode_abs addr ptr) (\<lambda>ptr.
           bindE (putbuf ptr [0]) (\<lambda>_.
           bindE (modifyE (\<lambda>s. s\<lparr>m_rdaddr := 0\<rparr>)) (\<lambda>_. returnE ptr)))) s)"

subsection \<open>Writing\<close>

text \<open>The search of the write table for a value, over the loop indices \<open>i = 1, ..., 255\<close>.\<close>

fun find_caddr :: "int \<Rightarrow> bool \<Rightarrow> busw list \<Rightarrow> busw \<Rightarrow> int list \<Rightarrow> int" where
  "find_caddr wraddr wrloaded tbl val [] = 0"
| "find_caddr wraddr wrloaded tbl val (i # is) =
     (let tstaddr = (wraddr - i) AND 0x0ff in
      if \<not> wrloaded \<and> tstaddr > wraddr then 0
      else if tbl ! nat tstaddr = val then (wraddr - tstaddr) AND 0x0ff
      else find_caddr wraddr wrloaded tbl val is)"

definition write_word :: "bool \<Rightarrow> busw \<Rightarrow> nat \<Rightarrow> ('o ttybus, nat) call" where
  "write_word p val ptr =
     bindE (getsE (\<lambda>s. find_caddr (m_wraddr s) (m_wrloaded s) (m_writetbl s) val [1..255])) (\<lambda>caddr.
     bindE (if caddr \<noteq> 0 then
        emit ptr [push_bit 1 (drop_bit 6 caddr AND 0x03) + (if p then 1 else 0) + 0x010,
                  caddr AND 0x3f]
      else
        bindE (emit ptr [push_bit 1 (uint (drop_bit 30 val AND 0x03)) + (if p then 1 else 0) + 0x018,
                  sixbits_at 24 val, sixbits_at 18 val, sixbits_at 12 val,
                  sixbits_at 6 val, sixbits_at 0 val]) (\<lambda>ptr.
        bindE (modifyE (\<lambda>s.
          let wa = (m_wraddr s + 1) AND 0x0ff
          in s\<lparr>m_writetbl := (m_writetbl s)[nat (m_wraddr s) := val], m_wraddr := wa,
               m_wrloaded := (if wa = 0 then True else m_wrloaded s)\<rparr>)) (\<lambda>_.
        returnE ptr))) (\<lambda>ptr.
     bindE (modifyE (\<lambda>s. if p then s\<lparr>m_lastaddr := m_lastaddr s + 4\<rparr> else s)) (\<lambda>_.
     returnE ptr)))"

fun write_words :: "bool \<Rightarrow> busw list \<Rightarrow> nat \<Rightarrow> ('o ttybus, nat) call" where
  "write_words p [] ptr = returnE ptr"
| "write_words p (v # vs) ptr = bindE (write_word p v ptr) (\<lambda>ptr. write_words p vs ptr)"

text \<open>The loop \<open>while (nw < len)\<close> of \<open>writev\<close>, over the words still to write.\<close>

function write_chunks :: "nat \<Rightarrow> 'o os_ops \<Rightarrow> bool \<Rightarrow> busw list \<Rightarrow> nat \<Rightarrow> ('o ttybus, unit) call" where
  "write_chunks fuel os p vals ptr =
     (if vals = [] then returnE () else
      let ln = (if length vals > MAXWRLEN then MAXWRLEN else length vals) in
      bindE (write_words p (take ln vals) ptr) (\<lambda>ptr.
      bindE (if ln = length vals
             then bindE (putbuf ptr [newline]) (\<lambda>_. returnE (ptr + 1))
             else returnE ptr) (\<lambda>ptr.
      bindE (putbuf ptr [0]) (\<lambda>_.
      bindE (dev_write os ptr) (\<lambda>_.
      bindE (readidle fuel os) (\<lambda>_.
        write_chunks fuel os p (drop ln vals) 0))))))"
  by pat_completeness auto
termination
  by (relation "measure (\<lambda>(fuel, os, p, vals, ptr). length vals)") (auto simp: MAXWRLEN_def)

declare write_chunks.simps [simp del]

definition writev :: "nat \<Rightarrow> 'o os_ops \<Rightarrow> busw \<Rightarrow> bool \<Rightarrow> busw list \<Rightarrow> ('o ttybus, unit) call" where
  "writev fuel os a p buf =
     bindE (modifyE (bufalloc (int (length buf + 2) * 6))) (\<lambda>_.
     bindE (encode_address a) (\<lambda>ptr.
     bindE (modifyE (\<lambda>s. s\<lparr>m_lastaddr := a, m_addr_set := True\<rparr>)) (\<lambda>_.
     bindE (write_chunks fuel os p buf ptr) (\<lambda>_.
     readidle fuel os))))"

definition writeio :: "nat \<Rightarrow> 'o os_ops \<Rightarrow> busw \<Rightarrow> busw \<Rightarrow> ('o ttybus, unit) call" where
  "writeio fuel os a v =
     bindE (writev fuel os a False [v]) (\<lambda>_.
     modifyE (\<lambda>s. s\<lparr>m_lastaddr := a, m_addr_set := True\<rparr>))"

definition writez :: "nat \<Rightarrow> 'o os_ops \<Rightarrow> busw \<Rightarrow> busw list \<Rightarrow> ('o ttybus, unit) call" where
  "writez fuel os a buf = writev fuel os a False buf"

definition writei :: "nat \<Rightarrow> 'o os_ops \<Rightarrow> busw \<Rightarrow> busw list \<Rightarrow> ('o ttybus, unit) call" where
  "writei fuel os a buf = writev fuel os a True buf"

subsection \<open>Reading\<close>

definition READAHEAD :: int where "READAHEAD = MAXRDLEN div 2"
definition READBLOCK :: int where
  "READBLOCK = (if MAXRDLEN div 2 > 512 then 512 else MAXRDLEN div 2)"

text \<open>
  The inner \<open>do ... while\<close> of \<open>readv\<close> that issues read commands ahead of the answers. It
  leaves the write pointer and the number of words asked for.
\<close>

fun rv_issue :: "nat \<Rightarrow> bool \<Rightarrow> int \<Rightarrow> int \<Rightarrow> int \<Rightarrow> nat \<Rightarrow> ('o ttybus, nat \<times> int) call" where
  "rv_issue 0 inc len cmdrd nread ptr = throwE OutOfFuel"
| "rv_issue (Suc f) inc len cmdrd nread ptr =
     (let nrd = len - cmdrd;
          nrd = (if nrd > READBLOCK then READBLOCK else nrd);
          nrd = (if cmdrd - nread + nrd > READAHEAD + READBLOCK
                 then READAHEAD + READBLOCK - (cmdrd - nread) else nrd)
      in bindE (liftE (readcmd inc nrd)) (\<lambda>bs.
         bindE (putbuf ptr bs) (\<lambda>_.
           let ptr = ptr + length bs; cmdrd = cmdrd + nrd
           in if cmdrd - nread < READAHEAD + READBLOCK \<and> cmdrd < len
              then rv_issue f inc len cmdrd nread ptr
              else returnE (ptr, cmdrd))))"

text \<open>
  \<open>buf[nread++] = readword()\<close> repeated \<open>k\<close> times onto the words read so far. The handler
  of the enclosing \<open>try\<close> is folded in here, because only \<open>readword\<close> throws a
  \<open>BUSERR\<close> inside it: it reports the address of the word that failed. The right side of
  the assignment is evaluated first, so \<open>nread\<close> does not count the failing word.
\<close>

definition readword_at :: "nat \<Rightarrow> 'o os_ops \<Rightarrow> busw \<Rightarrow> bool \<Rightarrow> nat \<Rightarrow> ('o ttybus, busw) call" where
  "readword_at fuel os a inc nread s =
     (case readword fuel os s of
        (Inl (BUSERR b), s') \<Rightarrow> (Inl (BUSERR (a + (if inc then push_bit 2 (of_nat nread) else 0))), s')
      | r \<Rightarrow> r)"

fun rv_words :: "nat \<Rightarrow> 'o os_ops \<Rightarrow> busw \<Rightarrow> bool \<Rightarrow> nat \<Rightarrow> busw list \<Rightarrow> ('o ttybus, busw list) call" where
  "rv_words fuel os a inc 0 acc = returnE acc"
| "rv_words fuel os a inc (Suc k) acc =
     bindE (readword_at fuel os a inc (length acc)) (\<lambda>v. rv_words fuel os a inc k (acc @ [v]))"

fun rv_loop :: "nat \<Rightarrow> nat \<Rightarrow> 'o os_ops \<Rightarrow> busw \<Rightarrow> bool \<Rightarrow> int \<Rightarrow> int \<Rightarrow> busw list \<Rightarrow> nat \<Rightarrow> ('o ttybus, busw list) call" where
  "rv_loop 0 fuel os a inc len cmdrd acc ptr = throwE OutOfFuel"
| "rv_loop (Suc f) fuel os a inc len cmdrd acc ptr =
     (if cmdrd < len then
        bindE (rv_issue (Suc f) inc len cmdrd (int (length acc)) ptr) (\<lambda>(ptr, cmdrd).
        bindE (putbuf ptr [newline, 0]) (\<lambda>_.
        bindE (dev_write os (ptr + 1)) (\<lambda>_.
        bindE (rv_words fuel os a inc (nat (cmdrd - READAHEAD - int (length acc))) acc) (\<lambda>acc.
          rv_loop f fuel os a inc len cmdrd acc 0))))
      else rv_words fuel os a inc (nat (len - int (length acc))) acc)"

text \<open>
  The words read are the result. After them the address the device reported must be the one
  expected; the assertion in that branch compares with \<open>(a + inc) ? (len<<2) : 0\<close>, as the
  precedence of \<open>?:\<close> has it.
\<close>

definition readv :: "nat \<Rightarrow> 'o os_ops \<Rightarrow> busw \<Rightarrow> bool \<Rightarrow> int \<Rightarrow> ('o ttybus, busw list) call" where
  "readv fuel os a inc len =
     (if len \<le> 0 then returnE []
      else bindE (encode_address a) (\<lambda>ptr.
           bindE (rv_loop (nat len + 1) fuel os a inc len 0 [] ptr) (\<lambda>ws.
           bindE (getsE m_lastaddr) (\<lambda>last.
             if last \<noteq> a + (if inc then push_bit 2 (word_of_int len) else 0) then
               (if last = (if a + (if inc then 1 else 0) \<noteq> 0 then push_bit 2 (word_of_int len) else 0)
                then throwE (ExitWith (-3)) else throwE AssertFail)
             else returnE ws))))"

definition readi :: "nat \<Rightarrow> 'o os_ops \<Rightarrow> busw \<Rightarrow> int \<Rightarrow> ('o ttybus, busw list) call" where
  "readi fuel os a len = readv fuel os a True len"

definition readz :: "nat \<Rightarrow> 'o os_ops \<Rightarrow> busw \<Rightarrow> int \<Rightarrow> ('o ttybus, busw list) call" where
  "readz fuel os a len = readv fuel os a False len"

definition readio :: "nat \<Rightarrow> 'o os_ops \<Rightarrow> busw \<Rightarrow> ('o ttybus, busw) call" where
  "readio fuel os a s =
     (case readv fuel os a False 1 s of
        (Inl (BUSERR b), s) \<Rightarrow> (Inl (BUSERR a), s)
      | (Inl e, s) \<Rightarrow> (Inl e, s)
      | (Inr ws, s) \<Rightarrow>
          if m_lastaddr s \<noteq> a then (Inl (ExitWith (-3)), s\<lparr>m_addr_set := False\<rparr>)
          else (Inr (ws ! 0), s))"

subsection \<open>Interrupts and the remaining interface\<close>

fun scan_int :: "byte list \<Rightarrow> bool \<Rightarrow> bool" where
  "scan_int [] fl = fl"
| "scan_int (b # bs) fl = scan_int bs (if b = TTYC_INT then True else fl)"

definition tty_usleep :: "'o os_ops \<Rightarrow> busw \<Rightarrow> ('o ttybus, unit) call" where
  "tty_usleep os ms =
     bindE (on_dev (\<lambda>c. let (r, c) = ll_poll os ms c in (Inr r, c))) (\<lambda>r.
     if \<not> r then returnE () else
     bindE (on_dev (ll_read os 16)) (\<lambda>bs.
     bindE (putbuf 0 bs) (\<lambda>_.
     if bs = [] then
       bindE (on_dev (\<lambda>c. (Inr (), ll_close os c))) (\<lambda>_. throwE (ExitWith (-1)))
     else modifyE (\<lambda>s. s\<lparr>m_interrupt_flag := scan_int bs (m_interrupt_flag s)\<rparr>))))"

fun tty_wait :: "nat \<Rightarrow> 'o os_ops \<Rightarrow> ('o ttybus, unit) call" where
  "tty_wait 0 os = throwE OutOfFuel"
| "tty_wait (Suc f) os =
     bindE (tty_usleep os 200) (\<lambda>_.
     bindE (getsE m_interrupt_flag) (\<lambda>i. if \<not> i then tty_wait f os else returnE ()))"

definition tty_close :: "'o os_ops \<Rightarrow> 'o ttybus \<Rightarrow> 'o ttybus" where
  "tty_close os s = s\<lparr>m_dev := ll_close os (m_dev s)\<rparr>"

definition tty_poll :: "'o ttybus \<Rightarrow> bool" where "tty_poll s = m_interrupt_flag s"
definition bus_err :: "'o ttybus \<Rightarrow> bool" where "bus_err s = m_bus_err s"
definition reset_err :: "'o ttybus \<Rightarrow> 'o ttybus" where "reset_err s = s\<lparr>m_bus_err := False\<rparr>"
definition tty_clear :: "'o ttybus \<Rightarrow> 'o ttybus" where
  "tty_clear s = s\<lparr>m_interrupt_flag := False\<rparr>"

end
