(* ===== verification/TtyHost.thy ===== *)
theory TtyHost
  imports TtyBus
begin

text \<open>
  What the member functions of \<open>TTYBUS\<close> put into the output buffer: the codes of an
  address command (\<open>encode_address\<close>) and of the words of a write (\<open>writev\<close>), as pure
  functions of the host's state, with the proof that the buffer holds exactly their
  characters and that no store leaves it.
\<close>

subsection \<open>What the host puts into its buffer\<close>

lemma putbuf_ok:
  "off + length bs \<le> length (m_buf s) \<Longrightarrow>
   putbuf off bs s = (Inr (), s\<lparr>m_buf := take off (m_buf s) @ bs @ drop (off + length bs) (m_buf s)\<rparr>)"
  by (simp add: putbuf_def store_at_def)

lemma emit_ok:
  assumes "\<forall>c \<in> set cs. c < 64" and "ptr + length cs \<le> length (m_buf s)"
  shows "emit ptr (map int cs) s = (Inr (ptr + length cs),
     s\<lparr>m_buf := take ptr (m_buf s) @ map sixchar cs @ drop (ptr + length cs) (m_buf s)\<rparr>)"
  using assms by (simp add: emit_def bindE_def liftE_def mapS_charenc putbuf_ok returnE_def)

text \<open>
  \<open>buf_after cs s s'\<close>: \<open>s'\<close> differs from \<open>s\<close> in the buffer only, whose length is kept and
  which now starts with the characters of the codes \<open>cs\<close>.
\<close>

definition buf_after :: "nat list \<Rightarrow> 'o ttybus \<Rightarrow> 'o ttybus \<Rightarrow> bool" where
  "buf_after cs s s' \<longleftrightarrow> (\<exists>b. s' = s\<lparr>m_buf := b\<rparr> \<and> length b = length (m_buf s) \<and>
     take (length cs) b = map sixchar cs)"

lemma emit_after:
  assumes "buf_after cs0 s s'" and "\<forall>c \<in> set cs. c < 64"
    and "length cs0 + length cs \<le> length (m_buf s)"
  shows "\<exists>s''. emit (length cs0) (map int cs) s' = (Inr (length (cs0 @ cs)), s'') \<and> buf_after (cs0 @ cs) s s''"
proof -
  from assms(1) obtain b where b: "s' = s\<lparr>m_buf := b\<rparr>" "length b = length (m_buf s)"
    "take (length cs0) b = map sixchar cs0" by (auto simp: buf_after_def)
  then show ?thesis using assms(2,3)
    by (auto simp: emit_ok buf_after_def)
qed

lemma emit0_after:
  assumes "buf_after cs0 s s'" and "\<forall>c \<in> set cs. c < 64" and "length cs \<le> length (m_buf s)"
  shows "\<exists>s''. emit 0 (map int cs) s' = (Inr (length cs), s'') \<and> buf_after cs s s''"
proof -
  from assms(1) obtain b where b: "s' = s\<lparr>m_buf := b\<rparr>" "length b = length (m_buf s)"
    by (auto simp: buf_after_def)
  then show ?thesis using assms(2,3) emit_ok [of cs 0 s']
    by (auto simp: buf_after_def)
qed

lemma buf_after_refl [simp]: "buf_after [] s s"
  by (auto simp: buf_after_def intro!: exI [of _ "m_buf s"])

lemma nul_after:
  assumes "buf_after cs s s'" and "length cs < length (m_buf s)"
  shows "\<exists>s''. putbuf (length cs) [x] s' = (Inr (), s'') \<and> buf_after cs s s''"
proof -
  from assms(1) obtain b where "s' = s\<lparr>m_buf := b\<rparr>" "length b = length (m_buf s)"
    "take (length cs) b = map sixchar cs" by (auto simp: buf_after_def)
  then show ?thesis using assms(2) putbuf_ok [of "length cs" "[x]" s']
    by (auto simp: buf_after_def)
qed

text \<open>The codes of an address command.\<close>

definition diff_codes :: "nat \<Rightarrow> nat list" where
  "diff_codes d =
     (if d < 32 then [9, d]
      else if d < 2048 then [11, d div 2 ^ 6 mod 64, d mod 64]
      else if d < 2 ^ 17 then [13, d div 2 ^ 12 mod 64, d div 2 ^ 6 mod 64, d mod 64]
      else if d < 2 ^ 23 then [15, d div 2 ^ 18 mod 64, d div 2 ^ 12 mod 64, d div 2 ^ 6 mod 64, d mod 64]
      else [])"

definition abs_codes :: "nat \<Rightarrow> nat list \<Rightarrow> nat list" where
  "abs_codes n ds =
     (if n \<le> 63 \<and> (ds = [] \<or> length ds \<ge> 2) then [8, n]
      else if n \<le> 4095 \<and> (ds = [] \<or> length ds \<ge> 3) then [10, n div 2 ^ 6 mod 64, n mod 64]
      else if n \<le> 2 ^ 18 - 1 \<and> (ds = [] \<or> length ds \<ge> 4)
      then [12, n div 2 ^ 12 mod 64, n div 2 ^ 6 mod 64, n mod 64]
      else if n \<le> 2 ^ 24 - 1 \<and> (ds = [] \<or> length ds \<ge> 5)
      then [14, n div 2 ^ 18 mod 64, n div 2 ^ 12 mod 64, n div 2 ^ 6 mod 64, n mod 64]
      else if ds = [] then digits6 (of_nat n)
      else ds)"

definition addr_codes :: "bool \<Rightarrow> busw \<Rightarrow> busw \<Rightarrow> nat list" where
  "addr_codes aset la a =
     (if aset \<and> a = la then []
      else abs_codes (unat a div 4) (if aset then diff_codes (unat (a - la) div 4) else []))"

lemma encode_diff_after:
  assumes "7 \<le> length (m_buf s)"
  shows "\<exists>s'. encode_diff (int d) s = (Inr (length (diff_codes d)), s') \<and> buf_after (diff_codes d) s s'"
proof -
  have e: "\<exists>s'. emit 0 (map int cs) s = (Inr (length cs), s') \<and> buf_after cs s s'"
    if "\<forall>c \<in> set cs. c < 64" "length cs \<le> 5" for cs
    using that assms emit0_after [of "[]" s s cs] by simp
  consider "d < 32" | "32 \<le> d" "d < 2048" | "2048 \<le> d" "d < 2 ^ 17" | "2 ^ 17 \<le> d" "d < 2 ^ 23" | "2 ^ 23 \<le> d"
    by linarith
  then show ?thesis
  proof cases
    case 1 then show ?thesis using e [of "diff_codes d"]
      by (simp add: encode_diff_def diff_codes_def and_mask_int)
  next
    case 2 then show ?thesis using e [of "diff_codes d"]
      by (simp add: encode_diff_def diff_codes_def and_mask_int)
  next
    case 3 then show ?thesis using e [of "diff_codes d"]
      by (simp add: encode_diff_def diff_codes_def and_mask_int)
  next
    case 4 then show ?thesis using e [of "diff_codes d"]
      by (simp add: encode_diff_def diff_codes_def and_mask_int)
  next
    case 5 then show ?thesis by (simp add: encode_diff_def diff_codes_def returnE_def)
  qed
qed

lemma encode_abs_after:
  assumes "7 \<le> length (m_buf s)" and "buf_after ds s s'" and "unat addr < 2 ^ 30"
  shows "\<exists>s''. encode_abs addr (length ds) s' = (Inr (length (abs_codes (unat addr) ds)), s'') \<and>
     buf_after (abs_codes (unat addr) ds) s s''"
proof -
  define n where "n = unat addr"
  have e: "\<exists>s''. emit 0 (map int cs) s' = (Inr (length cs), s'') \<and> buf_after cs s s''"
    if "\<forall>c \<in> set cs. c < 64" "length cs \<le> 6" for cs
    using that assms emit0_after [of ds s s' cs] by simp
  have w: "uint (drop_bit k addr AND 63) = int (n div 2 ^ k mod 64)" for k
    unfolding n_def by (rule sixbits_at_nat)
  have w0: "uint (addr AND 63) = int (n mod 64)" using w [of 0] by simp
  have un: "uint addr = int n" by (simp add: n_def)
  have le: "addr \<le> 63 \<longleftrightarrow> n \<le> 63" "addr \<le> 4095 \<longleftrightarrow> n \<le> 4095"
    "addr \<le> 0x3ffff \<longleftrightarrow> n \<le> 0x3ffff" "addr \<le> 0xffffff \<longleftrightarrow> n \<le> 0xffffff"
    by (simp_all add: word_le_nat_alt n_def)
  define c1 where "c1 \<longleftrightarrow> n \<le> 63 \<and> (ds = [] \<or> length ds \<ge> 2)"
  define c2 where "c2 \<longleftrightarrow> n \<le> 4095 \<and> (ds = [] \<or> length ds \<ge> 3)"
  define c3 where "c3 \<longleftrightarrow> n \<le> 0x3ffff \<and> (ds = [] \<or> length ds \<ge> 4)"
  define c4 where "c4 \<longleftrightarrow> n \<le> 0xffffff \<and> (ds = [] \<or> length ds \<ge> 5)"
  let ?k1 = "[8, n]" and ?k2 = "[10, n div 2 ^ 6 mod 64, n mod 64]"
  let ?k3 = "[12, n div 2 ^ 12 mod 64, n div 2 ^ 6 mod 64, n mod 64]"
  let ?k4 = "[14, n div 2 ^ 18 mod 64, n div 2 ^ 12 mod 64, n div 2 ^ 6 mod 64, n mod 64]"
  have ea: "encode_abs addr (length ds) s' =
      (if c1 then emit 0 (map int ?k1) s' else if c2 then emit 0 (map int ?k2) s'
       else if c3 then emit 0 (map int ?k3) s' else if c4 then emit 0 (map int ?k4) s'
       else if ds = []
       then bindE (liftE (encode 0 addr)) (\<lambda>bs. bindE (putbuf 0 bs) (\<lambda>_. returnE 6)) s'
       else returnE (length ds) s')"
    unfolding encode_abs_def le c1_def c2_def c3_def c4_def length_0_conv list.map drop_bit_0 id_apply w0 w un
    by (simp split del: if_split cong: if_cong add: if_distrib [of "\<lambda>f. f s'"])
  have ac: "abs_codes n ds =
      (if c1 then ?k1 else if c2 then ?k2 else if c3 then ?k3 else if c4 then ?k4
       else if ds = [] then digits6 addr else ds)"
    by (simp add: abs_codes_def c1_def c2_def c3_def c4_def n_def split del: if_split cong: if_cong)
  consider c1 | "\<not> c1" c2 | "\<not> c1" "\<not> c2" c3 | "\<not> c1" "\<not> c2" "\<not> c3" c4
    | "\<not> c1" "\<not> c2" "\<not> c3" "\<not> c4" by blast
  then have "\<exists>s''. encode_abs addr (length ds) s' = (Inr (length (abs_codes n ds)), s'') \<and>
     buf_after (abs_codes n ds) s s''"
  proof cases
    case 1 then show ?thesis using e [of ?k1] by (simp add: ea ac c1_def)
  next
    case 2 then show ?thesis using e [of ?k2] by (simp add: ea ac)
  next
    case 3 then show ?thesis using e [of ?k3] by (simp add: ea ac)
  next
    case 4 then show ?thesis using e [of ?k4] by (simp add: ea ac)
  next
    case 5
    have enc: "encode 0 addr = Inr (map sixchar (digits6 addr))"
      using encode_digits [of 0 addr] by (simp add: digits6_def Let_def)
    have len6: "length (digits6 addr) = 6" by (simp add: digits6_def Let_def)
    have d6: "\<forall>c \<in> set (digits6 addr). c < 64" by (simp add: digits6_def Let_def)
    have em: "emit 0 (map int (digits6 addr)) s' = bindE (putbuf 0 (map sixchar (digits6 addr))) (\<lambda>_. returnE 6) s'"
      using d6 len6 by (simp add: emit_def bindE_def liftE_def mapS_charenc)
    show ?thesis
    proof (cases "ds = []")
      case True
      with 5 have "encode_abs addr (length ds) s' = emit 0 (map int (digits6 addr)) s'"
        and "abs_codes n ds = digits6 addr"
        unfolding ea ac em enc by (simp_all add: bindE_def liftE_def)
      with e [OF d6] len6 show ?thesis by simp
    next
      case False with 5 assms(2) show ?thesis by (simp add: ea ac returnE_def)
    qed
  qed
  then show ?thesis by (simp only: n_def)
qed


definition addr_next :: "busw \<Rightarrow> 'o ttybus \<Rightarrow> 'o ttybus" where
  "addr_next a s = (if m_addr_set s \<and> a = m_lastaddr s then s else s\<lparr>m_rdaddr := 0\<rparr>)"

lemma buf_after_rdaddr:
  "buf_after cs s s' \<Longrightarrow> buf_after cs (s\<lparr>m_rdaddr := k\<rparr>) (s'\<lparr>m_rdaddr := k\<rparr>)"
  unfolding buf_after_def by (elim exE, rule_tac x = b in exI) simp

lemma addr_codes_bound: "length (addr_codes aset la a) \<le> 6"
  by (simp add: addr_codes_def abs_codes_def diff_codes_def digits6_def Let_def)

lemma encode_address_ok:
  assumes "a AND 3 = 0" and "7 \<le> length (m_buf s)"
  shows "\<exists>s'. encode_address a s = (Inr (length (addr_codes (m_addr_set s) (m_lastaddr s) a)), s') \<and>
    buf_after (addr_codes (m_addr_set s) (m_lastaddr s) a) (addr_next a s) s'"
proof (cases "m_addr_set s \<and> a = m_lastaddr s")
  case True
  then show ?thesis using assms(1) by (simp add: encode_address_def addr_codes_def addr_next_def Let_def)
next
  case False
  let ?d = "unat (a - m_lastaddr s) div 4"
  let ?ds = "if m_addr_set s then diff_codes ?d else []"
  let ?cs = "addr_codes (m_addr_set s) (m_lastaddr s) a"
  have cs: "?cs = abs_codes (unat (drop_bit 2 a)) ?ds"
    using False by (auto simp: addr_codes_def unat_drop_bit)
  have d: "uint (drop_bit 2 (a - m_lastaddr s)) = int ?d"
    by (simp only: uint_nat unat_drop_bit) simp
  have len: "length ?ds \<le> 5" by (simp add: diff_codes_def)
  obtain s1 where s1: "(if m_addr_set s
      then bindE (encode_diff (uint (drop_bit 2 (a - m_lastaddr s)))) (\<lambda>ptr.
           bindE (putbuf ptr [0]) (\<lambda>_. returnE ptr))
      else returnE 0) s = (Inr (length ?ds), s1)" "buf_after ?ds s s1"
  proof (cases "m_addr_set s")
    case True
    obtain s' where e: "encode_diff (int ?d) s = (Inr (length (diff_codes ?d)), s')" "buf_after (diff_codes ?d) s s'"
      using encode_diff_after [OF assms(2), of ?d] by blast
    moreover obtain s'' where "putbuf (length (diff_codes ?d)) [0] s' = (Inr (), s'')" "buf_after (diff_codes ?d) s s''"
      using nul_after [OF e(2)] assms(2) len True by fastforce
    ultimately show thesis using that True d by (simp add: bindE_def returnE_def)
  next
    case False then show thesis using that by (simp add: returnE_def)
  qed
  have "unat (drop_bit 2 a) < 2 ^ 30" using unat_lt32 [of a] by (simp add: unat_drop_bit)
  from encode_abs_after [OF assms(2) s1(2) this] obtain s2 where
    s2: "encode_abs (drop_bit 2 a) (length ?ds) s1 = (Inr (length ?cs), s2)" "buf_after ?cs s s2"
    by (auto simp: cs)
  obtain s3 where s3: "putbuf (length ?cs) [0] s2 = (Inr (), s3)" "buf_after ?cs s s3"
    using nul_after [OF s2(2)] assms(2) addr_codes_bound [of "m_addr_set s" "m_lastaddr s" a] by fastforce
  have "encode_address a s = (Inr (length ?cs), s3\<lparr>m_rdaddr := 0\<rparr>)"
    using False assms(1) s1(1) s2(1) s3(1)
    by (auto simp: encode_address_def Let_def bindE_Inr modifyE_def returnE_def)
  moreover have "buf_after ?cs (addr_next a s) (s3\<lparr>m_rdaddr := 0\<rparr>)"
    using buf_after_rdaddr [OF s3(2)] False by (auto simp: addr_next_def)
  ultimately show ?thesis by blast
qed

subsection \<open>The search of the write table\<close>

lemma find_caddr_cases:
  assumes "0 \<le> wa" "wa < 256" and "\<forall>i \<in> set is. 1 \<le> i \<and> i \<le> 255"
  shows "find_caddr wa ld tbl v is = 0 \<or>
    (1 \<le> find_caddr wa ld tbl v is \<and> find_caddr wa ld tbl v is \<le> 255 \<and>
     (ld \<or> find_caddr wa ld tbl v is \<le> wa) \<and>
     tbl ! nat ((wa - find_caddr wa ld tbl v is) mod 256) = v)"
  using assms(3)
proof (induction "is")
  case (Cons i "is")
  let ?t = "(wa - i) mod 256"
  have i: "1 \<le> i" "i \<le> 255" using Cons.prems by auto
  have t: "(wa - ?t) mod 256 = i" using i by (simp add: mod_simps)
  have gt: "?t > wa \<longleftrightarrow> \<not> i \<le> wa"
  proof (cases "i \<le> wa")
    case True
    then have "?t = wa - i" using assms i by (intro mod_pos_pos_trivial) auto
    then show ?thesis using True i by simp
  next
    case False
    then have "?t = wa - i + 256" 
      using mod_pos_pos_trivial [of "wa - i + 256" 256] assms i by simp
    then show ?thesis using False i by simp
  qed
  show ?case
    using Cons i t gt by (auto simp: int_and_ff Let_def)
qed simp

subsection \<open>The codes of a word\<close>

definition word_codes :: "bool \<Rightarrow> busw \<Rightarrow> 'o ttybus \<Rightarrow> nat list" where
  "word_codes p v s =
     (let c = nat (find_caddr (m_wraddr s) (m_wrloaded s) (m_writetbl s) v [1..255]);
          b = (if p then 1 else 0)
      in if c \<noteq> 0 then [16 + 2 * (c div 64) + b, c mod 64]
         else (24 + 2 * hd (digits6 v) + b) # tl (digits6 v))"

definition word_next :: "bool \<Rightarrow> busw \<Rightarrow> 'o ttybus \<Rightarrow> 'o ttybus" where
  "word_next p v s =
     (let s1 = (if find_caddr (m_wraddr s) (m_wrloaded s) (m_writetbl s) v [1..255] \<noteq> 0 then s
                else s\<lparr>m_writetbl := (m_writetbl s)[nat (m_wraddr s) := v],
                       m_wraddr := (m_wraddr s + 1) mod 256,
                       m_wrloaded := m_wrloaded s \<or> (m_wraddr s + 1) mod 256 = 0\<rparr>)
      in if p then s1\<lparr>m_lastaddr := m_lastaddr s1 + 4\<rparr> else s1)"

lemma word_codes_len: "length (word_codes p v s) \<le> 6" and word_codes_ne: "word_codes p v s \<noteq> []"
  by (simp_all add: word_codes_def Let_def digits6_def)

lemma find_caddr_range:
  assumes "0 \<le> wa" "wa < 256"
  obtains c where "find_caddr wa ld tbl v [1..255] = int c" "c = 0 \<or> 1 \<le> c \<and> c \<le> 255 \<and>
     (ld \<or> int c \<le> wa) \<and> tbl ! nat ((wa - int c) mod 256) = v"
proof -
  let ?c = "find_caddr wa ld tbl v [1..255]"
  have d: "?c = 0 \<or> (1 \<le> ?c \<and> ?c \<le> 255 \<and> (ld \<or> ?c \<le> wa) \<and> tbl ! nat ((wa - ?c) mod 256) = v)"
    using find_caddr_cases [OF assms, of "[1..255]" ld tbl v] by auto
  then have e: "?c = int (nat ?c)" by linarith
  from d have "nat ?c = 0 \<or> 1 \<le> nat ?c \<and> nat ?c \<le> 255 \<and>
     (ld \<or> int (nat ?c) \<le> wa) \<and> tbl ! nat ((wa - int (nat ?c)) mod 256) = v"
    by (elim disjE) (use e in auto)
  with e show thesis by (rule that)
qed

lemma word_codes_64:
  assumes "0 \<le> m_wraddr s" "m_wraddr s < 256"
  shows "\<forall>c \<in> set (word_codes p v s). c < 64"
proof -
  obtain c where c: "find_caddr (m_wraddr s) (m_wrloaded s) (m_writetbl s) v [1..255] = int c" "c \<le> 255"
    using find_caddr_range [OF assms] by (metis zero_le)
  then have "c div 64 < 4" by auto
  then show ?thesis using c(1) by (auto simp: word_codes_def Let_def digits6_def)
qed

lemma buf_after_emit_mono:
  "buf_after cs s s' \<Longrightarrow> (\<And>b. f (s\<lparr>m_buf := b\<rparr>) = (f s)\<lparr>m_buf := b\<rparr>) \<Longrightarrow> length (m_buf (f s)) = length (m_buf s) \<Longrightarrow>
   buf_after cs (f s) (f s')"
  by (auto simp: buf_after_def)

lemma caddr_codes:
  assumes "c \<le> 255"
  shows "push_bit 1 (drop_bit 6 (int c) AND 3) + (if p then 1 else 0) + 16 = int (16 + 2 * (c div 64) + (if p then 1 else 0))"
    "int c AND 63 = int (c mod 64)"
proof -
  have "drop_bit 6 (int c) AND 3 = int (c div 64) mod 4"
    using take_bit_eq_mask [of 2 "drop_bit 6 (int c)"]
    by (simp add: mask_eq_exp_minus_1 take_bit_eq_mod drop_bit_eq_div zdiv_int)
  also have "\<dots> = int (c div 64)" using assms by simp
  finally show "push_bit 1 (drop_bit 6 (int c) AND 3) + (if p then 1 else 0) + 16 = int (16 + 2 * (c div 64) + (if p then 1 else 0))"
    by (simp add: push_bit_eq_mult)
  show "int c AND 63 = int (c mod 64)" by (rule and_mask_int)
qed

lemma raw_codes:
  "[push_bit 1 (uint (drop_bit 30 v AND 0x03)) + (if p then 1 else 0) + 0x018,
    sixbits_at 24 v, sixbits_at 18 v, sixbits_at 12 v, sixbits_at 6 v, sixbits_at 0 v] =
   map int ((24 + 2 * hd (digits6 v) + (if p then 1 else 0)) # tl (digits6 v))"
proof -
  have hi: "uint (drop_bit 30 v AND 3) = int (unat v div 2 ^ 30 mod 4)"
    by (simp add: uint_nat unat_drop_bit del: unsigned_and_eq)
  show ?thesis unfolding hi sixbits_at_nat by (simp add: digits6_def Let_def push_bit_eq_mult)
qed

lemma write_word_ok:
  assumes b: "buf_after cs0 s s'" and "0 \<le> m_wraddr s" "m_wraddr s < 256" and "length cs0 + 6 \<le> length (m_buf s)"
  shows "\<exists>s''. write_word p v (length cs0) s' = (Inr (length (cs0 @ word_codes p v s)), s'') \<and>
     buf_after (cs0 @ word_codes p v s) (word_next p v s) s''"
proof -
  from b obtain bf where s': "s' = s\<lparr>m_buf := bf\<rparr>" by (auto simp: buf_after_def)
  obtain c where c: "find_caddr (m_wraddr s) (m_wrloaded s) (m_writetbl s) v [1..255] = int c" "c \<le> 255"
    using find_caddr_range [OF assms(2,3)] by (metis zero_le)
  obtain s1 where s1: "emit (length cs0) (map int (word_codes p v s)) s' = (Inr (length (cs0 @ word_codes p v s)), s1)"
    "buf_after (cs0 @ word_codes p v s) s s1"
    using emit_after [OF b word_codes_64 [OF assms(2,3)], of p v] assms(4) word_codes_len [of p v s] by auto
  then obtain b1 where b1: "s1 = s\<lparr>m_buf := b1\<rparr>" "length b1 = length (m_buf s)"
    "take (length (cs0 @ word_codes p v s)) b1 = map sixchar (cs0 @ word_codes p v s)" by (auto simp: buf_after_def)
  have fc: "find_caddr (m_wraddr s') (m_wrloaded s') (m_writetbl s') v [1..255] = int c"
    using c(1) by (simp add: s')
  have "write_word p v (length cs0) s' = (Inr (length (cs0 @ word_codes p v s)), (word_next p v s)\<lparr>m_buf := b1\<rparr>)"
  proof (cases "c = 0")
    case True
    then have wc: "word_codes p v s = (24 + 2 * hd (digits6 v) + (if p then 1 else 0)) # tl (digits6 v)"
      using c(1) by (simp add: word_codes_def Let_def)
    show ?thesis using s1(1) True
      unfolding write_word_def raw_codes wc [symmetric]
      by (auto simp: fc bindE_def getsE_def modifyE_def returnE_def b1(1) word_next_def c(1) int_and_ff Let_def)
  next
    case False
    then have wc: "word_codes p v s = [16 + 2 * (c div 64) + (if p then 1 else 0), c mod 64]"
      using c(1) by (simp add: word_codes_def Let_def)
    have e: "emit (length cs0) [push_bit 1 (drop_bit 6 (int c) AND 3) + (if p then 1 else 0) + 16, int c AND 63] s'
        = (Inr (length (cs0 @ word_codes p v s)), s1)"
      unfolding caddr_codes [OF c(2)] using s1(1) unfolding wc by simp
    show ?thesis using False e
      by (auto simp: write_word_def fc bindE_def getsE_def modifyE_def returnE_def b1(1) word_next_def c(1) Let_def)
  qed
  moreover have "buf_after (cs0 @ word_codes p v s) (word_next p v s) ((word_next p v s)\<lparr>m_buf := b1\<rparr>)"
    using b1 by (auto simp: buf_after_def word_next_def Let_def)
  ultimately show ?thesis by blast
qed

fun words_codes :: "bool \<Rightarrow> busw list \<Rightarrow> 'o ttybus \<Rightarrow> nat list" where
  "words_codes p [] s = []"
| "words_codes p (v # vs) s = word_codes p v s @ words_codes p vs (word_next p v s)"

definition words_next :: "bool \<Rightarrow> busw list \<Rightarrow> 'o ttybus \<Rightarrow> 'o ttybus" where
  "words_next p vs = fold (word_next p) vs"

lemma word_next_frame [simp]:
  "length (m_buf (word_next p v s)) = length (m_buf s)"
  "m_dev (word_next p v s) = m_dev s" "m_addr_set (word_next p v s) = m_addr_set s"
  "m_lastaddr (word_next p v s) = m_lastaddr s + (if p then 4 else 0)"
  by (simp_all add: word_next_def Let_def)

lemma word_next_wraddr:
  "0 \<le> m_wraddr s \<and> m_wraddr s < 256 \<Longrightarrow> 0 \<le> m_wraddr (word_next p v s) \<and> m_wraddr (word_next p v s) < 256"
  by (simp add: word_next_def Let_def)

lemma words_codes_len: "length (words_codes p vs s) \<le> 6 * length vs"
proof (induction vs arbitrary: s)
  case (Cons v vs)
  show ?case using word_codes_len [of p v s] Cons.IH [of "word_next p v s"] by simp
qed simp

lemma write_words_ok:
  assumes "buf_after cs0 s s'" and "0 \<le> m_wraddr s \<and> m_wraddr s < 256"
    and "length cs0 + 6 * length vs \<le> length (m_buf s)"
  shows "\<exists>s''. write_words p vs (length cs0) s' = (Inr (length (cs0 @ words_codes p vs s)), s'') \<and>
     buf_after (cs0 @ words_codes p vs s) (words_next p vs s) s''"
  using assms
proof (induction vs arbitrary: cs0 s s')
  case Nil then show ?case by (simp add: returnE_def words_next_def)
next
  case (Cons v vs)
  let ?cs = "cs0 @ word_codes p v s" and ?s = "word_next p v s"
  obtain s1 where s1: "write_word p v (length cs0) s' = (Inr (length ?cs), s1)" "buf_after ?cs ?s s1"
    using write_word_ok [OF Cons.prems(1)] Cons.prems(2,3) by fastforce
  have "length ?cs + 6 * length vs \<le> length (m_buf ?s)"
    using Cons.prems(3) word_codes_len [of p v s] by simp
  from Cons.IH [OF s1(2) word_next_wraddr [OF Cons.prems(2)] this] show ?case
    using s1(1) by (auto simp: bindE_Inr words_next_def)
qed

end
