(* ===== verification/WbuInput.thy ===== *)
theory WbuInput
  imports TtyCodec
begin

text \<open>
  The FPGA's end of the debugging bus, as far as the host's commands reach it: the
  character decoder \<open>wbutohex.v\<close>, the codeword assembler \<open>wbureadcw.v\<close>, the decompressor
  \<open>wbudecompress.v\<close> and the command executor \<open>wbuexec.v\<close>, all under \<open>src/rtl/wbubus\<close>.

  The model is at the level of transactions: one step per received character, one event
  per bus operation. Clock cycles, the pipeline registers between the modules and the
  stalls of the bus are left out; every bus operation is taken to be acknowledged without
  an error. A 36-bit codeword is the list of its six 6-bit digits, so that bits 35 to 30
  are the first digit.
\<close>

subsection \<open>Characters to six bits\<close>

definition wbutohex :: "byte \<Rightarrow> nat option" where
  "wbutohex i_byte =
     (if i_byte \<ge> 0x30 \<and> i_byte \<le> 0x39 then Some (unat i_byte mod 16)
      else if i_byte \<ge> 0x41 \<and> i_byte \<le> 0x5a then Some ((unat i_byte mod 64 + 64 - 1 + 10) mod 64)
      else if i_byte \<ge> 0x61 \<and> i_byte \<le> 0x7a then Some ((unat i_byte mod 64 + 3) mod 64)
      else if i_byte = 0x40 then Some 0x3e
      else if i_byte = 0x25 then Some 0x3f
      else None)"

interpretation fpga: sixbit_receiver wbutohex
proof
  fix v :: nat
  assume v: "v < 64"
  show "wbutohex (sixchar v) = Some v"
  proof -
    consider "v < 10" | "10 \<le> v" "v < 36" | "36 \<le> v" "v < 62" | "v = 62" | "v = 63"
      using v by linarith
    then show ?thesis
      by cases (auto simp: wbutohex_def word_le_nat_alt sixchar_nat word_unat_eq_iff mod_if)
  qed
next
  show "wbutohex newline = None" by (simp add: wbutohex_def)
qed

subsection \<open>Codewords\<close>

text \<open>The length the first digit announces.\<close>

definition cw_length :: "nat \<Rightarrow> nat" where
  "cw_length h =
     (if h div 16 = 3 then 2
      else if h div 16 = 2 then 1
      else if h div 8 = 2 then 2
      else if h div 8 = 1 then 2 + h div 2 mod 4
      else 6)"

record readcw =
  r_len :: nat
  cw_len :: nat
  shiftreg :: "nat list"
  lastcw :: nat

definition readcw_init :: readcw where
  "readcw_init = \<lparr>r_len = 0, cw_len = 0, shiftreg = [0, 0, 0, 0, 0, 0], lastcw = 0\<rparr>"

text \<open>
  One character: an invalid one (a newline) drops a partial codeword and, after a write,
  produces the end-of-write codeword \<open>6'h2e\<close>; a valid one goes to the next place of the
  shift register, and a complete codeword is passed on.
\<close>

definition readcw_step :: "nat option \<Rightarrow> readcw \<Rightarrow> nat list option \<times> readcw" where
  "readcw_step h r = (case h of
     None \<Rightarrow>
       (if lastcw r = 1
        then (Some (0x2e # tl (shiftreg r)), r\<lparr>r_len := 0, cw_len := 0, lastcw := 2\<rparr>)
        else (None, r\<lparr>r_len := 0, cw_len := 0\<rparr>))
   | Some hx \<Rightarrow>
       (let r = (if cw_len r = 0
                 then r\<lparr>shiftreg := (shiftreg r)[0 := hx], r_len := 1, cw_len := cw_length hx\<rparr>
                 else r\<lparr>shiftreg := (shiftreg r)[r_len r := hx], r_len := r_len r + 1\<rparr>)
        in if r_len r = cw_len r
           then (Some (shiftreg r), r\<lparr>r_len := 0, cw_len := 0, lastcw := shiftreg r ! 0 div 16\<rparr>)
           else (None, r)))"

subsection \<open>Decompression\<close>

text \<open>What the executor is told by a decompressed codeword.\<close>

datatype wb_cmd =
    SetAddr busw
  | AddAddr busw
  | WriteCmd bool busw
  | ReadCmd bool nat
  | EndOfWrite
  | Ignored

record decomp =
  wr_addr :: byte
  compression_tbl :: "byte \<Rightarrow> busw"

text \<open>\<open>{ i_word[32:31], i_word[29:0] }\<close>, and the low 32 bits of a codeword.\<close>

fun cw_tail :: "nat list \<Rightarrow> nat" where
  "cw_tail ds = ds ! 1 * 2 ^ 24 + ds ! 2 * 2 ^ 18 + ds ! 3 * 2 ^ 12 + ds ! 4 * 2 ^ 6 + ds ! 5"

definition cw_data :: "nat list \<Rightarrow> busw" where
  "cw_data ds = of_nat (ds ! 0 div 2 mod 4 * 2 ^ 30 + cw_tail ds)"

definition cw_low32 :: "nat list \<Rightarrow> busw" where
  "cw_low32 ds = of_nat (ds ! 0 mod 4 * 2 ^ 30 + cw_tail ds)"

text \<open>A field of \<open>n\<close> bits taken as a signed number.\<close>

definition sext :: "nat \<Rightarrow> nat \<Rightarrow> int" where
  "sext n v = (if v \<ge> 2 ^ (n - 1) then int v - 2 ^ n else int v)"

definition r_addr :: "nat list \<Rightarrow> int" where
  "r_addr ds =
     (let sel = ds ! 0 mod 8;
          f6 = ds ! 1;
          f12 = ds ! 1 * 2 ^ 6 + ds ! 2;
          f18 = ds ! 1 * 2 ^ 12 + ds ! 2 * 2 ^ 6 + ds ! 3;
          f24 = ds ! 1 * 2 ^ 18 + ds ! 2 * 2 ^ 12 + ds ! 3 * 2 ^ 6 + ds ! 4
      in if sel = 0 then int f6
         else if sel = 2 then int f12
         else if sel = 4 then int f18
         else if sel = 6 then int f24
         else if sel = 1 then sext 6 f6
         else if sel = 3 then sext 12 f12
         else if sel = 5 then sext 18 f18
         else sext 24 f24)"

definition rd_len :: "nat list \<Rightarrow> nat" where
  "rd_len ds =
     (if ds ! 0 div 16 mod 2 = 0 then 1 + ds ! 0 div 2 mod 8
      else 9 + (ds ! 0 div 2 mod 8 * 64 + ds ! 1))"

definition wbudecompress :: "nat list \<Rightarrow> decomp \<Rightarrow> wb_cmd \<times> decomp" where
  "wbudecompress ds d =
     (let tbl = (compression_tbl d)(wr_addr d := cw_data ds);
          cmd_addr = wr_addr d - of_nat (ds ! 0 div 2 mod 4 * 64 + ds ! 1);
          cword = tbl cmd_addr;
          d' = \<lparr>wr_addr = (if ds ! 0 div 8 = 3 then wr_addr d + 1 else wr_addr d),
                compression_tbl = tbl\<rparr>;
          inc = ds ! 0 mod 2 = 1
      in (if ds ! 0 = 0x2e then EndOfWrite
          else if ds ! 0 div 8 = 1 then
            (if inc then AddAddr (word_of_int (r_addr ds)) else SetAddr (word_of_int (r_addr ds)))
          else if ds ! 0 div 8 = 2 then WriteCmd inc cword
          else if ds ! 0 div 32 = 1 then ReadCmd inc (rd_len ds)
          else if ds ! 0 div 8 = 3 then WriteCmd inc (cw_data ds)
          else if ds ! 0 div 4 = 0 then SetAddr (cw_low32 ds)
          else Ignored, d'))"

subsection \<open>Execution\<close>

datatype wb_event =
    WbWrite busw busw
  | WbRead busw nat bool
  | WbError

datatype wb_state = WB_IDLE | WB_WAIT_ON_NEXT_WRITE

record wbuexec =
  wb_addr :: busw
  wb_st :: wb_state
  r_inc :: bool

fun wbuexec_step :: "wb_cmd \<Rightarrow> wbuexec \<Rightarrow> wb_event list \<times> wbuexec" where
  "wbuexec_step cmd e = (case wb_st e of
     WB_IDLE \<Rightarrow> (case cmd of
         SetAddr a \<Rightarrow> ([], e\<lparr>wb_addr := a\<rparr>)
       | AddAddr k \<Rightarrow> ([], e\<lparr>wb_addr := wb_addr e + k\<rparr>)
       | WriteCmd inc v \<Rightarrow> ([WbWrite (wb_addr e) v],
            e\<lparr>wb_addr := wb_addr e + (if inc then 1 else 0), wb_st := WB_WAIT_ON_NEXT_WRITE, r_inc := inc\<rparr>)
       | ReadCmd inc n \<Rightarrow> ([WbRead (wb_addr e) n inc],
            e\<lparr>wb_addr := wb_addr e + (if inc then of_nat n else 0), r_inc := inc\<rparr>)
       | EndOfWrite \<Rightarrow> ([], e)
       | Ignored \<Rightarrow> ([], e))
   | WB_WAIT_ON_NEXT_WRITE \<Rightarrow> (case cmd of
         WriteCmd inc v \<Rightarrow> ([WbWrite (wb_addr e) v],
            e\<lparr>wb_addr := wb_addr e + (if r_inc e then 1 else 0)\<rparr>)
       | EndOfWrite \<Rightarrow> ([], e\<lparr>wb_st := WB_IDLE\<rparr>)
       | _ \<Rightarrow> ([WbError], e\<lparr>wb_st := WB_IDLE\<rparr>)))"

subsection \<open>The whole input path\<close>

record wbu =
  dev_cw :: readcw
  dev_dc :: decomp
  dev_ex :: wbuexec

definition wbu_step :: "byte \<Rightarrow> wbu \<Rightarrow> wb_event list \<times> wbu" where
  "wbu_step b u =
     (case readcw_step (wbutohex b) (dev_cw u) of
        (None, r) \<Rightarrow> ([], u\<lparr>dev_cw := r\<rparr>)
      | (Some ds, r) \<Rightarrow>
          let (cmd, d) = wbudecompress ds (dev_dc u);
              (ev, e) = wbuexec_step cmd (dev_ex u)
          in (ev, u\<lparr>dev_cw := r, dev_dc := d, dev_ex := e\<rparr>))"

fun wbu_run :: "byte list \<Rightarrow> wbu \<Rightarrow> wb_event list \<times> wbu" where
  "wbu_run [] u = ([], u)"
| "wbu_run (b # bs) u =
     (let (ev, u') = wbu_step b u; (evs, u'') = wbu_run bs u' in (ev @ evs, u''))"

lemma wbu_run_append:
  "wbu_run (xs @ ys) u =
     (let (ev, u') = wbu_run xs u; (ev', u'') = wbu_run ys u' in (ev @ ev', u''))"
  by (induction xs arbitrary: u) (auto simp: Let_def split: prod.splits)

subsection \<open>Codewords arriving whole\<close>

definition cw_fresh :: "wbu \<Rightarrow> bool" where
  "cw_fresh u \<longleftrightarrow> r_len (dev_cw u) = 0 \<and> cw_len (dev_cw u) = 0 \<and> length (shiftreg (dev_cw u)) = 6"

text \<open>The effect of one complete codeword.\<close>

definition cw_apply :: "nat list \<Rightarrow> wbu \<Rightarrow> wb_event list \<times> wbu" where
  "cw_apply ds u =
     (let (cmd, d) = wbudecompress ds (dev_dc u);
          (ev, e) = wbuexec_step cmd (dev_ex u)
      in (ev, u\<lparr>dev_cw := \<lparr>r_len = 0, cw_len = 0, shiftreg = ds, lastcw = ds ! 0 div 16\<rparr>,
               dev_dc := d, dev_ex := e\<rparr>))"

lemma feed_tail:
  assumes "\<And>c. c \<in> set cs \<Longrightarrow> c < 64" and "cs \<noteq> []"
    and "r_len (dev_cw u) = k" and "0 < k" and "cw_len (dev_cw u) = k + length cs"
    and "length (shiftreg (dev_cw u)) = 6" and "k + length cs \<le> 6"
  shows "wbu_run (map sixchar cs) u =
    cw_apply (take k (shiftreg (dev_cw u)) @ cs @ drop (k + length cs) (shiftreg (dev_cw u))) u"
  using assms
proof (induction cs arbitrary: u k)
  case (Cons c cs)
  let ?r = "dev_cw u"
  let ?sr = "(shiftreg ?r)[k := c]"
  have hx: "wbutohex (sixchar c) = Some c" using Cons.prems(1) by (simp add: fpga.dec_six)
  have upd: "?sr = take k (shiftreg ?r) @ c # drop (Suc k) (shiftreg ?r)"
    using Cons.prems by (intro upd_conv_take_nth_drop) simp
  show ?case
  proof (cases "cs = []")
    case True
    with Cons.prems hx upd show ?thesis
      by (simp add: wbu_step_def readcw_step_def cw_apply_def Let_def split: prod.splits)
  next
    case False
    let ?u = "u\<lparr>dev_cw := ?r\<lparr>shiftreg := ?sr, r_len := Suc k\<rparr>\<rparr>"
    have len: "1 < length (c # cs)" using False by (cases cs) auto
    have st: "wbu_step (sixchar c) u = ([], ?u)"
      using Cons.prems hx len by (simp add: wbu_step_def readcw_step_def Let_def)
    have "wbu_run (map sixchar cs) ?u =
        cw_apply (take (Suc k) ?sr @ cs @ drop (Suc k + length cs) ?sr) ?u"
      using Cons.IH [of ?u "Suc k"] Cons.prems False by simp
    also have "take (Suc k) ?sr @ cs @ drop (Suc k + length cs) ?sr =
        take k (shiftreg ?r) @ (c # cs) @ drop (k + length (c # cs)) (shiftreg ?r)"
      using Cons.prems unfolding upd by (simp add: add.commute [of k])
    finally show ?thesis using st by (simp add: cw_apply_def split: prod.splits)
  qed
qed simp

lemma feed_codeword:
  assumes "\<And>x. x \<in> set (c # cs) \<Longrightarrow> x < 64" and "cw_fresh u" and "cw_length c = Suc (length cs)"
    and "length cs < 6"
  shows "wbu_run (map sixchar (c # cs)) u =
    cw_apply ((c # cs) @ drop (Suc (length cs)) (shiftreg (dev_cw u))) u"
proof -
  let ?r = "dev_cw u"
  let ?sr = "(shiftreg ?r)[0 := c]"
  have hx: "wbutohex (sixchar c) = Some c" using assms(1) by (simp add: fpga.dec_six)
  have upd: "?sr = c # drop 1 (shiftreg ?r)"
    using assms(2) by (cases "shiftreg ?r") (auto simp: cw_fresh_def)
  show ?thesis
  proof (cases "cs = []")
    case True
    with assms hx upd show ?thesis
      by (simp add: wbu_step_def readcw_step_def cw_apply_def cw_fresh_def Let_def split: prod.splits)
  next
    case False
    let ?u = "u\<lparr>dev_cw := ?r\<lparr>shiftreg := ?sr, r_len := 1, cw_len := cw_length c\<rparr>\<rparr>"
    have st: "wbu_step (sixchar c) u = ([], ?u)"
      using assms hx False by (simp add: wbu_step_def readcw_step_def cw_fresh_def Let_def)
    have "wbu_run (map sixchar cs) ?u =
        cw_apply (take 1 ?sr @ cs @ drop (1 + length cs) ?sr) ?u"
      using feed_tail [of cs ?u 1] assms False by (simp add: cw_fresh_def)
    also have "take 1 ?sr @ cs @ drop (1 + length cs) ?sr = (c # cs) @ drop (Suc (length cs)) (shiftreg ?r)"
      unfolding upd by (cases cs) auto
    finally show ?thesis using st by (simp add: cw_apply_def split: prod.splits)
  qed
qed

lemma cw_apply_fresh: "length ds = 6 \<Longrightarrow> cw_fresh (snd (cw_apply ds u))"
  by (simp add: cw_apply_def cw_fresh_def split: prod.splits)

lemma feed_newline:
  "wbu_run [newline] u =
    (if lastcw (dev_cw u) = 1
     then let (cmd, d) = wbudecompress (0x2e # tl (shiftreg (dev_cw u))) (dev_dc u);
              (ev, e) = wbuexec_step cmd (dev_ex u)
          in (ev, u\<lparr>dev_cw := (dev_cw u)\<lparr>r_len := 0, cw_len := 0, lastcw := 2\<rparr>, dev_dc := d, dev_ex := e\<rparr>)
     else ([], u\<lparr>dev_cw := (dev_cw u)\<lparr>r_len := 0, cw_len := 0\<rparr>\<rparr>))"
  by (simp add: wbu_step_def readcw_step_def fpga.dec_nl Let_def split: prod.splits)

end
