(* ===== verification/TtyWire.thy ===== *)
theory TtyWire
  imports TtyHost WbuInput
begin

text \<open>
  The two ends of the debugging bus together. The host's tables and the FPGA's are linked
  by the relation \<open>tbl_sync\<close>; under it the codes of an address, of a word and of the
  closing newline have their meant effect on the receiving pipeline.
\<close>

subsection \<open>The two ends in step\<close>

text \<open>Entry \<open>k\<close> back in the two tables agrees, where the host's search may look.\<close>

definition tbl_sync :: "'o ttybus \<Rightarrow> decomp \<Rightarrow> bool" where
  "tbl_sync s d \<longleftrightarrow> m_wraddr s = uint (wr_addr d) \<and> 256 \<le> length (m_writetbl s) \<and>
     (\<forall>k. 1 \<le> k \<longrightarrow> k \<le> 255 \<longrightarrow> (m_wrloaded s \<or> int k \<le> m_wraddr s) \<longrightarrow>
        compression_tbl d (wr_addr d - of_nat k) = m_writetbl s ! nat ((m_wraddr s - int k) mod 256))"

text \<open>The device holds word address \<open>wa\<close>, with no codeword begun, and takes a write next.\<close>

definition dev_at :: "bool \<Rightarrow> busw \<Rightarrow> wbu \<Rightarrow> bool" where
  "dev_at p wa u \<longleftrightarrow> cw_fresh u \<and> wb_addr (dev_ex u) = wa \<and>
     (wb_st (dev_ex u) = WB_IDLE \<or> wb_st (dev_ex u) = WB_WAIT_ON_NEXT_WRITE \<and> r_inc (dev_ex u) = p)"

lemma byte_minus_ne: "1 \<le> k \<Longrightarrow> k \<le> 255 \<Longrightarrow> w - of_nat k \<noteq> w" for w :: byte
proof
  assume k: "1 \<le> k" "k \<le> 255" and "w - of_nat k = w"
  then have "(of_nat k :: byte) = 0" by (simp add: algebra_simps)
  then have "unat (of_nat k :: byte) = 0" by simp
  with k show False by (simp add: unat_of_nat_lt)
qed

lemma tbl_sync_other:
  assumes "tbl_sync s d"
  shows "tbl_sync s (d\<lparr>compression_tbl := (compression_tbl d)(wr_addr d := x)\<rparr>)"
  using assms by (simp add: tbl_sync_def byte_minus_ne)

lemma wraddr_range: "tbl_sync s d \<Longrightarrow> 0 \<le> m_wraddr s \<and> m_wraddr s < 256"
  using uint_range_size [of "wr_addr d"] by (simp add: tbl_sync_def word_size)

text \<open>A table entry added on both sides.\<close>

lemma tbl_sync_push:
  assumes "tbl_sync s d" and "find_caddr (m_wraddr s) (m_wrloaded s) (m_writetbl s) v [1..255] = 0"
  shows "tbl_sync (word_next p v s) \<lparr>wr_addr = wr_addr d + 1, compression_tbl = (compression_tbl d)(wr_addr d := v)\<rparr>"
    (is "tbl_sync ?s ?d")
proof -
  let ?w = "m_wraddr s"
  have w: "?w = uint (wr_addr d)" "256 \<le> length (m_writetbl s)" using assms by (auto simp: tbl_sync_def)
  have r: "0 \<le> ?w" "?w < 256" using wraddr_range [OF assms(1)] by auto
  have w1: "uint (wr_addr d + 1) = (?w + 1) mod 256" by (simp add: uint_word_ariths w(1))
  have s: "m_wraddr ?s = (?w + 1) mod 256" "m_wrloaded ?s = (m_wrloaded s \<or> (?w + 1) mod 256 = 0)"
    "m_writetbl ?s = (m_writetbl s)[nat ?w := v]"
    using assms(2) by (auto simp: word_next_def Let_def)
  have "compression_tbl ?d (wr_addr ?d - of_nat k) = m_writetbl ?s ! nat ((m_wraddr ?s - int k) mod 256)"
    if k: "1 \<le> k" "k \<le> 255" and v: "m_wrloaded ?s \<or> int k \<le> m_wraddr ?s" for k
  proof (cases "k = 1")
    case True
    then show ?thesis using r w(2) by (simp add: s mod_simps)
  next
    case False
    then obtain j where j: "k = Suc j" "1 \<le> j" "j \<le> 255" using k by (cases k) auto
    have ix: "((?w + 1) mod 256 - int k) mod 256 = (?w - int j) mod 256" by (simp add: j mod_simps)
    have "m_wrloaded s \<or> int j \<le> ?w"
    proof (cases "?w = 255")
      case True then show ?thesis using j by simp
    next
      case False
      then have "(?w + 1) mod 256 = ?w + 1" using r by (intro mod_pos_pos_trivial) auto
      then show ?thesis using v r by (auto simp: s j)
    qed
    then have "compression_tbl d (wr_addr d - of_nat j) = m_writetbl s ! nat ((?w - int j) mod 256)"
      using assms(1) j by (auto simp: tbl_sync_def)
    moreover have "nat ((?w - int j) mod 256) \<noteq> nat ?w"
    proof
      assume "nat ((?w - int j) mod 256) = nat ?w"
      then have "(?w - int j) mod 256 = ?w mod 256" using r by (simp add: nat_eq_iff)
      then have "256 dvd int j" by (simp add: mod_eq_dvd_iff)
      then show False using j by (auto dest: zdvd_imp_le)
    qed
    moreover have e: "wr_addr ?d - of_nat k = wr_addr d - of_nat j" by (simp add: j)
    ultimately show ?thesis
      using byte_minus_ne [OF j(2,3), of "wr_addr d"] unfolding e s ix by simp
  qed
  then show ?thesis using w1 w(2) by (auto simp: tbl_sync_def s(1) s(3))
qed

lemma tbl_sync_find:
  assumes "tbl_sync s d" and "find_caddr (m_wraddr s) (m_wrloaded s) (m_writetbl s) v [1..255] = int c" and "c \<noteq> 0"
  shows "c \<le> 255" "compression_tbl d (wr_addr d - of_nat c) = v" "wr_addr d - of_nat c \<noteq> wr_addr d"
proof -
  have r: "0 \<le> m_wraddr s" "m_wraddr s < 256" using wraddr_range [OF assms(1)] by auto
  obtain c' where "int c = int c'" "c' = 0 \<or> 1 \<le> c' \<and> c' \<le> 255 \<and>
     (m_wrloaded s \<or> int c' \<le> m_wraddr s) \<and> m_writetbl s ! nat ((m_wraddr s - int c') mod 256) = v"
    using find_caddr_range [OF r, of "m_wrloaded s" "m_writetbl s" v] unfolding assms(2) .
  then have c: "1 \<le> c" "c \<le> 255" "m_wrloaded s \<or> int c \<le> m_wraddr s"
    "m_writetbl s ! nat ((m_wraddr s - int c) mod 256) = v" using assms(3) by auto
  then show "c \<le> 255" "compression_tbl d (wr_addr d - of_nat c) = v" "wr_addr d - of_nat c \<noteq> wr_addr d"
    using assms(1) byte_minus_ne by (auto simp: tbl_sync_def)
qed

text \<open>The device executes the codes of a word as one write of that word.\<close>

lemma cw_data_digits:
  assumes "b < 2" shows "cw_data ((24 + 2 * hd (digits6 v) + b) # tl (digits6 v)) = v"
proof -
  have n: "unat v < 2 ^ 32" by (rule unat_lt32)
  have "(24 + 2 * (unat v div 2 ^ 30 mod 4) + b) div 2 mod 4 = unat v div 2 ^ 30 mod 4"
    using assms by (intro field4) auto
  then have "cw_data ((24 + 2 * hd (digits6 v) + b) # tl (digits6 v)) = of_nat (unat v)"
    using horner6 [OF n] by (simp add: cw_data_def digits6_def Let_def algebra_simps)
  then show ?thesis by simp
qed

lemma word_dev:
  assumes t: "tbl_sync s (dev_dc u)" and d: "dev_at p wa u"
  shows "\<exists>u'. wbu_run (map sixchar (word_codes p v s)) u = ([WbWrite wa v], u') \<and>
     tbl_sync (word_next p v s) (dev_dc u') \<and> dev_at p (wa + (if p then 1 else 0)) u' \<and>
     wb_st (dev_ex u') = WB_WAIT_ON_NEXT_WRITE \<and> lastcw (dev_cw u') = 1"
proof -
  have r: "0 \<le> m_wraddr s" "m_wraddr s < 256" using wraddr_range [OF t] by auto
  obtain c where c: "find_caddr (m_wraddr s) (m_wrloaded s) (m_writetbl s) v [1..255] = int c" "c \<le> 255"
    using find_caddr_range [OF r] by (metis zero_le)
  have f: "cw_fresh u" using d by (simp add: dev_at_def)
  let ?b = "if p then 1 else (0::nat)" and ?sr = "shiftreg (dev_cw u)"
  have ex: "wbuexec_step (WriteCmd p v) (dev_ex u) = ([WbWrite wa v],
     (dev_ex u)\<lparr>wb_addr := wa + (if p then 1 else 0), wb_st := WB_WAIT_ON_NEXT_WRITE, r_inc := p\<rparr>)"
    using d by (auto simp: dev_at_def split: wb_state.splits)
  show ?thesis
  proof (cases "c = 0")
    case True
    let ?h = "24 + 2 * hd (digits6 v) + ?b"
    have wc: "word_codes p v s = ?h # tl (digits6 v)" using True c by (simp add: word_codes_def Let_def)
    have hd4: "hd (digits6 v) < 4" by (simp add: digits6_def Let_def)
    then have h: "?h div 8 = 3" "?h \<noteq> 46" "?h div 32 = 0" "?h div 16 = 1" "?h mod 2 = ?b" "?h < 64" by auto
    have len: "length (tl (digits6 v)) = 5" by (simp add: digits6_def Let_def)
    have run: "wbu_run (map sixchar (word_codes p v s)) u = cw_apply (?h # tl (digits6 v)) u"
      using feed_codeword [of ?h "tl (digits6 v)" u] word_codes_64 [OF r, of p v] f h len
      by (simp add: wc cw_length_def cw_fresh_def)
    have dc: "wbudecompress (?h # tl (digits6 v)) (dev_dc u) = (WriteCmd p v,
        \<lparr>wr_addr = wr_addr (dev_dc u) + 1, compression_tbl = (compression_tbl (dev_dc u))(wr_addr (dev_dc u) := v)\<rparr>)"
      using h cw_data_digits [of ?b v] by (simp add: wbudecompress_def Let_def)
    show ?thesis
      using run dc ex len h tbl_sync_push [OF t, of v p] c True
      by (simp add: cw_apply_def dev_at_def cw_fresh_def)
  next
    case False
    define h where "h = 16 + 2 * (c div 64) + ?b"
    have wc: "word_codes p v s = [h, c mod 64]" using False c by (simp add: word_codes_def Let_def h_def)
    have hd4: "c div 64 < 4" using c(2) by auto
    then have hh: "h div 8 = 2" "h \<noteq> 46" "h div 32 = 0" "h div 16 = 1" "h mod 2 = ?b" "h < 64" by (auto simp: h_def)
    have h2: "h div 2 mod 4 = c div 64" using hd4 unfolding h_def by (intro field4) auto
    have len: "length (drop 2 ?sr) = 4" using f by (simp add: cw_fresh_def)
    let ?ds = "h # c mod 64 # drop 2 ?sr"
    have run: "wbu_run (map sixchar (word_codes p v s)) u = cw_apply ?ds u"
    proof -
      have "wbu_run (map sixchar [h, c mod 64]) u = cw_apply ([h, c mod 64] @ drop (Suc (length [c mod 64])) ?sr) u"
        by (rule feed_codeword) (use f hh in \<open>auto simp: cw_length_def\<close>)
      then show ?thesis unfolding wc by (simp add: numeral_2_eq_2)
    qed
    have ix: "of_nat (h div 2 mod 4 * 64 + c mod 64) = (of_nat c :: byte)"
      unfolding h2 div_mult_mod_eq ..
    have dc: "wbudecompress ?ds (dev_dc u) = (WriteCmd p v,
        (dev_dc u)\<lparr>compression_tbl := (compression_tbl (dev_dc u))(wr_addr (dev_dc u) := cw_data ?ds)\<rparr>)"
      using hh tbl_sync_find [OF t c(1) False] unfolding wbudecompress_def Let_def nth_Cons_0 nth_Cons_1 ix
      by simp
    have nx: "tbl_sync (word_next p v s) d = tbl_sync s d" for d
      using c(1) False by (simp add: word_next_def Let_def tbl_sync_def)
    show ?thesis
      using run dc ex len hh tbl_sync_other [OF t] 
      by (simp add: cw_apply_def dev_at_def cw_fresh_def nx)
  qed
qed

text \<open>The word address a codeword leaves in the executor.\<close>

definition cw_addr :: "nat list \<Rightarrow> busw \<Rightarrow> busw" where
  "cw_addr ds w =
     (if ds ! 0 div 8 = 1
      then (if ds ! 0 mod 2 = 1 then w + word_of_int (r_addr ds) else word_of_int (r_addr ds))
      else cw_low32 ds)"

lemma dev_addr_codeword:
  assumes "tbl_sync s (dev_dc u)" and "dev_at p wa u" and "wb_st (dev_ex u) = WB_IDLE"
    and "c div 8 = 1 \<or> c div 4 = 0" and "\<forall>x \<in> set (c # cs). x < 64" and "cw_length c = Suc (length cs)"
    and "\<And>rest. length rest = 5 - length cs \<Longrightarrow> cw_addr (c # cs @ rest) wa = wa'"
  shows "\<exists>u'. wbu_run (map sixchar (c # cs)) u = ([], u') \<and> tbl_sync s (dev_dc u') \<and>
     dev_at p wa' u' \<and> wb_st (dev_ex u') = WB_IDLE"
proof -
  have f: "cw_fresh u" "wb_addr (dev_ex u) = wa" using assms(2) by (auto simp: dev_at_def)
  have len: "length cs < 6" using assms(6) by (auto simp: cw_length_def split: if_splits)
  let ?rest = "drop (Suc (length cs)) (shiftreg (dev_cw u))"
  let ?ds = "c # cs @ ?rest"
  have lr: "length ?rest = 5 - length cs" using f by (simp add: cw_fresh_def)
  have run: "wbu_run (map sixchar (c # cs)) u = cw_apply ?ds u"
    using feed_codeword [of c cs u] assms(5,6) f len by simp
  have c8: "c div 8 = 1 \<or> c div 8 = 0" "c \<noteq> 46" "c div 32 \<noteq> 1" using assms(4) by auto
  obtain cmd where dc: "wbudecompress ?ds (dev_dc u) = (cmd,
      (dev_dc u)\<lparr>compression_tbl := (compression_tbl (dev_dc u))(wr_addr (dev_dc u) := cw_data ?ds)\<rparr>)"
    and cmd: "wbuexec_step cmd (dev_ex u) = ([], (dev_ex u)\<lparr>wb_addr := cw_addr ?ds wa\<rparr>)"
    using c8 assms(3,4) f(2) by (auto simp: wbudecompress_def Let_def cw_addr_def)
  have wa': "cw_addr ?ds wa = wa'" using assms(7) lr by blast
  show ?thesis using run dc cmd wa' lr len tbl_sync_other [OF assms(1)] assms(3)
    by (simp add: cw_apply_def dev_at_def cw_fresh_def)
qed

lemma cw_addr_abs:
  assumes "n < 2 ^ 30" and "abs_codes n [] = c # cs" and "length rest = 5 - length cs"
  shows "cw_addr (c # cs @ rest) w = of_nat n \<and> (c div 8 = 1 \<or> c div 4 = 0) \<and>
    cw_length c = Suc (length cs) \<and> (\<forall>x \<in> set (c # cs). x < 64)"
proof -
  consider "n \<le> 63" | "63 < n" "n \<le> 4095" | "4095 < n" "n \<le> 2 ^ 18 - 1"
    | "2 ^ 18 - 1 < n" "n \<le> 2 ^ 24 - 1" | "2 ^ 24 - 1 < n" by linarith
  then show ?thesis
  proof cases
    case 1 then show ?thesis using assms by (auto simp: abs_codes_def cw_addr_def r_addr_def cw_length_def simp del: of_nat_add of_nat_mult)
  next
    case 2 then show ?thesis using assms digits_sum(1) [of n]
      by (auto simp: abs_codes_def cw_addr_def r_addr_def cw_length_def simp del: of_nat_add of_nat_mult)
  next
    case 3 then show ?thesis using assms digits_sum(2) [of n]
      by (auto simp: abs_codes_def cw_addr_def r_addr_def cw_length_def simp del: of_nat_add of_nat_mult)
  next
    case 4 then show ?thesis using assms digits_sum(3) [of n]
      by (auto simp: abs_codes_def cw_addr_def r_addr_def cw_length_def simp del: of_nat_add of_nat_mult)
  next
    case 5
    have u: "unat (of_nat n :: busw) = n" using assms(1) by (simp add: unat_of_nat_lt)
    have dg: "c # cs = [0, n div 2 ^ 24 mod 64, n div 2 ^ 18 mod 64, n div 2 ^ 12 mod 64, n div 2 ^ 6 mod 64, n mod 64]"
      using assms(1,2) 5 by (simp add: abs_codes_def digits6_def u Let_def del: power_Suc)
    have "cw_tail (c # cs @ rest) = n"
      using horner6 [of n] assms(1) by (simp add: dg [simplified])
    then have "cw_addr (c # cs @ rest) w = of_nat n"
      using dg by (simp add: cw_addr_def cw_low32_def del: cw_tail.simps)
    then show ?thesis using dg by (auto simp: cw_length_def)
  qed
qed

lemma cw_addr_diff:
  assumes "diff_codes d = c # cs" and "length rest = 5 - length cs"
  shows "cw_addr (c # cs @ rest) w = w + of_nat d \<and> c div 8 = 1 \<and>
    cw_length c = Suc (length cs) \<and> (\<forall>x \<in> set (c # cs). x < 64)"
proof -
  consider "d < 32" | "32 \<le> d" "d < 2048" | "2048 \<le> d" "d < 2 ^ 17" | "2 ^ 17 \<le> d" "d < 2 ^ 23" | "2 ^ 23 \<le> d"
    by linarith
  then show ?thesis
  proof cases
    case 1 then show ?thesis using assms
      by (auto simp: diff_codes_def cw_addr_def r_addr_def sext_def cw_length_def)
  next
    case 2 then show ?thesis using assms digits_sum(1) [of d]
      by (auto simp: diff_codes_def cw_addr_def r_addr_def sext_def cw_length_def simp del: of_nat_add of_nat_mult)
  next
    case 3 then show ?thesis using assms digits_sum(2) [of d]
      by (auto simp: diff_codes_def cw_addr_def r_addr_def sext_def cw_length_def simp del: of_nat_add of_nat_mult)
  next
    case 4 then show ?thesis using assms digits_sum(3) [of d]
      by (auto simp: diff_codes_def cw_addr_def r_addr_def sext_def cw_length_def simp del: of_nat_add of_nat_mult)
  next
    case 5 then show ?thesis using assms by (simp add: diff_codes_def)
  qed
qed

text \<open>
  The absolute form is chosen whenever it is not longer, so a difference is sent only when
  the address did not wrap around.
\<close>

lemma abs_codes_cases:
  "abs_codes n ds = abs_codes n [] \<or> abs_codes n ds = ds \<and> ds \<noteq> [] \<and> \<not> (n \<le> 63 \<and> 2 \<le> length ds) \<and> \<not> (n \<le> 4095 \<and> 3 \<le> length ds) \<and>
    \<not> (n \<le> 2 ^ 18 - 1 \<and> 4 \<le> length ds) \<and> \<not> (n \<le> 2 ^ 24 - 1 \<and> 5 \<le> length ds)"
  by (auto simp: abs_codes_def)

lemma diff_is_forward:
  fixes a la :: busw
  assumes "abs_codes (unat a div 4) ds = ds" "ds \<noteq> []" "ds = diff_codes (unat (a - la) div 4)"
    and "\<not> (unat a div 4 \<le> 63 \<and> 2 \<le> length ds)" "\<not> (unat a div 4 \<le> 4095 \<and> 3 \<le> length ds)"
    "\<not> (unat a div 4 \<le> 2 ^ 18 - 1 \<and> 4 \<le> length ds)" "\<not> (unat a div 4 \<le> 2 ^ 24 - 1 \<and> 5 \<le> length ds)"
  shows "la \<le> a"
proof (rule ccontr)
  let ?d = "unat (a - la) div 4"
  assume "\<not> la \<le> a"
  then have "unat (a - la) = unat a + 2 ^ 32 - unat la"
    using unat_lt32 [of la] unat_sub_if' [of a la] by (auto simp: word_le_nat_alt)
  then have lt: "unat a < unat (a - la)" using unat_lt32 [of la] by simp
  then have n: "unat a div 4 \<le> ?d" by (simp add: div_le_mono)
  consider "?d < 32" | "32 \<le> ?d" "?d < 2048" | "2048 \<le> ?d" "?d < 2 ^ 17" | "2 ^ 17 \<le> ?d" "?d < 2 ^ 23" | "2 ^ 23 \<le> ?d"
    by linarith
  then show False using assms n by cases (auto simp: diff_codes_def)
qed

lemma aligned_forward:
  fixes a la :: busw
  assumes "la \<le> a" "a AND 3 = 0" "la AND 3 = 0"
  shows "drop_bit 2 la + of_nat (unat (a - la) div 4) = drop_bit 2 a"
proof -
  have m: "unat a mod 4 = 0" "unat la mod 4 = 0"
    using assms(2,3) unat_and_3 [of a] unat_and_3 [of la] by (simp_all del: unat_and_3)
  have "unat (a - la) = unat a - unat la" using assms(1) by (simp add: unat_sub word_le_nat_alt)
  then have e: "unat la div 4 + unat (a - la) div 4 = unat a div 4"
  proof -
    obtain x y where xy: "unat a = 4 * x" "unat la = 4 * y" using m by (metis dvdE mod_0_imp_dvd)
    moreover have "y \<le> x" using assms(1) xy by (simp add: word_le_nat_alt)
    ultimately show ?thesis using \<open>unat (a - la) = _\<close> by (simp flip: diff_mult_distrib2)
  qed
  have dr: "drop_bit 2 w = of_nat (unat w div 4)" for w :: busw
    by (simp add: word_unat_eq_iff unat_drop_bit unat_of_nat_lt div_lt32)
  show ?thesis unfolding dr using e by (metis of_nat_add)
qed

lemma abs_codes_ne: "abs_codes n [] \<noteq> []"
  by (simp add: abs_codes_def digits6_def Let_def)

lemma drop_bit2_nat: "drop_bit 2 w = of_nat (unat w div 4)" for w :: busw
  by (simp add: word_unat_eq_iff unat_drop_bit unat_of_nat_lt div_lt32)

text \<open>The address command moves the device to the address.\<close>

lemma addr_dev:
  assumes t: "tbl_sync s (dev_dc u)" and d: "dev_at p (wb_addr (dev_ex u)) u" and i: "wb_st (dev_ex u) = WB_IDLE"
    and la: "aset \<Longrightarrow> la AND 3 = 0 \<and> wb_addr (dev_ex u) = drop_bit 2 la" and a: "a AND 3 = 0"
  shows "\<exists>u'. wbu_run (map sixchar (addr_codes aset la a)) u = ([], u') \<and> tbl_sync s (dev_dc u') \<and>
     dev_at p (drop_bit 2 a) u' \<and> wb_st (dev_ex u') = WB_IDLE"
proof (cases "aset \<and> a = la")
  case True
  then show ?thesis using assms by (simp add: addr_codes_def)
next
  case False
  let ?n = "unat a div 4" and ?d = "unat (a - la) div 4"
  let ?ds = "if aset then diff_codes ?d else []"
  have n: "?n < 2 ^ 30" using unat_lt32 [of a] by simp
  have ac: "addr_codes aset la a = abs_codes ?n ?ds" using False by (auto simp: addr_codes_def)
  consider (abs) "abs_codes ?n ?ds = abs_codes ?n []" |
    (diff) "abs_codes ?n ?ds = ?ds" "?ds \<noteq> []" "la \<le> a"
    using abs_codes_cases [of ?n ?ds] diff_is_forward [of a ?ds la] by (auto split: if_splits)
  then show ?thesis
  proof cases
    case abs
    obtain c cs where c: "abs_codes ?n [] = c # cs" using abs_codes_ne by (meson neq_Nil_conv)
    note k = cw_addr_abs [OF n c]
    have k0: "c div 8 = 1 \<or> c div 4 = 0" "cw_length c = Suc (length cs)" "\<forall>x \<in> set (c # cs). x < 64"
      using k [of "replicate (5 - length cs) 0"] by auto
    show ?thesis unfolding ac abs c
      by (rule dev_addr_codeword [OF t d i k0(1,3,2)]) (simp add: k [THEN conjunct1] drop_bit2_nat)
  next
    case diff
    then obtain c cs where c: "diff_codes ?d = c # cs" and aset by (meson neq_Nil_conv)
    note k = cw_addr_diff [OF c]
    have w: "wb_addr (dev_ex u) + of_nat ?d = drop_bit 2 a"
      using la [OF \<open>aset\<close>] aligned_forward [OF diff(3) a] by simp
    have k0: "c div 8 = 1 \<or> c div 4 = 0" "cw_length c = Suc (length cs)" "\<forall>x \<in> set (c # cs). x < 64"
      using k [of "replicate (5 - length cs) 0"] by auto
    have ds: "?ds = c # cs" using \<open>aset\<close> c by simp
    show ?thesis unfolding ac diff(1) [unfolded ds] ds
      by (rule dev_addr_codeword [OF t d i k0(1,3,2)]) (simp add: k [THEN conjunct1] w)
  qed
qed

fun wr_events :: "bool \<Rightarrow> busw \<Rightarrow> busw list \<Rightarrow> wb_event list" where
  "wr_events p wa [] = []"
| "wr_events p wa (v # vs) = WbWrite wa v # wr_events p (wa + (if p then 1 else 0)) vs"

lemma wr_events_append:
  "wr_events p wa (xs @ ys) = wr_events p wa xs @ wr_events p (wa + (if p then of_nat (length xs) else 0)) ys"
  by (induction xs arbitrary: wa) (auto simp: algebra_simps)

lemma words_dev:
  assumes "tbl_sync s (dev_dc u)" and "dev_at p wa u" and "vs \<noteq> []"
  shows "\<exists>u'. wbu_run (map sixchar (words_codes p vs s)) u = (wr_events p wa vs, u') \<and>
     tbl_sync (words_next p vs s) (dev_dc u') \<and> dev_at p (wa + (if p then of_nat (length vs) else 0)) u' \<and>
     wb_st (dev_ex u') = WB_WAIT_ON_NEXT_WRITE \<and> lastcw (dev_cw u') = 1"
  using assms
proof (induction vs arbitrary: s u wa)
  case (Cons v vs)
  obtain u1 where u1: "wbu_run (map sixchar (word_codes p v s)) u = ([WbWrite wa v], u1)"
    "tbl_sync (word_next p v s) (dev_dc u1)" "dev_at p (wa + (if p then 1 else 0)) u1"
    "wb_st (dev_ex u1) = WB_WAIT_ON_NEXT_WRITE" "lastcw (dev_cw u1) = 1"
    using word_dev [OF Cons.prems(1,2), of v] by blast
  show ?case
  proof (cases "vs = []")
    case True then show ?thesis using u1 by (cases p) (simp_all add: words_next_def)
  next
    case False
    from Cons.IH [OF u1(2,3) False] obtain u2 where
      u2: "wbu_run (map sixchar (words_codes p vs (word_next p v s))) u1 = (wr_events p (wa + (if p then 1 else 0)) vs, u2)"
      "tbl_sync (words_next p vs (word_next p v s)) (dev_dc u2)"
      "dev_at p (wa + (if p then 1 else 0) + (if p then of_nat (length vs) else 0)) u2"
      "wb_st (dev_ex u2) = WB_WAIT_ON_NEXT_WRITE" "lastcw (dev_cw u2) = 1" by blast
    have w: "wa + (if p then 1 else 0) + (if p then of_nat (length vs) else 0) = wa + (if p then of_nat (length (v # vs)) else 0)"
      by simp
    show ?thesis using u1(1) u2 unfolding w
      by (simp add: wbu_run_append words_next_def del: wbu_run.simps)
  qed
qed simp

lemma tbl_sync_store:
  "tbl_sync s d \<Longrightarrow> tbl_sync s \<lparr>wr_addr = wr_addr d, compression_tbl = (compression_tbl d)(wr_addr d := x)\<rparr>"
  using tbl_sync_other [of s d x] by (cases d) simp

lemma newline_dev:
  assumes "tbl_sync s (dev_dc u)" and "dev_at p wa u" and "wb_st (dev_ex u) = WB_WAIT_ON_NEXT_WRITE" and "lastcw (dev_cw u) = 1"
  shows "\<exists>u'. wbu_run [newline] u = ([], u') \<and> tbl_sync s (dev_dc u') \<and> dev_at q wa u' \<and> wb_st (dev_ex u') = WB_IDLE"
  using assms tbl_sync_store [OF assms(1)] unfolding feed_newline
  by (auto simp: wbudecompress_def Let_def dev_at_def cw_fresh_def)

end
