(* ===== verification/TtyWrite.thy ===== *)
theory TtyWrite
  imports TtyWire
begin

text \<open>
  Writing over the debugging bus, end to end: the characters the host's \<open>writev\<close> sends
  over a transport that accepts them, run through the receiving pipeline of the FPGA,
  perform exactly the writes asked for.
\<close>

subsection \<open>Sending over a quiet stream\<close>

definition quiet_os :: "'o os_ops \<Rightarrow> ('o \<Rightarrow> byte list) \<Rightarrow> ('o \<Rightarrow> byte list) \<Rightarrow> bool" where
  "quiet_os os pend sent \<longleftrightarrow> stream_reads os pend \<and> stream_polls os pend \<and> stream_writes os sent"

definition on_wire :: "('o \<Rightarrow> byte list) \<Rightarrow> 'o ttybus \<Rightarrow> byte list" where
  "on_wire f s = f (ll_os (m_dev s))"

lemma readidle_quiet:
  assumes "quiet_os os pend sent" and "on_wire pend s = []" and "0 < fuel"
  shows "\<exists>d. readidle fuel os s = (Inr (), s\<lparr>m_dev := d\<rparr>) \<and> on_wire sent (s\<lparr>m_dev := d\<rparr>) = on_wire sent s \<and>
    on_wire pend (s\<lparr>m_dev := d\<rparr>) = []"
proof -
  obtain f where f: "fuel = Suc f" using assms(3) by (cases fuel) auto
  obtain r o' where p: "os_poll os (ll_os (m_dev s)) (m_fdr (m_dev s)) 0 = (r, o')" by fastforce
  have "\<not> r" "sent o' = on_wire sent s" "pend o' = []"
    using assms p unfolding quiet_os_def stream_polls_def stream_writes_def stream_reads_def on_wire_def
    by (metis fst_conv, metis snd_conv, metis snd_conv)
  then show ?thesis
    by (auto simp: readidle_def f bindE_def dev_available_def on_dev_def ll_available_def ll_poll_def p
        returnE_def on_wire_def Let_def)
qed

lemma dev_write_ok:
  assumes "quiet_os os pend sent" and "take n (m_buf s) = bs" and "bs \<noteq> []"
  shows "\<exists>d. dev_write os n s = (Inr (), s\<lparr>m_dev := d\<rparr>) \<and> on_wire sent (s\<lparr>m_dev := d\<rparr>) = on_wire sent s @ bs \<and>
    on_wire pend (s\<lparr>m_dev := d\<rparr>) = on_wire pend s"
proof -
  have w: "stream_writes os sent" and r: "stream_reads os pend" using assms(1) by (auto simp: quiet_os_def)
  obtain d where d: "ll_write os bs (m_dev s) = (Inr (), d)" "sent (ll_os d) = sent (ll_os (m_dev s)) @ bs"
    using ll_write_stream [OF w assms(3)] by blast
  have "ll_os d = snd (os_write os (ll_os (m_dev s)) (m_fdw (m_dev s)) bs)"
    using d(1) by (auto simp: ll_write_def Let_def split: prod.splits if_splits)
  then have "pend (ll_os d) = pend (ll_os (m_dev s))" using r by (auto simp: stream_reads_def)
  then show ?thesis using d assms(2) by (auto simp: dev_write_def on_dev_def on_wire_def)
qed

text \<open>The host in step with the device.\<close>

definition wire_sync :: "'o ttybus \<Rightarrow> wbu \<Rightarrow> bool" where
  "wire_sync s u \<longleftrightarrow> cw_fresh u \<and> wb_st (dev_ex u) = WB_IDLE \<and> tbl_sync s (dev_dc u) \<and>
     (m_addr_set s \<longrightarrow> m_lastaddr s AND 3 = 0 \<and> wb_addr (dev_ex u) = drop_bit 2 (m_lastaddr s)) \<and>
     m_buflen s = int (length (m_buf s))"

lemma words_next_frame:
  "length (m_buf (words_next p vs s)) = length (m_buf s)" "m_dev (words_next p vs s) = m_dev s"
  "m_addr_set (words_next p vs s) = m_addr_set s" "m_buflen (words_next p vs s) = m_buflen s"
  "m_lastaddr (words_next p vs s) = m_lastaddr s + (if p then 4 * of_nat (length vs) else 0)"
  unfolding words_next_def
  by (induction vs arbitrary: s) (auto simp: algebra_simps word_next_def Let_def)

lemma chunk_sent:
  fixes fin p :: bool
  assumes q: "quiet_os os pend sent" and idle: "on_wire pend s = []" and fuel: "0 < fuel"
    and b: "buf_after cs0 s s" and w: "0 \<le> m_wraddr s \<and> m_wraddr s < 256" and v: "vs \<noteq> []"
    and room: "length cs0 + 6 * length vs + 2 \<le> length (m_buf s)"
  defines "out \<equiv> map sixchar (cs0 @ words_codes p vs s) @ (if fin then [newline] else [])"
  shows "\<exists>b d. bindE (write_words p vs (length cs0)) (\<lambda>ptr.
      bindE (if fin then bindE (putbuf ptr [newline]) (\<lambda>_. returnE (ptr + 1)) else returnE ptr) (\<lambda>ptr.
      bindE (putbuf ptr [0]) (\<lambda>_. bindE (dev_write os ptr) (\<lambda>_. bindE (readidle fuel os) (\<lambda>_. k)))) ) s
    = k ((words_next p vs s)\<lparr>m_buf := b, m_dev := d\<rparr>) \<and> length b = length (m_buf s) \<and>
    sent (ll_os d) = on_wire sent s @ out \<and> pend (ll_os d) = []"
proof -
  let ?cs = "cs0 @ words_codes p vs s" and ?s = "words_next p vs s"
  let ?nl = "if fin then [newline] else []"
  obtain s1 where s1: "write_words p vs (length cs0) s = (Inr (length ?cs), s1)" "buf_after ?cs ?s s1"
    using write_words_ok [OF b w, of vs p] room by auto
  have len: "length ?cs + 2 \<le> length (m_buf s)" using words_codes_len [of p vs s] room by simp
  obtain b1 where b1: "s1 = ?s\<lparr>m_buf := b1\<rparr>" "length b1 = length (m_buf s)" "take (length ?cs) b1 = map sixchar ?cs"
    using s1(2) by (auto simp: buf_after_def words_next_frame)
  obtain b2 where b2: "(if fin then bindE (putbuf (length ?cs) [newline]) (\<lambda>_. returnE (length ?cs + 1)) else returnE (length ?cs)) s1
      = (Inr (length out), ?s\<lparr>m_buf := b2\<rparr>)" "length b2 = length (m_buf s)" "take (length out) b2 = out"
    using len b1 putbuf_ok [of "length ?cs" "[newline]" s1]
    by (cases fin) (auto simp: bindE_def returnE_def out_def)
  have "length out < length b2" using len b2(2) by (auto simp: out_def)
  then obtain b3 where b3: "putbuf (length out) [0] (?s\<lparr>m_buf := b2\<rparr>) = (Inr (), ?s\<lparr>m_buf := b3\<rparr>)"
    "length b3 = length (m_buf s)" "take (length out) b3 = out"
    using b2(2,3) putbuf_ok [of "length out" "[0]" "?s\<lparr>m_buf := b2\<rparr>"] by auto
  have ne: "out \<noteq> []" using v word_codes_ne by (cases vs) (auto simp: out_def)
  obtain d1 where d1: "dev_write os (length out) (?s\<lparr>m_buf := b3\<rparr>) = (Inr (), ?s\<lparr>m_buf := b3, m_dev := d1\<rparr>)"
    "sent (ll_os d1) = on_wire sent s @ out" "pend (ll_os d1) = []"
    using dev_write_ok [OF q _ ne, of "length out" "?s\<lparr>m_buf := b3\<rparr>"] b3(3) idle
    by (auto simp: on_wire_def words_next_frame)
  obtain d2 where d2: "readidle fuel os (?s\<lparr>m_buf := b3, m_dev := d1\<rparr>) = (Inr (), ?s\<lparr>m_buf := b3, m_dev := d2\<rparr>)"
    "sent (ll_os d2) = on_wire sent s @ out" "pend (ll_os d2) = []"
    using readidle_quiet [OF q _ fuel, of "?s\<lparr>m_buf := b3, m_dev := d1\<rparr>"] d1(2,3) by (auto simp: on_wire_def)
  show ?thesis
    using b3(2) d2(2,3) by (intro exI [of _ b3] exI [of _ d2])
      (simp only: bindE_Inr s1(1) b2(1) b3(1) d1(1) d2(1))
qed

lemma tbl_sync_cong:
  "m_wraddr s' = m_wraddr s \<Longrightarrow> m_wrloaded s' = m_wrloaded s \<Longrightarrow> m_writetbl s' = m_writetbl s \<Longrightarrow>
   tbl_sync s' d = tbl_sync s d"
  by (simp add: tbl_sync_def)

lemma words_next_append: "words_next p (xs @ ys) s = words_next p ys (words_next p xs s)"
  by (simp add: words_next_def)

text \<open>The characters on the wire have seven bits.\<close>

definition ascii :: "byte list \<Rightarrow> bool" where
  "ascii bs = list_all (\<lambda>b. b < 0x80) bs"

lemma ascii_append [simp]: "ascii (xs @ ys) \<longleftrightarrow> ascii xs \<and> ascii ys"
  by (simp add: ascii_def)

lemma ascii_sixchar [simp]: "ascii (map sixchar cs)" "ascii [newline]" "ascii []"
proof -
  have "sixchar v < 0x80" for v
    by (simp add: word_less_nat_alt sixchar_nat)
  then show "ascii (map sixchar cs)" by (simp add: ascii_def list_all_iff)
qed (simp_all add: ascii_def)

lemma write_chunks_sent:
  assumes q: "quiet_os os pend sent" and fuel: "0 < fuel" and v: "vals \<noteq> []"
    and idle: "on_wire pend s = []" and b: "buf_after cs0 s s" and t: "tbl_sync s (dev_dc u)" and d: "dev_at p wa u"
    and room: "length cs0 + 6 * length vals + 2 \<le> length (m_buf s)"
  shows "\<exists>s' bs u'. write_chunks fuel os p vals (length cs0) s = (Inr (), s') \<and>
     on_wire sent s' = on_wire sent s @ map sixchar cs0 @ bs \<and> on_wire pend s' = [] \<and>
     ascii bs \<and> wbu_run bs u = (wr_events p wa vals, u') \<and>
     tbl_sync s' (dev_dc u') \<and> dev_at p (wa + (if p then of_nat (length vals) else 0)) u' \<and>
     wb_st (dev_ex u') = WB_IDLE \<and>
     length (m_buf s') = length (m_buf s) \<and> m_buflen s' = m_buflen s \<and> m_addr_set s' = m_addr_set s \<and>
     m_lastaddr s' = m_lastaddr s + (if p then 4 * of_nat (length vals) else 0)"
  using v idle b t d room
proof (induction "length vals" arbitrary: vals s cs0 u wa rule: less_induct)
  case less
  define ln where "ln = (if length vals > MAXWRLEN then MAXWRLEN else length vals)"
  let ?xs = "take ln vals" and ?ys = "drop ln vals" and ?fin = "ln = length vals"
  have ln: "0 < ln" "ln \<le> length vals" "length ?xs = ln" using less.prems(1) by (auto simp: ln_def MAXWRLEN_def)
  then have xs: "?xs \<noteq> []" by auto
  let ?s = "words_next p ?xs s"
  let ?out = "map sixchar (words_codes p ?xs s) @ (if ?fin then [newline] else [])"
  let ?k = "write_chunks fuel os p ?ys 0"
  have wr: "0 \<le> m_wraddr s \<and> m_wraddr s < 256" using wraddr_range [OF less.prems(4)] .
  have room: "length cs0 + 6 * length ?xs + 2 \<le> length (m_buf s)" using less.prems(6) ln by simp
  obtain b e where be: "write_chunks fuel os p vals (length cs0) s = ?k (?s\<lparr>m_buf := b, m_dev := e\<rparr>)"
    "length b = length (m_buf s)" "sent (ll_os e) = on_wire sent s @ map sixchar cs0 @ ?out" "pend (ll_os e) = []"
    using chunk_sent [OF q less.prems(2) fuel less.prems(3) wr xs room, where fin = ?fin and p = p and k = ?k] less.prems(1)
    by (auto simp: write_chunks.simps [of fuel os p vals] ln_def [symmetric] Let_def)
  let ?s1 = "?s\<lparr>m_buf := b, m_dev := e\<rparr>"
  obtain u1 where u1: "wbu_run (map sixchar (words_codes p ?xs s)) u = (wr_events p wa ?xs, u1)"
    "tbl_sync ?s (dev_dc u1)" "dev_at p (wa + (if p then of_nat ln else 0)) u1"
    "wb_st (dev_ex u1) = WB_WAIT_ON_NEXT_WRITE" "lastcw (dev_cw u1) = 1"
    using words_dev [OF less.prems(4,5) xs] unfolding ln(3) by blast
  have t1: "tbl_sync ?s1 d = tbl_sync ?s d" for d by (rule tbl_sync_cong) simp_all
  show ?case
  proof (cases ?fin)
    case True
    obtain u2 where u2: "wbu_run [newline] u1 = ([], u2)" "tbl_sync ?s (dev_dc u2)"
      "dev_at p (wa + (if p then of_nat ln else 0)) u2" "wb_st (dev_ex u2) = WB_IDLE"
      using newline_dev [OF u1(2-5), where q = p] by blast
    have "wbu_run ?out u = (wr_events p wa vals, u2)"
      using True u1(1) u2(1) by (simp add: wbu_run_append del: wbu_run.simps)
    moreover have "?k ?s1 = (Inr (), ?s1)" using True by (simp add: write_chunks.simps returnE_def)
    moreover have "ascii ?out" by simp
    ultimately show ?thesis using be u2(2-4) t1 True ln(3)
      by (intro exI [of _ ?s1] exI [of _ ?out] exI [of _ u2])
        (auto simp: on_wire_def words_next_frame)
  next
    case False
    have ys: "?ys \<noteq> []" "length ?ys < length vals" using False ln by auto
    have "length ([]::nat list) + 6 * length ?ys + 2 \<le> length (m_buf ?s1)" using less.prems(6) be(2) by simp
    from less.hyps [OF ys(2,1), of ?s1 "[]" u1 "wa + (if p then of_nat ln else 0)"] this be(4) u1(2,3) t1
    obtain s' bs u' where r: "?k ?s1 = (Inr (), s')" "on_wire sent s' = on_wire sent ?s1 @ bs" "on_wire pend s' = []"
      "wbu_run bs u1 = (wr_events p (wa + (if p then of_nat ln else 0)) ?ys, u')"
      "tbl_sync s' (dev_dc u')" "dev_at p (wa + (if p then of_nat ln else 0) + (if p then of_nat (length ?ys) else 0)) u'"
      "wb_st (dev_ex u') = WB_IDLE" "length (m_buf s') = length (m_buf ?s1)" "m_buflen s' = m_buflen ?s1"
      "m_addr_set s' = m_addr_set ?s1" "m_lastaddr s' = m_lastaddr ?s1 + (if p then 4 * of_nat (length ?ys) else 0)" "ascii bs"
      by (auto simp: on_wire_def)
    have n: "(of_nat ln + of_nat (length ?ys) :: busw) = of_nat (length vals)"
      using ln(2) by (simp flip: of_nat_add)
    have ev: "wr_events p wa vals = wr_events p wa ?xs @ wr_events p (wa + (if p then of_nat ln else 0)) ?ys"
      using wr_events_append [of p wa ?xs ?ys] ln(3) by simp
    have run: "wbu_run (?out @ bs) u = (wr_events p wa vals, u')"
      using False u1(1) r(4) by (simp add: wbu_run_append ev)
    have at: "wa + (if p then of_nat ln else 0) + (if p then of_nat (length ?ys) else 0) = wa + (if p then of_nat (length vals) else 0)"
      unfolding n [symmetric] by simp
    have la: "m_lastaddr ?s1 + (if p then 4 * of_nat (length ?ys) else 0) = m_lastaddr s + (if p then 4 * of_nat (length vals) else 0)"
      unfolding n [symmetric] using ln(3) by (simp add: words_next_frame algebra_simps)
    show ?thesis
      using be(1-3) r(1-3,5,7-10,12) run r(6) [unfolded at] r(11) [unfolded la]
      by (intro exI [of _ s'] exI [of _ "?out @ bs"] exI [of _ u'])
        (simp add: words_next_frame on_wire_def)
  qed
qed

subsection \<open>The buffer\<close>

lemma bufalloc_size: "n < (n AND (-63)) + 64" for n :: int
proof -
  have "n = (n AND 62) OR (n AND (-63))" by (intro bit_eqI) (auto simp: bit_simps simp flip: not_numeral_eq)
  moreover have "(n AND 62) AND (n AND (-63)) = 0"
    by (simp add: ac_simps) 
  ultimately have "n = (n AND 62) + (n AND (-63))" by (metis disjunctive_add_eq_or)
  moreover have "n AND 62 \<le> 62" using AND_upper2 [of 62 n] by simp
  ultimately show ?thesis by linarith
qed

lemma bufalloc_room:
  assumes "m_buflen s = int (length (m_buf s))" and "0 \<le> n"
  shows "n \<le> int (length (m_buf (bufalloc n s)))" "m_buflen (bufalloc n s) = int (length (m_buf (bufalloc n s)))"
proof -
  have "0 \<le> (n AND (-63)) + 64" using bufalloc_size [of n] assms(2) by linarith
  then show "n \<le> int (length (m_buf (bufalloc n s)))" "m_buflen (bufalloc n s) = int (length (m_buf (bufalloc n s)))"
    using assms bufalloc_size [of n] by (auto simp: bufalloc_def Let_def)
qed

lemma bufalloc_frame [simp]:
  "m_dev (bufalloc n s) = m_dev s" "m_addr_set (bufalloc n s) = m_addr_set s"
  "m_lastaddr (bufalloc n s) = m_lastaddr s" "m_wraddr (bufalloc n s) = m_wraddr s"
  "m_wrloaded (bufalloc n s) = m_wrloaded s" "m_writetbl (bufalloc n s) = m_writetbl s"
  by (simp_all add: bufalloc_def Let_def)

lemma wr_events_map:
  "wr_events p wa vals = map (\<lambda>i. WbWrite (wa + (if p then of_nat i else 0)) (vals ! i)) [0..<length vals]"
proof (induction vals arbitrary: wa)
  case (Cons v vs)
  have "[0..<length (v # vs)] = 0 # map Suc [0..<length vs]" by (simp add: upt_conv_Cons map_Suc_upt del: upt_Suc)
  then show ?case using Cons [of "wa + (if p then 1 else 0)"] by (simp add: comp_def algebra_simps cong: if_cong)
qed simp

lemma drop_bit2_add:
  assumes "a AND 3 = 0" and "unat a + 4 * n < 2 ^ 32"
  shows "drop_bit 2 (a + 4 * of_nat n) = drop_bit 2 a + (of_nat n :: busw)" "(a + 4 * of_nat n) AND 3 = (0 :: busw)"
proof -
  have m: "unat a mod 4 = 0" using assms(1) unat_and_3 [of a] by (simp del: unat_and_3)
  have u: "unat (a + 4 * of_nat n) = unat a + 4 * n"
  proof -
    have "a + 4 * of_nat n = of_nat (unat a + 4 * n)" by simp
    then show ?thesis using assms(2) by (simp add: unat_of_nat_lt del: of_nat_add of_nat_mult)
  qed
  have "unat a div 4 + n = unat (a + 4 * of_nat n) div 4" unfolding u by simp
  then show "drop_bit 2 (a + 4 * of_nat n) = drop_bit 2 a + (of_nat n :: busw)"
    unfolding drop_bit2_nat by (metis of_nat_add)
  have "unat ((a + 4 * of_nat n) AND 3) = 0" using m unfolding unat_and_3 u by simp
  then show "(a + 4 * of_nat n) AND 3 = (0 :: busw)" by (simp add: unsigned_eq_0_iff del: unat_and_3)
qed

lemma writev_sent:
  assumes q: "quiet_os os pend sent" and idle: "on_wire pend s = []" and fuel: "0 < fuel"
    and sy: "wire_sync s u" and a: "a AND 3 = 0" and v: "vals \<noteq> []"
    and top: "p \<longrightarrow> unat a + 4 * length vals < 2 ^ 32"
  shows "\<exists>s' bs u'. writev fuel os a p vals s = (Inr (), s') \<and>
     on_wire sent s' = on_wire sent s @ bs \<and> on_wire pend s' = [] \<and>
     ascii bs \<and> wbu_run bs u = (wr_events p (drop_bit 2 a) vals, u') \<and> wire_sync s' u'"
proof -
  define s0 where "s0 = bufalloc (int (length vals + 2) * 6) s"
  let ?cs = "addr_codes (m_addr_set s) (m_lastaddr s) a"
  have f0: "m_dev s0 = m_dev s" "m_addr_set s0 = m_addr_set s" "m_lastaddr s0 = m_lastaddr s"
    and t0: "tbl_sync s0 d = tbl_sync s d" for d
    by (simp_all add: s0_def tbl_sync_def)
  have room: "6 * length vals + 12 \<le> length (m_buf s0)" and bl: "m_buflen s0 = int (length (m_buf s0))"
    using bufalloc_room [of s "int (length vals + 2) * 6"] sy by (auto simp: s0_def wire_sync_def)
  obtain s1 where s1: "encode_address a s0 = (Inr (length ?cs), s1)" "buf_after ?cs (addr_next a s0) s1"
    using encode_address_ok [OF a, of s0] room f0 by auto
  obtain u1 where u1: "wbu_run (map sixchar ?cs) u = ([], u1)" "tbl_sync s (dev_dc u1)"
    "dev_at p (drop_bit 2 a) u1" "wb_st (dev_ex u1) = WB_IDLE"
    using addr_dev [of s u p "m_addr_set s" "m_lastaddr s" a] sy a by (auto simp: wire_sync_def dev_at_def)
  define s2 where "s2 = s1\<lparr>m_lastaddr := a, m_addr_set := True\<rparr>"
  have b2: "buf_after ?cs s2 s2" "length (m_buf s2) = length (m_buf s0)" "m_buflen s2 = m_buflen s0"
    "on_wire pend s2 = []" "on_wire sent s2 = on_wire sent s" "tbl_sync s2 d = tbl_sync s d" for d
  proof -
    obtain bb where bb: "s1 = (addr_next a s0)\<lparr>m_buf := bb\<rparr>" "length bb = length (m_buf s0)"
      "take (length ?cs) bb = map sixchar ?cs"
      using s1(2) by (auto simp: buf_after_def addr_next_def split: if_splits)
    have "s2 = s2\<lparr>m_buf := bb\<rparr>" "m_buf s2 = bb" by (simp_all add: s2_def bb(1))
    then show "buf_after ?cs s2 s2" unfolding buf_after_def using bb(3) by metis
    show "length (m_buf s2) = length (m_buf s0)" "m_buflen s2 = m_buflen s0" "on_wire pend s2 = []"
      "on_wire sent s2 = on_wire sent s" "tbl_sync s2 d = tbl_sync s d"
      using idle f0 t0 [of d] bb(2)
      by (simp_all add: s2_def bb(1) on_wire_def addr_next_def tbl_sync_def split: if_split)
  qed
  have "length ?cs + 6 * length vals + 2 \<le> length (m_buf s2)"
    using room addr_codes_bound [of "m_addr_set s" "m_lastaddr s" a] b2(2) by simp
  from write_chunks_sent [OF q fuel v b2(4,1) u1(2) [folded b2(6)] u1(3) this]
  obtain s3 bs u3 where s3: "write_chunks fuel os p vals (length ?cs) s2 = (Inr (), s3)"
    "on_wire sent s3 = on_wire sent s2 @ map sixchar ?cs @ bs" "on_wire pend s3 = []"
    "wbu_run bs u1 = (wr_events p (drop_bit 2 a) vals, u3)" "tbl_sync s3 (dev_dc u3)"
    "dev_at p (drop_bit 2 a + (if p then of_nat (length vals) else 0)) u3" "wb_st (dev_ex u3) = WB_IDLE"
    "length (m_buf s3) = length (m_buf s2)" "m_buflen s3 = m_buflen s2" "m_addr_set s3 = m_addr_set s2"
    "m_lastaddr s3 = m_lastaddr s2 + (if p then 4 * of_nat (length vals) else 0)" "ascii bs" by blast
  obtain d4 where d4: "readidle fuel os s3 = (Inr (), s3\<lparr>m_dev := d4\<rparr>)"
    "on_wire sent (s3\<lparr>m_dev := d4\<rparr>) = on_wire sent s3" "on_wire pend (s3\<lparr>m_dev := d4\<rparr>) = []"
    using readidle_quiet [OF q s3(3) fuel] by blast
  have w: "writev fuel os a p vals s = (Inr (), s3\<lparr>m_dev := d4\<rparr>)"
    using s1(1) s3(1) d4(1) unfolding writev_def bindE_def modifyE_def s0_def [symmetric] s2_def by simp
  have la: "m_lastaddr s3 = a + (if p then 4 * of_nat (length vals) else 0)" using s3(11) by (simp add: s2_def)
  have al: "m_lastaddr s3 AND 3 = 0 \<and> drop_bit 2 (m_lastaddr s3) = drop_bit 2 a + (if p then of_nat (length vals) else 0)"
    using drop_bit2_add [OF a, of "length vals"] top a by (auto simp: la)
  have "wire_sync (s3\<lparr>m_dev := d4\<rparr>) u3"
    using s3(5,6,7,8,9) al b2 bl by (simp add: wire_sync_def tbl_sync_def dev_at_def)
  moreover have "wbu_run (map sixchar ?cs @ bs) u = (wr_events p (drop_bit 2 a) vals, u3)"
    using u1(1) s3(4) by (simp add: wbu_run_append)
  ultimately show ?thesis using w s3(2,12) d4(2,3) b2(5)
    by (intro exI [of _ "s3\<lparr>m_dev := d4\<rparr>"] exI [of _ "map sixchar ?cs @ bs"] exI [of _ u3]) simp
qed

subsection \<open>Properties\<close>

text \<open>C3: a write of any number of words, but for none, to an aligned address and not past the end of the address space returns, and, as long as nothing
  comes back on the line (what the design would answer to the writes is not part of it), the characters it sends make the FPGA perform exactly those writes, in order, at consecutive word addresses
  (or all at one address when the pointer is not stepped), with every compressed word
  decompressed to the value that was meant. Both ends are then in step for the next command.\<close>

theorem writev_performs_writes:
  assumes "quiet_os os pend sent" and "on_wire pend s = []" and "0 < fuel"
    and "wire_sync s u" and "a AND 3 = 0" and "vals \<noteq> []"
    and "p \<longrightarrow> unat a + 4 * length vals < 2 ^ 32"
  shows "\<exists>s' bs u'. writev fuel os a p vals s = (Inr (), s') \<and>
     on_wire sent s' = on_wire sent s @ bs \<and> on_wire pend s' = [] \<and>
     wbu_run bs u =
       (map (\<lambda>i. WbWrite (drop_bit 2 a + (if p then of_nat i else 0)) (vals ! i)) [0..<length vals], u') \<and>
     wire_sync s' u'"
  using writev_sent [OF assms] unfolding wr_events_map by blast

definition wbu_reset :: wbu where
  "wbu_reset = \<lparr>dev_cw = readcw_init, dev_dc = \<lparr>wr_addr = 0, compression_tbl = (\<lambda>_. 0)\<rparr>,
     dev_ex = \<lparr>wb_addr = 0, wb_st = WB_IDLE, r_inc = False\<rparr>\<rparr>"

lemma init_sync: "length wt = 512 \<Longrightarrow> wire_sync (ttybus_init dev la rt wt) wbu_reset"
  by (auto simp: wire_sync_def ttybus_init_def wbu_reset_def cw_fresh_def tbl_sync_def readcw_init_def
      bufalloc_def Let_def)

lemma list_os_quiet: "quiet_os list_os fst snd"
  by (simp add: quiet_os_def list_os_reads list_os_writes list_os_polls)

theorem writev_performs_writes_witness:
  "\<exists>s' u'. writev 1 list_os 0x1000 True [7, 7, 9]
      (ttybus_init (LLCOMMSI ([], [])) 0 [] (replicate 512 0)) = (Inr (), s') \<and>
     wbu_run (on_wire snd s') wbu_reset = ([WbWrite 0x400 7, WbWrite 0x401 7, WbWrite 0x402 9], u')"
proof -
  let ?s = "ttybus_init (LLCOMMSI ([], [])) 0 [] (replicate 512 0)"
  have w: "on_wire fst ?s = []" "on_wire snd ?s = []"
    by (simp_all add: on_wire_def ttybus_init_def LLCOMMSI_def)
  have "(0x1000 :: busw) AND 3 = 0" by simp
  from writev_performs_writes [OF list_os_quiet w(1) _ init_sync this, of 1 "[7, 7, 9]" True]
  show ?thesis by (auto simp: w(2))
qed

text \<open>A sequence of write requests \<open>(address, step, words)\<close> made one after the other.\<close>

fun write_all :: "nat \<Rightarrow> 'o os_ops \<Rightarrow> (busw \<times> bool \<times> busw list) list \<Rightarrow> ('o ttybus, unit) call" where
  "write_all fuel os [] = returnE ()"
| "write_all fuel os ((a, p, vals) # rs) =
     bindE (writev fuel os a p vals) (\<lambda>_. write_all fuel os rs)"

fun good_request :: "busw \<times> bool \<times> busw list \<Rightarrow> bool" where
  "good_request (a, p, vals) \<longleftrightarrow> a AND 3 = 0 \<and> vals \<noteq> [] \<and> (p \<longrightarrow> unat a + 4 * length vals < 2 ^ 32)"

fun request_events :: "busw \<times> bool \<times> busw list \<Rightarrow> wb_event list" where
  "request_events (a, p, vals) = wr_events p (drop_bit 2 a) vals"

lemma write_all_sent:
  assumes "quiet_os os pend sent" and "0 < fuel"
  shows "on_wire pend s = [] \<Longrightarrow> wire_sync s u \<Longrightarrow> list_all good_request rs \<Longrightarrow>
    \<exists>s' bs u'. write_all fuel os rs s = (Inr (), s') \<and> on_wire sent s' = on_wire sent s @ bs \<and> ascii bs \<and>
      wbu_run bs u = (concat (map request_events rs), u') \<and> wire_sync s' u'"
proof (induction rs arbitrary: s u)
  case Nil then show ?case by (auto simp: returnE_def)
next
  case (Cons r rs)
  obtain a p vals where r: "r = (a, p, vals)" by (cases r) auto
  obtain s1 bs1 u1 where s1: "writev fuel os a p vals s = (Inr (), s1)" "on_wire sent s1 = on_wire sent s @ bs1"
    "on_wire pend s1 = []" "wbu_run bs1 u = (wr_events p (drop_bit 2 a) vals, u1)" "wire_sync s1 u1" "ascii bs1"
    using writev_sent [OF assms(1) Cons.prems(1) assms(2) Cons.prems(2), of a vals p] Cons.prems(3) by (auto simp: r)
  obtain s2 bs2 u2 where s2: "write_all fuel os rs s1 = (Inr (), s2)" "on_wire sent s2 = on_wire sent s1 @ bs2"
      "wbu_run bs2 u1 = (concat (map request_events rs), u2)" "wire_sync s2 u2" "ascii bs2"
    using Cons.IH [OF s1(3,5)] Cons.prems(3) by auto
  have "wbu_run (bs1 @ bs2) u = (concat (map request_events (r # rs)), u2)"
    using s1(4) s2(3) by (simp add: wbu_run_append r)
  then show ?case using s1 s2 by (auto simp: r bindE_Inr)
qed

text \<open>The same for a sequence of such writes from power-up, whatever the tables of the two ends have learned meanwhile.\<close>

lemma write_sequence_from_reset:
  assumes "quiet_os os pend sent" and "0 < fuel" and "list_all good_request rs" and "length wt = 512"
    and "pend (ll_os dev) = []" and "sent (ll_os dev) = []"
  shows "\<exists>s' u'. write_all fuel os rs (ttybus_init dev la rt wt) = (Inr (), s') \<and>
      wbu_run (on_wire sent s') wbu_reset = (concat (map request_events rs), u') \<and> wire_sync s' u'"
  using write_all_sent [OF assms(1,2) _ init_sync [OF assms(4)] assms(3), of dev la rt] assms(5,6)
  by (auto simp: on_wire_def ttybus_init_def)

lemma write_sequence_from_reset_witness:
  "\<exists>s' u'. write_all 1 list_os [(8, False, [1, 1]), (0x40, True, [2, 1])]
      (ttybus_init (LLCOMMSI ([], [])) 0 [] (replicate 512 0)) = (Inr (), s') \<and>
      wbu_run (on_wire snd s') wbu_reset = ([WbWrite 2 1, WbWrite 2 1, WbWrite 0x10 2, WbWrite 0x11 1], u')"
  using write_sequence_from_reset [OF list_os_quiet, of 1 "[(8, False, [1, 1]), (0x40, True, [2, 1])]"
    "replicate 512 0" "LLCOMMSI ([], [])" 0 "[]"]
  by (auto simp: LLCOMMSI_def)

end
