(* ===== verification/TtyRead.thy ===== *)
theory TtyRead
  imports TtyWrite
begin

text \<open>
  Reading over the debugging bus: the receiving loops of \<open>TTYBUS\<close> under a transport that
  may deliver the characters in pieces of any size, the read commands as the FPGA decodes
  them, and the error paths of the interface.
\<close>

subsection \<open>Receiving characters from a stream\<close>

text \<open>Receiving changes the transport, the count and the buffer only.\<close>

definition rd_frame :: "'o ttybus \<Rightarrow> 'o ttybus \<Rightarrow> bool" where
  "rd_frame s s' \<longleftrightarrow> (\<exists>d n b. s' = s\<lparr>m_dev := d, m_total_nread := n, m_buf := b\<rparr> \<and> length b = length (m_buf s))"

lemma rd_frame_trans: "rd_frame s s' \<Longrightarrow> rd_frame s' s'' \<Longrightarrow> rd_frame s s''"
  unfolding rd_frame_def by fastforce

lemma rd_frame_refl [simp]: "rd_frame s s"
  unfolding rd_frame_def
  by (rule exI [of _ "m_dev s"], rule exI [of _ "m_total_nread s"], rule exI [of _ "m_buf s"]) simp

lemma rd_frameD: "rd_frame s s' \<Longrightarrow> length (m_buf s') = length (m_buf s)"
  "rd_frame s s' \<Longrightarrow> m_rdaddr s' = m_rdaddr s" "rd_frame s s' \<Longrightarrow> m_readtbl s' = m_readtbl s"
  "rd_frame s s' \<Longrightarrow> m_lastaddr s' = m_lastaddr s" "rd_frame s s' \<Longrightarrow> m_addr_set s' = m_addr_set s"
  by (auto simp: rd_frame_def)

lemma lcl_loop_valid:
  assumes "list_all (\<lambda>b. chardec b AND NOT 0x3f = 0) buf" and "sp + k \<le> length buf"
  shows "lcl_loop k buf sp sp ret = (buf, ret)"
  using assms(2)
proof (induction k arbitrary: sp)
  case (Suc k)
  then have "chardec (buf ! sp) AND NOT 0x3f = 0" using assms(1) by (simp add: list_all_length)
  with Suc show ?case by simp
qed simp

lemma lclreadcode_ok:
  assumes "stream_reads os pend" and "0 < n" and "off + n \<le> length (m_buf s)" and "on_wire pend s \<noteq> []"
  obtains bs s' where "lclreadcode os off n s = (Inr (snd (lcl_loop (length bs) bs 0 0 (int (length bs)))), s')"
    "bs \<noteq> []" "length bs \<le> n" "on_wire pend s = bs @ on_wire pend s'" "rd_frame s s'"
    "list_all (\<lambda>b. chardec b AND NOT 0x3f = 0) bs \<Longrightarrow>
       m_buf s' = take off (m_buf s) @ bs @ drop (off + length bs) (m_buf s)"
proof -
  obtain bs d where r: "ll_read os n (m_dev s) = (Inr bs, d)" "bs \<noteq> []" "length bs \<le> n"
    "pend (ll_os (m_dev s)) = bs @ pend (ll_os d)"
    using ll_read_stream [OF assms(1,2)] assms(4) unfolding on_wire_def by metis
  have ll: "length (fst (lcl_loop k b sp dp r)) = length b" for k b sp dp r
    by (induction k arbitrary: b sp dp r) auto
  obtain b ret where l: "lcl_loop (length bs) bs 0 0 (int (length bs)) = (b, ret)" by fastforce
  have lb: "length b = length bs" using ll [of "length bs" bs 0 0 "int (length bs)"] l by simp
  let ?s = "s\<lparr>m_dev := d, m_total_nread := m_total_nread s + of_nat (length bs)\<rparr>"
  let ?b = "take off (m_buf s) @ b @ drop (off + length bs) (m_buf s)"
  have "lclreadcode os off n s = (Inr ret, ?s\<lparr>m_buf := ?b\<rparr>)"
    using r assms(3) lb
    by (simp add: lclreadcode_def bindE_def on_dev_def modifyE_def l putbuf_ok returnE_def)
  moreover have "rd_frame s (?s\<lparr>m_buf := ?b\<rparr>)" unfolding rd_frame_def
    using r(3) lb assms(3)
    by (intro exI [of _ d] exI [of _ "m_total_nread s + of_nat (length bs)"] exI [of _ ?b]) simp
  moreover have "b = bs" if "list_all (\<lambda>b. chardec b AND NOT 0x3f = 0) bs"
    using lcl_loop_valid [OF that, of 0 "length bs" "int (length bs)"] l by simp
  ultimately show thesis using that [of bs "?s\<lparr>m_buf := ?b\<rparr>"] r l by (simp add: on_wire_def)
qed

lemma sixchars_valid: "\<forall>c \<in> set cs. c < 64 \<Longrightarrow> list_all (\<lambda>b. chardec b AND NOT 0x3f = 0) (map sixchar cs)"
  unfolding list_all_iff chardec_valid_iff by auto

lemma fill_code_ok:
  assumes "stream_reads os pend"
  shows "on_wire pend s = map sixchar cs @ rest \<Longrightarrow> cs \<noteq> [] \<Longrightarrow> \<forall>c \<in> set cs. c < 64 \<Longrightarrow>
    nr + length cs \<le> length (m_buf s) \<Longrightarrow> length cs \<le> fuel \<Longrightarrow>
    \<exists>s'. fill_code fuel os (int (nr + length cs)) (int nr) s = (Inr (int (nr + length cs)), s') \<and> rd_frame s s' \<and>
      take (nr + length cs) (m_buf s') = take nr (m_buf s) @ map sixchar cs \<and> on_wire pend s' = rest"
proof (induction "length cs" arbitrary: cs nr s fuel rule: less_induct)
  case less
  let ?n = "length cs"
  obtain f where f: "fuel = Suc f" using less.prems(2,5) by (cases fuel) auto
  have n: "0 < ?n" "on_wire pend s \<noteq> []" using less.prems(1,2) by auto
  obtain bs s1 where s1: "lclreadcode os nr ?n s = (Inr (snd (lcl_loop (length bs) bs 0 0 (int (length bs)))), s1)"
    "bs \<noteq> []" "length bs \<le> ?n" "on_wire pend s = bs @ on_wire pend s1" "rd_frame s s1"
    "list_all (\<lambda>b. chardec b AND NOT 0x3f = 0) bs \<Longrightarrow>
       m_buf s1 = take nr (m_buf s) @ bs @ drop (nr + length bs) (m_buf s)"
    using lclreadcode_ok [OF assms n(1) less.prems(4) n(2)] by blast
  define m where "m = length bs"
  let ?xs = "take m cs" and ?ys = "drop m cs"
  have eq: "bs @ on_wire pend s1 = map sixchar cs @ rest" using s1(4) less.prems(1) by simp
  have bs: "bs = map sixchar ?xs" "on_wire pend s1 = map sixchar ?ys @ rest"
    using arg_cong [OF eq, of "take m"] arg_cong [OF eq, of "drop m"] s1(3)
    by (simp_all add: take_map drop_map m_def)
  have v: "list_all (\<lambda>b. chardec b AND NOT 0x3f = 0) bs"
    unfolding bs(1) using less.prems(3) by (intro sixchars_valid) (auto dest: in_set_takeD)
  have lc: "lclreadcode os nr ?n s = (Inr (int m), s1)"
    using s1(1) lcl_loop_valid [OF v, of 0 "length bs"] by (simp add: m_def)
  have b1: "m_buf s1 = take nr (m_buf s) @ bs @ drop (nr + m) (m_buf s)" unfolding m_def by (rule s1(6) [OF v])
  have m: "m \<le> ?n" "0 < m" "length bs = m" using s1(2,3) by (auto simp: m_def)
  have l1: "length (m_buf s1) = length (m_buf s)" using s1(5) by (rule rd_frameD)
  show ?case
  proof (cases "?ys = []")
    case True
    then have e: "m = ?n" using m by simp
    have "fill_code fuel os (int (nr + ?n)) (int nr) s = (Inr (int (nr + ?n)), s1)"
      using lc e by (simp add: f bindE_def returnE_def)
    moreover have "take (nr + ?n) (m_buf s1) = take nr (m_buf s) @ map sixchar cs"
      using b1 e bs(1) less.prems(4) m by simp
    ultimately show ?thesis using s1(5) bs(2) True by auto
  next
    case False
    then have lt: "m < ?n" using m by auto
    have y: "length ?ys < ?n" "nr + m + length ?ys = nr + ?n" using m by auto
    from less.hyps [OF y(1) bs(2) False, of "nr + m" f] less.prems(3-5) y l1 f m
    obtain s2 where s2: "fill_code f os (int (nr + ?n)) (int (nr + m)) s1 = (Inr (int (nr + ?n)), s2)"
      "rd_frame s1 s2" "take (nr + ?n) (m_buf s2) = take (nr + m) (m_buf s1) @ map sixchar ?ys" "on_wire pend s2 = rest"
      by (auto dest: in_set_dropD simp: Suc_le_eq)
    have "fill_code fuel os (int (nr + ?n)) (int nr) s = fill_code f os (int (nr + ?n)) (int (nr + m)) s1"
      using lc lt by (simp add: f bindE_def)
    moreover have "take (nr + m) (m_buf s1) @ map sixchar ?ys = take nr (m_buf s) @ map sixchar cs"
      using b1 less.prems(4) bs(1) m by (simp flip: map_append)
    ultimately show ?thesis using s2 rd_frame_trans [OF s1(5) s2(2)] by auto
  qed
qed

lemma lclreadcode_one:
  assumes "stream_reads os pend" and "on_wire pend s = b # rest" and "0 < length (m_buf s)"
  shows "\<exists>s'. lclreadcode os 0 1 s = (Inr (if chardec b AND NOT 0x3f = 0 then 1 else 0), s') \<and> rd_frame s s' \<and>
     on_wire pend s' = rest \<and> (chardec b AND NOT 0x3f = 0 \<longrightarrow> m_buf s' ! 0 = b)"
proof -
  have len: "0 + 1 \<le> length (m_buf s)" and ne: "on_wire pend s \<noteq> []" using assms(2,3) by (simp_all add: Suc_le_eq)
  obtain bs s' where r: "lclreadcode os 0 1 s = (Inr (snd (lcl_loop (length bs) bs 0 0 (int (length bs)))), s')"
    "bs \<noteq> []" "length bs \<le> 1" "on_wire pend s = bs @ on_wire pend s'" "rd_frame s s'"
    "list_all (\<lambda>b. chardec b AND NOT 0x3f = 0) bs \<Longrightarrow> m_buf s' = take 0 (m_buf s) @ bs @ drop (0 + length bs) (m_buf s)"
    using lclreadcode_ok [OF assms(1) zero_less_one len ne] by blast
  then obtain x where x: "bs = [x]" by (cases bs) auto
  then have b: "x = b" "on_wire pend s' = rest" using r(4) assms(2) by auto
  have "m_buf s' ! 0 = b" if "chardec b AND NOT 0x3f = 0" using r(6) that unfolding x b by simp
  then show ?thesis using r(1,5) b unfolding x by (intro exI [of _ s']) simp
qed

lemma wait_code_ok:
  assumes "stream_reads os pend"
  shows "on_wire pend s = nls @ sixchar c # rest \<Longrightarrow> \<forall>b \<in> set nls. b = newline \<Longrightarrow> c < 64 \<Longrightarrow>
    0 < length (m_buf s) \<Longrightarrow> length nls < fuel \<Longrightarrow>
    \<exists>s'. wait_code fuel os s = (Inr 1, s') \<and> rd_frame s s' \<and> on_wire pend s' = rest \<and> m_buf s' ! 0 = sixchar c"
proof (induction nls arbitrary: s fuel)
  case Nil
  then obtain f where f: "fuel = Suc f" by (cases fuel) auto
  have v: "chardec (sixchar c) AND NOT 0x3f = 0" using Nil(3) chardec_valid_iff by blast
  from lclreadcode_one [OF assms, of s "sixchar c" rest] Nil v
  obtain s' where "lclreadcode os 0 1 s = (Inr 1, s')" "rd_frame s s'" "on_wire pend s' = rest" "m_buf s' ! 0 = sixchar c"
    by auto
  then show ?case by (auto simp: f bindE_def returnE_def)
next
  case (Cons b nls)
  obtain f where f: "fuel = Suc f" using Cons.prems(5) by (cases fuel) auto
  have b: "b = newline" "chardec b AND NOT 0x3f \<noteq> 0" using Cons.prems(2) by (auto simp: chardec_newline)
  have p: "on_wire pend s = b # (nls @ sixchar c # rest)" using Cons.prems(1) by simp
  obtain s1 where s1: "lclreadcode os 0 1 s = (Inr 0, s1)" "rd_frame s s1" "on_wire pend s1 = nls @ sixchar c # rest"
    using lclreadcode_one [OF assms p Cons.prems(4)] b(2) by auto
  have "\<forall>b \<in> set nls. b = newline" "0 < length (m_buf s1)" "length nls < f"
    using Cons.prems(2,4,5) f rd_frameD(1) [OF s1(2)] by auto
  from Cons.IH [OF s1(3) this(1) Cons.prems(3) this(2,3)]
  obtain s' where "wait_code f os s1 = (Inr 1, s')" "rd_frame s1 s'" "on_wire pend s' = rest" "m_buf s' ! 0 = sixchar c"
    by blast
  then show ?case using s1(1) rd_frame_trans [OF s1(2)] by (auto simp: f bindE_def)
qed

text \<open>Idle, busy and write-acknowledge characters and newlines between the answers.\<close>

definition idle_byte :: "byte \<Rightarrow> bool" where
  "idle_byte b \<longleftrightarrow> b = newline \<or> b = TTYC_IDLE \<or> b = TTYC_BUSY \<or> b = TTYC_WRITE"

lemma idle_byte_cases: "idle_byte b \<Longrightarrow> b = newline \<or> (\<exists>c<3. b = sixchar c)"
proof -
  have "TTYC_IDLE = sixchar 0" "TTYC_BUSY = sixchar 1" "TTYC_WRITE = sixchar 2"
    by (simp_all add: TTYC_IDLE_def TTYC_BUSY_def TTYC_WRITE_def sixchar_def)
  then show "idle_byte b \<Longrightarrow> b = newline \<or> (\<exists>c<3. b = sixchar c)"
    unfolding idle_byte_def
    by (auto intro: exI [of _ "0::nat"] exI [of _ "1::nat"] exI [of _ "2::nat"])
qed

definition data_code :: "nat \<Rightarrow> bool" where
  "data_code c \<longleftrightarrow> 6 \<le> c \<and> c < 64 \<and> c div 4 \<noteq> 2 \<and> c div 4 \<noteq> 3"

lemma small_code_bits:
  assumes "c < 64"
  shows "(of_nat c :: busw) AND NOT 0x3f = 0" "((of_nat c :: busw) < 6) = (c < 6)"
    "((of_nat c :: busw) = 3) = (c = 3)" "((of_nat c :: busw) = 4) = (c = 4)" "((of_nat c :: busw) = 5) = (c = 5)"
proof -
  have u: "unat (of_nat c :: busw) = c" using assms by (simp add: unat_of_nat_lt)
  show "(of_nat c :: busw) AND NOT 0x3f = 0" using assms by (rule of_nat_and_not_3f)
  show "((of_nat c :: busw) < 6) = (c < 6)" "((of_nat c :: busw) = 3) = (c = 3)"
    "((of_nat c :: busw) = 4) = (c = 4)" "((of_nat c :: busw) = 5) = (c = 5)"
    by (simp_all only: word_less_nat_alt word_unat_eq_iff u) simp_all
qed

lemma code_field:
  "\<forall>c \<in> set [0..<64]. (8 = (of_nat c :: busw) AND 0x3c) = (c div 4 = 2) \<and> (0xc = (of_nat c :: busw) AND 0x3c) = (c div 4 = 3) \<and>
     (6 = (of_nat c :: busw) AND 0x3e) = (c div 2 = 3) \<and> (0x10 = (of_nat c :: busw) AND 0x30) = (c div 16 = 1) \<and>
     (0x20 = (of_nat c :: busw) AND 0x30) = (c div 16 = 2) \<and> (0x38 = (of_nat c :: busw) AND 0x38) = (c div 8 = 7) \<and>
     ((of_nat c :: busw) AND 1 \<noteq> 0) = odd c"
  by (simp add: upt_rec)

lemmas code_fieldD = code_field [unfolded set_upt, THEN bspec, unfolded atLeastLessThan_iff, simplified]

lemma rw_start_step:
  assumes "wait_code f os s = (Inr 1, s1)" and "m_buf s1 ! 0 = sixchar c" and c: "c < 64" "c div 4 \<noteq> 2" "c div 4 \<noteq> 3"
    and n: "c \<noteq> 3" "c \<noteq> 4" "c \<noteq> 5"
  shows "rw_start (Suc f) os val s = (if c < 6 then rw_start f os val s1 else (Inr (of_nat c, val), s1))"
proof -
  note f = small_code_bits [OF c(1)]
  have a: "(8 = (of_nat c :: busw) AND 0x3c) = False" "(0xc = (of_nat c :: busw) AND 0x3c) = False"
    using code_fieldD [OF c(1)] c by simp_all
  have d: "bufdec s1 0 = of_nat c" using assms(2) c(1) by (simp add: bufdec_def chardec_sixchar)
  have g: "getsE (\<lambda>s. bufdec s 0) s1 = (Inr (of_nat c), s1)" by (simp add: getsE_def d)
  show ?thesis using n
    by (simp only: rw_start.simps bindE_Inr assms(1) g f a) (simp add: returnE_def)
qed

lemma rw_start_ok:
  assumes "stream_reads os pend"
  shows "on_wire pend s = idle @ sixchar c # rest \<Longrightarrow> list_all idle_byte idle \<Longrightarrow> data_code c \<Longrightarrow>
    0 < length (m_buf s) \<Longrightarrow> Suc (length idle) < fuel \<Longrightarrow>
    \<exists>s'. rw_start fuel os val s = (Inr (of_nat c, val), s') \<and> rd_frame s s' \<and> on_wire pend s' = rest \<and> m_buf s' ! 0 = sixchar c"
proof (induction "length idle" arbitrary: idle s fuel rule: less_induct)
  case less
  obtain f where f: "fuel = Suc f" using less.prems(5) by (cases fuel) auto
  define nls where "nls = takeWhile (\<lambda>b. b = newline) idle"
  define tl' where "tl' = dropWhile (\<lambda>b. b = newline) idle"
  have idle: "idle = nls @ tl'" by (simp add: nls_def tl'_def)
  have nl: "\<forall>b \<in> set nls. b = newline" by (auto simp: nls_def dest: set_takeWhileD)
  have lf: "length nls < f" using less.prems(5) f by (simp add: idle)
  have c: "c < 64" "6 \<le> c" "c div 4 \<noteq> 2" "c div 4 \<noteq> 3" using less.prems(3) by (auto simp: data_code_def)
  show ?case
  proof (cases tl')
    case Nil
    obtain s' where s': "wait_code f os s = (Inr 1, s')" "rd_frame s s'" "on_wire pend s' = rest" "m_buf s' ! 0 = sixchar c"
      using wait_code_ok [OF assms _ nl c(1) less.prems(4) lf, of rest] less.prems(1) Nil by (auto simp: idle)
    have "rw_start fuel os val s = (Inr (of_nat c, val), s')"
      using rw_start_step [OF s'(1,4) c(1,3,4)] c(2) by (simp add: f)
    then show ?thesis using s' by blast
  next
    case (Cons b bs)
    have "b \<noteq> newline" using Cons unfolding tl'_def by (simp add: dropWhile_eq_Cons_conv)
    moreover have "idle_byte b" using less.prems(2) by (simp add: idle Cons)
    ultimately obtain k where k: "k < 3" "b = sixchar k" using idle_byte_cases by blast
    have k64: "k < 64" using k(1) by simp
    obtain s1 where s1: "wait_code f os s = (Inr 1, s1)" "rd_frame s s1" "on_wire pend s1 = bs @ sixchar c # rest" "m_buf s1 ! 0 = sixchar k"
      using wait_code_ok [OF assms _ nl k64 less.prems(4) lf, of "bs @ sixchar c # rest"] less.prems(1) Cons k(2) by (auto simp: idle)
    have st: "rw_start fuel os val s = rw_start f os val s1"
      using rw_start_step [OF s1(1,4) k64] k(1) by (simp add: f)
    have "length bs < length idle" "list_all idle_byte bs" "Suc (length bs) < f" "0 < length (m_buf s1)"
      using less.prems(2,4,5) f rd_frameD(1) [OF s1(2)] by (auto simp: idle Cons)
    from less.hyps [OF this(1) s1(3) this(2) less.prems(3) this(4,3)] show ?thesis
      unfolding st using rd_frame_trans [OF s1(2)] by blast
  qed
qed


lemma accum_digits:
  assumes "take 6 (m_buf s) = map sixchar (h # tl (digits6 v))" and "h < 64" and "h div 2 mod 4 = hd (digits6 v)"
  shows "accum s (drop_bit 1 (bufdec s 0) AND 0x03) [1, 2, 3, 4, 5] = v"
proof -
  let ?n = "unat v"
  have n: "?n < 2 ^ 32" by (rule unat_lt32)
  have at: "bufdec s i = of_nat ((h # tl (digits6 v)) ! i)" if "i < 6" for i
  proof -
    have l: "length (digits6 v) = 6" by (simp add: digits6_def Let_def)
    have "m_buf s ! i = map sixchar (h # tl (digits6 v)) ! i"
      using that assms(1) by (metis nth_take)
    moreover have "(h # tl (digits6 v)) ! i < 64" using that assms(2)
      by (cases i) (auto simp: digits6_def Let_def nth_Cons split: nat.splits)
    ultimately show ?thesis using that l by (simp add: bufdec_def chardec_sixchar del: list.map)
  qed
  have "unat (drop_bit 1 (of_nat h :: busw) AND 3) = h div 2 mod 4"
    using assms(2) by (simp add: unat_drop_bit unat_of_nat_lt del: unsigned_and_eq)
  then have hd: "drop_bit 1 (of_nat h :: busw) AND 3 = of_nat (?n div 2 ^ 30 mod 4)"
    unfolding assms(3) by (simp add: digits6_def Let_def word_unat_eq_iff unat_of_nat_lt del: unsigned_and_eq unat_and_3)
  have b: "bufdec s 0 = of_nat h" "bufdec s 1 = of_nat (?n div 2 ^ 24 mod 64)" "bufdec s 2 = of_nat (?n div 2 ^ 18 mod 64)"
    "bufdec s 3 = of_nat (?n div 2 ^ 12 mod 64)" "bufdec s 4 = of_nat (?n div 2 ^ 6 mod 64)" "bufdec s 5 = of_nat (?n mod 64)"
    using at [of 0] at [of 1] at [of 2] at [of 3] at [of 4] at [of 5] by (simp_all add: digits6_def Let_def)
  have lt: "x mod 64 < 64" for x :: nat by simp
  have "accum s (drop_bit 1 (bufdec s 0) AND 0x03) [1, 2, 3, 4, 5] =
      of_nat (64 * (64 * (64 * (64 * (64 * (?n div 2 ^ 30 mod 4) + ?n div 2 ^ 24 mod 64)
      + ?n div 2 ^ 18 mod 64) + ?n div 2 ^ 12 mod 64) + ?n div 2 ^ 6 mod 64) + ?n mod 64)"
    unfolding accum.simps b hd push6_or [OF lt] by (simp only: of_nat_add of_nat_mult of_nat_numeral)
  then show ?thesis unfolding horner6 [OF n] by simp
qed

lemma readword_raw_ok:
  assumes "stream_reads os pend" and "on_wire pend s = idle @ map sixchar ((0x38 + 2 * hd (digits6 v) + b) # tl (digits6 v)) @ rest"
    and "list_all idle_byte idle" and "b < 2" and "6 \<le> length (m_buf s)" and "Suc (length idle) < fuel" and "5 \<le> fuel"
  shows "\<exists>s'. readword fuel os s = (Inr v, s') \<and> on_wire pend s' = rest \<and>
     m_lastaddr s' = m_lastaddr s + (if b = 1 then 4 else 0) \<and>
     m_readtbl s' = (m_readtbl s)[nat (m_rdaddr s) := v] \<and> m_rdaddr s' = (m_rdaddr s + 1) AND 0x3ff"
proof -
  define h where "h = 0x38 + 2 * hd (digits6 v) + b"
  have hd4: "hd (digits6 v) < 4" by (simp add: digits6_def Let_def)
  have h: "h < 64" "h div 8 = 7" "h div 2 mod 4 = hd (digits6 v)" "odd h = (b = 1)" "h div 16 = 3" "h div 2 \<noteq> 3"
    using hd4 assms(4) field4(3) [of "hd (digits6 v)" b] unfolding h_def by (auto simp: less_2_cases_iff)
  let ?cs = "tl (digits6 v)"
  have cs: "length ?cs = 5" "\<forall>c \<in> set ?cs. c < 64" by (auto simp: digits6_def Let_def)
  have dc: "data_code h" using h by (auto simp: data_code_def)
  obtain s1 where s1: "rw_start fuel os 0 s = (Inr (of_nat h, 0), s1)" "rd_frame s s1"
    "on_wire pend s1 = map sixchar ?cs @ rest" "m_buf s1 ! 0 = sixchar h"
  proof -
    have p: "on_wire pend s = idle @ sixchar h # map sixchar ?cs @ rest" using assms(2) by (simp add: h_def)
    have "0 < length (m_buf s)" using assms(5) by linarith
    from rw_start_ok [OF assms(1) p assms(3) dc this assms(6), of 0] that show thesis by blast
  qed
  have len: "1 + length ?cs \<le> length (m_buf s1)" using rd_frameD(1) [OF s1(2)] assms(5) cs by simp
  obtain s2 where s2: "fill_code fuel os 6 1 s1 = (Inr 6, s2)" "rd_frame s1 s2"
      "take 6 (m_buf s2) = take 1 (m_buf s1) @ map sixchar ?cs" "on_wire pend s2 = rest"
    using fill_code_ok [OF assms(1) s1(3) _ cs(2) len] assms(7) cs(1) by fastforce
  have "take 1 (m_buf s1) = [sixchar h]" using s1(4) len by (cases "m_buf s1") auto
  then have t6: "take 6 (m_buf s2) = map sixchar (h # ?cs)" using s2(3) by simp
  have ac: "accum s2 (drop_bit 1 (bufdec s2 0) AND 0x03) [1, 2, 3, 4, 5] = v"
    by (rule accum_digits [OF t6 h(1,3)])
  have cf: "((6::busw) = of_nat h AND 0x3e) = False" "((0x10::busw) = of_nat h AND 0x30) = False"
    "((0x20::busw) = of_nat h AND 0x30) = False" "((0x38::busw) = of_nat h AND 0x38) = True"
    "((of_nat h :: busw) AND 1 \<noteq> 0) = (b = 1)"
    using code_fieldD [OF h(1)] h by simp_all
  let ?s = "s2\<lparr>m_readtbl := (m_readtbl s2)[nat (m_rdaddr s2) := v], m_rdaddr := (m_rdaddr s2 + 1) AND 0x3ff,
     m_lastaddr := m_lastaddr s2 + (if b = 1 then 4 else 0)\<rparr>"
  have "rw_data fuel os (of_nat h) 0 s1 = (Inr v, ?s)"
    using s2(1) unfolding rw_data_def cf by (simp add: bindE_def getsE_def modifyE_def returnE_def ac step_addr_def cf del: accum.simps One_nat_def)
  then have "readword fuel os s = (Inr v, ?s)" using s1(1) by (simp add: readword_def bindE_def)
  moreover have "on_wire pend ?s = rest" using s2(4) by (simp add: on_wire_def)
  ultimately show ?thesis
    using rd_frameD [OF rd_frame_trans [OF s1(2) s2(2)]] by auto
qed

subsection \<open>Read commands at the device\<close>

lemma readcmd_codes:
  assumes "0 < len" and "len < 520"
  shows "readcmd inc (int len) = Inr (map sixchar (if len \<le> 8 then [0x20 + 2 * (len - 1) + (if inc then 1 else 0)]
     else [0x30 + 2 * ((len - 9) div 64) + (if inc then 1 else 0), (len - 9) mod 64]))"
proof (cases "len \<le> 8")
  case True
  have "(int len - 1) AND 7 = (int len - 1) mod 8"
    using take_bit_eq_mask [of 3 "int len - 1"] by (simp add: mask_eq_exp_minus_1 take_bit_eq_mod)
  then have e: "push_bit 1 ((int len - 1) AND 7) = int (2 * (len - 1))"
    using True assms by (simp add: push_bit_eq_mult)
  have "readcmd inc (int len) = mapS charenc (map int [0x20 + 2 * (len - 1) + (if inc then 1 else 0)])"
    using True assms unfolding readcmd_def e by simp
  then show ?thesis using True assms by (subst (asm) mapS_charenc) auto
next
  case False
  have i: "int len - 9 = int (len - 9)" using False by simp
  have q: "(len - 9) div 64 < 8" using assms(2) by auto
  have "drop_bit 5 (int (len - 9)) AND 0xe = int (2 * ((len - 9) div 64))"
  proof -
    have and14: "x AND 14 = 2 * (x div 2 AND 7)" for x :: int by (subst and_rec) simp
    have "drop_bit 5 (int (len - 9)) AND 0xe = 2 * (drop_bit 6 (int (len - 9)) AND 7)"
      unfolding and14 by (simp add: drop_bit_eq_div flip: zdiv_zmult2_eq)
    also have "drop_bit 6 (int (len - 9)) AND 7 = int ((len - 9) div 64) mod 8"
      using take_bit_eq_mask [of 3 "drop_bit 6 (int (len - 9))"]
      by (simp add: mask_eq_exp_minus_1 take_bit_eq_mod drop_bit_eq_div zdiv_int)
    also have "\<dots> = int ((len - 9) div 64)" using q by simp
    finally show ?thesis by simp
  qed
  then have "readcmd inc (int len) = mapS charenc (map int [0x30 + 2 * ((len - 9) div 64) + (if inc then 1 else 0), (len - 9) mod 64])"
    using False assms unfolding readcmd_def i and_mask_int by simp
  then show ?thesis using False q by (subst (asm) mapS_charenc) auto
qed

lemma readcmd_dev:
  assumes "0 < len" and "len < 520" and "readcmd inc (int len) = Inr bs" and "cw_fresh u" and "wb_st (dev_ex u) = WB_IDLE"
    and inc8: "inc \<or> len \<noteq> 8"
  shows "\<exists>u'. wbu_run bs u = ([WbRead (wb_addr (dev_ex u)) len inc], u') \<and> cw_fresh u' \<and>
     wb_st (dev_ex u') = WB_IDLE \<and> wb_addr (dev_ex u') = wb_addr (dev_ex u) + (if inc then of_nat len else 0)"
proof -
  define b :: nat where "b = (if inc then 1 else 0)"
  define h where "h = (if len \<le> 8 then 0x20 + 2 * (len - 1) + b else 0x30 + 2 * ((len - 9) div 64) + b)"
  define cs where "cs = (if len \<le> 8 then [] else [(len - 9) mod 64])"
  have bs: "bs = map sixchar (h # cs)"
    using assms(3) unfolding readcmd_codes [OF assms(1,2)] by (auto simp: h_def cs_def b_def split: if_splits)
  have q: "\<not> len \<le> 8 \<Longrightarrow> (len - 9) div 64 < 8" using assms(2) by auto
  have b: "b < 2" "inc = (b = 1)" by (auto simp: b_def)
  have h: "h < 64" "h div 32 = 1" "h div 8 \<noteq> 1" "h div 8 \<noteq> 2" "h div 8 \<noteq> 3" "h mod 2 = b" "h \<noteq> 46"
    "cw_length h = Suc (length cs)" "length cs < 6" "\<And>rest. rd_len (h # cs @ rest) = len"
    "\<And>x. x \<in> set (h # cs) \<Longrightarrow> x < 64"
  proof -
    show "h < 64" "h div 32 = 1" "h div 8 \<noteq> 1" "h div 8 \<noteq> 2" "h div 8 \<noteq> 3"
      "length cs < 6" "\<And>x. x \<in> set (h # cs) \<Longrightarrow> x < 64"
      using q b(1) assms(1) by (auto simp: h_def cs_def split: if_splits)
    have "h = 2 * (if len \<le> 8 then 0x10 + (len - 1) else 0x18 + (len - 9) div 64) + b" by (simp add: h_def)
    then show "h mod 2 = b" using b(1) by simp
    show "h \<noteq> 46" using inc8 assms(1) by (auto simp: h_def b_def dest: arg_cong [where f = even])
    have r: "len \<le> 8 \<Longrightarrow> 32 \<le> h \<and> h < 48" "\<not> len \<le> 8 \<Longrightarrow> 48 \<le> h \<and> h < 64"
      using q b(1) assms(1) by (auto simp: h_def)
    then have h16: "len \<le> 8 \<Longrightarrow> h div 16 = 2" "\<not> len \<le> 8 \<Longrightarrow> h div 16 = 3" by auto
    show "cw_length h = Suc (length cs)"
      by (cases "len \<le> 8") (simp_all add: cs_def cw_length_def h16)
    show "rd_len (h # cs @ rest) = len" for rest
    proof (cases "len \<le> 8")
      case True
      then have e: "h = (16 + (len - 1)) * 2 + b" by (simp add: h_def)
      then have "h div 2 = 16 + (len - 1)" "h div 16 = 2" using b(1) True h16 by auto
      moreover have "(16 + x) mod 8 = x" if "x < 8" for x :: nat using that mod_mult_self3 [of 2 8 x] by simp
      ultimately show ?thesis using True assms(1) by (cases len) (simp_all add: rd_len_def)
    next
      case False
      then have e: "h = (24 + (len - 9) div 64) * 2 + b" by (simp add: h_def)
      have "(y * 2 + b) div 2 = y" for y using b(1) by simp
      then have "h div 2 = 24 + (len - 9) div 64" "h div 16 = 3" unfolding e using False h16 [unfolded e] by auto
      moreover have "(24 + x) mod 8 = x" if "x < 8" for x :: nat using that mod_mult_self3 [of 3 8 x] by simp
      ultimately show ?thesis using False q by (simp add: rd_len_def cs_def)
    qed
  qed
  have run: "wbu_run bs u = cw_apply (h # cs @ drop (Suc (length cs)) (shiftreg (dev_cw u))) u"
    using feed_codeword [OF h(11) assms(4) h(8,9)] unfolding bs by simp
  show ?thesis unfolding run
    using h(2-7) h(10) assms(4,5) b(2) h(9)
    by (auto simp: cw_apply_def wbudecompress_def Let_def cw_fresh_def)
qed

subsection \<open>Properties\<close>

text \<open>C25: a read command of any length from 1 to 519 is decoded by the FPGA to a read of that many
  words from its current address, with the same pointer stepping; the address the device
  then holds is the one after the last word. The exception is a read of exactly eight
  words without stepping.\<close>

theorem readcmd_requests_read:
  assumes "0 < len" and "len < 520" and "inc \<or> len \<noteq> 8" and "cw_fresh u" and "wb_st (dev_ex u) = WB_IDLE"
  shows "\<exists>bs u'. readcmd inc len = Inr bs \<and> wbu_run bs u = ([WbRead (wb_addr (dev_ex u)) (nat len) inc], u') \<and>
     cw_fresh u' \<and> wb_st (dev_ex u') = WB_IDLE \<and>
     wb_addr (dev_ex u') = wb_addr (dev_ex u) + (if inc then word_of_int len else 0)"
proof -
  have n: "0 < nat len" "nat len < 520" "inc \<or> nat len \<noteq> 8" "int (nat len) = len" using assms(1-3) by auto
  then show ?thesis
    using readcmd_dev [OF n(1,2) _ assms(4,5) n(3)] readcmd_codes [OF n(1,2)] by (auto simp: n(4))
qed

theorem readcmd_requests_read_witness:
  "\<exists>bs u'. readcmd True 100 = Inr bs \<and> wbu_run bs wbu_reset = ([WbRead 0 100 True], u')"
  using readcmd_requests_read [of 100 True wbu_reset] by (auto simp: wbu_reset_def cw_fresh_def readcw_init_def)

text \<open>The excepted read is lost: its single character is the code that stands for the end of
  a write, and the FPGA takes it for that and reads nothing.\<close>

lemma read_of_eight_is_end_of_write:
  assumes "cw_fresh u" and "wb_st (dev_ex u) = WB_IDLE"
  shows "\<exists>bs u'. readcmd False 8 = Inr bs \<and> wbu_run bs u = ([], u') \<and> wb_addr (dev_ex u') = wb_addr (dev_ex u)"
proof -
  have bs: "readcmd False 8 = Inr (map sixchar [46])" using readcmd_codes [of 8 False] by simp
  have "wbu_run (map sixchar [46]) u = cw_apply ([46] @ drop (Suc (length ([]::nat list))) (shiftreg (dev_cw u))) u"
    by (rule feed_codeword) (use assms in \<open>auto simp: cw_length_def\<close>)
  then show ?thesis using assms(2) unfolding bs by (auto simp: cw_apply_def wbudecompress_def Let_def)
qed

lemma read_of_eight_is_end_of_write_witness:
  "\<exists>bs u'. readcmd False 8 = Inr bs \<and> wbu_run bs wbu_reset = ([], u') \<and> wb_addr (dev_ex u') = 0"
  using read_of_eight_is_end_of_write [of wbu_reset] by (auto simp: wbu_reset_def cw_fresh_def readcw_init_def)

text \<open>C6: a word the FPGA returns uncompressed is received unchanged, however the transport cuts
  the characters into pieces and whatever idle characters precede it: \<open>readword\<close> returns
  the value, enters it into the read table, steps the address when the answer says so, and
  leaves the characters after it unread.\<close>

theorem readword_receives:
  assumes "stream_reads os pend"
    and "on_wire pend s = idle @ map sixchar ((0x38 + 2 * hd (digits6 v) + b) # tl (digits6 v)) @ rest"
    and "list_all idle_byte idle" and "b < 2" and "6 \<le> length (m_buf s)"
    and "Suc (length idle) < fuel" and "5 \<le> fuel"
  shows "\<exists>s'. readword fuel os s = (Inr v, s') \<and> on_wire pend s' = rest \<and>
     m_lastaddr s' = m_lastaddr s + (if b = 1 then 4 else 0) \<and>
     m_readtbl s' = (m_readtbl s)[nat (m_rdaddr s) := v] \<and> m_rdaddr s' = (m_rdaddr s + 1) AND 0x3ff"
  using readword_raw_ok [OF assms] .

theorem readword_receives_witness:
  "\<exists>s'. readword 6 list_os
      (ttybus_init (LLCOMMSI ([newline, TTYC_BUSY] @ map sixchar ((0x38 + 2 * hd (digits6 0x12345678) + 1) # tl (digits6 0x12345678)) @ [newline], []))
        0x40 (replicate 1024 0) []) = (Inr 0x12345678, s') \<and> m_lastaddr s' = 0x44"
proof -
  let ?s = "ttybus_init (LLCOMMSI ([newline, TTYC_BUSY] @ map sixchar ((0x38 + 2 * hd (digits6 0x12345678) + 1) # tl (digits6 0x12345678)) @ [newline], []))
        0x40 (replicate 1024 0) []"
  have "on_wire fst ?s = [newline, TTYC_BUSY] @ map sixchar ((0x38 + 2 * hd (digits6 0x12345678) + 1) # tl (digits6 0x12345678)) @ [newline]"
    "6 \<le> length (m_buf ?s)" "m_lastaddr ?s = 0x40"
    by (simp_all add: on_wire_def ttybus_init_def LLCOMMSI_def bufalloc_def Let_def)
  moreover have "list_all idle_byte [newline, TTYC_BUSY]" "(1::nat) < 2" "Suc (length [newline, TTYC_BUSY]) < 6" "5 \<le> (6::nat)"
    by (simp_all add: idle_byte_def)
  ultimately show ?thesis using readword_receives [OF list_os_reads, of ?s "[newline, TTYC_BUSY]" "0x12345678" 1 "[newline]" 6]
    by fastforce
qed

text \<open>C39: an address that is not a multiple of four is refused before anything is sent: \<open>writev\<close>
  and \<open>readv\<close> throw \<open>BUSERR\<close> with that address and the transport is not touched.\<close>

theorem misaligned_address_refused:
  assumes "a AND 3 \<noteq> 0"
  shows "fst (writev fuel os a p vals s) = Inl (BUSERR a) \<and> m_dev (snd (writev fuel os a p vals s)) = m_dev s \<and>
    (0 < len \<longrightarrow> readv fuel os a p len s = (Inl (BUSERR a), s))"
  using assms by (simp add: writev_def readv_def encode_address_def bindE_def modifyE_def Let_def)

theorem misaligned_address_refused_witness:
  "fst (writev 1 list_os 0x102 True [5] (ttybus_init (LLCOMMSI ([], [])) 0 [] [])) = Inl (BUSERR 0x102)"
  using misaligned_address_refused [of "0x102" 1 list_os True "[5]" "ttybus_init (LLCOMMSI ([], [])) 0 [] []" 1] by simp

text \<open>After a write, a lone acknowledgement character makes \<open>readidle\<close> fail: its loop takes one
  character in the condition and asks for another in the body, and the second read finds
  the stream empty.\<close>

lemma readidle_lone_character_fails:
  assumes "stream_reads os pend" and "on_wire pend s = [sixchar c]" and "c < 64" and "0 < length (m_buf s)"
    and "\<And>o1 fd ms. fst (os_poll os o1 fd ms) = (pend o1 \<noteq> [])" and "0 < fuel"
  shows "fst (readidle fuel os s) = Inl ReadFailure"
proof -
  obtain f where f: "fuel = Suc f" using assms(6) by (cases fuel) auto
  obtain r o' where p: "os_poll os (ll_os (m_dev s)) (m_fdr (m_dev s)) 0 = (r, o')" by fastforce
  have o': "r" "pend o' = [sixchar c]"
    using assms(1,2,5) p unfolding stream_reads_def on_wire_def by (metis fst_conv list.distinct(1), metis snd_conv)
  let ?s = "s\<lparr>m_dev := (m_dev s)\<lparr>ll_os := o'\<rparr>\<rparr>"
  have av: "dev_available os s = (Inr True, ?s)"
    using o'(1) by (simp add: dev_available_def on_dev_def ll_available_def ll_poll_def p Let_def)
  have v: "chardec (sixchar c) AND NOT 0x3f = 0" using assms(3) chardec_valid_iff by blast
  obtain s1 where s1: "lclreadcode os 0 1 ?s = (Inr 1, s1)" "rd_frame ?s s1" "on_wire pend s1 = []"
    using lclreadcode_one [OF assms(1), of ?s "sixchar c" "[]"] o'(2) assms(4) v by (auto simp: on_wire_def)
  have "fst (ll_read os 1 (m_dev s1)) = Inl ReadFailure"
    using ll_read_empty [OF assms(1) zero_less_one] s1(3) by (simp add: on_wire_def)
  then obtain s2 where s2: "lclreadcode os 0 1 s1 = (Inl ReadFailure, s2)"
    by (cases "ll_read os 1 (m_dev s1)") (auto simp: lclreadcode_def bindE_def on_dev_def)
  have "ri_loop (Suc f) os s = (Inl ReadFailure, s2)"
    by (simp add: bindE_Inr [where m = "dev_available os", OF av] bindE_Inr [where s = ?s and m = "lclreadcode os 0 1", OF s1(1)]
        bindE_Inl [where m = "lclreadcode os 0 1", OF s2] del: One_nat_def)
  then show ?thesis by (simp add: readidle_def f bindE_Inl)
qed

lemma readidle_lone_character_fails_witness:
  "fst (readidle 1 list_os (ttybus_init (LLCOMMSI ([sixchar 2], [])) 0 [] [])) = Inl ReadFailure"
proof -
  let ?s = "ttybus_init (LLCOMMSI ([sixchar 2], [])) 0 [] []"
  have s: "on_wire fst ?s = [sixchar 2]" "0 < length (m_buf ?s)"
    by (simp_all add: on_wire_def ttybus_init_def LLCOMMSI_def bufalloc_def Let_def)
  have "fst (os_poll list_os o1 fd ms) = (fst o1 \<noteq> [])" for o1 fd ms
    by (cases o1) (simp add: list_os_def)
  then show ?thesis using readidle_lone_character_fails [OF list_os_reads s(1) _ s(2), of 1] by simp
qed

text \<open>A write of no words forgets to send the address it records: the host then believes the
  FPGA to be at that address although nothing was sent.\<close>

lemma empty_write_loses_address:
  assumes "quiet_os os pend sent" and "on_wire pend s = []" and "0 < fuel" and "a AND 3 = 0"
    and "m_buflen s = int (length (m_buf s))"
  shows "\<exists>s'. writev fuel os a p [] s = (Inr (), s') \<and> on_wire sent s' = on_wire sent s \<and>
     m_addr_set s' \<and> m_lastaddr s' = a"
proof -
  define s0 where "s0 = bufalloc (int (length ([] :: busw list) + 2) * 6) s"
  have "12 \<le> length (m_buf s0)" using bufalloc_room(1) [OF assms(5), of "12"] by (simp add: s0_def)
  then obtain n s1 where s1: "encode_address a s0 = (Inr n, s1)" "m_dev s1 = m_dev s"
    using encode_address_ok [OF assms(4), of s0] by (auto simp: s0_def buf_after_def addr_next_def)
  let ?s = "s1\<lparr>m_lastaddr := a, m_addr_set := True\<rparr>"
  have "on_wire pend ?s = []" using assms(2) s1(2) by (simp add: on_wire_def)
  from readidle_quiet [OF assms(1) this assms(3)] obtain d where d: "readidle fuel os ?s = (Inr (), ?s\<lparr>m_dev := d\<rparr>)"
    "on_wire sent (?s\<lparr>m_dev := d\<rparr>) = on_wire sent ?s" by blast
  have "writev fuel os a p [] s = (Inr (), ?s\<lparr>m_dev := d\<rparr>)"
    using s1(1) d(1) unfolding writev_def bindE_def modifyE_def s0_def [symmetric]
    by (simp add: write_chunks.simps returnE_def)
  then show ?thesis using d(2) s1(2) by (simp add: on_wire_def)
qed

lemma empty_write_loses_address_witness:
  "\<exists>s'. writev 1 list_os 0x200 False [] (ttybus_init (LLCOMMSI ([], [])) 0 [] []) = (Inr (), s') \<and>
     on_wire snd s' = [] \<and> m_lastaddr s' = 0x200"
proof -
  let ?s = "ttybus_init (LLCOMMSI ([], [])) 0 [] []"
  have "on_wire fst ?s = []" "on_wire snd ?s = []" "m_buflen ?s = int (length (m_buf ?s))"
    by (simp_all add: on_wire_def ttybus_init_def LLCOMMSI_def bufalloc_def Let_def)
  with empty_write_loses_address [OF list_os_quiet this(1) _ _ this(3), of 1 "0x200" False] show ?thesis by auto
qed

end
