(* ===== verification/Twoc.thy ===== *)
theory Twoc
  imports Prelude
begin

text \<open>
  Two's complement fields (\<open>src/sw/host/twoc.cpp\<close>). A \<open>long\<close> is a 64-bit word, read as a
  signed number by \<open>sint\<close>; its right shift is arithmetic, \<open>signed_drop_bit\<close>. The mask of
  \<open>rndbits\<close> is computed in a 32-bit \<open>int\<close> and then extended.
\<close>

subsection \<open>Definitions\<close>

definition sbits :: "u64 \<Rightarrow> nat \<Rightarrow> u64" where
  "sbits val bits =
     (let r = val AND (push_bit bits 1 - 1)
      in if r AND push_bit (bits - 1) 1 \<noteq> 0 then r OR push_bit bits (-1) else r)"

definition sfits :: "u64 \<Rightarrow> nat \<Rightarrow> bool" where
  "sfits val bits \<longleftrightarrow> sbits val bits = of_nat bits"

definition ubits :: "u64 \<Rightarrow> nat \<Rightarrow> u64" where
  "ubits val bits = val AND (push_bit bits 1 - 1)"

definition rndbits :: "u64 \<Rightarrow> nat \<Rightarrow> nat \<Rightarrow> u64" where
  "rndbits val bits_in bits_out =
     (let s = sbits val bits_in in
      if bits_in = bits_out then s
      else if bits_in - 1 = bits_out then
        (let t = sbits (signed_drop_bit 1 val) bits_out
         in if 3 = s AND 3 then t + 1 else t)
      else
        (let t = sbits (signed_drop_bit (bits_in - bits_out) val) bits_out in
         if 0 = signed_drop_bit (bits_in - bits_out - 1) s AND 1 then t
         else if 0 \<noteq> s AND scast ((push_bit (bits_in - bits_out - 1) 1 :: busw) - 1) then t + 1
         else if t AND 1 \<noteq> 0 then t + 1
         else t))"

subsection \<open>Fields\<close>

lemma push_mask: "push_bit n 1 - 1 = (mask n :: 'a::len word)"
  by (simp add: mask_eq_exp_minus_1 push_bit_eq_mult)

lemma sbits_signed:
  assumes "0 < n" and "n \<le> 64"
  shows "sbits v n = signed_take_bit (n - 1) v"
proof -
  obtain m where m: "n = Suc m" using assms(1) by (cases n) auto
  have b: "take_bit (Suc m) v AND push_bit m 1 \<noteq> 0 \<longleftrightarrow> bit v m"
    using assms(2) by (auto simp: m and_exp_eq_0_iff_not_bit bit_simps)
  have "sbits v n = (if bit v m then take_bit (Suc m) v OR push_bit (Suc m) (-1) else take_bit (Suc m) v)"
    unfolding sbits_def Let_def push_mask take_bit_eq_mask [symmetric] m diff_Suc_1 b ..
  also have "\<dots> = signed_take_bit m v"
    by (intro bit_word_eqI) (auto simp: bit_simps m less_Suc_eq_le min_def not_le)
  finally show ?thesis by (simp add: m)
qed

lemma sint_sbits:
  assumes "0 < n" and "n \<le> 64"
  shows "sint (sbits v n) = signed_take_bit (n - 1) (sint v)"
  using assms by (intro bit_eqI) (auto simp: sbits_signed bit_simps min_def)

lemma signed_take_bit_div:
  "signed_take_bit m (x div 2 ^ k) = signed_take_bit (m + k) x div 2 ^ k" for x :: int
  unfolding drop_bit_eq_div [symmetric]
  by (rule bit_eqI) (auto simp: bit_simps min_def add.commute)

lemma signed_range: "- (2 ^ m) \<le> signed_take_bit m x \<and> signed_take_bit m x < 2 ^ m" for x :: int
  by (simp add: signed_take_bit_int_greater_eq_minus_exp signed_take_bit_int_less_exp)

lemma sint_succ:
  fixes t :: u64
  assumes "sint t < 2 ^ 62" and "- (2 ^ 62) \<le> sint t"
  shows "sint (t + 1) = sint t + 1"
proof -
  have "sint (t + 1) = signed_take_bit 63 (sint t + 1)"
    by (simp add: sint_word_add)
  then show ?thesis using assms by (simp add: signed_take_bit_int_eq_self)
qed

lemma low_bits: "uint (s AND mask k) = sint s mod 2 ^ k" if "k < 64" for s :: u64
  unfolding take_bit_eq_mask [symmetric] take_bit_eq_mod [symmetric]
  using that by (intro bit_eqI) (auto simp: bit_simps min_def)

text \<open>The bit tests of \<open>rndbits\<close> on the signed value.\<close>

lemma bit_tests:
  fixes s :: u64
  assumes "k < 31"
  shows "(0 = signed_drop_bit k s AND 1) \<longleftrightarrow> even (sint s div 2 ^ k)"
    and "(0 \<noteq> s AND scast ((push_bit k 1 :: busw) - 1)) \<longleftrightarrow> sint s mod 2 ^ k \<noteq> 0"
    and "(s AND 1 \<noteq> 0) \<longleftrightarrow> odd (sint s)"
    and "(3 = s AND 3) \<longleftrightarrow> sint s mod 4 = 3"
proof -
  have odd: "(w AND 1 \<noteq> 0) = odd (sint w)" for w :: u64
    using low_bits [of 1 w] by (auto simp: mask_eq_exp_minus_1 odd_iff_mod_2_eq_one simp flip: uint_0_iff)
  show "(s AND 1 \<noteq> 0) \<longleftrightarrow> odd (sint s)" by (rule odd)
  show "(0 = signed_drop_bit k s AND 1) \<longleftrightarrow> even (sint s div 2 ^ k)"
    using odd [of "signed_drop_bit k s"] by (auto simp: sint_signed_drop_bit_eq drop_bit_eq_div)
  have "scast ((push_bit k 1 :: busw) - 1) = (mask k :: u64)"
    unfolding push_mask using assms by (intro bit_word_eqI) (auto simp: bit_simps min_def)
  then show "(0 \<noteq> s AND scast ((push_bit k 1 :: busw) - 1)) \<longleftrightarrow> sint s mod 2 ^ k \<noteq> 0"
    using low_bits [of k s] assms by (auto simp flip: uint_0_iff)
  show "(3 = s AND 3) \<longleftrightarrow> sint s mod 4 = 3"
    using low_bits [of 2 s] by (auto simp: mask_eq_exp_minus_1 word_uint_eq_iff)
qed

text \<open>Rounding a quotient to the nearest integer, ties to even, in integers.\<close>

definition round_even :: "int \<Rightarrow> int \<Rightarrow> int" where
  "round_even s h =
     (let q = s div (2 * h); m = s mod (2 * h)
      in if m < h \<or> m = h \<and> even q then q else q + 1)"

lemma round_even_nearest:
  assumes "0 < h"
  shows "\<bar>2 * h * round_even s h - s\<bar> \<le> h \<and> (\<bar>2 * h * round_even s h - s\<bar> = h \<longrightarrow> even (round_even s h))"
proof -
  define q m where "q = s div (2 * h)" and "m = s mod (2 * h)"
  have s: "s = 2 * h * q + m" by (simp add: q_def m_def)
  have m: "0 \<le> m" "m < 2 * h" using assms by (simp_all add: m_def)
  have r: "round_even s h = (if m < h \<or> m = h \<and> even q then q else q + 1)"
    by (simp add: round_even_def q_def m_def Let_def)
  show ?thesis
  proof (cases "m < h \<or> m = h \<and> even q")
    case True
    then have "round_even s h = q" by (simp add: r)
    then have "2 * h * round_even s h - s = - m" using s by simp
    then show ?thesis using True m r by auto
  next
    case False
    then have "round_even s h = q + 1" by (simp add: r)
    then have "2 * h * round_even s h - s = 2 * h - m" using s by (simp add: algebra_simps)
    then show ?thesis using False m r by auto
  qed
qed

lemma half_tests:
  fixes s h :: int
  assumes "0 < h"
  shows "even (s div h) \<longleftrightarrow> s mod (2 * h) < h"
    and "h \<le> s mod (2 * h) \<Longrightarrow> (s mod h = 0 \<longleftrightarrow> s mod (2 * h) = h)"
proof -
  define q m where "q = s div (2 * h)" and "m = s mod (2 * h)"
  have s: "s = 2 * h * q + m" by (simp add: q_def m_def)
  have m: "0 \<le> m" "m < 2 * h" using assms by (simp_all add: m_def)
  have d: "s div h = 2 * q + m div h" and mo: "s mod h = m mod h"
    using assms by (simp_all add: s mult.assoc mult.left_commute [of 2 h])
  have "m < h \<Longrightarrow> m div h = 0" "h \<le> m \<Longrightarrow> m div h = 1" "h \<le> m \<Longrightarrow> m mod h = m - h"
    using m by (auto simp: div_pos_pos_trivial int_div_pos_eq [of m h 1 "m - h"] int_mod_pos_eq [of m h 1 "m - h"])
  then show "even (s div h) \<longleftrightarrow> s mod (2 * h) < h"
    and "h \<le> s mod (2 * h) \<Longrightarrow> (s mod h = 0 \<longleftrightarrow> s mod (2 * h) = h)"
    unfolding m_def [symmetric] d mo by (cases "m < h"; simp)+
qed

lemma rndbits_round:
  assumes "0 < bo" and "bo < bi" and "bi \<le> 63" and "bi - bo \<le> 31"
  shows "sint (rndbits v bi bo) = round_even (sint (sbits v bi)) (2 ^ (bi - bo - 1))"
proof -
  define k where "k = bi - bo"
  have k: "0 < k" "k \<le> 31" "bi - 1 = (bo - 1) + k" "bi = bo + k" using assms by (auto simp: k_def)
  let ?s = "sint (sbits v bi)" and ?t = "sbits (signed_drop_bit k v) bo"
  let ?h = "2 ^ (k - 1) :: int"
  have h2: "2 * ?h = 2 ^ k" using k(1) by (cases k) auto
  have t: "sint ?t = ?s div 2 ^ k"
    using assms k by (simp add: sint_sbits sint_signed_drop_bit_eq drop_bit_eq_div signed_take_bit_div)
  have "- (2 ^ (bo - 1)) \<le> sint ?t \<and> sint ?t < 2 ^ (bo - 1)"
    using assms signed_range [of "bo - 1"] by (simp add: sint_sbits)
  moreover have "(2::int) ^ (bo - 1) \<le> 2 ^ 62" using assms by (intro power_increasing) auto
  ultimately have t1: "sint (?t + 1) = ?s div 2 ^ k + 1"
    using sint_succ [of ?t] t by linarith
  have to: "(?t AND 1 \<noteq> 0) = odd (?s div 2 ^ k)" using bit_tests(3) [of 0 ?t] t by simp
  note ht = half_tests [of ?h ?s, unfolded h2]
  have rd: "round_even ?s ?h = (if ?s mod 2 ^ k < ?h \<or> ?s mod 2 ^ k = ?h \<and> even (?s div 2 ^ k) then ?s div 2 ^ k else ?s div 2 ^ k + 1)"
    unfolding round_even_def h2 Let_def ..
  have "sint (rndbits v bi bo) = round_even ?s ?h"
  proof (cases "k = 1")
    case True
    have m4: "(3 = sbits v bi AND 3) \<longleftrightarrow> ?s mod 2 = 1 \<and> odd (?s div 2)"
    proof -
      have "?s mod 4 = 3 \<longleftrightarrow> ?s mod 2 = 1 \<and> odd (?s div 2)" by presburger
      then show ?thesis using bit_tests(4) [of 0 "sbits v bi"] by simp
    qed
    have m2: "?s mod 2 < 1 \<longleftrightarrow> ?s mod 2 \<noteq> 1" "?s mod 2 = 0 \<or> ?s mod 2 = 1" by presburger+
    have r1: "round_even ?s ?h = (if ?s mod 2 = 1 \<and> odd (?s div 2) then ?s div 2 + 1 else ?s div 2)"
      unfolding rd using m2 by (auto simp: True)
    have "rndbits v bi bo = (if 3 = sbits v bi AND 3 then ?t + 1 else ?t)"
      using True k by (simp add: rndbits_def Let_def)
    then have "sint (rndbits v bi bo) = (if 3 = sbits v bi AND 3 then ?s div 2 ^ k + 1 else ?s div 2 ^ k)"
      using t t1 by simp
    then show ?thesis unfolding r1 m4 by (simp add: True)
  next
    case False
    then have "2 \<le> k" using k(1) by linarith
    then have k2: "k - 1 < 31" "bi - 1 \<noteq> bo" "bi \<noteq> bo" "bi - bo = k"
      using k(2) unfolding k(4) by linarith+
    have "rndbits v bi bo =
      (if 0 = signed_drop_bit (k - 1) (sbits v bi) AND 1 then ?t
       else if 0 \<noteq> sbits v bi AND scast ((push_bit (k - 1) 1 :: busw) - 1) then ?t + 1
       else if ?t AND 1 \<noteq> 0 then ?t + 1 else ?t)"
      unfolding rndbits_def Let_def k2(4) using k2 by simp
    then show ?thesis
      unfolding bit_tests(1,2) [OF k2(1)] to rd using t t1 ht by (auto simp: not_less)
  qed
  then show ?thesis by (simp add: k_def)
qed

subsection \<open>Properties\<close>

text \<open>\<open>sbits\<close> reads the low \<open>bits\<close> bits of a value as a signed number of that width: the
  result is congruent to the value and lies in the signed range. \<open>ubits\<close> reads the same
  bits as an unsigned number.\<close>

lemma sbits_ubits_fields:
  assumes "0 < bits" and "bits < 64"
  shows "- (2 ^ (bits - 1)) \<le> sint (sbits val bits) \<and> sint (sbits val bits) < 2 ^ (bits - 1) \<and>
    sint (sbits val bits) mod 2 ^ bits = sint val mod 2 ^ bits \<and> uint (ubits val bits) = sint val mod 2 ^ bits"
proof -
  have "signed_take_bit (bits - 1) (sint val) mod 2 ^ bits = sint val mod 2 ^ bits"
  proof -
    obtain m where "bits = Suc m" using assms(1) by (cases bits) auto
    then show ?thesis unfolding take_bit_eq_mod [symmetric]
      by (intro bit_eqI) (auto simp: bit_simps min_def less_Suc_eq_le)
  qed
  then show ?thesis
    using assms signed_range [of "bits - 1" "sint val"] low_bits [of bits val]
    by (simp add: sint_sbits ubits_def push_mask del: push_bit_of_1)
qed

lemma sbits_ubits_fields_witness:
  "sint (sbits 0xfe 8) < 2 ^ 7 \<and> sint (sbits 0xfe 8) mod 256 = 0xfe"
  using sbits_ubits_fields [of 8 "0xfe"] by simp

text \<open>C37: \<open>rndbits\<close> drops the low bits of a signed field by rounding to the nearest multiple,
  and exact ties to the even one: the result differs from the exact quotient by at most one
  half, and where the difference is one half it is even.\<close>

theorem rndbits_nearest_even:
  assumes "0 < bits_out" and "bits_out < bits_in" and "bits_in \<le> 63" and "bits_in - bits_out \<le> 31"
  shows "let s = sint (sbits val bits_in); r = sint (rndbits val bits_in bits_out); h = 2 ^ (bits_in - bits_out - 1)
    in \<bar>2 * h * r - s\<bar> \<le> h \<and> (\<bar>2 * h * r - s\<bar> = h \<longrightarrow> even r)"
  unfolding rndbits_round [OF assms] Let_def by (rule round_even_nearest) simp

theorem rndbits_nearest_even_witness:
  "let s = sint (sbits 0x1c 8); r = sint (rndbits 0x1c 8 5)
    in \<bar>8 * r - s\<bar> \<le> 4 \<and> (\<bar>8 * r - s\<bar> = 4 \<longrightarrow> even r)"
  using rndbits_nearest_even [of 5 8 "0x1c"] by (simp add: Let_def)

text \<open>\<open>sfits\<close> does not test whether a value fits: the comparison is with the width, so the
  value 3 does not fit into eight bits and 8 is the only value of that width that does.\<close>

lemma sfits_compares_width:
  assumes "0 < bits" and "bits < 64"
  shows "sfits val bits \<longleftrightarrow> signed_take_bit (bits - 1) val = of_nat bits"
  using assms by (simp add: sfits_def sbits_signed)

theorem sfits_compares_width_witness: "\<not> sfits 3 8 \<and> sfits 8 8"
  using sfits_compares_width [of 8 3] sfits_compares_width [of 8 8] by simp

end
