(* ===== verification/MemSim.thy ===== *)
theory MemSim
  imports Prelude
begin

text \<open>
  The simulated memory on the Wishbone bus (\<open>src/sim/verilated/memsim.cpp\<close>, \<open>memsim.h\<close>).
  The arrays are lists of the length they are allocated with; their first contents, which
  the constructor leaves uninitialised, are the argument \<open>junk\<close>.
\<close>

subsection \<open>Definitions\<close>

record memsim =
  m_mem :: "busw list"
  m_len :: busw
  m_mask :: busw
  m_head :: busw
  m_tail :: busw
  m_delay_mask :: busw
  m_delay :: busw
  m_fifo_ack :: "int list"
  m_fifo_data :: "busw list"

text \<open>\<open>for(nxt=1; nxt < n; nxt<<=1);\<close> with the shift losing the top bit.\<close>

fun next_pow2 :: "nat \<Rightarrow> busw \<Rightarrow> busw \<Rightarrow> busw option" where
  "next_pow2 0 n nxt = None"
| "next_pow2 (Suc fuel) n nxt = (if nxt < n then next_pow2 fuel n (push_bit 1 nxt) else Some nxt)"

definition MEMSIM :: "busw \<Rightarrow> busw \<Rightarrow> (nat \<Rightarrow> busw) \<Rightarrow> memsim option" where
  "MEMSIM nwords delay junk =
     (case next_pow2 33 nwords 1 of None \<Rightarrow> None | Some nxt \<Rightarrow>
      (case next_pow2 33 delay 1 of None \<Rightarrow> None | Some dm \<Rightarrow>
        let mask = dm - 1 in
        Some \<lparr>m_mem = map junk [0..<unat nxt], m_len = nxt, m_mask = nxt - 1,
              m_head = 0, m_tail = (0 - delay) AND mask, m_delay_mask = mask, m_delay = delay,
              m_fifo_ack = replicate (unat dm) 0, m_fifo_data = map (\<lambda>i. junk (unat nxt + i)) [0..<unat dm]\<rparr>))"

text \<open>\<open>load\<close> from a file: the words that were read, the rest filled with zero.\<close>

definition mem_load :: "busw list \<Rightarrow> memsim \<Rightarrow> memsim" where
  "mem_load ws s =
     (let rd = take (unat (m_len s)) ws
      in s\<lparr>m_mem := rd @ replicate (unat (m_len s) - length rd) 0\<rparr>)"

definition sel_mask :: "byte \<Rightarrow> busw" where
  "sel_mask wb_sel =
     (let sel = 0;
          sel = (if wb_sel AND 8 \<noteq> 0 then sel OR 0xff000000 else sel);
          sel = (if wb_sel AND 4 \<noteq> 0 then sel OR 0x00ff0000 else sel);
          sel = (if wb_sel AND 2 \<noteq> 0 then sel OR 0x0000ff00 else sel);
          sel = (if wb_sel AND 1 \<noteq> 0 then sel OR 0x000000ff else sel)
      in sel)"

record wb_req =
  wb_cyc :: bool
  wb_stb :: bool
  wb_we :: bool
  wb_addr :: busw
  wb_data :: busw
  wb_sel :: "byte"

text \<open>\<open>apply\<close>: the answer is the acknowledgement and the data; the stall output is always 0.\<close>

definition mem_apply :: "wb_req \<Rightarrow> memsim \<Rightarrow> (int \<times> busw) \<times> memsim" where
  "mem_apply r s =
     (let sel = sel_mask (wb_sel r);
          head = m_head s + 1;
          tail = (head - m_delay s) AND m_delay_mask s;
          head = head AND m_delay_mask s;
          o_ack = m_fifo_ack s ! unat tail;
          o_data = m_fifo_data s ! unat tail;
          s = s\<lparr>m_head := head, m_tail := tail,
                m_fifo_ack := (m_fifo_ack s)[unat head := 0],
                m_fifo_data := (m_fifo_data s)[unat head := 0]\<rparr>;
          a = unat (wb_addr r AND m_mask s);
          s = (if wb_cyc r \<and> wb_stb r then
                 (let s = (if wb_we r then
                             (if sel = 0xffffffff then s\<lparr>m_mem := (m_mem s)[a := wb_data r]\<rparr>
                              else let memv = m_mem s ! a;
                                       memv = memv AND NOT sel;
                                       memv = memv OR (wb_data r AND sel)
                                   in s\<lparr>m_mem := (m_mem s)[a := memv]\<rparr>)
                           else s)
                  in s\<lparr>m_fifo_ack := (m_fifo_ack s)[unat head := 1],
                       m_fifo_data := (m_fifo_data s)[unat head := m_mem s ! a]\<rparr>)
               else s)
      in ((o_ack, o_data), s))"

definition mem_at :: "busw \<Rightarrow> memsim \<Rightarrow> busw" where
  "mem_at addr s = m_mem s ! unat (addr AND m_mask s)"

text \<open>A run: the answers to a sequence of requests.\<close>

fun mem_run :: "wb_req list \<Rightarrow> memsim \<Rightarrow> (int \<times> busw) list \<times> memsim" where
  "mem_run [] s = ([], s)"
| "mem_run (r # rs) s =
     (let (o1, s1) = mem_apply r s; (os, s2) = mem_run rs s1 in (o1 # os, s2))"

subsection \<open>Sizes\<close>

lemma unat_pow2: "k < 32 \<Longrightarrow> unat (2 ^ k :: busw) = 2 ^ k"
  using unat_of_nat_lt [of "2 ^ k", where 'a = 32] power_strict_increasing [of k 32 "2::nat"] by simp

lemma next_pow2_some:
  assumes "unat n \<le> 2 ^ 31" and "nxt = 2 ^ k" and "k \<le> 31" and "32 - k \<le> fuel"
    and "k = 0 \<or> 2 ^ (k - 1) < unat n"
  shows "\<exists>j. next_pow2 fuel n nxt = Some (2 ^ j) \<and> j \<le> 31 \<and> unat n \<le> 2 ^ j \<and> (j = 0 \<or> 2 ^ (j - 1) < unat n)"
  using assms(2-)
proof (induction fuel arbitrary: nxt k)
  case (Suc fuel)
  have u: "unat nxt = 2 ^ k" using Suc.prems(1,2) by (simp add: unat_pow2)
  show ?case
  proof (cases "nxt < n")
    case True
    then have lt: "2 ^ k < unat n" by (simp add: word_less_nat_alt u)
    then have "k < 31" using assms(1) Suc.prems(2) power_increasing [of 31 k "2::nat"] by (cases "k = 31") auto
    then have "\<exists>j. next_pow2 fuel n (push_bit 1 nxt) = Some (2 ^ j) \<and> j \<le> 31 \<and> unat n \<le> 2 ^ j \<and> (j = 0 \<or> 2 ^ (j - 1) < unat n)"
      using Suc.IH [of "push_bit 1 nxt" "Suc k"] Suc.prems lt by (simp add: push_bit_eq_mult)
    then show ?thesis using True by simp
  next
    case False
    then have "unat n \<le> 2 ^ k" by (simp add: word_less_nat_alt u)
    then show ?thesis using False Suc.prems by auto
  qed
qed simp

lemma pow2_mask: "2 ^ j - 1 = (mask j :: busw)"
  by (simp add: mask_eq_exp_minus_1)

text \<open>The masks select indices of the arrays.\<close>

definition mem_shape :: "nat \<Rightarrow> nat \<Rightarrow> memsim \<Rightarrow> bool" where
  "mem_shape j k s \<longleftrightarrow> j \<le> 31 \<and> k \<le> 31 \<and> m_delay_mask s = mask j \<and> m_mask s = mask k \<and>
     length (m_fifo_ack s) = 2 ^ j \<and> length (m_fifo_data s) = 2 ^ j \<and> length (m_mem s) = 2 ^ k \<and>
     unat (m_len s) = 2 ^ k \<and> unat (m_delay s) \<le> 2 ^ j \<and> unat (m_head s) < 2 ^ j"

definition mem_inv :: "memsim \<Rightarrow> bool" where
  "mem_inv s \<longleftrightarrow> (\<exists>j k. mem_shape j k s)"

lemma MEMSIM_inv:
  assumes "unat nwords \<le> 2 ^ 31" and "unat delay \<le> 2 ^ 31"
  shows "\<exists>s. MEMSIM nwords delay junk = Some s \<and> mem_inv s \<and> m_delay s = delay \<and> m_head s = 0 \<and>
    unat nwords \<le> unat (m_len s) \<and> (unat (m_len s) = 1 \<or> unat (m_len s) < 2 * unat nwords) \<and>
    (\<forall>i < length (m_fifo_ack s). m_fifo_ack s ! i = 0)"
proof -
  obtain k where k: "next_pow2 33 nwords 1 = Some (2 ^ k)" "k \<le> 31" "unat nwords \<le> 2 ^ k" "k = 0 \<or> 2 ^ (k - 1) < unat nwords"
    using next_pow2_some [OF assms(1), of 1 0 33] by auto
  obtain j where j: "next_pow2 33 delay 1 = Some (2 ^ j)" "j \<le> 31" "unat delay \<le> 2 ^ j"
    using next_pow2_some [OF assms(2), of 1 0 33] by auto
  have "k = 0 \<or> (2::nat) ^ k < 2 * unat nwords" using k(4) by (cases k) auto
  then show ?thesis using k j
    by (auto simp: MEMSIM_def Let_def mem_inv_def mem_shape_def pow2_mask unat_pow2 intro!: exI [of _ j] exI [of _ k])
qed

lemma apply_shape: "mem_shape j k s \<Longrightarrow> mem_shape j k (snd (mem_apply r s))"
  by (auto simp: mem_shape_def mem_apply_def Let_def)

lemma load_shape: "mem_shape j k s \<Longrightarrow> mem_shape j k (mem_load ws s)"
  by (auto simp: mem_shape_def mem_load_def Let_def)

lemma apply_inv: "mem_inv s \<Longrightarrow> mem_inv (snd (mem_apply r s))"
  unfolding mem_inv_def using apply_shape by blast

interpretation mem: clocked "\<lambda>r s. snd (mem_apply r s)" mem_inv "the (MEMSIM 0x100000 27 (\<lambda>i. 0))"
proof
  show "mem_inv (the (MEMSIM 0x100000 27 (\<lambda>i. 0)))"
    using MEMSIM_inv [of "0x100000" 27 "\<lambda>i. 0"] by auto
qed (rule apply_inv)

subsection \<open>The delay line\<close>

text \<open>Slot \<open>i\<close> places before the head, in a ring of \<open>D\<close>.\<close>

definition slot :: "nat \<Rightarrow> nat \<Rightarrow> nat \<Rightarrow> nat" where
  "slot D h i = (if i \<le> h then h - i else h + D - i)"

text \<open>What a request puts into the delay line.\<close>

definition entry :: "wb_req \<Rightarrow> memsim \<Rightarrow> int \<times> busw" where
  "entry r s = (if wb_cyc r \<and> wb_stb r then (1, mem_at (wb_addr r) (snd (mem_apply r s))) else (0, 0))"

fun entries :: "wb_req list \<Rightarrow> memsim \<Rightarrow> (int \<times> busw) list" where
  "entries [] s = []"
| "entries (r # rs) s = entry r s # entries rs (snd (mem_apply r s))"

definition line_ok :: "(int \<times> busw) list \<Rightarrow> memsim \<Rightarrow> bool" where
  "line_ok hist s \<longleftrightarrow> (\<forall>i < length (m_fifo_ack s). let b = slot (length (m_fifo_ack s)) (unat (m_head s)) i in
     if i < length hist then (m_fifo_ack s ! b, m_fifo_data s ! b) = hist ! i else m_fifo_ack s ! b = 0)"

lemma slot_lt: "h < D \<Longrightarrow> i < D \<Longrightarrow> slot D h i < D"
  by (auto simp: slot_def)

lemma mod_pow_dvd: "(x mod 2 ^ 32) mod 2 ^ j = x mod 2 ^ j" if "j \<le> 31" for x :: int
  using that by (intro mod_mod_cancel le_imp_power_dvd) simp

lemma ring_succ: "h < D \<Longrightarrow> (int h + 1) mod int D = int (if h + 1 = D then 0 else h + 1)"
  by (cases "h + 1 = D") (auto simp: mod_pos_pos_trivial add.commute [of 1])

lemma ring_sub:
  assumes "h < D" and "0 < d" and "d \<le> D"
  shows "(int h + 1 - int d) mod int D = int (slot D h (d - 1))"
proof (cases "d - 1 \<le> h")
  case True
  then have "(int h + 1 - int d) mod int D = int h + 1 - int d"
    using assms by (intro mod_pos_pos_trivial) auto
  then show ?thesis using True assms(2) by (auto simp: slot_def)
next
  case False
  have "(int h + 1 - int d) mod int D = (int h + 1 - int d + int D) mod int D" by simp
  also have "\<dots> = int h + 1 - int d + int D"
    using False assms by (intro mod_pos_pos_trivial) auto
  finally show ?thesis using False assms by (auto simp: slot_def)
qed

lemma ring_index:
  assumes "mem_shape j k s" and "0 < unat (m_delay s)"
  shows "unat ((m_head s + 1) AND m_delay_mask s) = (if unat (m_head s) + 1 = 2 ^ j then 0 else unat (m_head s) + 1)"
    and "unat ((m_head s + 1 - m_delay s) AND m_delay_mask s) = slot (2 ^ j) (unat (m_head s)) (unat (m_delay s) - 1)"
proof -
  define h d where "h = unat (m_head s)" and "d = unat (m_delay s)"
  let ?D = "2 ^ j :: nat"
  have sh: "j \<le> 31" "m_delay_mask s = mask j" "h < ?D" "0 < d" "d \<le> ?D"
    using assms by (auto simp: mem_shape_def h_def d_def)
  have u: "uint (m_head s) = int h" "uint (m_delay s) = int d" by (simp_all add: h_def d_def)
  have m: "int (unat (w AND mask j)) = uint w mod 2 ^ j" for w :: busw
    by (simp del: unat_and_mask flip: take_bit_eq_mask take_bit_eq_mod unsigned_take_bit_eq)
  have "int (unat ((m_head s + 1) AND mask j)) = (int h + 1) mod int ?D"
    unfolding m using mod_pow_dvd [OF sh(1), of "int h + 1"] by (simp add: uint_word_ariths u)
  then show "unat ((m_head s + 1) AND m_delay_mask s) = (if h + 1 = ?D then 0 else h + 1)"
    unfolding sh(2) ring_succ [OF sh(3)] by linarith
  have "int (unat ((m_head s + 1 - m_delay s) AND mask j)) = (int h + 1 - int d) mod int ?D"
    unfolding m using mod_pow_dvd [OF sh(1), of "int h + 1 - int d"] by (simp add: uint_word_ariths u mod_simps)
  then show "unat ((m_head s + 1 - m_delay s) AND m_delay_mask s) = slot ?D h (d - 1)"
    unfolding sh(2) ring_sub [OF sh(3-5)] by linarith
qed

lemma apply_line:
  assumes sh: "mem_shape j k s" and d: "0 < unat (m_delay s)" and ln: "line_ok hist s"
  shows "line_ok (entry r s # hist) (snd (mem_apply r s))"
    and "unat (m_delay s) \<le> length hist \<Longrightarrow> fst (mem_apply r s) = hist ! (unat (m_delay s) - 1)"
    and "\<not> unat (m_delay s) \<le> length hist \<Longrightarrow> fst (fst (mem_apply r s)) = 0"
proof -
  define h where "h = unat (m_head s)"
  define h' where "h' = (if h + 1 = 2 ^ j then 0 else h + 1)"
  let ?d = "unat (m_delay s)" and ?D = "2 ^ j :: nat" and ?s = "snd (mem_apply r s)"
  have l: "length (m_fifo_ack s) = ?D" "length (m_fifo_data s) = ?D" "h < ?D" "?d \<le> ?D"
    using sh by (auto simp: mem_shape_def h_def)
  have hd: "unat ((m_head s + 1) AND m_delay_mask s) = h'"
    and tl: "unat ((m_head s + 1 - m_delay s) AND m_delay_mask s) = slot ?D h (?d - 1)"
    using ring_index [OF sh d] by (simp_all add: h_def h'_def)
  have h': "h' < ?D" using l(3) by (auto simp: h'_def)
  have di: "?d - 1 < ?D" using d l(4) by linarith
  have out: "fst (mem_apply r s) = (m_fifo_ack s ! slot ?D h (?d - 1), m_fifo_data s ! slot ?D h (?d - 1))"
    unfolding mem_apply_def Let_def tl by simp
  have lo: "if i < length hist then (m_fifo_ack s ! slot ?D h i, m_fifo_data s ! slot ?D h i) = hist ! i
      else m_fifo_ack s ! slot ?D h i = 0" if "i < ?D" for i
    using ln that by (simp add: line_ok_def l(1) h_def Let_def)
  show "?d \<le> length hist \<Longrightarrow> fst (mem_apply r s) = hist ! (?d - 1)"
    using lo [OF di] d unfolding out by (simp split: if_splits)
  show "\<not> ?d \<le> length hist \<Longrightarrow> fst (fst (mem_apply r s)) = 0"
    using lo [OF di] d unfolding out by (simp split: if_splits)
  have fa: "m_fifo_ack ?s = (m_fifo_ack s)[h' := fst (entry r s)]"
    and fd: "m_fifo_data ?s = (m_fifo_data s)[h' := snd (entry r s)]" and mh: "unat (m_head ?s) = h'"
    using hd by (auto simp: mem_apply_def entry_def mem_at_def Let_def)
  show "line_ok (entry r s # hist) ?s"
    unfolding line_ok_def Let_def
  proof (intro allI impI)
    fix i assume "i < length (m_fifo_ack ?s)"
    then have i: "i < ?D" by (simp add: fa l)
    show "if i < length (entry r s # hist)
       then (m_fifo_ack ?s ! slot (length (m_fifo_ack ?s)) (unat (m_head ?s)) i,
             m_fifo_data ?s ! slot (length (m_fifo_ack ?s)) (unat (m_head ?s)) i) = (entry r s # hist) ! i
       else m_fifo_ack ?s ! slot (length (m_fifo_ack ?s)) (unat (m_head ?s)) i = 0"
    proof (cases i)
      case 0
      then show ?thesis using h' by (simp add: fa fd mh l slot_def)
    next
      case (Suc i')
      have sl: "slot ?D h' i = slot ?D h i'" "slot ?D h' i \<noteq> h'"
        using Suc i l(3) by (auto simp: slot_def h'_def)
      show ?thesis using lo [of i'] i sl unfolding fa fd mh by (auto simp: l Suc split: if_splits)
    qed
  qed
qed

lemma apply_delay: "m_delay (snd (mem_apply r s)) = m_delay s" "m_mask (snd (mem_apply r s)) = m_mask s"
  by (simp_all add: mem_apply_def Let_def)

lemma mem_run_line:
  assumes "mem_shape j k s" and "unat (m_delay s) = d" and "0 < d" and "line_ok hist s" and "n < length rs"
  shows "(d \<le> length hist + n \<longrightarrow> fst (mem_run rs s) ! n = (rev hist @ entries rs s) ! (length hist + n - d)) \<and>
    (length hist + n < d \<longrightarrow> fst (fst (mem_run rs s) ! n) = 0)"
  using assms
proof (induction rs arbitrary: s hist n)
  case (Cons r rs)
  let ?s = "snd (mem_apply r s)"
  have d: "0 < unat (m_delay s)" using Cons.prems(2,3) by simp
  note al = apply_line [OF Cons.prems(1) d Cons.prems(4), of r, unfolded Cons.prems(2)]
  have run: "fst (mem_run (r # rs) s) = fst (mem_apply r s) # fst (mem_run rs ?s)"
    by (simp split: prod.splits)
  show ?case
  proof (cases n)
    case 0
    have "d \<le> length hist \<Longrightarrow> (rev hist @ entries (r # rs) s) ! (length hist - d) = hist ! (d - 1)"
    proof -
      assume dl: "d \<le> length hist"
      then have "length hist - d < length hist" using Cons.prems(3) by linarith
      then show ?thesis using dl Cons.prems(3) by (simp add: nth_append rev_nth)
    qed
    then show ?thesis using al(2,3) by (simp add: 0 run not_le del: mem_run.simps)
  next
    case (Suc m)
    have "(d \<le> length (entry r s # hist) + m \<longrightarrow>
         fst (mem_run rs ?s) ! m = (rev (entry r s # hist) @ entries rs ?s) ! (length (entry r s # hist) + m - d)) \<and>
      (length (entry r s # hist) + m < d \<longrightarrow> fst (fst (mem_run rs ?s) ! m) = 0)"
      using Cons.IH [OF apply_shape [OF Cons.prems(1)] _ Cons.prems(3) al(1), of m] Cons.prems(2,5) Suc
      by (simp add: apply_delay)
    then show ?thesis by (simp add: run Suc del: mem_run.simps)
  qed
qed simp

lemma mem_run_fold: "snd (mem_run rs s) = fold (\<lambda>r s. snd (mem_apply r s)) rs s"
  by (induction rs arbitrary: s) (simp_all add: case_prod_unfold Let_def)

lemma entries_nth:
  "m < length rs \<Longrightarrow> entries rs s ! m = entry (rs ! m) (snd (mem_run (take m rs) s))"
proof (induction rs arbitrary: m s)
  case (Cons r rs)
  then show ?case by (cases m) (auto split: prod.splits)
qed simp

lemma entries_length: "length (entries rs s) = length rs"
  by (induction rs arbitrary: s) auto

lemma sel_mask_bit:
  "bit (sel_mask sel) n \<longleftrightarrow> n < 32 \<and> bit sel (n div 8)"
proof (cases "n < 32")
  case True
  have b: "(sel AND 8 \<noteq> 0) = bit sel 3" "(sel AND 4 \<noteq> 0) = bit sel 2" "(sel AND 2 \<noteq> 0) = bit sel 1" "(sel AND 1 \<noteq> 0) = bit sel 0"
    using and_exp_eq_0_iff_not_bit [of sel 3] and_exp_eq_0_iff_not_bit [of sel 2]
      and_exp_eq_0_iff_not_bit [of sel 1] and_exp_eq_0_iff_not_bit [of sel 0] by simp_all
  have lanes: "bit (0xff000000 :: busw) n = (n div 8 = 3)" "bit (0xff0000 :: busw) n = (n div 8 = 2)"
    "bit (0xff00 :: busw) n = (n div 8 = 1)" "bit (0xff :: busw) n = (n div 8 = 0)"
  proof -
    have "\<forall>n \<in> set [0..<32]. bit (0xff000000 :: busw) n = (n div 8 = 3) \<and> bit (0xff0000 :: busw) n = (n div 8 = 2) \<and>
      bit (0xff00 :: busw) n = (n div 8 = 1) \<and> bit (0xff :: busw) n = (n div 8 = 0)" by (simp add: upt_rec)
    then show "bit (0xff000000 :: busw) n = (n div 8 = 3)" "bit (0xff0000 :: busw) n = (n div 8 = 2)"
      "bit (0xff00 :: busw) n = (n div 8 = 1)" "bit (0xff :: busw) n = (n div 8 = 0)" using True by simp_all
  qed
  have "n div 8 < 4" using True by auto
  then have "n div 8 = 0 \<or> n div 8 = 1 \<or> n div 8 = 2 \<or> n div 8 = 3" by linarith
  moreover have "bit (sel_mask sel) n = (bit sel 3 \<and> n div 8 = 3 \<or> bit sel 2 \<and> n div 8 = 2 \<or> bit sel 1 \<and> n div 8 = 1 \<or> bit sel 0 \<and> n div 8 = 0)"
    unfolding sel_mask_def Let_def b lanes [symmetric] by (simp add: bit_or_iff)
  ultimately show ?thesis using True by auto
next
  case False
  then show ?thesis using bit_imp_le_length [of "sel_mask sel" n] by auto
qed

subsection \<open>Properties\<close>

text \<open>A memory built for any size up to \<open>2^31\<close> words has a power of two of at least that many
  words, and less than twice as many; every access of a run, whatever the requests, stays
  inside the arrays.\<close>

lemma memsim_sizes:
  assumes "unat nwords \<le> 2 ^ 31" and "unat delay \<le> 2 ^ 31"
  shows "\<exists>s. MEMSIM nwords delay junk = Some s \<and> unat nwords \<le> unat (m_len s) \<and>
    (unat (m_len s) = 1 \<or> unat (m_len s) < 2 * unat nwords) \<and>
    (\<forall>rs. let s' = fold (\<lambda>r s. snd (mem_apply r s)) rs s in
      \<forall>a. unat (a AND m_mask s') < length (m_mem s') \<and> unat (a AND m_delay_mask s') < length (m_fifo_ack s') \<and>
          length (m_fifo_data s') = length (m_fifo_ack s'))"
proof -
  obtain s where s: "MEMSIM nwords delay junk = Some s" "mem_inv s" "unat nwords \<le> unat (m_len s)"
    "unat (m_len s) = 1 \<or> unat (m_len s) < 2 * unat nwords" using MEMSIM_inv [OF assms] by blast
  have "mem_inv t \<Longrightarrow> unat (a AND m_mask t) < length (m_mem t) \<and> unat (a AND m_delay_mask t) < length (m_fifo_ack t) \<and>
          length (m_fifo_data t) = length (m_fifo_ack t)" for t and a :: busw
    by (auto simp: mem_inv_def mem_shape_def)
  then show ?thesis using s mem.inv_run_from [OF s(2)] by (auto simp: Let_def)
qed

lemma memsim_sizes_witness: "\<exists>s. MEMSIM 1000 27 (\<lambda>i. 0) = Some s \<and> 1000 \<le> unat (m_len s)"
  using memsim_sizes [of 1000 27 "\<lambda>i. 0"] by auto

text \<open>C7: with a delay of at least one clock the memory answers every request exactly \<open>delay\<close> clocks after it was made, in order and
  once: at clock \<open>n\<close> it acknowledges if and only if there was a request at clock
  \<open>n - delay\<close>, and the data is what that address held once the request was carried out.\<close>

theorem memsim_latency:
  assumes "MEMSIM nwords delay junk = Some s" and "unat nwords \<le> 2 ^ 31" and "unat delay \<le> 2 ^ 31"
    and "0 < unat delay" and "n < length rs"
  shows "let (ack, dat) = fst (mem_run rs s) ! n; m = n - unat delay; r = rs ! m in
     ack = (if unat delay \<le> n \<and> wb_cyc r \<and> wb_stb r then 1 else 0) \<and>
     (ack = 1 \<longrightarrow> dat = mem_at (wb_addr r) (snd (mem_run (take (Suc m) rs) s)))"
proof -
  obtain s0 where "MEMSIM nwords delay junk = Some s0" "mem_inv s0" "m_delay s0 = delay" "m_head s0 = 0"
    "\<forall>i < length (m_fifo_ack s0). m_fifo_ack s0 ! i = 0"
    using MEMSIM_inv [OF assms(2,3)] by blast
  then have s: "mem_inv s" "m_delay s = delay" "\<forall>i < length (m_fifo_ack s). m_fifo_ack s ! i = 0"
    using assms(1) by auto
  then obtain j k where sh: "mem_shape j k s" by (auto simp: mem_inv_def)
  have ln: "line_ok [] s" using s(3) sh by (auto simp: line_ok_def mem_shape_def Let_def intro: slot_lt)
  let ?d = "unat delay" and ?m = "n - unat delay"
  have r: "(?d \<le> n \<longrightarrow> fst (mem_run rs s) ! n = entries rs s ! ?m) \<and> (n < ?d \<longrightarrow> fst (fst (mem_run rs s) ! n) = 0)"
    using mem_run_line [OF sh _ assms(4) ln assms(5)] s(2) by simp
  have m: "?m < length rs" using assms(5) by simp
  have take: "snd (mem_run (take (Suc i) rs) s) = snd (mem_apply (rs ! i) (snd (mem_run (take i rs) s)))" if "i < length rs" for i
  proof -
    show ?thesis by (simp add: take_Suc_conv_app_nth [OF that] mem_run_fold)
  qed
  show ?thesis
  proof (cases "?d \<le> n")
    case True
    then show ?thesis using r entries_nth [OF m, of s] take [OF m]
      by (auto simp: entry_def Let_def split: prod.splits)
  next
    case False
    then show ?thesis using r by (auto simp: Let_def split: prod.splits)
  qed
qed

theorem memsim_latency_witness:
  "\<exists>s. MEMSIM 16 2 (\<lambda>i. of_nat i) = Some s \<and>
    (let r = \<lparr>wb_cyc = True, wb_stb = True, wb_we = True, wb_addr = 3, wb_data = 0x55, wb_sel = 15\<rparr>;
         idle = \<lparr>wb_cyc = False, wb_stb = False, wb_we = False, wb_addr = 0, wb_data = 0, wb_sel = 0\<rparr>
     in fst (fst (mem_run [r, idle, idle] s) ! 2) = 1)"
proof -
  obtain s where s: "MEMSIM 16 2 (\<lambda>i. of_nat i) = Some s" using MEMSIM_inv [of 16 2 "\<lambda>i. of_nat i"] by auto
  let ?r = "\<lparr>wb_cyc = True, wb_stb = True, wb_we = True, wb_addr = 3, wb_data = 0x55, wb_sel = 15\<rparr>"
  let ?i = "\<lparr>wb_cyc = False, wb_stb = False, wb_we = False, wb_addr = 0, wb_data = 0, wb_sel = 0\<rparr>"
  have "fst (fst (mem_run [?r, ?i, ?i] s) ! 2) = 1"
    using memsim_latency [OF s, of 2 "[?r, ?i, ?i]"] by (auto simp: Let_def simp del: mem_run.simps split: prod.splits)
  then show ?thesis using s by (simp add: Let_def del: mem_run.simps)
qed

text \<open>A write changes, of the whole memory, exactly the selected bytes of the addressed word;
  a clock without a write changes nothing.\<close>

lemma memsim_write_lanes:
  assumes "mem_inv s"
  shows "let s' = snd (mem_apply r s); a = unat (wb_addr r AND m_mask s) in
    (\<forall>i < length (m_mem s). i \<noteq> a \<longrightarrow> m_mem s' ! i = m_mem s ! i) \<and>
    (\<forall>n < 32. bit (m_mem s' ! a) n =
       (if wb_cyc r \<and> wb_stb r \<and> wb_we r \<and> bit (wb_sel r) (n div 8) then bit (wb_data r) n else bit (m_mem s ! a) n))"
proof -
  obtain j k where sh: "mem_shape j k s" using assms by (auto simp: mem_inv_def)
  let ?a = "unat (wb_addr r AND m_mask s)" and ?sel = "sel_mask (wb_sel r)"
  have a: "?a < length (m_mem s)" using sh by (simp add: mem_shape_def)
  have c: "(0xffffffff :: busw) = -1" "(- 0x100000000 :: busw) = 0" by simp_all
  have full: "w AND 0xffffffff = w" "w AND - 0x100000000 = 0" for w :: busw
    unfolding c by (rule and.right_neutral, rule and_zero_eq)
  have m: "m_mem (snd (mem_apply r s)) = (if wb_cyc r \<and> wb_stb r \<and> wb_we r
      then (m_mem s)[?a := (m_mem s ! ?a AND NOT ?sel) OR (wb_data r AND ?sel)] else m_mem s)"
    by (auto simp: mem_apply_def Let_def full)
  show ?thesis unfolding Let_def m using a by (auto simp: bit_simps sel_mask_bit)
qed

lemma memsim_write_lanes_witness:
  "m_mem (snd (mem_apply \<lparr>wb_cyc = True, wb_stb = True, wb_we = True, wb_addr = 5, wb_data = 1, wb_sel = 1\<rparr>
     (the (MEMSIM 0x100000 27 (\<lambda>i. 0))))) ! 7 = m_mem (the (MEMSIM 0x100000 27 (\<lambda>i. 0))) ! 7"
proof -
  have s: "mem_inv (the (MEMSIM 0x100000 27 (\<lambda>i. 0)))" by (rule mem.inv_start)
  obtain t where t: "MEMSIM 0x100000 27 (\<lambda>i. 0) = Some t" "mem_inv t" "0x100000 \<le> unat (m_len t)"
    using MEMSIM_inv [of "0x100000" 27 "\<lambda>i. 0"] by auto
  obtain j k where sh: "mem_shape j k t" using t(2) by (auto simp: mem_inv_def)
  have "7 < length (m_mem t)" using t(3) sh by (auto simp: mem_shape_def)
  moreover have "unat (5 AND m_mask t) \<noteq> 7"
  proof -
    have "unat (5 AND m_mask t) = 5 mod 2 ^ k" using sh by (simp add: mem_shape_def)
    then show ?thesis using mod_less_eq_dividend [of 5 "2 ^ k"] by linarith
  qed
  ultimately show ?thesis
    using memsim_write_lanes [OF t(2), of "\<lparr>wb_cyc = True, wb_stb = True, wb_we = True, wb_addr = 5, wb_data = 1, wb_sel = 1\<rparr>"] t(1)
    by (simp add: Let_def)
qed

end
