(* ===== verification/EnetCtrlSim.thy ===== *)
theory EnetCtrlSim
  imports Prelude
begin

text \<open>
  The simulated management port of the Ethernet PHY (\<open>src/sim/verilated/enetctrlsim.cpp\<close>,
  \<open>enetctrlsim.h\<close>): an MDIO slave that is called once per simulation tick with the clock and
  data wires. The shift registers \<open>m_datareg\<close> and \<open>m_outreg\<close> and the registers of the PHY
  are 32-bit words; their right shifts are masked, so that the sign extension of the code is
  not seen. The tick counters are taken to stay below \<open>2^31\<close>.
\<close>

subsection \<open>Definitions\<close>

record enetctrl =
  m_consecutive_clocks :: int
  m_lastout :: int
  m_tickcount :: int
  m_ticks_per_clock :: int
  m_lastclk :: int
  TICKS_PER_CLOCK :: int
  PHY_ADDR :: busw
  m_regs :: "busw list"
  m_synched :: bool
  m_datareg :: busw
  m_halfword :: int
  m_outreg :: busw

definition ENETCTRLSIM :: enetctrl where
  "ENETCTRLSIM = \<lparr>m_consecutive_clocks = 0, m_lastout = 0, m_tickcount = 0, m_ticks_per_clock = 0,
     m_lastclk = 0, TICKS_PER_CLOCK = 4, PHY_ADDR = 1, m_regs = replicate 32 0,
     m_synched = False, m_datareg = -1, m_halfword = 0, m_outreg = -1\<rparr>"

text \<open>The rising edge: the length of the preamble and of the clock period.\<close>

definition count_clock :: "int \<Rightarrow> enetctrl \<Rightarrow> enetctrl" where
  "count_clock data s =
     (let s = (if data \<noteq> 0 \<and> m_consecutive_clocks s < 128
               then s\<lparr>m_consecutive_clocks := m_consecutive_clocks s + 1\<rparr>
               else if data = 0 then s\<lparr>m_consecutive_clocks := 0\<rparr> else s);
          s = (if m_tickcount s \<noteq> m_ticks_per_clock s \<or> m_ticks_per_clock s < TICKS_PER_CLOCK s
               then s\<lparr>m_consecutive_clocks := 0, m_synched := False\<rparr> else s)
      in s\<lparr>m_ticks_per_clock := m_tickcount s, m_tickcount := 0\<rparr>)"

definition synchronize :: "enetctrl \<Rightarrow> enetctrl" where
  "synchronize s =
     (if m_consecutive_clocks s > 32
      then s\<lparr>m_synched := True, m_lastout := 1, m_halfword := 0, m_datareg := -1\<rparr> else s)"

text \<open>One bit of a frame. The assertion on bit 16 of a write is the error.\<close>

definition half_command :: "enetctrl \<Rightarrow> enetctrl" where
  "half_command s =
     (let cmd = drop_bit 12 (m_datareg s) AND 0x0f;
          phy = drop_bit 7 (m_datareg s) AND 0x01f
      in if cmd = 6 \<and> phy = PHY_ADDR s then
           (let addr = unat (drop_bit 2 (m_datareg s) AND 0x01f)
            in s\<lparr>m_outreg := push_bit 15 (m_regs s ! addr AND 0x0ffff) OR 0x080007fff\<rparr>)
         else s)"

definition full_command :: "(enetctrl, unit) call" where
  "full_command s =
     (let cmd = drop_bit 28 (m_datareg s) AND 0x0f;
          phy = drop_bit 23 (m_datareg s) AND 0x01f
      in if cmd = 5 \<and> phy = PHY_ADDR s then
           (if m_datareg s AND 0x010000 \<noteq> 0 then (Inl AssertFail, s)
            else let addr = unat (drop_bit 18 (m_datareg s) AND 0x1f)
                 in (Inr (), s\<lparr>m_regs := (m_regs s)[addr := m_datareg s AND 0x0ffff], m_datareg := -1\<rparr>))
         else (Inr (), s\<lparr>m_datareg := -1\<rparr>))"

definition shift_bit :: "int \<Rightarrow> (enetctrl, unit) call" where
  "shift_bit data s =
     (let s = s\<lparr>m_datareg := push_bit 1 (m_datareg s) OR (if data AND 1 \<noteq> 0 then 1 else 0)\<rparr> in
      if m_halfword s = 0 \<and> m_datareg s AND 0x8000 = 0
      then (Inr (), half_command (s\<lparr>m_halfword := 1\<rparr>))
      else if m_halfword s \<noteq> 0 \<and> m_halfword s < 16
      then (Inr (), s\<lparr>m_halfword := m_halfword s + 1\<rparr>)
      else if m_halfword s \<noteq> 0 then full_command (s\<lparr>m_halfword := 0\<rparr>)
      else (Inr (), s))"

definition enet_tick :: "bool \<Rightarrow> int \<Rightarrow> int \<Rightarrow> (enetctrl, int) call" where
  "enet_tick in_reset clk data s =
     (let posedge = clk \<noteq> 0 \<and> m_lastclk s = 0;
          negedge = clk = 0 \<and> m_lastclk s \<noteq> 0;
          s = s\<lparr>m_tickcount := m_tickcount s + 1\<rparr>
      in if in_reset then
           (Inr 1, s\<lparr>m_consecutive_clocks := 0, m_synched := False, m_lastout := 1, m_datareg := -1,
                     m_lastclk := clk\<rparr>)
         else
           bindE (modifyE (\<lambda>s. if posedge then count_clock data s else s)) (\<lambda>_.
           bindE (modifyE synchronize) (\<lambda>_.
           bindE (\<lambda>s. if posedge \<and> m_synched s then shift_bit data s
                      else if negedge then (Inr (), s\<lparr>m_outreg := push_bit 1 (m_outreg s) OR 1\<rparr>)
                      else (Inr (), s)) (\<lambda>_.
           bindE (getsE (\<lambda>s. if m_outreg s AND 0x40000000 \<noteq> 0 then 1 else 0)) (\<lambda>output.
           bindE (modifyE (\<lambda>s. s\<lparr>m_lastclk := clk\<rparr>)) (\<lambda>_.
             returnE (data AND output AND 1)))))) s)"

text \<open>\<open>operator[]\<close>: the content of a register.\<close>

definition enet_reg :: "int \<Rightarrow> enetctrl \<Rightarrow> busw" where
  "enet_reg index s = m_regs s ! nat (index AND 31) AND 0x0ffff"

text \<open>A clock period: \<open>p\<close> ticks low, \<open>q\<close> ticks high, with one data value throughout. The
  outputs of the high ticks are the result.\<close>

fun enet_ticks :: "nat \<Rightarrow> int \<Rightarrow> int \<Rightarrow> (enetctrl, int list) call" where
  "enet_ticks 0 clk data = returnE []"
| "enet_ticks (Suc n) clk data =
     bindE (enet_tick False clk data) (\<lambda>v. bindE (enet_ticks n clk data) (\<lambda>vs. returnE (v # vs)))"

definition mdio_period :: "nat \<Rightarrow> nat \<Rightarrow> bool \<Rightarrow> (enetctrl, int list) call" where
  "mdio_period p q b =
     bindE (enet_ticks p 0 (of_bool b)) (\<lambda>_. enet_ticks q 1 (of_bool b))"

fun mdio_frame :: "nat \<Rightarrow> nat \<Rightarrow> bool list \<Rightarrow> (enetctrl, int list list) call" where
  "mdio_frame p q [] = returnE []"
| "mdio_frame p q (b # bs) =
     bindE (mdio_period p q b) (\<lambda>v. bindE (mdio_frame p q bs) (\<lambda>vs. returnE (v # vs)))"

subsection \<open>One clock period\<close>

text \<open>Just before a falling edge, with the clock period known and long enough.\<close>

definition clk_ok :: "nat \<Rightarrow> nat \<Rightarrow> enetctrl \<Rightarrow> bool" where
  "clk_ok p q s \<longleftrightarrow> 0 < p \<and> 0 < q \<and> 4 \<le> p + q \<and> m_lastclk s = 1 \<and> m_tickcount s = int q - 1 \<and>
     m_ticks_per_clock s = int (p + q) \<and> TICKS_PER_CLOCK s = 4"

text \<open>The output wire.\<close>

definition out_bit :: "bool \<Rightarrow> enetctrl \<Rightarrow> int" where
  "out_bit b s = (if b \<and> bit (m_outreg s) 30 then 1 else 0)"

lemma and_bit30: "(w AND 0x40000000 \<noteq> 0) = bit w 30" for w :: busw
  using and_exp_eq_0_iff_not_bit [of w 30] by simp

lemma and_bit15: "(w AND 0x8000 = 0) = (\<not> bit w 15)" for w :: busw
  using and_exp_eq_0_iff_not_bit [of w 15] by simp

text \<open>A long preamble has already had its effect.\<close>

definition settled :: "enetctrl \<Rightarrow> bool" where
  "settled s \<longleftrightarrow> (m_consecutive_clocks s > 32 \<longrightarrow>
     m_synched s \<and> m_lastout s = 1 \<and> m_halfword s = 0 \<and> m_datareg s = -1)"

lemma settled_sync: "settled s \<Longrightarrow> synchronize s = s"
  by (cases s) (auto simp: settled_def synchronize_def)

lemma settled_upd [simp]:
  "settled (s\<lparr>m_tickcount := x\<rparr>) = settled s" "settled (s\<lparr>m_outreg := w\<rparr>) = settled s"
  "settled (s\<lparr>m_lastclk := x\<rparr>) = settled s" "settled (s\<lparr>m_ticks_per_clock := x\<rparr>) = settled s"
  by (simp_all add: settled_def)

lemma settled_short: "m_consecutive_clocks s \<le> 32 \<Longrightarrow> settled s"
  by (simp add: settled_def)

lemma tick_same_level:
  assumes "m_lastclk s = clk" and "settled s"
  shows "enet_tick False clk (of_bool b) s = (Inr (out_bit b s), s\<lparr>m_tickcount := m_tickcount s + 1\<rparr>)"
  using assms
  by (auto simp: enet_tick_def Let_def bindE_def modifyE_def getsE_def returnE_def settled_sync and_bit30 out_bit_def)

lemma ticks_same_level:
  "m_lastclk s = clk \<Longrightarrow> settled s \<Longrightarrow>
   enet_ticks n clk (of_bool b) s = (Inr (replicate n (out_bit b s)), s\<lparr>m_tickcount := m_tickcount s + int n\<rparr>)"
proof (induction n arbitrary: s)
  case (Suc n)
  let ?s = "s\<lparr>m_tickcount := m_tickcount s + 1\<rparr>"
  have "out_bit b ?s = out_bit b s" by (simp add: out_bit_def)
  then show ?case using tick_same_level [OF Suc.prems, of b] Suc.IH [of ?s] Suc.prems
    by (simp add: bindE_def returnE_def add.assoc)
qed (simp add: returnE_def)

text \<open>The state a period hands to \<open>shift_bit\<close>.\<close>

definition bit_in :: "bool \<Rightarrow> enetctrl \<Rightarrow> enetctrl" where
  "bit_in b s = s\<lparr>m_outreg := push_bit 1 (m_outreg s) OR 1,
     m_consecutive_clocks := (if b then m_consecutive_clocks s + 1 else 0)\<rparr>"

lemma shift_bit_frame:
  "shift_bit d (s\<lparr>m_tickcount := x, m_lastclk := y, m_ticks_per_clock := z\<rparr>) =
    (case shift_bit d s of (r, t) \<Rightarrow> (r, t\<lparr>m_tickcount := x, m_lastclk := y, m_ticks_per_clock := z\<rparr>))"
  by (simp add: shift_bit_def half_command_def full_command_def Let_def)

lemma shift_bit_keeps:
  assumes "shift_bit d s = (r, t)"
  shows "m_tickcount t = m_tickcount s" "m_lastclk t = m_lastclk s" "m_ticks_per_clock t = m_ticks_per_clock s"
    "m_consecutive_clocks t = m_consecutive_clocks s" "m_synched t = m_synched s" "PHY_ADDR t = PHY_ADDR s"
    "TICKS_PER_CLOCK t = TICKS_PER_CLOCK s"
  using assms by (auto simp: shift_bit_def half_command_def full_command_def Let_def split: if_splits)

lemma fall_tick:
  assumes "m_lastclk s = 1" and "settled s"
  shows "\<exists>v. enet_tick False 0 d s = (Inr v, s\<lparr>m_tickcount := m_tickcount s + 1,
     m_outreg := push_bit 1 (m_outreg s) OR 1, m_lastclk := 0\<rparr>)"
  using assms by (simp add: enet_tick_def Let_def bindE_def modifyE_def getsE_def returnE_def settled_sync)

lemma rise_tick:
  assumes "m_lastclk s = 0" and "b \<Longrightarrow> m_consecutive_clocks s < 32" and "m_synched s"
    and "m_tickcount s + 1 = m_ticks_per_clock s" and "TICKS_PER_CLOCK s \<le> m_ticks_per_clock s"
    and "shift_bit (of_bool b) (s\<lparr>m_tickcount := 0, m_consecutive_clocks := (if b then m_consecutive_clocks s + 1 else 0)\<rparr>) = (Inr (), t)"
  shows "enet_tick False 1 (of_bool b) s = (Inr (out_bit b t), t\<lparr>m_lastclk := 1\<rparr>)"
proof -
  have c: "count_clock (of_bool b) (s\<lparr>m_tickcount := m_tickcount s + 1\<rparr>) =
      s\<lparr>m_tickcount := 0, m_consecutive_clocks := (if b then m_consecutive_clocks s + 1 else 0)\<rparr>"
    using assms by (cases b) (auto simp: count_clock_def Let_def)
  have y: "synchronize (s\<lparr>m_tickcount := 0, m_consecutive_clocks := (if b then m_consecutive_clocks s + 1 else 0)\<rparr>) =
      s\<lparr>m_tickcount := 0, m_consecutive_clocks := (if b then m_consecutive_clocks s + 1 else 0)\<rparr>"
    using assms(2) by (cases b) (auto simp: synchronize_def)
  show ?thesis using assms(1,3,6)
    by (auto simp: enet_tick_def Let_def bindE_def modifyE_def getsE_def returnE_def c y and_bit30 out_bit_def)
qed

lemma mdio_period_ok:
  assumes ck: "clk_ok p q s" and sy: "m_synched s" and c: "settled s" "b \<Longrightarrow> m_consecutive_clocks s < 32"
    and sh: "shift_bit (of_bool b) (bit_in b s) = (Inr (), t)"
  shows "mdio_period p q b s = (Inr (replicate q (out_bit b t)), t)"
proof -
  obtain p' q' where pq: "p = Suc p'" "q = Suc q'" using ck by (cases p; cases q) (auto simp: clk_ok_def)
  have k: "m_lastclk s = 1" "m_tickcount s = int q'" "m_ticks_per_clock s = int p' + int q' + 2" "TICKS_PER_CLOCK s = 4"
    "4 \<le> int p' + int q' + 2"
    using ck by (auto simp: clk_ok_def pq)
  let ?s1 = "s\<lparr>m_tickcount := m_tickcount s + 1, m_outreg := push_bit 1 (m_outreg s) OR 1, m_lastclk := 0\<rparr>"
  let ?s2 = "?s1\<lparr>m_tickcount := m_tickcount s + 1 + int p'\<rparr>"
  obtain v where v: "enet_tick False 0 (of_bool b) s = (Inr v, ?s1)" using fall_tick [OF k(1) c(1)] by blast
  have low: "\<exists>vs. enet_ticks p 0 (of_bool b) s = (Inr vs, ?s2)"
    using v ticks_same_level [of ?s1 0 p' b] c(1) by (simp add: pq bindE_def returnE_def)
  let ?x = "?s2\<lparr>m_tickcount := 0, m_consecutive_clocks := (if b then m_consecutive_clocks ?s2 + 1 else 0)\<rparr>"
  have "?x = (bit_in b s)\<lparr>m_tickcount := 0, m_lastclk := 0, m_ticks_per_clock := m_ticks_per_clock s\<rparr>"
    by (simp add: bit_in_def)
  then have shx: "shift_bit (of_bool b) ?x = (Inr (), t\<lparr>m_tickcount := 0, m_lastclk := 0, m_ticks_per_clock := m_ticks_per_clock s\<rparr>)"
    using sh by (simp add: shift_bit_frame)
  let ?t = "t\<lparr>m_tickcount := 0, m_lastclk := 1, m_ticks_per_clock := m_ticks_per_clock s\<rparr>"
  have ob: "out_bit b (t\<lparr>m_tickcount := x, m_lastclk := y, m_ticks_per_clock := z\<rparr>) = out_bit b t" for x y z
    by (simp add: out_bit_def)
  have hi: "enet_tick False 1 (of_bool b) ?s2 = (Inr (out_bit b t), ?t)"
    using rise_tick [OF _ _ _ _ _ shx] c sy k by (simp add: ob)
  have kt: "m_consecutive_clocks t \<le> 32" "m_lastclk t = 1" "m_tickcount t = int q'" "m_ticks_per_clock t = m_ticks_per_clock s"
    using shift_bit_keeps [OF sh] c(2) k by (auto simp: bit_in_def)
  have fin: "?t\<lparr>m_tickcount := int q'\<rparr> = t" using kt by (cases t) simp
  have "enet_ticks q' 1 (of_bool b) ?t = (Inr (replicate q' (out_bit b t)), t)"
    using ticks_same_level [of ?t 1 q' b] settled_short [OF kt(1)] fin by (simp add: ob)
  then have "enet_ticks q 1 (of_bool b) ?s2 = (Inr (replicate q (out_bit b t)), t)"
    using hi by (simp add: pq bindE_def returnE_def)
  then show ?thesis using low by (auto simp: mdio_period_def bindE_def)
qed

subsection \<open>Frames\<close>

definition shiftin :: "busw \<Rightarrow> bool list \<Rightarrow> busw" where
  "shiftin r bs = foldl (\<lambda>r b. push_bit 1 r OR (if b then 1 else 0)) r bs"

lemma shiftin_Nil [simp]: "shiftin r [] = r"
  and shiftin_Cons: "shiftin r (b # bs) = shiftin (push_bit 1 r OR (if b then 1 else 0)) bs"
  and shiftin_append: "shiftin r (xs @ ys) = shiftin (shiftin r xs) ys"
  by (simp_all add: shiftin_def)

lemma shiftin_ones: "shiftin r (replicate (Suc n) True) = push_bit 1 (shiftin r (replicate n True)) OR 1"
  by (simp only: replicate_Suc replicate_append_same [symmetric] shiftin_append shiftin_Cons shiftin_Nil if_True)

lemma bit_push_in:
  "n < 32 \<Longrightarrow> bit (push_bit 1 x OR (if b then 1 else 0)) n = (if n = 0 then b else bit x (n - 1))" for x :: busw
  unfolding bit_or_iff bit_push_bit_iff by (cases n) (auto simp: bit_1_iff)

lemma bit_shiftin:
  "n < 32 \<Longrightarrow> bit (shiftin r bs) n = (if n < length bs then bs ! (length bs - 1 - n) else bit r (n - length bs))"
proof (induction bs arbitrary: n rule: rev_induct)
  case (snoc b bs)
  have "bit (shiftin r (bs @ [b])) n = (if n = 0 then b else bit (shiftin r bs) (n - 1))"
    using snoc.prems by (simp add: shiftin_append shiftin_Cons bit_push_in del: push_bit_Suc One_nat_def)
  then show ?case using snoc.IH [of "n - 1"] snoc.prems by (cases n) (auto simp: nth_append)
qed simp

text \<open>The bits of a word in the order they are sent.\<close>

definition frame_word :: "busw \<Rightarrow> bool list" where
  "frame_word w = map (\<lambda>i. bit w (31 - i)) [0..<32]"

lemma frame_word_length [simp]: "length (frame_word w) = 32"
  by (simp add: frame_word_def)

lemma frame_word_nth: "i < 32 \<Longrightarrow> frame_word w ! i = bit w (31 - i)"
  by (simp add: frame_word_def del: upt_Suc)

lemma frame_word_ne: "frame_word w \<noteq> []"
  using frame_word_length [of w] by (metis list.size(3) zero_neq_numeral)

lemma hd_frame_word: "hd (frame_word w) = bit w 31"
  by (simp add: hd_conv_nth frame_word_ne frame_word_nth)

lemma shiftin_frame: "shiftin r (frame_word w) = w"
  by (rule bit_word_eqI) (simp add: bit_shiftin frame_word_nth)

lemma shiftin_frame_bit:
  assumes "k \<le> 32" and "n < 32"
  shows "bit (shiftin (-1) (take k (frame_word w))) n = (if n < k then bit w (32 - k + n) else True)"
  using assms by (auto simp: bit_shiftin frame_word_nth min_def)

definition adv :: "bool list \<Rightarrow> int \<Rightarrow> int \<Rightarrow> enetctrl \<Rightarrow> enetctrl" where
  "adv bs c h s = s\<lparr>m_outreg := shiftin (m_outreg s) (replicate (length bs) True), m_datareg := shiftin (m_datareg s) bs,
     m_consecutive_clocks := c, m_halfword := h\<rparr>"

lemma shift_plain:
  assumes "if m_halfword s = 0 then bit (push_bit 1 (m_datareg s) OR (if b then 1 else 0)) 15 \<and> h = 0
    else m_halfword s < 16 \<and> h = m_halfword s + 1"
  shows "shift_bit (of_bool b) (bit_in b s) = (Inr (), adv [b] (if b then m_consecutive_clocks s + 1 else 0) h s)"
  using assms
  by (auto simp: shift_bit_def bit_in_def adv_def shiftin_Cons Let_def and_bit15 split: if_splits)

lemma adv_adv: "adv ys c h (adv xs c' h' s) = adv (xs @ ys) c h s"
  by (simp add: adv_def shiftin_append replicate_add)

lemma adv_clk [simp]: "clk_ok p q (adv bs c h s) = clk_ok p q s" "m_synched (adv bs c h s) = m_synched s"
  "m_regs (adv bs c h s) = m_regs s" "PHY_ADDR (adv bs c h s) = PHY_ADDR s"
  "m_halfword (adv bs c h s) = h" "m_datareg (adv bs c h s) = shiftin (m_datareg s) bs"
  "m_consecutive_clocks (adv bs c h s) = c" "m_outreg (adv bs c h s) = shiftin (m_outreg s) (replicate (length bs) True)"
  by (simp_all add: adv_def clk_ok_def)

lemma mdio_frame_append:
  "mdio_frame p q (xs @ ys) =
     bindE (mdio_frame p q xs) (\<lambda>us. bindE (mdio_frame p q ys) (\<lambda>vs. returnE (us @ vs)))"
proof (induction xs)
  case Nil
  show ?case by (rule ext) (auto simp: bindE_def returnE_def split: prod.splits sum.splits)
next
  case (Cons x xs)
  show ?case by (rule ext) (auto simp: Cons bindE_def returnE_def split: prod.splits sum.splits)
qed

text \<open>Bits that only fill the shift register: before the start is seen, or between the two
  halves of a frame.\<close>

definition quiet_bits :: "bool list \<Rightarrow> enetctrl \<Rightarrow> int \<Rightarrow> bool" where
  "quiet_bits bs s h \<longleftrightarrow>
     (if m_halfword s = 0 then (\<forall>k. 0 < k \<longrightarrow> k \<le> length bs \<longrightarrow> bit (shiftin (m_datareg s) (take k bs)) 15) \<and> h = 0
      else 0 < m_halfword s \<and> h = m_halfword s + int (length bs) \<and> h \<le> 16)"

lemma quiet_bits_step:
  assumes "quiet_bits (b # bs) s h"
  defines "h1 \<equiv> (if m_halfword s = 0 then 0 else m_halfword s + 1)"
  shows "if m_halfword s = 0 then bit (push_bit 1 (m_datareg s) OR (if b then 1 else 0)) 15 \<and> h1 = 0
      else m_halfword s < 16 \<and> h1 = m_halfword s + 1"
    and "quiet_bits bs (adv [b] c h1 s) h"
proof -
  have f: "bit (push_bit 1 (m_datareg s) OR (if b then 1 else 0)) 15" if "m_halfword s = 0"
  proof -
    have "bit (shiftin (m_datareg s) (take (Suc 0) (b # bs))) 15"
      using assms(1) that unfolding quiet_bits_def by (simp del: take_Suc_Cons)
    then show ?thesis by (simp add: shiftin_Cons)
  qed
  show "if m_halfword s = 0 then bit (push_bit 1 (m_datareg s) OR (if b then 1 else 0)) 15 \<and> h1 = 0
      else m_halfword s < 16 \<and> h1 = m_halfword s + 1"
  proof (cases "m_halfword s = 0")
    case True then show ?thesis using f by (simp add: h1_def)
  next
    case False then show ?thesis using assms(1) by (simp add: h1_def quiet_bits_def)
  qed
  have "bit (shiftin (shiftin (m_datareg s) [b]) (take k bs)) 15" if "m_halfword s = 0" "0 < k" "k \<le> length bs" for k
  proof -
    have "bit (shiftin (m_datareg s) (take (Suc k) (b # bs))) 15"
      using assms(1) that unfolding quiet_bits_def by (simp del: take_Suc_Cons)
    then show ?thesis by (simp add: shiftin_Cons)
  qed
  then show "quiet_bits bs (adv [b] c h1 s) h"
    using assms by (auto simp: quiet_bits_def split: if_splits)
qed

lemma mdio_quiet:
  assumes "clk_ok p q s" and "m_synched s" and "settled s" and "0 \<le> m_consecutive_clocks s"
    and "bs = [] \<or> \<not> hd bs \<or> m_consecutive_clocks s + int (length bs) \<le> 32" and "length bs \<le> 32" and "quiet_bits bs s h"
  shows "\<exists>c vs. mdio_frame p q bs s = (Inr vs, if bs = [] then s else adv bs c h s) \<and> 0 \<le> c \<and>
    (bs \<noteq> [] \<longrightarrow> c \<le> max 0 (if hd bs then m_consecutive_clocks s else -1) + int (length bs)) \<and> length vs = length bs \<and>
    (\<forall>i < length bs. vs ! i = replicate q (out_bit (bs ! i) (adv (take (Suc i) bs) 0 0 s)))"
  using assms
proof (induction bs arbitrary: s)
  case Nil then show ?case by (auto simp: returnE_def intro: exI [of _ 0])
next
  case (Cons b bs)
  let ?c1 = "if b then m_consecutive_clocks s + 1 else 0"
  let ?h1 = "if m_halfword s = 0 then 0 else m_halfword s + 1"
  let ?s1 = "adv [b] ?c1 ?h1 s"
  have st: "mdio_period p q b s = (Inr (replicate q (out_bit b ?s1)), ?s1)"
    using mdio_period_ok [OF Cons.prems(1-3) _ shift_plain [OF quiet_bits_step(1) [OF Cons.prems(7)]]] Cons.prems(5)
    by auto
  have c1: "0 \<le> ?c1" "?c1 \<le> 32" "?c1 + int (length bs) \<le> 32" using Cons.prems(4-6) by auto
  have s1: "clk_ok p q ?s1" "m_synched ?s1" "settled ?s1" "0 \<le> m_consecutive_clocks ?s1"
    "bs = [] \<or> \<not> hd bs \<or> m_consecutive_clocks ?s1 + int (length bs) \<le> 32" "length bs \<le> 32"
    using Cons.prems(1,2,6) c1 by (auto simp: settled_def)
  obtain c vs where r: "mdio_frame p q bs ?s1 = (Inr vs, if bs = [] then ?s1 else adv bs c h ?s1)" "0 \<le> c"
    "bs \<noteq> [] \<longrightarrow> c \<le> max 0 (if hd bs then m_consecutive_clocks ?s1 else -1) + int (length bs)" "length vs = length bs"
    "\<forall>i < length bs. vs ! i = replicate q (out_bit (bs ! i) (adv (take (Suc i) bs) 0 0 ?s1))"
    using Cons.IH [OF s1 quiet_bits_step(2) [OF Cons.prems(7)]] by blast
  have ob: "out_bit x (adv ys c h t) = out_bit x (adv ys 0 0 t)" for x ys c h t
    by (simp add: out_bit_def)
  have h: "bs = [] \<Longrightarrow> h = ?h1" using Cons.prems(7) by (auto simp: quiet_bits_def split: if_splits)
  let ?c = "if bs = [] then ?c1 else c"
  have "mdio_frame p q (b # bs) s = (Inr (replicate q (out_bit b ?s1) # vs), adv (b # bs) ?c h s)"
    using st r(1) h by (auto simp: bindE_def returnE_def adv_adv)
  moreover have "(replicate q (out_bit b ?s1) # vs) ! i = replicate q (out_bit ((b # bs) ! i) (adv (take (Suc i) (b # bs)) 0 0 s))"
    if "i < length (b # bs)" for i
    using that r(5) by (cases i) (auto simp: adv_adv ob [of _ _ ?c1 ?h1])
  moreover have "0 \<le> ?c" "?c \<le> max 0 (if b then m_consecutive_clocks s else -1) + int (length (b # bs))"
    using r(2,3) c1 Cons.prems(4) by (auto split: if_splits)
  ultimately show ?case using r(4) by (intro exI [of _ ?c] exI [of _ "replicate q (out_bit b ?s1) # vs"]) simp
qed

text \<open>Ready for a frame: in step with the clock and past the preamble.\<close>

definition mdio_ready :: "nat \<Rightarrow> nat \<Rightarrow> enetctrl \<Rightarrow> bool" where
  "mdio_ready p q s \<longleftrightarrow> clk_ok p q s \<and> m_synched s \<and> settled s \<and> 0 \<le> m_consecutive_clocks s \<and>
     m_halfword s = 0 \<and> m_datareg s = -1"

lemma half_command_keeps:
  "clk_ok p q (half_command s) = clk_ok p q s" "m_synched (half_command s) = m_synched s"
  "m_halfword (half_command s) = m_halfword s" "m_consecutive_clocks (half_command s) = m_consecutive_clocks s"
  "m_datareg (half_command s) = m_datareg s" "m_regs (half_command s) = m_regs s" "PHY_ADDR (half_command s) = PHY_ADDR s"
  by (simp_all add: half_command_def Let_def clk_ok_def)

lemma first_half:
  assumes "mdio_ready p q s" and "\<not> bit w 31"
  shows "\<exists>c vs. mdio_frame p q (take 16 (frame_word w)) s = (Inr vs, half_command (adv (take 16 (frame_word w)) c 1 s)) \<and>
    0 \<le> c \<and> c \<le> 16 \<and> length vs = 16 \<and>
    vs ! 15 = replicate q (out_bit (bit w 16) (half_command (adv (take 16 (frame_word w)) c 1 s)))"
proof -
  let ?f = "frame_word w" and ?xs = "take 15 (frame_word w)" and ?b = "bit w 16"
  have r: "clk_ok p q s" "m_synched s" "settled s" "0 \<le> m_consecutive_clocks s" "m_halfword s = 0" "m_datareg s = -1"
    using assms(1) by (auto simp: mdio_ready_def)
  have xs: "length ?xs = 15" "\<not> hd ?xs" "?xs \<noteq> []"
    using assms(2) by (simp_all add: hd_frame_word frame_word_ne)
  have "quiet_bits ?xs s 0"
    using r by (auto simp: quiet_bits_def min_def shiftin_frame_bit)
  from mdio_quiet [OF r(1-4) _ _ this] xs r(4) obtain c1 vs1 where
    s1: "mdio_frame p q ?xs s = (Inr vs1, adv ?xs c1 0 s)" "0 \<le> c1" "c1 \<le> 15" "length vs1 = 15" by auto
  let ?c2 = "if ?b then c1 + 1 else 0"
  have t16: "take 16 ?f = ?xs @ [?b]"
    using take_Suc_conv_app_nth [of 15 ?f] by (simp add: frame_word_nth)
  have z: "\<not> bit (shiftin (-1) (take 16 ?f)) 15" using assms(2) by (simp add: shiftin_frame_bit)
  have sh: "shift_bit (of_bool ?b) (bit_in ?b (adv ?xs c1 0 s)) = (Inr (), half_command (adv (take 16 ?f) ?c2 1 s))"
  proof -
    have d: "push_bit 1 (shiftin (-1) ?xs) OR (if ?b then 1 else 0) = shiftin (-1) (take 16 ?f)"
      by (simp add: t16 shiftin_append shiftin_Cons)
    have "bit_in ?b (adv ?xs c1 0 s)\<lparr>m_datareg := shiftin (-1) (take 16 ?f), m_halfword := 1\<rparr> = adv (take 16 ?f) ?c2 1 s"
      using r(6) shiftin_ones [of "m_outreg s" 15] by (simp add: bit_in_def adv_def)
    then show ?thesis using z r(6) d
      by (simp add: shift_bit_def and_bit15 Let_def bit_in_def split: if_splits)
  qed
  have p16: "mdio_period p q ?b (adv ?xs c1 0 s) =
      (Inr (replicate q (out_bit ?b (half_command (adv (take 16 ?f) ?c2 1 s)))), half_command (adv (take 16 ?f) ?c2 1 s))"
    by (rule mdio_period_ok [OF _ _ _ _ sh]) (use r s1 in \<open>auto simp: settled_def\<close>)
  have "mdio_frame p q (take 16 ?f) s = (Inr (vs1 @ [replicate q (out_bit ?b (half_command (adv (take 16 ?f) ?c2 1 s)))]),
      half_command (adv (take 16 ?f) ?c2 1 s))"
    using s1(1) p16 unfolding t16 mdio_frame_append by (simp add: bindE_def returnE_def)
  then show ?thesis using s1 by (intro exI [of _ ?c2]) (auto simp: nth_append)
qed

lemma second_half:
  assumes r: "clk_ok p q s" "m_synched s" "0 \<le> m_consecutive_clocks s" "m_consecutive_clocks s \<le> 16" "m_halfword s = 1"
    and sd: "m_datareg s = shiftin (-1) (take 16 (frame_word w))"
    and fc: "\<And>c. full_command (s\<lparr>m_outreg := shiftin (m_outreg s) (replicate 16 True), m_datareg := w,
        m_consecutive_clocks := c, m_halfword := 0\<rparr>) = (Inr (), g c)"
  shows "\<exists>c vs. mdio_frame p q (drop 16 (frame_word w)) s = (Inr vs, g c) \<and> 0 \<le> c \<and> c \<le> 32 \<and> length vs = 16 \<and>
    (\<forall>i < 15. vs ! i = replicate q (out_bit (bit w (15 - i)) (adv (replicate (Suc i) True) 0 0 s)))"
proof -
  let ?f = "frame_word w" and ?ys = "take 15 (drop 16 (frame_word w))" and ?b = "bit w 0"
  have ys: "length ?ys = 15" by simp
  have st: "settled s" using r(4) by (simp add: settled_def)
  have "quiet_bits ?ys s 16" using r(5) ys by (simp add: quiet_bits_def)
  from mdio_quiet [OF r(1,2) st r(3) _ _ this] ys r(3,4) obtain c1 vs1 where
    s1: "mdio_frame p q ?ys s = (Inr vs1, adv ?ys c1 16 s)" "0 \<le> c1" "c1 \<le> 31" "length vs1 = 15"
    "\<forall>i < 15. vs1 ! i = replicate q (out_bit (?ys ! i) (adv (take (Suc i) ?ys) 0 0 s))"
    by (auto split: if_splits)
  let ?c2 = "if ?b then c1 + 1 else 0"
  have d16: "drop 16 ?f = ?ys @ [?b]"
  proof -
    have "drop 31 ?f = [?b]" using Cons_nth_drop_Suc [of 31 ?f] by (simp add: frame_word_nth)
    then have "drop 15 (drop 16 ?f) = [?b]" by simp
    then show ?thesis using append_take_drop_id [of 15 "drop 16 ?f"] by metis
  qed
  have fw: "shiftin (m_datareg s) (?ys @ [?b]) = w"
    unfolding d16 [symmetric] using shiftin_append [of "-1" "take 16 ?f" "drop 16 ?f"] by (simp add: sd shiftin_frame)
  have d: "push_bit 1 (shiftin (m_datareg s) ?ys) OR (if ?b then 1 else 0) = w"
    using fw by (simp only: shiftin_append shiftin_Cons shiftin_Nil)
  have o: "push_bit 1 (shiftin (m_outreg s) (replicate 15 True)) OR 1 = shiftin (m_outreg s) (replicate 16 True)"
    using shiftin_ones [of "m_outreg s" 15] by simp
  have sh: "shift_bit (of_bool ?b) (bit_in ?b (adv ?ys c1 16 s)) = (Inr (), g ?c2)"
  proof -
    have x: "bit_in ?b (adv ?ys c1 16 s)\<lparr>m_datareg := w, m_halfword := 0\<rparr> =
        s\<lparr>m_outreg := shiftin (m_outreg s) (replicate 16 True), m_datareg := w, m_consecutive_clocks := ?c2, m_halfword := 0\<rparr>"
      using o by (simp add: bit_in_def adv_def)
    have "shift_bit (of_bool ?b) (bit_in ?b (adv ?ys c1 16 s)) = full_command (bit_in ?b (adv ?ys c1 16 s)\<lparr>m_datareg := w, m_halfword := 0\<rparr>)"
      using d by (cases ?b) (simp_all add: shift_bit_def Let_def bit_in_def)
    then show ?thesis unfolding x fc .
  qed
  have p32: "mdio_period p q ?b (adv ?ys c1 16 s) = (Inr (replicate q (out_bit ?b (g ?c2))), g ?c2)"
    by (rule mdio_period_ok [OF _ _ _ _ sh]) (use r s1 in \<open>auto simp: settled_def\<close>)
  have fr: "mdio_frame p q (drop 16 ?f) s = (Inr (vs1 @ [replicate q (out_bit ?b (g ?c2))]), g ?c2)"
    by (subst d16, subst mdio_frame_append) (use s1(1) p32 in \<open>simp add: bindE_def returnE_def\<close>)
  have o1: "vs1 ! i = replicate q (out_bit (bit w (15 - i)) (adv (replicate (Suc i) True) 0 0 s))" if "i < 15" for i
    using s1(5) that by (simp add: frame_word_nth out_bit_def min_def)
  show ?thesis using fr s1(2-4) o1 by (intro exI [of _ ?c2]) (auto simp: nth_append)
qed

text \<open>The fields of the first half as they arrive.\<close>

lemma half_field:
  assumes "k + m \<le> 16"
  shows "drop_bit k (shiftin (-1) (take 16 (frame_word w))) AND mask m = drop_bit (16 + k) w AND mask m"
  unfolding take_bit_eq_mask [symmetric]
  by (rule bit_word_eqI) (use assms in \<open>auto simp: bit_take_bit_iff bit_drop_bit_eq shiftin_frame_bit add.assoc\<close>)

lemma top_bit: "bit w 31 = bit (drop_bit 28 w AND 0xf) 3" for w :: busw
  by (simp add: bit_and_iff bit_drop_bit_eq)

subsection \<open>Properties\<close>

text \<open>A port that has seen the preamble, in step with a clock of four ticks.\<close>

definition enet_idle :: enetctrl where
  "enet_idle = ENETCTRLSIM\<lparr>m_lastclk := 1, m_tickcount := 1, m_ticks_per_clock := 4, m_synched := True\<rparr>"

lemma enet_idle_ready: "mdio_ready 2 2 (enet_idle\<lparr>m_regs := r\<rparr>)" "mdio_ready 2 2 enet_idle"
  by (simp_all add: mdio_ready_def clk_ok_def settled_def enet_idle_def ENETCTRLSIM_def)

text \<open>C27: a write frame clocked in after the preamble (start \<open>01\<close>, write \<open>01\<close>, the address of
  this PHY, a register number, turnaround \<open>10\<close> and sixteen data bits) stores the data into
  that register and changes no other; the port is then ready for the next frame.\<close>

theorem mdio_write_frame:
  assumes "mdio_ready p q s" and "length (m_regs s) = 32"
    and "drop_bit 28 w AND 0xf = 5" and "drop_bit 23 w AND 0x1f = PHY_ADDR s" and "w AND 0x10000 = 0"
  shows "\<exists>vs s'. mdio_frame p q (frame_word w) s = (Inr vs, s') \<and> mdio_ready p q s' \<and>
    m_regs s' = (m_regs s)[unat (drop_bit 18 w AND 0x1f) := w AND 0xffff]"
proof -
  let ?f = "frame_word w"
  have b31: "\<not> bit w 31" using top_bit [of w] assms(3) by simp
  obtain c vs where a: "mdio_frame p q (take 16 ?f) s = (Inr vs, half_command (adv (take 16 ?f) c 1 s))" "0 \<le> c" "c \<le> 16"
    using first_half [OF assms(1) b31] by blast
  have r: "clk_ok p q s" "m_synched s" "m_datareg s = -1" using assms(1) by (auto simp: mdio_ready_def)
  have cmd: "drop_bit 12 (shiftin (-1) (take 16 ?f)) AND 0xf = drop_bit 28 w AND 0xf"
    using half_field [of 12 4 w] by (simp add: mask_eq_exp_minus_1)
  have hc: "half_command (adv (take 16 ?f) c 1 s) = adv (take 16 ?f) c 1 s"
    using cmd assms(3) r(3) by (simp add: half_command_def Let_def)
  let ?s = "adv (take 16 ?f) c 1 s"
  let ?g = "\<lambda>c'. ?s\<lparr>m_outreg := shiftin (m_outreg ?s) (replicate 16 True), m_datareg := -1, m_consecutive_clocks := c',
     m_halfword := 0, m_regs := (m_regs s)[unat (drop_bit 18 w AND 0x1f) := w AND 0xffff]\<rparr>"
  have fc: "full_command (?s\<lparr>m_outreg := shiftin (m_outreg ?s) (replicate 16 True), m_datareg := w,
        m_consecutive_clocks := c', m_halfword := 0\<rparr>) = (Inr (), ?g c')" for c'
    using assms(3-5) by (simp add: full_command_def Let_def adv_def)
  obtain c' vs' where b: "mdio_frame p q (drop 16 ?f) ?s = (Inr vs', ?g c')" "0 \<le> c'" "c' \<le> 32"
    using second_half [of p q ?s w ?g, OF _ _ _ _ _ _ fc] r a by auto
  have "mdio_frame p q (take 16 ?f @ drop 16 ?f) s = (Inr (vs @ vs'), ?g c')"
    unfolding mdio_frame_append using a(1) b(1) hc by (simp add: bindE_def returnE_def)
  moreover have "mdio_ready p q (?g c')" using r b(2,3) by (simp add: mdio_ready_def settled_def clk_ok_def adv_def)
  ultimately show ?thesis by auto
qed

theorem mdio_write_frame_witness:
  "\<exists>vs s'. mdio_frame 2 2 (frame_word 0x508e1234) enet_idle = (Inr vs, s') \<and>
     m_regs s' = (replicate 32 0)[3 := 0x1234]"
proof -
  have "\<exists>vs s'. mdio_frame 2 2 (frame_word 0x508e1234) enet_idle = (Inr vs, s') \<and> mdio_ready 2 2 s' \<and>
    m_regs s' = (m_regs enet_idle)[unat (drop_bit 18 0x508e1234 AND (0x1f :: busw)) := 0x508e1234 AND 0xffff]"
    by (rule mdio_write_frame [OF enet_idle_ready(2)]) (simp_all add: enet_idle_def ENETCTRLSIM_def)
  then show ?thesis by (auto simp: enet_idle_def ENETCTRLSIM_def)
qed

text \<open>C28: a read frame for this PHY makes it drive the sixteen bits of the register, most significant
  first: the bit put out while the clock is high in the period after the \<open>i\<close>-th data clock
  is bit \<open>15 - i\<close>, as long as the other side leaves the wire at one. No register changes.\<close>

theorem mdio_read_frame:
  assumes "mdio_ready p q s" and "length (m_regs s) = 32"
    and "drop_bit 28 w AND 0xf = 6" and "drop_bit 23 w AND 0x1f = PHY_ADDR s" and "w AND 0x1ffff = 0x1ffff"
  shows "\<exists>vs s'. mdio_frame p q (frame_word w) s = (Inr vs, s') \<and> mdio_ready p q s' \<and> m_regs s' = m_regs s \<and>
    (\<forall>i < 16. vs ! (15 + i) = replicate q (of_bool (bit (m_regs s ! unat (drop_bit 18 w AND 0x1f)) (15 - i))))"
proof -
  let ?f = "frame_word w" and ?a = "unat (drop_bit 18 w AND 0x1f)"
  let ?o = "push_bit 15 (m_regs s ! ?a AND 0xffff) OR 0x80007fff"
  have b31: "\<not> bit w 31" using top_bit [of w] assms(3) by simp
  have ones: "bit w n" if "n \<le> 16" for n
  proof -
    have m: "(0x1ffff :: busw) = mask 17" by (simp add: mask_eq_exp_minus_1)
    have "bit (w AND mask 17) n" unfolding m [symmetric] assms(5) unfolding m using that by (simp add: bit_mask_iff)
    then show ?thesis by (simp add: bit_and_iff)
  qed
  obtain c vs where a: "mdio_frame p q (take 16 ?f) s = (Inr vs, half_command (adv (take 16 ?f) c 1 s))" "0 \<le> c" "c \<le> 16"
    "length vs = 16" "vs ! 15 = replicate q (out_bit (bit w 16) (half_command (adv (take 16 ?f) c 1 s)))"
    using first_half [OF assms(1) b31] by blast
  have r: "clk_ok p q s" "m_synched s" "m_datareg s = -1" using assms(1) by (auto simp: mdio_ready_def)
  have fld: "drop_bit 12 (shiftin (-1) (take 16 ?f)) AND 0xf = 6" "drop_bit 7 (shiftin (-1) (take 16 ?f)) AND 0x1f = PHY_ADDR s"
    "drop_bit 2 (shiftin (-1) (take 16 ?f)) AND 0x1f = drop_bit 18 w AND 0x1f"
    using half_field [of 12 4 w] half_field [of 7 5 w] half_field [of 2 5 w] assms(3,4) by (simp_all add: mask_eq_exp_minus_1)
  define s2 where "s2 = (adv (take 16 ?f) c 1 s)\<lparr>m_outreg := ?o\<rparr>"
  have hc: "half_command (adv (take 16 ?f) c 1 s) = s2"
    using fld r(3) by (simp add: half_command_def Let_def s2_def)
  have s2: "clk_ok p q s2" "m_synched s2" "m_consecutive_clocks s2 = c" "m_halfword s2 = 1" "m_outreg s2 = ?o"
    "m_datareg s2 = shiftin (-1) (take 16 ?f)" "m_regs s2 = m_regs s" "PHY_ADDR s2 = PHY_ADDR s"
    using r by (simp_all add: s2_def clk_ok_def adv_def)
  let ?g = "\<lambda>c'. s2\<lparr>m_outreg := shiftin (m_outreg s2) (replicate 16 True), m_datareg := -1, m_consecutive_clocks := c', m_halfword := 0\<rparr>"
  have fc: "full_command (s2\<lparr>m_outreg := shiftin (m_outreg s2) (replicate 16 True), m_datareg := w,
        m_consecutive_clocks := c', m_halfword := 0\<rparr>) = (Inr (), ?g c')" for c'
    using assms(3) by (simp add: full_command_def Let_def)
  obtain c' vs' where b: "mdio_frame p q (drop 16 ?f) s2 = (Inr vs', ?g c')" "0 \<le> c'" "c' \<le> 32" "length vs' = 16"
    "\<forall>i < 15. vs' ! i = replicate q (out_bit (bit w (15 - i)) (adv (replicate (Suc i) True) 0 0 s2))"
    using second_half [of p q s2 w ?g, OF _ _ _ _ _ _ fc] s2 a(2,3) by auto
  have fr: "mdio_frame p q ?f s = (Inr (vs @ vs'), ?g c')"
    using append_take_drop_id [of 16 ?f] mdio_frame_append [of p q "take 16 ?f" "drop 16 ?f"] a(1) b(1) hc
    by (simp add: bindE_def returnE_def)
  have ob: "bit ?o (30 - i) = bit (m_regs s ! ?a) (15 - i)" if "i \<le> 15" for i
  proof -
    have "\<forall>i \<in> set [0..<16]. \<not> bit (0x80007fff :: busw) (30 - i)" by (simp add: upt_rec)
    then have z: "\<not> bit (0x80007fff :: busw) (30 - i)" using that by simp
    have m: "(0xffff :: busw) = mask 16" by (simp add: mask_eq_exp_minus_1)
    show ?thesis unfolding m take_bit_eq_mask [symmetric] bit_or_iff bit_push_bit_iff bit_take_bit_iff
      using that z by (auto simp: less_Suc_eq_le)
  qed
  have "(vs @ vs') ! (15 + i) = replicate q (of_bool (bit (m_regs s ! ?a) (15 - i)))" if "i < 16" for i
  proof (cases i)
    case 0
    then show ?thesis using a(4,5) ones [of 16] ob [of 0] by (simp add: nth_append hc out_bit_def s2(5))
  next
    case (Suc j)
    have "bit (shiftin ?o (replicate (Suc j) True)) 30 = bit (m_regs s ! ?a) (15 - i)"
      using that Suc ob [of i] by (subst bit_shiftin) auto
    then show ?thesis using a(4) b(5) that ones [of "15 - j"] Suc by (simp add: nth_append out_bit_def s2(5))
  qed
  moreover have "mdio_ready p q (?g c')" using s2 b(2,3) by (simp add: mdio_ready_def settled_def clk_ok_def)
  ultimately show ?thesis using fr s2(7) by (intro exI [of _ "vs @ vs'"] exI [of _ "?g c'"]) simp
qed

theorem mdio_read_frame_witness:
  "\<exists>vs s'. mdio_frame 2 2 (frame_word 0x608fffff) (enet_idle\<lparr>m_regs := replicate 32 0x1234\<rparr>) = (Inr vs, s') \<and>
     vs ! 15 = [0, 0] \<and> vs ! 18 = [1, 1]"
proof -
  let ?s = "enet_idle\<lparr>m_regs := replicate 32 0x1234\<rparr>"
  have "\<exists>vs s'. mdio_frame 2 2 (frame_word 0x608fffff) ?s = (Inr vs, s') \<and> mdio_ready 2 2 s' \<and> m_regs s' = m_regs ?s \<and>
    (\<forall>i < 16. vs ! (15 + i) = replicate 2 (of_bool (bit (m_regs ?s ! unat (drop_bit 18 0x608fffff AND (0x1f :: busw))) (15 - i))))"
    by (rule mdio_read_frame [OF enet_idle_ready(1)]) (simp_all add: enet_idle_def ENETCTRLSIM_def)
  then obtain vs s' where v: "mdio_frame 2 2 (frame_word 0x608fffff) ?s = (Inr vs, s')"
    "\<forall>i < 16. vs ! (15 + i) = replicate 2 (of_bool (bit (0x1234 :: busw) (15 - i)))" by auto
  have r2: "replicate 2 x = [x, x]" for x :: int by (simp add: numeral_2_eq_2)
  have "vs ! 15 = [0, 0]" "vs ! 18 = [1, 1]"
    using v(2) [rule_format, of 0] v(2) [rule_format, of 3] by (simp_all add: r2)
  then show ?thesis using v(1) by blast
qed

text \<open>From power-up, a preamble of 35 clocks with the wire at one is enough: the port has found
  the clock period and is ready for a frame.\<close>

lemma mdio_preamble_synchronizes:
  "mdio_ready 2 2 (snd (mdio_frame 2 2 (replicate 35 True) ENETCTRLSIM))"
  unfolding mdio_ready_def clk_ok_def settled_def by code_simp

end
