(* ===== verification/TbClock.thy ===== *)
theory TbClock
  imports Prelude
begin

text \<open>
  The clocks of the simulator (\<open>src/sim/verilated/tbclock.h\<close>) and the test bench that
  advances three of them together (\<open>src/sim/verilated/testb.h\<close>). Times are 64-bit counts of
  picoseconds. The Verilated model is a parameter: its \<open>eval\<close> and the writing of its clock
  inputs. Traces are output only and left out; so is \<open>set_frequency_hz\<close>, which computes in
  floating point.
\<close>

subsection \<open>TBCLOCK\<close>

record tbclock =
  m_increment_ps :: u64
  m_now_ps :: u64
  m_last_posedge_ps :: u64
  m_ticks :: u64

definition TBCLOCK :: tbclock where
  "TBCLOCK = \<lparr>m_increment_ps = 10000, m_now_ps = 10001, m_last_posedge_ps = 0, m_ticks = 0\<rparr>"

definition set_interval_ps :: "u64 \<Rightarrow> (tbclock, unit) call" where
  "set_interval_ps interval_ps =
     bindE (modifyE (\<lambda>c. c\<lparr>m_increment_ps := drop_bit 1 interval_ps AND (-2)\<rparr>)) (\<lambda>_.
     bindE (getsE m_increment_ps) (\<lambda>i. assertE (0 < i)))"

definition clock_init :: "u64 \<Rightarrow> (tbclock, unit) call" where
  "clock_init increment_ps =
     bindE (set_interval_ps increment_ps) (\<lambda>_.
     modifyE (\<lambda>c. c\<lparr>m_now_ps := m_increment_ps c + 1, m_last_posedge_ps := 0\<rparr>))"

definition ticks :: "tbclock \<Rightarrow> u64" where "ticks c = m_ticks c"

definition time_to_edge :: "tbclock \<Rightarrow> exn + u64" where
  "time_to_edge c =
     (if m_last_posedge_ps c > m_now_ps c then Inl AssertFail
      else if m_last_posedge_ps c + m_increment_ps c > m_now_ps c
      then Inr (m_last_posedge_ps c + m_increment_ps c - m_now_ps c)
      else if m_last_posedge_ps c + 2 * m_increment_ps c > m_now_ps c
      then Inr (m_last_posedge_ps c + 2 * m_increment_ps c - m_now_ps c)
      else Inl AssertFail)"

definition advance :: "u64 \<Rightarrow> (tbclock, bool) call" where
  "advance itime c =
     (if \<not> itime < 4 * m_increment_ps c then (Inl AssertFail, c)
      else let c = c\<lparr>m_now_ps := m_now_ps c + itime\<rparr> in
        if m_now_ps c \<ge> m_last_posedge_ps c + 2 * m_increment_ps c
        then (Inr True, c\<lparr>m_last_posedge_ps := m_last_posedge_ps c + 2 * m_increment_ps c,
                           m_ticks := m_ticks c + 1\<rparr>)
        else if m_now_ps c \<ge> m_last_posedge_ps c + m_increment_ps c then (Inr False, c)
        else (Inr True, c))"

definition rising_edge :: "tbclock \<Rightarrow> bool" where
  "rising_edge c \<longleftrightarrow> m_now_ps c = m_last_posedge_ps c"

definition falling_edge :: "tbclock \<Rightarrow> bool" where
  "falling_edge c \<longleftrightarrow> m_now_ps c = m_last_posedge_ps c + m_increment_ps c"

subsection \<open>TESTB\<close>

record 'c core_ops =
  core_eval :: "'c \<Rightarrow> 'c"
  core_clocks :: "bool \<Rightarrow> bool \<Rightarrow> bool \<Rightarrow> 'c \<Rightarrow> 'c"
  core_reset :: "bool \<Rightarrow> 'c \<Rightarrow> 'c"

record 'c testb =
  m_core :: 'c
  m_changed :: bool
  m_done :: bool
  m_time_ps :: u64
  m_clk :: tbclock
  m_clk_125mhz :: tbclock
  m_net1_rx_clk :: tbclock

definition TESTB :: "'c \<Rightarrow> bool \<Rightarrow> exn + 'c testb" where
  "TESTB core changed0 =
     (case (clock_init 20000 TBCLOCK, clock_init 8000 TBCLOCK, clock_init 8000 TBCLOCK) of
        ((Inr _, a), (Inr _, b), (Inr _, c)) \<Rightarrow>
          Inr \<lparr>m_core = core, m_changed = changed0, m_done = False, m_time_ps = 0,
               m_clk = a, m_clk_125mhz = b, m_net1_rx_clk = c\<rparr>
      | _ \<Rightarrow> Inl AssertFail)"

text \<open>The smallest time to an edge, kept in a 32-bit \<open>unsigned\<close>.\<close>

definition min_edge :: "busw \<Rightarrow> tbclock \<Rightarrow> exn + busw" where
  "min_edge mintime c =
     bindS (time_to_edge c) (\<lambda>t. Inr (if t < ucast mintime then ucast t else mintime))"

text \<open>The base class's clock ticks, which a generated subclass overrides.\<close>

definition sim_tick :: "'c testb \<Rightarrow> 'c testb" where
  "sim_tick s = s\<lparr>m_changed := False\<rparr>"

definition on_clk :: "('c testb \<Rightarrow> tbclock) \<Rightarrow> (tbclock \<Rightarrow> 'c testb \<Rightarrow> 'c testb) \<Rightarrow> u64 \<Rightarrow> ('c testb, bool) call" where
  "on_clk get put t s = (case advance t (get s) of (r, c) \<Rightarrow> (r, put c s))"

definition testb_tick :: "'c core_ops \<Rightarrow> ('c testb, unit) call" where
  "testb_tick core =
     bindE (getsE (\<lambda>s. bindS (time_to_edge (m_clk s)) (\<lambda>t.
                       bindS (min_edge (ucast t) (m_clk_125mhz s)) (\<lambda>m.
                       min_edge m (m_net1_rx_clk s))))) (\<lambda>r.
     bindE (liftE r) (\<lambda>mintime.
     bindE (assertE (mintime > 1)) (\<lambda>_.
     bindE (modifyE (\<lambda>s. s\<lparr>m_core := core_eval core (m_core s)\<rparr>)) (\<lambda>_.
     bindE (on_clk m_clk (\<lambda>c s. s\<lparr>m_clk := c\<rparr>) (ucast mintime)) (\<lambda>a.
     bindE (on_clk m_clk_125mhz (\<lambda>c s. s\<lparr>m_clk_125mhz := c\<rparr>) (ucast mintime)) (\<lambda>b.
     bindE (on_clk m_net1_rx_clk (\<lambda>c s. s\<lparr>m_net1_rx_clk := c\<rparr>) (ucast mintime)) (\<lambda>c.
     bindE (modifyE (\<lambda>s. s\<lparr>m_core := core_clocks core a b c (m_core s), m_time_ps := m_time_ps s + ucast mintime\<rparr>)) (\<lambda>_.
     bindE (modifyE (\<lambda>s. s\<lparr>m_core := core_eval core (m_core s)\<rparr>)) (\<lambda>_.
     bindE (modifyE (\<lambda>s. if falling_edge (m_clk s) then sim_tick (s\<lparr>m_changed := True\<rparr>) else s)) (\<lambda>_.
     bindE (modifyE (\<lambda>s. if falling_edge (m_clk_125mhz s) then sim_tick (s\<lparr>m_changed := True\<rparr>) else s)) (\<lambda>_.
     modifyE (\<lambda>s. if falling_edge (m_net1_rx_clk s) then sim_tick (s\<lparr>m_changed := True\<rparr>) else s))))))))))))"

definition testb_done :: "bool \<Rightarrow> 'c testb \<Rightarrow> bool \<times> 'c testb" where
  "testb_done gotFinish s =
     (if m_done s then (True, s)
      else let s = (if gotFinish then s\<lparr>m_done := True\<rparr> else s) in (m_done s, s))"

definition testb_reset :: "'c core_ops \<Rightarrow> ('c testb, unit) call" where
  "testb_reset core =
     bindE (modifyE (\<lambda>s. s\<lparr>m_core := core_reset core True (m_core s)\<rparr>)) (\<lambda>_.
     bindE (testb_tick core) (\<lambda>_.
     modifyE (\<lambda>s. s\<lparr>m_core := core_reset core False (m_core s)\<rparr>)))"

subsection \<open>One clock\<close>

text \<open>The phase within a period, the time to the next edge, and the level, as numbers.\<close>

definition phase :: "tbclock \<Rightarrow> nat" where
  "phase c = unat (m_now_ps c) - unat (m_last_posedge_ps c)"

abbreviation half :: "tbclock \<Rightarrow> nat" where
  "half c \<equiv> unat (m_increment_ps c)"

definition to_edge :: "tbclock \<Rightarrow> nat" where
  "to_edge c = (if phase c < half c then half c - phase c else 2 * half c - phase c)"

definition clock_inv :: "tbclock \<Rightarrow> bool" where
  "clock_inv c \<longleftrightarrow> m_last_posedge_ps c \<le> m_now_ps c \<and> phase c < 2 * half c \<and> even (half c)"

text \<open>Far enough from the end of the 64-bit time scale.\<close>

definition in_time :: "tbclock \<Rightarrow> bool" where
  "in_time c \<longleftrightarrow> unat (m_now_ps c) + 8 * half c < 2 ^ 64"

lemma unat_add64: "unat a + unat b < 2 ^ 64 \<Longrightarrow> unat (a + b) = unat a + unat b" for a b :: u64
  by (simp add: unat_word_ariths)

lemma unat_mul64: "2 * unat b < 2 ^ 64 \<Longrightarrow> unat (2 * b) = 2 * unat b"
  "4 * unat b < 2 ^ 64 \<Longrightarrow> unat (4 * b) = 4 * unat b" for b :: u64
  by (simp_all add: unat_word_ariths)

lemma time_to_edge_ok:
  assumes "clock_inv c" and "in_time c"
  shows "\<exists>t. time_to_edge c = Inr t \<and> unat t = to_edge c"
proof -
  let ?l = "unat (m_last_posedge_ps c)" and ?n = "unat (m_now_ps c)" and ?i = "half c"
  have le: "?l \<le> ?n" "?n < ?l + 2 * ?i" using assms(1) by (auto simp: clock_inv_def phase_def word_le_nat_alt)
  have b: "?n + 8 * ?i < 2 ^ 64" using assms(2) by (simp add: in_time_def)
  have u1: "unat (m_last_posedge_ps c + m_increment_ps c) = ?l + ?i" using le b by (intro unat_add64) simp
  have u2: "unat (2 * m_increment_ps c) = 2 * ?i" using b by (intro unat_mul64) simp
  have u3: "unat (m_last_posedge_ps c + 2 * m_increment_ps c) = ?l + 2 * ?i"
    using le b u2 unat_add64 [of "m_last_posedge_ps c" "2 * m_increment_ps c"] by simp
  show ?thesis
    using le u1 u3 by (auto simp: time_to_edge_def word_less_nat_alt word_le_nat_alt not_less unat_sub to_edge_def phase_def)
qed

lemma advance_ok:
  assumes "clock_inv c" and "in_time c" and "unat t \<le> to_edge c"
  shows "\<exists>v c'. advance t c = (Inr v, c') \<and> clock_inv c' \<and> m_increment_ps c' = m_increment_ps c \<and>
    unat (m_now_ps c') = unat (m_now_ps c) + unat t \<and> v = (phase c' < half c') \<and>
    phase c' = (if phase c + unat t = 2 * half c then 0 else phase c + unat t) \<and>
    m_ticks c' = m_ticks c + (if phase c + unat t = 2 * half c then 1 else 0)"
proof -
  let ?l = "unat (m_last_posedge_ps c)" and ?n = "unat (m_now_ps c)" and ?i = "half c" and ?t = "unat t"
  have le: "?l \<le> ?n" "?n < ?l + 2 * ?i" "even ?i" using assms(1) by (auto simp: clock_inv_def phase_def word_le_nat_alt)
  have ph: "phase c = ?n - ?l" by (simp add: phase_def)
  have tt: "?n + ?t \<le> ?l + 2 * ?i" "?t \<le> 2 * ?i"
    using assms(3) le by (auto simp: to_edge_def ph split: if_splits)
  have b: "?n + 8 * ?i < 2 ^ 64" using assms(2) by (simp add: in_time_def)
  have u1: "unat (m_last_posedge_ps c + m_increment_ps c) = ?l + ?i" using le b by (intro unat_add64) simp
  have u2: "unat (2 * m_increment_ps c) = 2 * ?i" using b by (intro unat_mul64) simp
  have u4: "unat (4 * m_increment_ps c) = 4 * ?i" using b by (intro unat_mul64) simp
  have u3: "unat (m_last_posedge_ps c + 2 * m_increment_ps c) = ?l + 2 * ?i"
    using le b u2 unat_add64 [of "m_last_posedge_ps c" "2 * m_increment_ps c"] by simp
  have un: "unat (m_now_ps c + t) = ?n + ?t" using b tt by (intro unat_add64) simp
  have i0: "0 < ?i" using le by linarith
  have lt4: "t < 4 * m_increment_ps c" using tt i0 by (simp add: word_less_nat_alt u4)
  show ?thesis
  proof (cases "?n + ?t = ?l + 2 * ?i")
    case True
    then have adv: "advance t c = (Inr True, c\<lparr>m_now_ps := m_now_ps c + t, m_last_posedge_ps := m_last_posedge_ps c + 2 * m_increment_ps c,
        m_ticks := m_ticks c + 1\<rparr>)"
      using lt4 by (simp add: advance_def Let_def word_le_nat_alt u3 un)
    have "phase c + ?t = 2 * ?i" using True le by (simp add: ph)
    then show ?thesis using adv True le i0 by (auto simp: clock_inv_def phase_def word_le_nat_alt u3 un)
  next
    case False
    then have lt: "?n + ?t < ?l + 2 * ?i" using tt by simp
    then have adv: "advance t c = (Inr (?n + ?t < ?l + ?i), c\<lparr>m_now_ps := m_now_ps c + t\<rparr>)"
      using lt4 by (auto simp: advance_def Let_def word_le_nat_alt u3 u1 un)
    have "phase c + ?t \<noteq> 2 * ?i" "?n + ?t < ?l + ?i \<longleftrightarrow> ?n + ?t - ?l < ?i" "?n - ?l + ?t = ?n + ?t - ?l"
      using False le by (auto simp: ph)
    then show ?thesis using adv lt le by (simp add: clock_inv_def phase_def word_le_nat_alt un)
  qed
qed

subsection \<open>Three clocks\<close>

abbreviation clocks :: "'c testb \<Rightarrow> tbclock list" where
  "clocks s \<equiv> [m_clk s, m_clk_125mhz s, m_net1_rx_clk s]"

text \<open>All clocks are at an even distance from their edges, or all are in the first state.\<close>

definition bench_inv :: "'c testb \<Rightarrow> bool" where
  "bench_inv s \<longleftrightarrow> (\<forall>c \<in> set (clocks s). clock_inv c \<and> half c < 2 ^ 30) \<and>
     ((\<forall>c \<in> set (clocks s). even (phase c)) \<or> (\<forall>c \<in> set (clocks s). odd (phase c) \<and> 1 < to_edge c))"

definition next_edge :: "'c testb \<Rightarrow> nat" where
  "next_edge s = min (min (to_edge (m_clk s)) (to_edge (m_clk_125mhz s))) (to_edge (m_net1_rx_clk s))"

text \<open>A clock moved on by \<open>n\<close> picoseconds, not past its next edge.\<close>

definition moved :: "nat \<Rightarrow> tbclock \<Rightarrow> tbclock \<Rightarrow> bool" where
  "moved n c c' \<longleftrightarrow> n \<le> to_edge c \<and> unat (m_now_ps c') = unat (m_now_ps c) + n \<and>
     m_increment_ps c' = m_increment_ps c \<and>
     phase c' = (if phase c + n = 2 * half c then 0 else phase c + n) \<and>
     m_ticks c' = m_ticks c + (if phase c + n = 2 * half c then 1 else 0)"

lemma to_edge_pos: "clock_inv c \<Longrightarrow> 0 < to_edge c \<and> to_edge c \<le> 2 * half c"
  by (auto simp: clock_inv_def to_edge_def)

lemma to_edge_even: "clock_inv c \<Longrightarrow> even (to_edge c) = even (phase c)"
  by (auto simp: clock_inv_def to_edge_def)

lemma min_edge_ok:
  assumes "clock_inv c" "in_time c" "half c < 2 ^ 30"
  shows "\<exists>m'. min_edge m c = Inr m' \<and> unat m' = min (to_edge c) (unat m)"
proof -
  obtain t where t: "time_to_edge c = Inr t" "unat t = to_edge c" using time_to_edge_ok assms by blast
  have lt: "unat t < 2 ^ 32" using t(2) to_edge_pos [OF assms(1)] assms(3) by simp
  have "unat (ucast t :: busw) = unat t" "unat (ucast m :: u64) = unat m"
    using lt unat_lt32 [of m] by (simp_all add: unsigned_ucast_eq take_bit_nat_eq_self)
  then show ?thesis using t by (auto simp: min_edge_def word_less_nat_alt)
qed

lemma testb_tick_ok:
  assumes inv: "bench_inv s" and bound: "\<forall>c \<in> set (clocks s). in_time c"
  shows "\<exists>s'. testb_tick core s = (Inr (), s') \<and> bench_inv s' \<and>
    m_time_ps s' = m_time_ps s + of_nat (next_edge s) \<and> 0 < next_edge s \<and>
    list_all2 (moved (next_edge s)) (clocks s) (clocks s')"
proof -
  let ?n = "next_edge s"
  have cl: "clock_inv c" "half c < 2 ^ 30" "in_time c" if "c \<in> set (clocks s)" for c
    using inv bound that by (auto simp: bench_inv_def)
  note a = cl [of "m_clk s", simplified] and b = cl [of "m_clk_125mhz s", simplified] and c = cl [of "m_net1_rx_clk s", simplified]
  obtain t where t: "time_to_edge (m_clk s) = Inr t" "unat t = to_edge (m_clk s)" using time_to_edge_ok a by blast
  have ut: "unat (ucast t :: busw) = to_edge (m_clk s)"
    using t(2) to_edge_pos [OF a(1)] a(2) by (simp add: unsigned_ucast_eq take_bit_nat_eq_self)
  obtain m1 where m1: "min_edge (ucast t) (m_clk_125mhz s) = Inr m1" "unat m1 = min (to_edge (m_clk_125mhz s)) (to_edge (m_clk s))"
    using min_edge_ok [OF b(1,3)] b(2) ut by fastforce
  obtain m2 where m2: "min_edge m1 (m_net1_rx_clk s) = Inr m2" "unat m2 = ?n"
    using min_edge_ok [OF c(1,3), of m1] c(2) m1(2) by (auto simp: next_edge_def min.commute min.left_commute)
  have gt: "1 < ?n"
  proof -
    have "1 < to_edge c" if "c \<in> set (clocks s)" for c
    proof -
      have "even (phase c) \<or> 1 < to_edge c" using inv that by (auto simp: bench_inv_def)
      moreover have "0 < to_edge c" "even (to_edge c) = even (phase c)"
        using to_edge_pos [OF cl(1) [OF that]] to_edge_even [OF cl(1) [OF that]] by auto
      ultimately show ?thesis by (cases "to_edge c = 1") auto
    qed
    then show ?thesis by (simp add: next_edge_def)
  qed
  let ?t = "ucast m2 :: u64"
  have tn: "unat ?t = ?n" using m2(2) unat_lt32 [of m2] by (simp add: unsigned_ucast_eq take_bit_nat_eq_self)
  then have tof: "?t = of_nat ?n" by (metis of_nat_unat ucast_id)
  have le: "unat ?t \<le> to_edge (m_clk s)" "unat ?t \<le> to_edge (m_clk_125mhz s)" "unat ?t \<le> to_edge (m_net1_rx_clk s)"
    unfolding tn by (auto simp: next_edge_def)
  obtain va ca where ca: "advance ?t (m_clk s) = (Inr va, ca)" "clock_inv ca" "moved ?n (m_clk s) ca"
    using advance_ok [OF a(1,3) le(1)] le(1) unfolding tn moved_def by blast
  obtain vb cb where cb: "advance ?t (m_clk_125mhz s) = (Inr vb, cb)" "clock_inv cb" "moved ?n (m_clk_125mhz s) cb"
    using advance_ok [OF b(1,3) le(2)] le(2) unfolding tn moved_def by blast
  obtain vc cc where cc: "advance ?t (m_net1_rx_clk s) = (Inr vc, cc)" "clock_inv cc" "moved ?n (m_net1_rx_clk s) cc"
    using advance_ok [OF c(1,3) le(3)] le(3) unfolding tn moved_def by blast
  have m2gt: "1 < m2" using gt m2(2) by (simp add: word_less_nat_alt)
  obtain s' where s': "testb_tick core s = (Inr (), s')" "m_clk s' = ca" "m_clk_125mhz s' = cb" "m_net1_rx_clk s' = cc"
      "m_time_ps s' = m_time_ps s + ?t"
    using t(1) m1(1) m2(1) m2gt ca(1) cb(1) cc(1)
    by (auto simp: testb_tick_def bindE_def getsE_def liftE_def assertE_def modifyE_def on_clk_def sim_tick_def)
  have par: "even ?n = even (phase x)" if "x \<in> set (clocks s)" for x
  proof -
    have "?n = to_edge (m_clk s) \<or> ?n = to_edge (m_clk_125mhz s) \<or> ?n = to_edge (m_net1_rx_clk s)"
      unfolding next_edge_def by linarith
    then show ?thesis using inv that to_edge_even [OF a(1)] to_edge_even [OF b(1)] to_edge_even [OF c(1)]
      unfolding bench_inv_def by auto
  qed
  have pe: "even (phase x')" "half x' < 2 ^ 30" if "x \<in> set (clocks s)" "moved ?n x x'" for x x'
    using par [OF that(1)] that cl(2) [OF that(1)] by (auto simp: moved_def)
  have "bench_inv s'"
    using ca(2) cb(2) cc(2) pe [OF _ ca(3)] pe [OF _ cb(3)] pe [OF _ cc(3)] by (simp add: bench_inv_def s')
  then show ?thesis using s' ca(3) cb(3) cc(3) gt tof by (intro exI [of _ s']) simp
qed

fun testb_run :: "'c core_ops \<Rightarrow> nat \<Rightarrow> ('c testb, unit) call" where
  "testb_run core 0 = returnE ()"
| "testb_run core (Suc n) = bindE (testb_tick core) (\<lambda>_. testb_run core n)"

lemma to_edge_half: "clock_inv c \<Longrightarrow> to_edge c \<le> half c"
  by (auto simp: clock_inv_def to_edge_def)

lemma testb_run_ok:
  "bench_inv s \<Longrightarrow> half (m_clk_125mhz s) \<le> h \<Longrightarrow>
   \<forall>c \<in> set (clocks s). unat (m_now_ps c) + n * h + 8 * half c < 2 ^ 64 \<Longrightarrow>
   \<exists>s'. testb_run core n s = (Inr (), s') \<and> bench_inv s'"
proof (induction n arbitrary: s)
  case 0 then show ?case by (simp add: returnE_def)
next
  case (Suc n)
  have it: "\<forall>c \<in> set (clocks s). in_time c" using Suc.prems(3) by (auto simp: in_time_def)
  obtain s1 where s1: "testb_tick core s = (Inr (), s1)" "bench_inv s1" "list_all2 (moved (next_edge s)) (clocks s) (clocks s1)"
    using testb_tick_ok [OF Suc.prems(1) it] by blast
  have "next_edge s \<le> h"
    using to_edge_half [of "m_clk_125mhz s"] Suc.prems(1,2) by (auto simp: next_edge_def bench_inv_def)
  then have "\<exists>s'. testb_run core n s1 = (Inr (), s') \<and> bench_inv s'"
    using s1(3) Suc.prems(2,3) by (intro Suc.IH [OF s1(2)]) (auto simp: moved_def)
  then show ?case using s1(1) by (simp add: bindE_def)
qed

lemma TESTB_start:
  "\<exists>s. TESTB core b = Inr s \<and> bench_inv s \<and> half (m_clk_125mhz s) = 4000 \<and>
     (\<forall>c \<in> set (clocks s). half c \<le> 10000 \<and> unat (m_now_ps c) \<le> 10001)"
  by (simp add: TESTB_def clock_init_def set_interval_ps_def TBCLOCK_def bindE_def modifyE_def getsE_def assertE_def
      bench_inv_def clock_inv_def phase_def to_edge_def)

subsection \<open>Properties\<close>

text \<open>C30: one step of the test bench moves all three clocks by the same time, which is exactly the
  time to the nearest edge of any of them: none of its assertions fails, no edge is
  skipped, and each clock counts one more tick exactly when it reaches its rising edge.\<close>

theorem testb_tick_next_edge:
  assumes "bench_inv s" and "\<forall>c \<in> set (clocks s). in_time c"
  shows "\<exists>s'. testb_tick core s = (Inr (), s') \<and> bench_inv s' \<and>
    m_time_ps s' = m_time_ps s + of_nat (next_edge s) \<and> 0 < next_edge s \<and>
    list_all2 (moved (next_edge s)) (clocks s) (clocks s')"
  using testb_tick_ok [OF assms] .

theorem testb_tick_next_edge_witness:
  "\<exists>s s'. TESTB () False = Inr s \<and>
     testb_tick \<lparr>core_eval = (\<lambda>c. c), core_clocks = (\<lambda>_ _ _ c. c), core_reset = (\<lambda>_ c. c)\<rparr> s = (Inr (), s') \<and> bench_inv s'"
proof -
  obtain s where s: "TESTB () False = Inr s" "bench_inv s" "\<forall>c \<in> set (clocks s). half c \<le> 10000 \<and> unat (m_now_ps c) \<le> 10001"
    using TESTB_start [of "()" False] by blast
  then have "\<forall>c \<in> set (clocks s). in_time c" by (auto simp: in_time_def)
  from testb_tick_next_edge [OF s(2) this] s(1) show ?thesis by blast
qed

text \<open>C31: the simulation of the three clocks of the design never stops on an assertion: from the
  constructor, any number of steps up to \<open>2^50\<close> (about seven weeks of simulated
  time) is carried out.\<close>

theorem testb_never_asserts:
  assumes "TESTB c b = Inr s" and "n \<le> 2 ^ 50"
  shows "\<exists>s'. testb_run core n s = (Inr (), s') \<and> bench_inv s'"
proof -
  obtain s0 where s0: "TESTB c b = Inr s0" "bench_inv s0" "half (m_clk_125mhz s0) = 4000"
    "\<forall>c \<in> set (clocks s0). half c \<le> 10000 \<and> unat (m_now_ps c) \<le> 10001" using TESTB_start [of c b] by metis
  have "s0 = s" using s0(1) assms(1) by simp
  moreover have "n * 4000 \<le> 2 ^ 50 * 4000" using assms(2) by simp
  ultimately have r: "\<forall>c \<in> set (clocks s). unat (m_now_ps c) + n * 4000 + 8 * half c < 2 ^ 64"
    and h: "half (m_clk_125mhz s) \<le> 4000" and i: "bench_inv s"
    using s0 by auto
  show ?thesis by (rule testb_run_ok [OF i h r])
qed

theorem testb_never_asserts_witness:
  "\<exists>s s'. TESTB () False = Inr s \<and>
     testb_run \<lparr>core_eval = (\<lambda>c. c), core_clocks = (\<lambda>_ _ _ c. c), core_reset = (\<lambda>_ c. c)\<rparr> 1000 s = (Inr (), s') \<and> bench_inv s'"
proof -
  obtain s where s: "TESTB () False = Inr s" using TESTB_start [of "()" False] by metis
  let ?core = "\<lparr>core_eval = (\<lambda>c. c), core_clocks = (\<lambda>_ _ _ c. c), core_reset = (\<lambda>_ c. c)\<rparr> :: unit core_ops"
  have "\<exists>s'. testb_run ?core 1000 s = (Inr (), s') \<and> bench_inv s'"
    by (rule testb_never_asserts [OF s]) simp
  then show ?thesis using s by blast
qed

end
