(* ===== verification/DevBus.thy ===== *)
theory DevBus
  imports TtyBus
begin

text \<open>
  The abstract bus of the host programs, class \<open>DEVBUS\<close> of \<open>src/sw/host/devbus.h\<close>: a record of its virtual member functions
  over an unknown state \<open>'d\<close> of the bus and the design behind it. The functions that fill a buffer return the words.
  \<open>TTYBUS\<close> is the class the programs use.
\<close>

record 'd devbus =
  bus_writeio :: "busw \<Rightarrow> busw \<Rightarrow> ('d, unit) call"
  bus_readio :: "busw \<Rightarrow> ('d, busw) call"
  bus_readi :: "busw \<Rightarrow> int \<Rightarrow> ('d, busw list) call"
  bus_readz :: "busw \<Rightarrow> int \<Rightarrow> ('d, busw list) call"
  bus_poll :: "('d, bool) call"

definition tty_devbus :: "nat \<Rightarrow> 'o os_ops \<Rightarrow> 'o ttybus devbus" where
  "tty_devbus fuel os =
     \<lparr>bus_writeio = writeio fuel os, bus_readio = readio fuel os, bus_readi = readi fuel os, bus_readz = readz fuel os,
      bus_poll = getsE tty_poll\<rparr>"

text \<open>\<open>n\<close> reads of one address.\<close>

fun read_times :: "'d devbus \<Rightarrow> busw \<Rightarrow> nat \<Rightarrow> ('d, busw list) call" where
  "read_times bus a 0 = returnE []"
| "read_times bus a (Suc n) = bindE (bus_readio bus a) (\<lambda>v. bindE (read_times bus a n) (\<lambda>vs. returnE (v # vs)))"

text \<open>What \<open>devbus.h\<close> says of \<open>readz\<close>: it is equivalent to a loop of \<open>readio\<close> on the same address.\<close>

definition reads_same_address :: "'d devbus \<Rightarrow> bool" where
  "reads_same_address bus \<longleftrightarrow> (\<forall>a n. bus_readz bus a (int n) = read_times bus a n)"

lemma read_times_length: "read_times bus a n d = (Inr vs, d') \<Longrightarrow> length vs = n"
  by (induction n arbitrary: vs d) (auto simp: bindE_eq_Inr_iff returnE_def)

text \<open>What the callers of \<open>readz\<close> rely on for their buffers: a vector read that returns has stored as many words as it was asked for, and
  no more. It follows from the above, and \<open>TTYBUS\<close> keeps it in every state and with every answer of the device.\<close>

definition reads_as_asked :: "'d devbus \<Rightarrow> bool" where
  "reads_as_asked bus \<longleftrightarrow> (\<forall>a n d vs d'. bus_readz bus a (int n) d = (Inr vs, d') \<longrightarrow> length vs = n)"

lemma same_address_as_asked: "reads_same_address bus \<Longrightarrow> reads_as_asked bus"
  by (auto simp: reads_same_address_def reads_as_asked_def intro: read_times_length)

lemma rv_words_length: "rv_words fuel os a inc k acc s = (Inr ws, t) \<Longrightarrow> length ws = length acc + k"
  by (induction k arbitrary: acc s) (auto simp: bindE_eq_Inr_iff returnE_def)

lemma rv_issue_bound:
  assumes "rv_issue f inc len cmdrd nread ptr s = (Inr (ptr', cmdrd'), t)"
  shows "cmdrd' \<le> len"
  using assms
proof (induction f arbitrary: cmdrd ptr s)
  case (Suc f)
  then show ?case by (auto simp: Let_def bindE_eq_Inr_iff returnE_def split: if_splits)
qed (simp add: throwE_def)

lemma rv_loop_length:
  assumes "rv_loop f fuel os a inc len cmdrd acc ptr s = (Inr ws, t)" "int (length acc) \<le> len"
  shows "length ws = nat len"
  using assms
proof (induction f arbitrary: cmdrd acc ptr s)
  case (Suc f)
  show ?case
  proof (cases "cmdrd < len")
    case True
    then obtain ptr' cmdrd' acc' s' u v where
      "rv_issue (Suc f) inc len cmdrd (int (length acc)) ptr s = (Inr (ptr', cmdrd'), s')"
      and acc': "rv_words fuel os a inc (nat (cmdrd' - READAHEAD - int (length acc))) acc u = (Inr acc', v)"
      and rest: "rv_loop f fuel os a inc len cmdrd' acc' 0 v = (Inr ws, t)"
      using Suc.prems(1) by (auto simp: bindE_eq_Inr_iff)
    then have "cmdrd' \<le> len" by (intro rv_issue_bound)
    then have "int (length acc') \<le> len" using rv_words_length [OF acc'] Suc.prems(2) by (simp add: READAHEAD_def MAXRDLEN_def)
    then show ?thesis using rest by (intro Suc.IH)
  next
    case False
    then show ?thesis using Suc.prems by (auto dest: rv_words_length)
  qed
qed (simp add: throwE_def)

lemma readv_length: "readv fuel os a inc len s = (Inr ws, t) \<Longrightarrow> length ws = nat len"
  by (auto simp: readv_def bindE_eq_Inr_iff returnE_def getsE_def throwE_def simp del: rv_loop.simps
      dest!: rv_loop_length split: if_splits)

lemma tty_reads_as_asked: "reads_as_asked (tty_devbus fuel os)"
  by (auto simp: reads_as_asked_def tty_devbus_def readz_def dest!: readv_length)

end
