(* ===== verification/ByteSwap.thy ===== *)
theory ByteSwap
  imports Prelude
begin

text \<open>
  Byte orders (\<open>src/sw/host/byteswap.cpp\<close> and \<open>src/sim/verilated/byteswap.cpp\<close>). The two
  files share \<open>byteswap\<close>, \<open>buildswap\<close> and \<open>byteswapbuf\<close>; \<open>buildword\<close> differs, because the
  host's \<open>regdefs.h\<close> defines \<open>LITTLEENDIAN_CPU\<close>.
\<close>

subsection \<open>Definitions\<close>

definition byteswap :: "busw \<Rightarrow> busw" where
  "byteswap v =
     (let r = v AND 0x0ff;
          r = push_bit 8 r; v = drop_bit 8 v;
          r = r OR (v AND 0x0ff);
          r = push_bit 8 r; v = drop_bit 8 v;
          r = r OR (v AND 0x0ff);
          r = push_bit 8 r; v = drop_bit 8 v;
          r = r OR (v AND 0x0ff)
      in r)"

text \<open>The four characters \<open>p[0]\<close> to \<open>p[3]\<close>; \<open>buildword_host\<close> is the host's variant.\<close>

fun buildword :: "byte \<times> byte \<times> byte \<times> byte \<Rightarrow> busw" where
  "buildword (p0, p1, p2, p3) =
     (let r = push_bit 8 (ucast p0);
          r = push_bit 8 (r OR ucast p1);
          r = push_bit 8 (r OR ucast p2)
      in r OR ucast p3)"

fun buildword_host :: "byte \<times> byte \<times> byte \<times> byte \<Rightarrow> busw" where
  "buildword_host (p0, p1, p2, p3) =
     ucast p0 OR push_bit 8 (ucast p1) OR push_bit 16 (ucast p2) OR push_bit 24 (ucast p3)"

fun buildswap :: "byte \<times> byte \<times> byte \<times> byte \<Rightarrow> busw" where
  "buildswap (p0, p1, p2, p3) =
     (let r = push_bit 8 (ucast p3);
          r = push_bit 8 (r OR ucast p2);
          r = push_bit 8 (r OR ucast p1)
      in r OR ucast p0)"

text \<open>The loop over \<open>buf[0]\<close> to \<open>buf[ln-1]\<close>; outside the array it would be undefined.\<close>

fun byteswapbuf :: "nat \<Rightarrow> busw list \<Rightarrow> exn + busw list" where
  "byteswapbuf 0 buf = Inr buf"
| "byteswapbuf (Suc n) [] = Inl OutOfBounds"
| "byteswapbuf (Suc n) (b # buf) = bindS (byteswapbuf n buf) (\<lambda>bs. Inr (byteswap b # bs))"

subsection \<open>Bytes of a word\<close>

definition byte_of :: "nat \<Rightarrow> busw \<Rightarrow> byte" where
  "byte_of i w = ucast (drop_bit (8 * i) w)"

lemma bit_byte_of: "bit (byte_of i w) n \<longleftrightarrow> n < 8 \<and> bit w (8 * i + n)"
  by (auto simp: byte_of_def bit_simps)

lemma word_bytes_eqI:
  fixes v w :: busw
  assumes "\<And>i. i < 4 \<Longrightarrow> byte_of i v = byte_of i w"
  shows "v = w"
proof (rule bit_word_eqI)
  fix n assume "n < LENGTH(32)"
  then have i: "n div 8 < 4" by auto
  have "bit (byte_of (n div 8) v) (n mod 8) = bit (byte_of (n div 8) w) (n mod 8)"
    using assms [OF i] by simp
  then show "bit v n = bit w n" by (simp add: bit_byte_of)
qed

lemma less_4_cases: "i < 4 \<Longrightarrow> i = 0 \<or> i = 1 \<or> i = 2 \<or> i = (3::nat)"
  by auto

lemma and_ff_bit: "bit (w AND 0xff) n \<longleftrightarrow> n < 8 \<and> bit w n" for w :: busw
  using bit_take_bit_iff [of 8 w n] by (simp add: take_bit_eq_mask mask_eq_exp_minus_1)

lemma push_bit_bit: "bit (push_bit m w) n \<longleftrightarrow> m \<le> n \<and> n < 32 \<and> bit w (n - m)" for w :: busw
  by (auto simp: bit_simps)

lemma byteswap_bytes:
  assumes "i < 4" shows "byte_of i (byteswap w) = byte_of (3 - i) w"
proof (rule bit_word_eqI)
  fix n assume "n < LENGTH(8)"
  then have n: "n < 8" by simp
  have e: "bit (byteswap w) m = (m < 8 \<and> bit w (24 + m) \<or> 8 \<le> m \<and> m < 16 \<and> bit w (16 + (m - 8)) \<or>
      16 \<le> m \<and> m < 24 \<and> bit w (8 + (m - 16)) \<or> 24 \<le> m \<and> m < 32 \<and> bit w (m - 24))" for m
    unfolding byteswap_def Let_def bit_or_iff push_bit_bit and_ff_bit bit_drop_bit_eq comp_def
    by (auto simp: algebra_simps)
  show "bit (byte_of i (byteswap w)) n = bit (byte_of (3 - i) w) n"
    using less_4_cases [OF assms] n unfolding bit_byte_of e by auto
qed

lemma buildword_bytes:
  "byte_of 0 (buildword (p0, p1, p2, p3)) = p3" "byte_of 1 (buildword (p0, p1, p2, p3)) = p2"
  "byte_of 2 (buildword (p0, p1, p2, p3)) = p1" "byte_of 3 (buildword (p0, p1, p2, p3)) = p0"
  by (intro bit_word_eqI; auto simp: Let_def bit_byte_of bit_simps dest: bit_imp_le_length)+

lemma buildswap_bytes:
  "byte_of 0 (buildswap (p0, p1, p2, p3)) = p0" "byte_of 1 (buildswap (p0, p1, p2, p3)) = p1"
  "byte_of 2 (buildswap (p0, p1, p2, p3)) = p2" "byte_of 3 (buildswap (p0, p1, p2, p3)) = p3"
  by (intro bit_word_eqI; auto simp: Let_def bit_byte_of bit_simps dest: bit_imp_le_length)+

lemma buildword_host_bytes:
  "byte_of 0 (buildword_host (p0, p1, p2, p3)) = p0" "byte_of 1 (buildword_host (p0, p1, p2, p3)) = p1"
  "byte_of 2 (buildword_host (p0, p1, p2, p3)) = p2" "byte_of 3 (buildword_host (p0, p1, p2, p3)) = p3"
  by (intro bit_word_eqI; auto simp: bit_byte_of bit_simps dest: bit_imp_le_length)+

lemma byteswap_swap: "byteswap (byteswap w) = w"
proof (rule word_bytes_eqI)
  fix i :: nat assume i: "i < 4"
  then have "3 - i < 4" "3 - (3 - i) = i" by auto
  then show "byte_of i (byteswap (byteswap w)) = byte_of i w" using i by (simp add: byteswap_bytes)
qed

lemma byteswapbuf_map:
  "n \<le> length buf \<Longrightarrow> byteswapbuf n buf = Inr (map byteswap (take n buf) @ drop n buf)"
  by (induction n buf rule: byteswapbuf.induct) auto

subsection \<open>Properties\<close>

text \<open>\<open>byteswapbuf\<close> reverses the bytes of each of the first \<open>ln\<close> words and leaves the rest;
  swapping twice restores the buffer.\<close>

lemma byteswapbuf_involution:
  assumes "ln \<le> length buf"
  shows "\<exists>buf'. byteswapbuf ln buf = Inr buf' \<and> byteswapbuf ln buf' = Inr buf \<and>
    (\<forall>k. k < ln \<longrightarrow> (\<forall>i. i < 4 \<longrightarrow> byte_of i (buf' ! k) = byte_of (3 - i) (buf ! k))) \<and> drop ln buf' = drop ln buf"
  using assms by (auto simp: byteswapbuf_map byteswap_swap byteswap_bytes nth_append comp_def)

lemma byteswapbuf_involution_witness:
  "\<exists>buf'. byteswapbuf 1 [0x01020304, 5] = Inr buf' \<and> byteswapbuf 1 buf' = Inr [0x01020304, 5]"
  using byteswapbuf_involution [of 1 "[0x01020304, 5]"] by auto

text \<open>The word builders read the same four characters in the two byte orders: the simulator's
  \<open>buildword\<close> is the byte-swapped \<open>buildswap\<close>, and the host's \<open>buildword\<close>, compiled for a
  little-endian machine, is \<open>buildswap\<close> itself.\<close>

lemma builders_agree:
  "buildword p = byteswap (buildswap p) \<and> buildword_host p = buildswap p"
proof -
  obtain p0 p1 p2 p3 where p: "p = (p0, p1, p2, p3)" by (cases p) auto
  have "buildword p = byteswap (buildswap p)"
    by (rule word_bytes_eqI, drule less_4_cases)
      (auto simp: p byteswap_bytes buildword_bytes buildswap_bytes buildswap_bytes [unfolded One_nat_def] simp del: buildword.simps buildswap.simps One_nat_def)
  moreover have "buildword_host p = buildswap p"
    by (rule word_bytes_eqI, drule less_4_cases)
      (auto simp: p buildword_host_bytes buildswap_bytes simp del: buildword_host.simps buildswap.simps One_nat_def)
  ultimately show ?thesis by simp
qed

end
