(* ===== verification/FlashDrvr.thy ===== *)
theory FlashDrvr
  imports DevBus ByteSwap
begin

text \<open>
  The flash driver of the host, class \<open>FLASHDRVR\<close> of \<open>src/sw/host/flashdrvr.cpp\<close> and \<open>flashdrvr.h\<close>, with the constants of
  \<open>regdefs.h\<close>: it drives the chip byte by byte through the configuration register of the flash controller, and reads it
  through the memory-mapped port. The definitions are those of a design with a quad SPI flash (\<open>FLASH_ACCESS\<close>, \<open>QSPI_FLASH\<close>).

  The bus is any \<open>devbus\<close>. The only loop that waits for the device, \<open>flwait\<close>, takes fuel. A buffer of the caller is the list of
  its characters, and reading past its end is the error \<open>OutOfBounds\<close>. What is printed is left out.
\<close>

subsection \<open>Constants\<close>

definition R_FLASHCFG :: busw where "R_FLASHCFG = 0x00100000"
definition R_FLASH :: busw where "R_FLASH = 0x01000000"
definition FLASHBASE :: busw where "FLASHBASE = 0x01000000"
definition FLASHLEN :: busw where "FLASHLEN = 0x01000000"
definition FLASH_NDUMMY :: int where "FLASH_NDUMMY = 2"
definition SZPAGEB :: busw where "SZPAGEB = 256"
definition PGLENB :: busw where "PGLENB = 256"
definition SZPAGEW :: int where "SZPAGEW = 64"
definition NPAGES :: nat where "NPAGES = 256"
definition SECTORSZB :: busw where "SECTORSZB = 65536"
definition SECTOROF :: "busw \<Rightarrow> busw" where "SECTOROF a = a AND push_bit 16 (- 1)"
definition PAGEOF :: "busw \<Rightarrow> busw" where "PAGEOF a = a AND push_bit 8 (- 1)"

definition FLASH_UNKNOWN :: busw where "FLASH_UNKNOWN = 0"
definition MICRON_FLASHID :: busw where "MICRON_FLASHID = 0x20ba1810"

definition CFG_USERMODE :: busw where "CFG_USERMODE = push_bit 12 1"
definition CFG_QSPEED :: busw where "CFG_QSPEED = push_bit 11 1"
definition CFG_WEDIR :: busw where "CFG_WEDIR = push_bit 9 1"
definition CFG_USER_CS_n :: busw where "CFG_USER_CS_n = push_bit 8 1"

definition F_RESET :: busw where "F_RESET = CFG_USERMODE OR 0x0ff"
definition F_EMPTY :: busw where "F_EMPTY = CFG_USERMODE OR 0x000"
definition F_PP :: busw where "F_PP = CFG_USERMODE OR 0x002"
definition F_WRDI :: busw where "F_WRDI = CFG_USERMODE OR 0x004"
definition F_RDSR1 :: busw where "F_RDSR1 = CFG_USERMODE OR 0x005"
definition F_WREN :: busw where "F_WREN = CFG_USERMODE OR 0x006"
definition F_SE :: busw where "F_SE = CFG_USERMODE OR 0x0d8"
definition F_END :: busw where "F_END = CFG_USERMODE OR CFG_USER_CS_n"
definition QUAD_IO_READ :: busw where "QUAD_IO_READ = CFG_USERMODE OR 0xeb"

subsection \<open>Access to the chip\<close>

record 'd flashdrvr =
  m_bus :: 'd
  m_flashid :: busw

definition FLASHDRVR :: "'d \<Rightarrow> 'd flashdrvr" where
  "FLASHDRVR fpga = \<lparr>m_bus = fpga, m_flashid = FLASH_UNKNOWN\<rparr>"

definition on_fpga :: "('d, 'a) call \<Rightarrow> ('d flashdrvr, 'a) call" where
  "on_fpga m s = (case m (m_bus s) of (r, d) \<Rightarrow> (r, s\<lparr>m_bus := d\<rparr>))"

text \<open>Successive writes to the configuration register.\<close>

fun cfg_writes :: "'d devbus \<Rightarrow> busw list \<Rightarrow> ('d, unit) call" where
  "cfg_writes bus [] = returnE ()"
| "cfg_writes bus (v # vs) = bindE (bus_writeio bus R_FLASHCFG v) (\<lambda>_. cfg_writes bus vs)"

definition take_offline :: "'d devbus \<Rightarrow> ('d, unit) call" where
  "take_offline bus = cfg_writes bus [F_END, F_RESET, F_RESET, F_RESET, F_RESET, F_RESET, F_RESET, F_END]"

definition restore_quadio :: "'d devbus \<Rightarrow> busw \<Rightarrow> ('d, unit) call" where
  "restore_quadio bus flash_id =
     bindE (cfg_writes bus [F_END]) (\<lambda>_.
     bindE (whenE (MICRON_FLASHID = flash_id)
        (cfg_writes bus [F_WREN, F_END, CFG_USERMODE OR 0x81, CFG_USERMODE OR 0x23, F_END])) (\<lambda>_.
     bindE (cfg_writes bus [QUAD_IO_READ]) (\<lambda>_.
     bindE (cfg_writes bus (replicate 3 (CFG_USERMODE OR CFG_QSPEED OR CFG_WEDIR))) (\<lambda>_.
     bindE (cfg_writes bus [CFG_USERMODE OR CFG_QSPEED OR CFG_WEDIR OR 0xa0]) (\<lambda>_.
     bindE (cfg_writes bus (replicate (nat ((FLASH_NDUMMY - 2) div 2)) (CFG_USERMODE OR CFG_QSPEED))) (\<lambda>_.
     bindE (cfg_writes bus [CFG_USERMODE OR CFG_QSPEED]) (\<lambda>_.
       cfg_writes bus [CFG_USERMODE, CFG_USER_CS_n])))))))"

definition place_online :: "'d devbus \<Rightarrow> busw \<Rightarrow> ('d, unit) call" where
  "place_online bus flash_id = restore_quadio bus flash_id"

text \<open>One character to the chip, and the character it answered with.\<close>

definition cfg_exchange :: "'d devbus \<Rightarrow> busw \<Rightarrow> ('d, busw) call" where
  "cfg_exchange bus v = bindE (bus_writeio bus R_FLASHCFG v) (\<lambda>_. bus_readio bus R_FLASHCFG)"

definition flashid :: "'d devbus \<Rightarrow> ('d flashdrvr, busw) call" where
  "flashid bus s =
     (if m_flashid s \<noteq> FLASH_UNKNOWN then (Inr (m_flashid s), s)
      else
        bindE (on_fpga (take_offline bus)) (\<lambda>_.
        bindE (on_fpga (cfg_writes bus [CFG_USERMODE OR 0x9f])) (\<lambda>_.
        bindE (on_fpga (cfg_exchange bus (CFG_USERMODE OR 0x00))) (\<lambda>v. let r = v AND 0x0ff in
        bindE (on_fpga (cfg_exchange bus (CFG_USERMODE OR 0x00))) (\<lambda>v. let r = push_bit 8 r OR (v AND 0x0ff) in
        bindE (on_fpga (cfg_exchange bus (CFG_USERMODE OR 0x00))) (\<lambda>v. let r = push_bit 8 r OR (v AND 0x0ff) in
        bindE (on_fpga (cfg_exchange bus (CFG_USERMODE OR 0x00))) (\<lambda>v. let r = push_bit 8 r OR (v AND 0x0ff) in
        bindE (modifyE (\<lambda>s. s\<lparr>m_flashid := r\<rparr>)) (\<lambda>_ s.
        bindE (on_fpga (place_online bus (m_flashid s))) (\<lambda>_.
          getsE m_flashid) s))))))) s)"

text \<open>The loop of \<open>flwait\<close>, until the write-in-progress bit is clear.\<close>

fun flwait_loop :: "nat \<Rightarrow> 'd devbus \<Rightarrow> ('d, unit) call" where
  "flwait_loop 0 bus = throwE OutOfFuel"
| "flwait_loop (Suc fuel) bus =
     bindE (cfg_exchange bus F_EMPTY) (\<lambda>sr. if sr AND 1 \<noteq> 0 then flwait_loop fuel bus else returnE ())"

definition flwait :: "nat \<Rightarrow> 'd devbus \<Rightarrow> ('d, unit) call" where
  "flwait fuel bus =
     bindE (cfg_writes bus [F_END, F_RDSR1]) (\<lambda>_.
     bindE (flwait_loop fuel bus) (\<lambda>_.
       cfg_writes bus [F_END]))"

subsection \<open>Erasing and programming\<close>

text \<open>The three characters of an address.\<close>

definition cfg_address :: "busw \<Rightarrow> busw list" where
  "cfg_address flashaddr =
     [CFG_USERMODE OR (drop_bit 16 flashaddr AND 0x0ff), CFG_USERMODE OR (drop_bit 8 flashaddr AND 0x0ff),
      CFG_USERMODE OR (flashaddr AND 0x0ff)]"

text \<open>Reading back an erased sector, page by page.\<close>

fun verify_erased :: "'d devbus \<Rightarrow> busw \<Rightarrow> nat list \<Rightarrow> ('d, bool) call" where
  "verify_erased bus flashaddr [] = returnE True"
| "verify_erased bus flashaddr (i # is) =
     bindE (bus_readi bus (R_FLASH + flashaddr + of_nat i * SZPAGEB) SZPAGEW) (\<lambda>page.
       if list_all (\<lambda>v. v = 0xffffffff) page then verify_erased bus flashaddr is else returnE False)"

definition drv_erase_sector :: "nat \<Rightarrow> 'd devbus \<Rightarrow> busw \<Rightarrow> bool \<Rightarrow> ('d flashdrvr, bool) call" where
  "drv_erase_sector fuel bus sector verify_erase s =
     (let flashaddr = sector AND 0x0ffffff in
      bindE (on_fpga (take_offline bus)) (\<lambda>_.
      bindE (on_fpga (cfg_writes bus [F_END, F_WREN, F_END])) (\<lambda>_.
      bindE (on_fpga (cfg_writes bus ([F_SE] @ cfg_address flashaddr @ [F_END]))) (\<lambda>_.
      bindE (on_fpga (flwait fuel bus)) (\<lambda>_.
      bindE (on_fpga (place_online bus (m_flashid s))) (\<lambda>_.
        if verify_erase then on_fpga (verify_erased bus flashaddr [0..<NPAGES]) else returnE True))))) s)"

text \<open>The words of the data, four characters each: the last may take in up to three characters past \<open>len\<close>.\<close>

definition data_word :: "byte list \<Rightarrow> nat \<Rightarrow> exn + busw" where
  "data_word dat i =
     (if i + 4 \<le> length dat then Inr (buildword_host (dat ! i, dat ! (i + 1), dat ! (i + 2), dat ! (i + 3))) else Inl OutOfBounds)"

definition data_words :: "byte list \<Rightarrow> nat \<Rightarrow> exn + busw list" where
  "data_words dat len = mapS (\<lambda>j. data_word dat (4 * j)) [0..<(len + 3) div 4]"

definition verify_page :: "'d devbus \<Rightarrow> busw \<Rightarrow> busw \<Rightarrow> busw list \<Rightarrow> ('d, bool) call" where
  "verify_page bus addr len bswapd =
     bindE (bus_readi bus addr (int (unat (drop_bit 2 len)))) (\<lambda>buf.
       returnE (list_all (\<lambda>(b, w). b = w) (zip (take (unat (drop_bit 2 len)) buf) bswapd)))"

definition page_program :: "nat \<Rightarrow> 'd devbus \<Rightarrow> busw \<Rightarrow> busw \<Rightarrow> byte list \<Rightarrow> bool \<Rightarrow> ('d flashdrvr, bool) call" where
  "page_program fuel bus addr len dat verify_write s =
     (let flashaddr = addr AND 0x0ffffff in
      bindE (on_fpga (take_offline bus)) (\<lambda>_.
      bindE (assertE (len > 0)) (\<lambda>_.
      bindE (assertE (len \<le> PGLENB)) (\<lambda>_.
      bindE (assertE (PAGEOF addr = PAGEOF (addr + len - 1))) (\<lambda>_.
      bindE (liftE (data_words dat (unat len))) (\<lambda>bswapd.
        if list_all (\<lambda>v. v = 0xffffffff) bswapd
        then bindE (on_fpga (place_online bus (m_flashid s))) (\<lambda>_. returnE True)
        else
          bindE (on_fpga (cfg_writes bus [F_END, F_WREN, F_END])) (\<lambda>_.
          bindE (on_fpga (cfg_writes bus ([F_PP] @ cfg_address flashaddr))) (\<lambda>_.
          bindE (on_fpga (cfg_writes bus (map (\<lambda>c. CFG_USERMODE OR CFG_WEDIR OR (ucast c AND 0x0ff)) (take (unat len) dat)))) (\<lambda>_.
          bindE (on_fpga (cfg_writes bus [F_END])) (\<lambda>_.
          bindE (on_fpga (flwait fuel bus)) (\<lambda>_.
          bindE (on_fpga (place_online bus (m_flashid s))) (\<lambda>_.
            if verify_write then on_fpga (verify_page bus addr len bswapd) else returnE True))))))))))) s)"

subsection \<open>Writing\<close>

text \<open>\<open>verify_config\<close> is true in this configuration, so \<open>set_config\<close>, which has no effect, is not called.\<close>

definition verify_config :: bool where "verify_config = True"

text \<open>The characters of words in the memory of the host.\<close>

definition word_bytes :: "busw \<Rightarrow> byte list" where
  "word_bytes w = [ucast w, ucast (drop_bit 8 w), ucast (drop_bit 16 w), ucast (drop_bit 24 w)]"

text \<open>The comparison of what a sector holds with what it shall hold, from the character \<open>i\<close> on, \<open>n\<close> characters: whether it has to be erased,
  and the address to start programming at, 0 when nothing differs.\<close>

fun compare_sector :: "busw \<Rightarrow> nat \<Rightarrow> nat \<Rightarrow> byte list \<Rightarrow> byte list \<Rightarrow> busw \<Rightarrow> exn + bool \<times> busw" where
  "compare_sector base i 0 sbuf dp newv = Inr (False, newv)"
| "compare_sector base i (Suc n) (b # sbuf) (d # dp) newv =
     (let here = (of_nat i AND - 4) + base in
      if b AND d \<noteq> d then Inr (True, here)
      else compare_sector base (Suc i) n sbuf dp (if b \<noteq> d \<and> newv = 0 then here else newv))"
| "compare_sector base i (Suc n) _ _ newv = Inl OutOfBounds"

text \<open>Programming the pages of a sector. The inner \<open>len\<close> is declared as \<open>unsigned start = p, len = addr+len-start\<close>: the \<open>len\<close>
  on the right is the new one, not yet initialised, so its value is an argument. The loop has at most \<open>NPAGES\<close> rounds.\<close>

fun program_pages :: "nat \<Rightarrow> nat \<Rightarrow> 'd devbus \<Rightarrow> (busw \<Rightarrow> busw) \<Rightarrow> busw \<Rightarrow> busw \<Rightarrow> byte list \<Rightarrow> bool \<Rightarrow> busw \<Rightarrow> busw \<Rightarrow> ('d flashdrvr, bool) call" where
  "program_pages 0 fuel bus junk addr len dat verify s p = throwE OutOfFuel"
| "program_pages (Suc n) fuel bus junk addr len dat verify s p =
     (if p < s + SECTORSZB \<and> p < addr + len
      then
        (let start = p;
             plen = addr + junk p - start;
             plen = (if PAGEOF (start + plen - 1) \<noteq> PAGEOF start then PAGEOF (start + PGLENB) - start else plen)
         in bindE (page_program fuel bus start plen (drop (unat (p - addr)) dat) verify) (\<lambda>ok.
              if \<not> ok then returnE False
              else program_pages n fuel bus junk addr len dat verify s (PAGEOF (p + PGLENB))))
      else returnE True)"

text \<open>\<open>SETSCOPE\<close>: the hold-off of the flash scope, at the address \<open>R_FLASHSCOPE\<close>.\<close>

definition SETSCOPE :: "'d devbus \<Rightarrow> ('d, unit) call" where
  "SETSCOPE bus = bus_writeio bus 0x00300000 8180"

text \<open>One round of the loop over the sectors. The characters after the last whole word of \<open>sbuf\<close> are uninitialised.\<close>

definition write_sector :: "nat \<Rightarrow> 'd devbus \<Rightarrow> (busw \<Rightarrow> busw) \<Rightarrow> byte list \<Rightarrow> busw \<Rightarrow> busw \<Rightarrow> byte list \<Rightarrow> bool \<Rightarrow> busw \<Rightarrow> ('d flashdrvr, bool) call" where
  "write_sector fuel bus junk sbuf0 addr len dat verify s =
     (let base = (if addr > s then addr else s);
          ln = (if addr + len > s + SECTORSZB then s + SECTORSZB else addr + len) - base
      in
      bindE (on_fpga (bus_readi bus base (int (unat (drop_bit 2 ln))))) (\<lambda>ws.
      bindE (on_fpga (SETSCOPE bus)) (\<lambda>_.
      bindE (liftE (let rd = concat (map word_bytes ws)
                    in compare_sector base 0 (unat ln) (rd @ drop (length rd) sbuf0) (drop (unat (base - addr)) dat) 0)) (\<lambda>(need_erase, newv).
        if newv = 0 then returnE True
           else if \<not> need_erase then program_pages (Suc NPAGES) fuel bus junk addr len dat verify s newv
           else bindE (drv_erase_sector fuel bus s verify) (\<lambda>ok.
                  if \<not> ok then returnE False
                  else program_pages (Suc NPAGES) fuel bus junk addr len dat verify s (if s < addr then addr else s))))))"

text \<open>The loop over the sectors; \<open>ns\<close> are their numbers.\<close>

fun write_sectors :: "nat \<Rightarrow> 'd devbus \<Rightarrow> (busw \<Rightarrow> busw) \<Rightarrow> byte list \<Rightarrow> busw \<Rightarrow> busw \<Rightarrow> byte list \<Rightarrow> bool \<Rightarrow> nat list \<Rightarrow> ('d flashdrvr, bool) call" where
  "write_sectors fuel bus junk sbuf0 addr len dat verify [] = returnE True"
| "write_sectors fuel bus junk sbuf0 addr len dat verify (n # ns) =
     bindE (write_sector fuel bus junk sbuf0 addr len dat verify (of_nat n * SECTORSZB)) (\<lambda>ok.
       if \<not> ok then returnE False else write_sectors fuel bus junk sbuf0 addr len dat verify ns)"

definition drv_write :: "nat \<Rightarrow> 'd devbus \<Rightarrow> (busw \<Rightarrow> busw) \<Rightarrow> byte list \<Rightarrow> busw \<Rightarrow> busw \<Rightarrow> byte list \<Rightarrow> bool \<Rightarrow> ('d flashdrvr, bool) call" where
  "drv_write fuel bus junk sbuf0 addr len dat verify =
     bindE (flashid bus) (\<lambda>_.
     bindE (assertE (addr \<ge> FLASHBASE)) (\<lambda>_.
     bindE (assertE (addr + len \<le> FLASHBASE + FLASHLEN)) (\<lambda>_.
       if \<not> verify_config then returnE False
       else
         bindE (write_sectors fuel bus junk sbuf0 addr len dat verify
            [unat (SECTOROF addr) div 65536 ..< unat (SECTOROF (addr + len + SECTORSZB - 1)) div 65536]) (\<lambda>ok.
           if \<not> ok then returnE False
           else
             bindE (on_fpga (take_offline bus)) (\<lambda>_.
             bindE (on_fpga (cfg_writes bus [F_WRDI, F_END])) (\<lambda>_ s.
             bindE (on_fpga (place_online bus (m_flashid s))) (\<lambda>_.
               returnE True) s))))))"

end
