(* ===== verification/FlashSim.thy ===== *)
theory FlashSim
  imports Prelude
begin

text \<open>
  The simulated SPI flash (\<open>src/sim/verilated/flashsim.cpp\<close>, \<open>flashsim.h\<close>): a chip that is
  called with its chip select, clock and data pins, shifts commands in one, two or four bits
  at a time, and programs or erases its memory when the chip select rises.

  All of \<open>int\<close> and \<open>unsigned\<close> are 32-bit words; the code never looks at a sign. Members the
  constructor does not set (\<open>m_addr\<close>, \<open>m_count\<close>, \<open>m_pmem\<close>, \<open>m_rddelay\<close>) are arguments of
  it. An access outside \<open>m_mem\<close> is the error \<open>OutOfBounds\<close>, a shift by 32 bits or more
  \<open>BadShift\<close>. \<open>CKDELAY\<close> is 0 in every object, so the branches that need it to be positive are
  left out. Debugging output is left out.
\<close>

subsection \<open>State\<close>

datatype qspif_state =
    QSPIF_IDLE | QSPIF_QUAD_READ_IDLE | QSPIF_RDSR | QSPIF_RDCR | QSPIF_WRSR | QSPIF_CLSR | QSPIF_RDID
  | QSPIF_RELEASE | QSPIF_SLOW_READ | QSPIF_FAST_READ | QSPIF_QUAD_READ_CMD | QSPIF_QUAD_READ
  | QSPIF_SECTOR_ERASE | QSPIF_PP | QSPIF_QPP | QSPIF_BULK_ERASE | QSPIF_DEEP_POWER_DOWN
  | QSPIF_DUAL_READ_IDLE | QSPIF_DUAL_READ_CMD | QSPIF_DUAL_READ | QSPIF_INVALID

datatype flash_mode = FM_SPI | FM_DSPI | FM_QSPI

record flashsim =
  m_state :: qspif_state
  m_mem :: "byte list"
  m_pmem :: "byte list"
  m_last_sck :: busw
  m_write_count :: busw
  m_ireg :: busw
  m_oreg :: busw
  m_sreg :: busw
  m_addr :: busw
  m_count :: busw
  m_mode_byte :: busw
  m_creg :: busw
  m_membytes :: busw
  m_memmask :: busw
  m_idle_throttle :: bool
  m_mode :: flash_mode
  RDDELAY :: nat
  NDUMMY :: busw
  m_rddelay :: "busw list option"

definition QSPIF_WIP_FLAG :: busw where "QSPIF_WIP_FLAG = 0x0001"
definition QSPIF_WEL_FLAG :: busw where "QSPIF_WEL_FLAG = 0x0002"
definition QSPIF_DEEP_POWER_DOWN_FLAG :: busw where "QSPIF_DEEP_POWER_DOWN_FLAG = 0x0200"

definition DEVID :: busw where "DEVID = 0x01152340"
definition DEVESD :: busw where "DEVESD = 0x014"

text \<open>The delays, in clocks of the default 100 MHz.\<close>

definition CLKRATE_HZ :: busw where "CLKRATE_HZ = 100000000"
definition MICROSECONDS :: busw where "MICROSECONDS = (CLKRATE_HZ + 1) div 1000000"
definition MILLISECONDS :: busw where "MILLISECONDS = (CLKRATE_HZ + 1) div 1000"
definition SECONDS :: busw where "SECONDS = CLKRATE_HZ"
definition tW :: busw where "tW = 50 * MICROSECONDS"
definition tBE :: busw where "tBE = 32 * SECONDS"
definition tDP :: busw where "tDP = 10 * SECONDS"
definition tRES :: busw where "tRES = 30 * SECONDS"
definition tPP :: busw where "tPP = 12 * MICROSECONDS"
definition tSE :: busw where "tSE = 15 * MILLISECONDS"

definition FLASHSIM :: "nat \<Rightarrow> nat \<Rightarrow> busw \<Rightarrow> busw \<times> busw \<times> byte list \<times> busw list option \<Rightarrow> flashsim" where
  "FLASHSIM lglen rddelay ndummy junk =
     (let (addr0, count0, pmem0, rd0) = junk;
          membytes = push_bit lglen 1
      in \<lparr>m_state = QSPIF_IDLE, m_mem = replicate (unat membytes) 0xff, m_pmem = pmem0, m_last_sck = 1,
          m_write_count = 0, m_ireg = 0, m_oreg = 0, m_sreg = 0x01c, m_addr = addr0, m_count = count0,
          m_mode_byte = 0, m_creg = 0x001, m_membytes = membytes, m_memmask = membytes - 1,
          m_idle_throttle = False, m_mode = FM_SPI, RDDELAY = rddelay, NDUMMY = ndummy, m_rddelay = rd0\<rparr>)"

subsection \<open>Access from the test bench\<close>

text \<open>\<open>load\<close> from a file whose content is \<open>cs\<close> (none when it cannot be opened): what was read,
  then \<open>0xff\<close> up to the end.\<close>

definition load_file :: "busw \<Rightarrow> byte list option \<Rightarrow> flashsim \<Rightarrow> flashsim" where
  "load_file addr cs s =
     (if addr \<ge> m_membytes s then s
      else let len = unat (m_membytes s - addr);
               rd = (case cs of None \<Rightarrow> [] | Some xs \<Rightarrow> take len xs)
           in s\<lparr>m_mem := take (unat addr) (m_mem s) @ rd @ replicate (len - length rd) 0xff\<rparr>)"

definition load_data :: "busw \<Rightarrow> byte list \<Rightarrow> (flashsim, unit) call" where
  "load_data offset dat s =
     (let moff = unat (offset AND m_memmask s)
      in case store_at moff dat (m_mem s) of
           Inl e \<Rightarrow> (Inl e, s)
         | Inr m \<Rightarrow> (Inr (), s\<lparr>m_mem := m\<rparr>))"

definition deep_sleep :: "flashsim \<Rightarrow> bool" where
  "deep_sleep s \<longleftrightarrow> m_sreg s AND QSPIF_DEEP_POWER_DOWN_FLAG \<noteq> 0"

definition set_deep_sleep :: "bool \<Rightarrow> flashsim \<Rightarrow> bool \<times> flashsim" where
  "set_deep_sleep newval s =
     (let s = (if newval then s\<lparr>m_sreg := m_sreg s OR QSPIF_DEEP_POWER_DOWN_FLAG\<rparr>
               else s\<lparr>m_sreg := m_sreg s AND NOT QSPIF_DEEP_POWER_DOWN_FLAG\<rparr>)
      in (deep_sleep s, s))"

definition write_protect :: "flashsim \<Rightarrow> bool" where
  "write_protect s \<longleftrightarrow> m_sreg s AND QSPIF_WEL_FLAG = 0"

definition write_in_progress :: "flashsim \<Rightarrow> bool" where
  "write_in_progress s \<longleftrightarrow> m_sreg s OR QSPIF_WIP_FLAG \<noteq> 0"

definition xip_mode :: "flashsim \<Rightarrow> bool" where "xip_mode s \<longleftrightarrow> m_state s = QSPIF_QUAD_READ_IDLE"
definition dual_mode :: "flashsim \<Rightarrow> bool" where "dual_mode s \<longleftrightarrow> m_mode s = FM_DSPI"
definition quad_mode :: "flashsim \<Rightarrow> bool" where "quad_mode s \<longleftrightarrow> m_mode s = FM_QSPI"

text \<open>\<open>operator[]\<close> and \<open>set\<close> take the index of a word; the most significant byte is first.\<close>

definition word_at :: "busw \<Rightarrow> (flashsim, busw) call" where
  "word_at index s =
     (let p = unat (push_bit 2 index) in
      if p + 4 \<le> length (m_mem s)
      then (let v = ucast (m_mem s ! p);
                v = push_bit 8 v OR ucast (m_mem s ! (p + 1));
                v = push_bit 8 v OR ucast (m_mem s ! (p + 2));
                v = push_bit 8 v OR ucast (m_mem s ! (p + 3))
            in (Inr v, s))
      else (Inl OutOfBounds, s))"

definition set_word :: "busw \<Rightarrow> busw \<Rightarrow> (flashsim, unit) call" where
  "set_word addr val s =
     (case store_at (unat (push_bit 2 addr))
             [ucast (drop_bit 24 val), ucast (drop_bit 16 val), ucast (drop_bit 8 val), ucast val] (m_mem s) of
        Inl e \<Rightarrow> (Inl e, s)
      | Inr m \<Rightarrow> (Inr (), s\<lparr>m_mem := m\<rparr>))"

subsection \<open>The pins\<close>

text \<open>\<open>QOREG(A)\<close>: replace the low byte of the output register.\<close>

definition QOREG :: "busw \<Rightarrow> flashsim \<Rightarrow> flashsim" where
  "QOREG a s = s\<lparr>m_oreg := (m_oreg s AND NOT 0x0ff) OR (a AND 0x0ff)\<rparr>"

definition count_down :: "flashsim \<Rightarrow> flashsim" where
  "count_down s =
     (if m_write_count s > 0
      then let s = s\<lparr>m_write_count := m_write_count s - 1\<rparr>
           in if m_write_count s = 0 then s\<lparr>m_sreg := m_sreg s AND 0x0fc\<rparr> else s
      else s)"

text \<open>The start of a program or erase cycle: write-enable off, write-in-progress on.\<close>

definition begin_write :: "busw \<Rightarrow> flashsim \<Rightarrow> flashsim" where
  "begin_write t s =
     s\<lparr>m_write_count := t, m_state := QSPIF_IDLE,
       m_sreg := (m_sreg s AND NOT QSPIF_WEL_FLAG) OR QSPIF_WIP_FLAG\<rparr>"

definition program_page :: "(flashsim, unit) call" where
  "program_page s =
     (let base = unat (m_addr s AND NOT 0x0ff) in
      if base + 256 \<le> length (m_mem s) \<and> length (m_pmem s) = 256
      then (Inr (), s\<lparr>m_mem := fold (\<lambda>i m. m[base + i := (m ! (base + i)) AND (m_pmem s ! i)]) [0..<256] (m_mem s),
                      m_mode := FM_SPI\<rparr>)
      else (Inl OutOfBounds, s))"

definition erase_sector :: "(flashsim, unit) call" where
  "erase_sector s =
     (let s = s\<lparr>m_addr := m_addr s AND push_bit 16 (- 1)\<rparr>; base = unat (m_addr s) in
      if base + 65536 \<le> length (m_mem s)
      then (Inr (), s\<lparr>m_mem := take base (m_mem s) @ replicate 65536 0xff @ drop (base + 65536) (m_mem s)\<rparr>)
      else (Inl OutOfBounds, s))"

definition erase_bulk :: "flashsim \<Rightarrow> flashsim" where
  "erase_bulk s = s\<lparr>m_mem := replicate (unat (m_membytes s)) 0xff @ drop (unat (m_membytes s)) (m_mem s)\<rparr>"

definition leave_read :: "qspif_state \<Rightarrow> flashsim \<Rightarrow> flashsim" where
  "leave_read idle s =
     (if m_mode_byte s AND 0x0f0 \<noteq> 0x0a0 then s\<lparr>m_mode := FM_SPI\<rparr> else s\<lparr>m_state := idle\<rparr>)"

text \<open>The chip is not selected.\<close>

definition deselect :: "busw \<Rightarrow> (flashsim, busw) call" where
  "deselect dat =
     bindE (modifyE (\<lambda>s. s\<lparr>m_last_sck := 1, m_ireg := 0, m_oreg := 0, m_count := 0\<rparr>)) (\<lambda>_.
     bindE (\<lambda>s. case m_state s of
         QSPIF_PP \<Rightarrow> program_page (begin_write tPP s)
       | QSPIF_QPP \<Rightarrow> program_page (begin_write tPP s)
       | QSPIF_SECTOR_ERASE \<Rightarrow> erase_sector (begin_write tSE s)
       | QSPIF_WRSR \<Rightarrow> (Inr (), begin_write tW s)
       | QSPIF_CLSR \<Rightarrow> (Inr (), s\<lparr>m_state := QSPIF_IDLE, m_sreg := m_sreg s AND 0x09f\<rparr>)
       | QSPIF_BULK_ERASE \<Rightarrow> (Inr (), erase_bulk (begin_write tBE s))
       | QSPIF_DEEP_POWER_DOWN \<Rightarrow> (Inr (), s\<lparr>m_write_count := tDP, m_state := QSPIF_IDLE\<rparr>)
       | QSPIF_RELEASE \<Rightarrow> (Inr (), s\<lparr>m_write_count := tRES, m_state := QSPIF_IDLE\<rparr>)
       | QSPIF_QUAD_READ_CMD \<Rightarrow> (Inr (), leave_read QSPIF_QUAD_READ_IDLE s)
       | QSPIF_DUAL_READ_CMD \<Rightarrow> (Inr (), leave_read QSPIF_DUAL_READ_IDLE s)
       | QSPIF_QUAD_READ \<Rightarrow> (Inr (), leave_read QSPIF_QUAD_READ_IDLE s)
       | QSPIF_DUAL_READ \<Rightarrow> (Inr (), leave_read QSPIF_DUAL_READ_IDLE s)
       | _ \<Rightarrow> (Inr (), s)) (\<lambda>_.
     bindE (modifyE (\<lambda>s. s\<lparr>m_oreg := 0x0fe\<rparr>)) (\<lambda>_.
       returnE dat)))"

text \<open>What the chip drives on its pins.\<close>

definition pins :: "busw \<Rightarrow> flashsim \<Rightarrow> busw" where
  "pins dat s =
     (case m_mode s of
        FM_QSPI \<Rightarrow> drop_bit 8 (m_oreg s) AND 0x0f
      | FM_DSPI \<Rightarrow> (drop_bit 8 (m_oreg s) AND 0x03) OR (dat AND 0x0c)
      | FM_SPI \<Rightarrow> (if m_oreg s AND 0x0100 \<noteq> 0 then 2 else 0) OR (dat AND 0x0d))"

definition shift_in :: "busw \<Rightarrow> flashsim \<Rightarrow> flashsim" where
  "shift_in dat s =
     (case m_mode s of
        FM_QSPI \<Rightarrow> s\<lparr>m_ireg := push_bit 4 (m_ireg s) OR (dat AND 0x0f), m_count := m_count s + 4,
                     m_oreg := push_bit 4 (m_oreg s)\<rparr>
      | FM_DSPI \<Rightarrow> s\<lparr>m_ireg := push_bit 2 (m_ireg s) OR (dat AND 0x03), m_count := m_count s + 2,
                     m_oreg := push_bit 2 (m_oreg s)\<rparr>
      | FM_SPI \<Rightarrow> s\<lparr>m_ireg := push_bit 1 (m_ireg s) OR (dat AND 1), m_count := m_count s + 1,
                    m_oreg := push_bit 1 (m_oreg s)\<rparr>)"

text \<open>Continuing a read without a command byte (execute in place).\<close>

definition read_idle :: "bool \<Rightarrow> qspif_state \<Rightarrow> (flashsim, unit) call" where
  "read_idle in_mode rd =
     bindE (\<lambda>s. assertE (m_sreg s AND QSPIF_DEEP_POWER_DOWN_FLAG = 0) s) (\<lambda>_.
     bindE (assertE in_mode) (\<lambda>_.
     bindE (\<lambda>s. if m_count s = 24
                then let s = s\<lparr>m_addr := m_ireg s AND m_memmask s\<rparr>
                     in if m_addr s AND NOT (m_memmask s) = 0 then (Inr (), s\<lparr>m_state := rd\<rparr>) else (Inl AssertFail, s)
                else (Inr (), s)) (\<lambda>_.
       modifyE (\<lambda>s. s\<lparr>m_oreg := 0\<rparr>))))"

text \<open>The first eight bits are the command.\<close>

definition if_writable :: "qspif_state \<Rightarrow> flashsim \<Rightarrow> flashsim" where
  "if_writable st s = (if 2 \<noteq> m_sreg s AND 0x203 then s\<lparr>m_state := QSPIF_INVALID\<rparr> else s\<lparr>m_state := st\<rparr>)"

definition command :: "(flashsim, unit) call" where
  "command s =
     (let s = QOREG 0x0a5 s; cmd = m_ireg s AND 0x0ff in
      if m_sreg s AND QSPIF_DEEP_POWER_DOWN_FLAG \<noteq> 0 \<and> cmd \<noteq> 0xab then (Inr (), s)
      else if cmd = 0x01 then (Inr (), if_writable QSPIF_WRSR s)
      else if cmd = 0x02 then (Inr (), if_writable QSPIF_PP s)
      else if cmd = 0x03 then (Inr (), s\<lparr>m_state := QSPIF_SLOW_READ\<rparr>)
      else if cmd = 0x04 then (Inr (), s\<lparr>m_state := QSPIF_IDLE, m_sreg := m_sreg s AND NOT QSPIF_WEL_FLAG\<rparr>)
      else if cmd = 0x05 then (Inr (), QOREG (m_sreg s) (s\<lparr>m_state := QSPIF_RDSR\<rparr>))
      else if cmd = 0x06 then (Inr (), s\<lparr>m_state := QSPIF_IDLE, m_sreg := m_sreg s OR QSPIF_WEL_FLAG\<rparr>)
      else if cmd = 0x0b then (Inr (), s\<lparr>m_state := QSPIF_FAST_READ\<rparr>)
      else if cmd = 0x30 then (Inr (), s\<lparr>m_state := QSPIF_CLSR\<rparr>)
      else if cmd = 0x32 then (Inr (), if_writable QSPIF_QPP s)
      else if cmd = 0x35 then (Inr (), QOREG (m_creg s) (s\<lparr>m_state := QSPIF_RDCR\<rparr>))
      else if cmd = 0x50 then (Inr (), QOREG 0 (s\<lparr>m_state := QSPIF_IDLE\<rparr>))
      else if cmd = 0x61 then (Inr (), QOREG 0 (s\<lparr>m_state := QSPIF_IDLE\<rparr>))
      else if cmd = 0x70 then (Inr (), QOREG 0 (s\<lparr>m_state := QSPIF_IDLE\<rparr>))
      else if cmd = 0x81 then (Inr (), QOREG 0 s)
      else if cmd = 0x9f then (Inr (), QOREG (drop_bit 24 DEVID AND 0x0ff) (s\<lparr>m_state := QSPIF_RDID\<rparr>))
      else if cmd = 0xab then
        (Inr (), (if m_sreg s AND QSPIF_DEEP_POWER_DOWN_FLAG \<noteq> 0
                  then s\<lparr>m_sreg := m_sreg s AND NOT QSPIF_DEEP_POWER_DOWN_FLAG, m_write_count := tRES\<rparr>
                  else s)\<lparr>m_state := QSPIF_RELEASE\<rparr>)
      else if cmd = 0xb9 then
        (Inr (), if 0 \<noteq> m_sreg s AND 0x01 then s\<lparr>m_state := QSPIF_INVALID\<rparr>
                 else s\<lparr>m_sreg := m_sreg s OR QSPIF_DEEP_POWER_DOWN_FLAG, m_state := QSPIF_IDLE\<rparr>)
      else if cmd = 0xbb then (Inr (), s\<lparr>m_state := QSPIF_DUAL_READ_CMD, m_mode := FM_DSPI\<rparr>)
      else if cmd = 0xc7 then (Inr (), if_writable QSPIF_BULK_ERASE s)
      else if cmd = 0xd8 then (Inr (), if_writable QSPIF_SECTOR_ERASE s)
      else if cmd = 0xeb then (Inr (), s\<lparr>m_state := QSPIF_QUAD_READ_CMD, m_mode := FM_QSPI\<rparr>)
      else if cmd = 0x00 \<or> cmd = 0xff then (Inr (), s\<lparr>m_state := QSPIF_IDLE, m_mode := FM_SPI\<rparr>)
      else (Inl AssertFail, s\<lparr>m_state := QSPIF_INVALID\<rparr>))"

text \<open>\<open>QOREG(m_mem[m_addr++])\<close>\<close>

definition read_next :: "(flashsim, unit) call" where
  "read_next s =
     (if unat (m_addr s) < length (m_mem s)
      then (Inr (), (QOREG (ucast (m_mem s ! unat (m_addr s))) s)\<lparr>m_addr := m_addr s + 1\<rparr>)
      else (Inl OutOfBounds, s))"

text \<open>\<open>m_addr = m_ireg & m_memmask; assert((m_addr & (~m_memmask))==0);\<close>\<close>

definition latch_addr :: "(flashsim, unit) call" where
  "latch_addr s =
     (let s = s\<lparr>m_addr := m_ireg s AND m_memmask s\<rparr>
      in if m_addr s AND NOT (m_memmask s) = 0 then (Inr (), s) else (Inl AssertFail, s))"

definition program_byte :: "(flashsim, unit) call" where
  "program_byte s =
     (if m_count s = 32
      then (case latch_addr s of
              (Inl e, s') \<Rightarrow> (Inl e, s')
            | (Inr u, s') \<Rightarrow> (Inr (), s'\<lparr>m_pmem := replicate 256 0xff,
                 m_mode := (if m_state s' = QSPIF_QPP then FM_QSPI else m_mode s')\<rparr>))
      else if m_count s \<ge> 40
      then (Inr (), s\<lparr>m_pmem := (m_pmem s)[unat (m_addr s AND 0x0ff) := ucast (m_ireg s AND 0x0ff)],
                      m_addr := (m_addr s AND NOT 0x0ff) OR ((m_addr s + 1) AND 0x0ff)\<rparr>)
      else (Inr (), s))"

text \<open>A whole byte has been shifted in after the command.\<close>

definition read_states :: "(flashsim, unit) call" where
  "read_states s =
     (let c = m_count s; busy = m_sreg s AND 0x01 \<noteq> 0; quiet = (Inr (), s\<lparr>m_oreg := 0\<rparr>) in
      case m_state s of
        QSPIF_SLOW_READ \<Rightarrow>
          if c = 32 then bindE latch_addr (\<lambda>_. read_next) s
          else if c \<ge> 40 \<and> \<not> busy then read_next s else quiet
      | QSPIF_FAST_READ \<Rightarrow>
          if c = 32 then bindE (modifyE (QOREG 0x0c3)) (\<lambda>_. latch_addr) s
          else if c \<ge> 40 \<and> \<not> busy then read_next s else quiet
      | QSPIF_DUAL_READ_CMD \<Rightarrow>
          if c = 32 then latch_addr s
          else if c = 40 \<and> \<not> busy then read_next (s\<lparr>m_mode_byte := m_ireg s AND 0x0ff\<rparr>)
          else if c > 40 \<and> \<not> busy then read_next s else quiet
      | QSPIF_QUAD_READ_CMD \<Rightarrow>
          if c = 32 then latch_addr s
          else if c = 40
          then (let s = s\<lparr>m_mode_byte := m_ireg s AND 0x0ff\<rparr> in if NDUMMY s = 2 then read_next s else (Inr (), s))
          else if c > 32 + 4 * NDUMMY s \<and> \<not> busy then read_next s else quiet
      | QSPIF_DUAL_READ \<Rightarrow>
          read_next (if c = 32 then s\<lparr>m_mode_byte := m_ireg s AND 0x0ff\<rparr> else s)
      | QSPIF_QUAD_READ \<Rightarrow>
          if c = 32
          then (let s = s\<lparr>m_mode_byte := m_ireg s AND 0x0ff\<rparr> in if NDUMMY s = 2 then read_next s else (Inr (), s))
          else if c \<ge> 24 + 4 * NDUMMY s \<and> \<not> busy then read_next s else quiet
      | _ \<Rightarrow> (Inr (), s))"

definition later_byte :: "(flashsim, unit) call" where
  "later_byte s =
     (let s = QOREG 0 s;
          s = (if m_idle_throttle s \<and> m_state s \<noteq> QSPIF_IDLE then s\<lparr>m_idle_throttle := False\<rparr> else s)
      in case m_state s of
        QSPIF_IDLE \<Rightarrow> (Inr (), s\<lparr>m_idle_throttle := True\<rparr>)
      | QSPIF_WRSR \<Rightarrow>
          if m_count s = 16 then (Inr (), s\<lparr>m_sreg := (m_sreg s AND 0x061) OR (m_ireg s AND 0x09c)\<rparr>)
          else if m_count s = 24 then (Inr (), s\<lparr>m_creg := (m_creg s AND 0x0fd) OR (m_ireg s AND 0x02)\<rparr>)
          else (Inl (ExitWith 1), s)
      | QSPIF_CLSR \<Rightarrow> (Inl AssertFail, s)
      | QSPIF_RDID \<Rightarrow>
          if m_count s \<le> 32 then (Inr (), QOREG (drop_bit (unat (32 - m_count s)) DEVID) s) else (Inl BadShift, s)
      | QSPIF_RDSR \<Rightarrow> (Inr (), QOREG (m_sreg s) s)
      | QSPIF_RDCR \<Rightarrow> (Inr (), QOREG (m_creg s) s)
      | QSPIF_PP \<Rightarrow> program_byte s
      | QSPIF_QPP \<Rightarrow> program_byte s
      | QSPIF_SECTOR_ERASE \<Rightarrow>
          if m_count s = 32
          then (let s = s\<lparr>m_addr := m_ireg s AND 0x0ffc000\<rparr>
                in if m_addr s AND 0xfc00000 = 0 then (Inr (), s) else (Inl AssertFail, s))
          else (Inr (), s)
      | QSPIF_RELEASE \<Rightarrow> (Inr (), if m_count s \<ge> 32 then QOREG DEVESD s else s)
      | _ \<Rightarrow> read_states s)"

text \<open>The falling edge of the clock of a selected chip.\<close>

definition falling :: "(flashsim, unit) call" where
  "falling s =
     (if m_state s = QSPIF_QUAD_READ_IDLE then read_idle (quad_mode s) QSPIF_QUAD_READ s
      else if m_state s = QSPIF_DUAL_READ_IDLE then read_idle (dual_mode s) QSPIF_DUAL_READ s
      else if m_count s = 8 then command s
      else if m_count s AND 0x07 = 0 \<and> m_count s \<noteq> 0 then later_byte s
      else (Inr (), s))"

text \<open>\<open>operator()\<close>\<close>

definition flash_op :: "busw \<Rightarrow> busw \<Rightarrow> busw \<Rightarrow> (flashsim, busw) call" where
  "flash_op csn sck dat =
     bindE (modifyE count_down) (\<lambda>_ s.
       if csn \<noteq> 0 then deselect dat s
       else if m_last_sck s = 0 \<or> sck = m_last_sck s
       then (let s = s\<lparr>m_last_sck := sck\<rparr> in (Inr (pins dat s), s))
       else bindE falling (\<lambda>_.
            bindE (modifyE (\<lambda>s. s\<lparr>m_last_sck := sck\<rparr>)) (\<lambda>_.
              getsE (pins dat))) (shift_in dat s))"

definition simtick_pins :: "busw \<Rightarrow> busw \<Rightarrow> busw \<Rightarrow> busw" where
  "simtick_pins md dat r =
     (if md = 0 \<or> md = 1 then (r AND 2) OR (dat AND 1) OR 0x0c
      else if md = 2 then dat
      else if md = 3 then r
      else if md = 4 then (dat AND 3) OR 0x0c
      else if md = 5 then (r AND 3) OR 0x0c
      else r)"

text \<open>\<open>simtick\<close>; \<open>fresh\<close> is the content of the delay line when it is allocated.\<close>

definition simtick :: "busw list \<Rightarrow> busw \<Rightarrow> busw \<Rightarrow> busw \<Rightarrow> busw \<Rightarrow> (flashsim, busw) call" where
  "simtick fresh csn sck dat md =
     bindE (modifyE (\<lambda>s. if RDDELAY s > 0 \<and> m_rddelay s = None
                         then s\<lparr>m_rddelay := Some (take (RDDELAY s) fresh)\<rparr> else s)) (\<lambda>_.
     bindE (flash_op csn sck dat) (\<lambda>r0 s.
       let r = simtick_pins md dat r0 in
       if RDDELAY s > 0
       then (case m_rddelay s of
               None \<Rightarrow> (Inl OutOfBounds, s)
             | Some line \<Rightarrow>
                 if length line = RDDELAY s
                 then (Inr (hd line AND 0x0f), s\<lparr>m_rddelay := Some (tl line @ [r])\<rparr>)
                 else (Inl OutOfBounds, s))
       else (Inr r, s)))"

text \<open>A master in single-bit mode: the clock falls and rises once per bit; the bit it samples is the
  second pin. A transaction is a sequence of bytes, most significant bit first, that ends
  when the chip select rises.\<close>

fun spi_bits :: "bool list \<Rightarrow> (flashsim, bool list) call" where
  "spi_bits [] = returnE []"
| "spi_bits (b # bs) =
     bindE (flash_op 0 0 (of_bool b)) (\<lambda>r.
     bindE (flash_op 0 1 (of_bool b)) (\<lambda>_.
     bindE (spi_bits bs) (\<lambda>rs. returnE (bit r 1 # rs))))"

definition byte_bits :: "byte \<Rightarrow> bool list" where
  "byte_bits x = map (\<lambda>i. bit x (7 - i)) [0..<8]"

fun spi_bytes :: "byte list \<Rightarrow> (flashsim, bool list list) call" where
  "spi_bytes [] = returnE []"
| "spi_bytes (x # xs) = bindE (spi_bits (byte_bits x)) (\<lambda>r. bindE (spi_bytes xs) (\<lambda>rs. returnE (r # rs)))"

definition transaction :: "byte list \<Rightarrow> (flashsim, bool list list) call" where
  "transaction xs = bindE (spi_bytes xs) (\<lambda>r. bindE (flash_op 1 1 0) (\<lambda>_. returnE r))"

subsection \<open>Write protection\<close>

definition modifies :: "qspif_state \<Rightarrow> bool" where
  "modifies st \<longleftrightarrow> st \<in> {QSPIF_PP, QSPIF_QPP, QSPIF_SECTOR_ERASE, QSPIF_BULK_ERASE}"

lemma modifies_simps [simp]:
  "modifies QSPIF_PP" "modifies QSPIF_QPP" "modifies QSPIF_SECTOR_ERASE" "modifies QSPIF_BULK_ERASE"
  "\<not> modifies QSPIF_IDLE" "\<not> modifies QSPIF_QUAD_READ_IDLE" "\<not> modifies QSPIF_RDSR" "\<not> modifies QSPIF_RDCR"
  "\<not> modifies QSPIF_WRSR" "\<not> modifies QSPIF_CLSR" "\<not> modifies QSPIF_RDID" "\<not> modifies QSPIF_RELEASE"
  "\<not> modifies QSPIF_SLOW_READ" "\<not> modifies QSPIF_FAST_READ" "\<not> modifies QSPIF_QUAD_READ_CMD"
  "\<not> modifies QSPIF_QUAD_READ" "\<not> modifies QSPIF_DEEP_POWER_DOWN" "\<not> modifies QSPIF_DUAL_READ_IDLE"
  "\<not> modifies QSPIF_DUAL_READ_CMD" "\<not> modifies QSPIF_DUAL_READ" "\<not> modifies QSPIF_INVALID"
  by (simp_all add: modifies_def)

lemma QOREG_sel [simp]:
  "m_state (QOREG a s) = m_state s" "m_mem (QOREG a s) = m_mem s" "m_sreg (QOREG a s) = m_sreg s"
  "m_ireg (QOREG a s) = m_ireg s" "m_count (QOREG a s) = m_count s" "m_addr (QOREG a s) = m_addr s"
  "m_memmask (QOREG a s) = m_memmask s" "m_mode (QOREG a s) = m_mode s" "m_pmem (QOREG a s) = m_pmem s"
  "m_creg (QOREG a s) = m_creg s" "m_write_count (QOREG a s) = m_write_count s" "m_last_sck (QOREG a s) = m_last_sck s"
  "m_idle_throttle (QOREG a s) = m_idle_throttle s" "m_membytes (QOREG a s) = m_membytes s"
  by (simp_all add: QOREG_def)

lemma shift_in_sel [simp]:
  "m_state (shift_in d s) = m_state s" "m_mem (shift_in d s) = m_mem s" "m_sreg (shift_in d s) = m_sreg s"
  "m_memmask (shift_in d s) = m_memmask s" "m_mode (shift_in d s) = m_mode s" "m_pmem (shift_in d s) = m_pmem s"
  "m_addr (shift_in d s) = m_addr s" "m_write_count (shift_in d s) = m_write_count s" "m_last_sck (shift_in d s) = m_last_sck s"
  "m_membytes (shift_in d s) = m_membytes s" "m_creg (shift_in d s) = m_creg s"
  by (simp_all add: shift_in_def split: flash_mode.splits)

lemma count_down_sel [simp]:
  "m_state (count_down s) = m_state s" "m_mem (count_down s) = m_mem s"
  by (simp_all add: count_down_def Let_def)

text \<open>While the chip is selected the memory is only read.\<close>

lemma latch_addr_mem: "latch_addr s = (r, s') \<Longrightarrow> m_mem s' = m_mem s \<and> m_state s' = m_state s"
  by (auto simp: latch_addr_def Let_def split: if_splits)

lemma read_next_mem: "read_next s = (r, s') \<Longrightarrow> m_mem s' = m_mem s \<and> m_state s' = m_state s"
  by (auto simp: read_next_def split: if_splits)

lemma program_byte_mem: "program_byte s = (r, s') \<Longrightarrow> m_mem s' = m_mem s \<and> m_state s' = m_state s"
  by (auto simp: program_byte_def split: if_splits prod.splits sum.splits dest: latch_addr_mem)

lemma read_states_mem: "read_states s = (r, s') \<Longrightarrow> m_mem s' = m_mem s \<and> m_state s' = m_state s"
  by (cases "m_state s")
    (auto simp: read_states_def Let_def bindE_def call_defs split: if_splits prod.splits sum.splits
      dest!: latch_addr_mem read_next_mem)

lemma later_byte_mem: "later_byte s = (r, s') \<Longrightarrow> m_mem s' = m_mem s \<and> m_state s' = m_state s"
  by (cases "m_state s")
    (auto simp: later_byte_def Let_def split: if_splits dest!: read_states_mem program_byte_mem)

lemma command_mem: "command s = (r, s') \<Longrightarrow> m_mem s' = m_mem s"
  unfolding command_def Let_def if_writable_def by (simp split: if_splits; auto)

text \<open>A command reaches a modifying state only with the write-enable latch set, the chip idle
  and awake.\<close>

lemma command_state:
  "command s = (r, s') \<Longrightarrow> modifies (m_state s') \<Longrightarrow> modifies (m_state s) \<or> m_sreg s AND 0x203 = 2"
  unfolding command_def Let_def if_writable_def by (simp split: if_splits; auto)

lemma read_idle_mem: "read_idle b rd s = (r, s') \<Longrightarrow> m_mem s' = m_mem s \<and> (m_state s' = m_state s \<or> m_state s' = rd)"
  by (auto simp: read_idle_def bindE_def call_defs Let_def split: if_splits)

lemma falling_mem:
  assumes "falling s = (r, s')"
  shows "m_mem s' = m_mem s" "modifies (m_state s') \<Longrightarrow> modifies (m_state s) \<or> m_sreg s AND 0x203 = 2"
  using assms
  by (auto simp: falling_def split: if_splits dest: read_idle_mem command_mem command_state later_byte_mem)

lemma flash_op_selected_mem:
  assumes "flash_op 0 sck dat s = (r, s')"
  shows "m_mem s' = m_mem s"
    "modifies (m_state s') \<Longrightarrow> modifies (m_state s) \<or> m_sreg (count_down s) AND 0x203 = 2"
  using assms
  by (auto simp: flash_op_def bindE_def call_defs Let_def split: if_splits prod.splits sum.splits
      dest: falling_mem(1) falling_mem(2))

lemma deselect_mem:
  "deselect dat s = (r, s') \<Longrightarrow> \<not> modifies (m_state s) \<Longrightarrow> m_mem s' = m_mem s \<and> \<not> modifies (m_state s')"
  by (cases "m_state s")
    (auto simp: deselect_def bindE_def call_defs begin_write_def leave_read_def split: if_splits)

lemma flash_op_idle_mem:
  assumes "flash_op csn sck dat s = (r, s')" and "\<not> modifies (m_state s)" and "m_sreg s AND 2 = 0"
  shows "m_mem s' = m_mem s \<and> \<not> modifies (m_state s')"
proof (cases "csn = 0")
  case True
  have "m_sreg (count_down s) AND 2 = 0"
    using assms(3) by (simp add: count_down_def Let_def and.assoc and.commute [of "m_sreg s"] and.left_commute)
  then have "(m_sreg (count_down s) AND 0x203) AND 2 \<noteq> 2 AND 2" by (simp add: and.assoc)
  then have "m_sreg (count_down s) AND 0x203 \<noteq> 2" by metis
  then show ?thesis using flash_op_selected_mem [of sck dat s r s'] assms True by auto
next
  case False
  then show ?thesis using assms deselect_mem [of dat "count_down s" r s']
    by (auto simp: flash_op_def bindE_def call_defs split: if_splits)
qed

text \<open>A run of the pins, with every state it goes through.\<close>

fun flash_run :: "(busw \<times> busw \<times> busw) list \<Rightarrow> flashsim \<Rightarrow> flashsim list" where
  "flash_run [] s = [s]"
| "flash_run ((csn, sck, dat) # is) s = s # flash_run is (snd (flash_op csn sck dat s))"

lemma flash_run_nonempty [simp]: "flash_run is s \<noteq> []"
  by (cases "(is, s)" rule: flash_run.cases) auto

lemma flash_run_protected:
  assumes "\<not> modifies (m_state s)" and "\<forall>t \<in> set (flash_run is s). write_protect t"
  shows "\<forall>t \<in> set (flash_run is s). m_mem t = m_mem s"
  using assms
proof (induction "is" s rule: flash_run.induct)
  case (2 csn sck dat "is" s)
  obtain r s' where op: "flash_op csn sck dat s = (r, s')" by fastforce
  have "m_sreg s AND 2 = 0" using "2.prems"(2) by (simp add: write_protect_def QSPIF_WEL_FLAG_def)
  then have step: "m_mem s' = m_mem s" "\<not> modifies (m_state s')"
    using flash_op_idle_mem [OF op "2.prems"(1)] by auto
  show ?case using "2.IH" "2.prems"(2) op step by auto
qed simp

text \<open>C24: the flash is write protected: from any state in which no program or erase command has been accepted, whatever the memory
  holds and whatever then happens on the pins, as long as the write-enable latch stays clear every byte of the memory keeps its value.\<close>

theorem flash_write_protected:
  assumes "\<not> modifies (m_state s)" "\<forall>t \<in> set (flash_run is s). write_protect t"
  shows "\<forall>t \<in> set (flash_run is s). m_mem t = m_mem s"
  by (rule flash_run_protected [OF assms])

text \<open>The pins for transactions of whole bytes, and a chip whose four bytes are not erased.\<close>

definition clocked_bytes :: "byte list \<Rightarrow> (busw \<times> busw \<times> busw) list" where
  "clocked_bytes xs = concat (map (\<lambda>b. [(0, 0, of_bool b), (0, 1, of_bool b)]) (concat (map byte_bits xs))) @ [(1, 1, 0)]"

definition loaded_chip :: flashsim where
  "loaded_chip = snd (load_data 0 [1, 2, 3, 4] (FLASHSIM 2 0 8 (0, 0, [], None)))"

text \<open>A complete bulk erase, a sector erase and a page program, none of them after a write-enable command.\<close>

theorem flash_write_protected_witness:
  "m_mem (last (flash_run ((1, 1, 0) # clocked_bytes [0xc7] @ clocked_bytes [0xd8, 0, 0, 0] @ clocked_bytes [0x02, 0, 0, 0, 0]) loaded_chip)) = [1, 2, 3, 4]"
proof -
  let ?is = "(1, 1, 0) # clocked_bytes [0xc7] @ clocked_bytes [0xd8, 0, 0, 0] @ clocked_bytes [0x02, 0, 0, 0, 0]"
  have "list_all write_protect (flash_run ?is loaded_chip)" by code_simp
  moreover have "m_state loaded_chip = QSPIF_IDLE" "m_mem loaded_chip = [1, 2, 3, 4]" by code_simp+
  ultimately show ?thesis
    using flash_write_protected [of loaded_chip ?is] last_in_set [OF flash_run_nonempty [of ?is loaded_chip]]
    by (simp add: list_all_iff del: flash_run.simps)
qed

subsection \<open>Shifting bytes\<close>

definition shl1 :: "bool \<Rightarrow> busw \<Rightarrow> busw" where
  "shl1 b i = push_bit 1 i OR of_bool b"

lemma bit_shl1: "bit (shl1 b i) n \<longleftrightarrow> n < 32 \<and> (case n of 0 \<Rightarrow> b | Suc m \<Rightarrow> bit i m)"
  unfolding shl1_def bit_or_iff bit_push_bit_iff by (auto simp: bit_of_bool_iff split: nat.splits)

lemma bit_shift_bits:
  "bit (fold shl1 bs i) n \<longleftrightarrow>
    n < 32 \<and> (if n < length bs then bs ! (length bs - 1 - n) else bit i (n - length bs))"
proof (induction bs arbitrary: n rule: rev_induct)
  case (snoc b bs)
  show ?case by (cases n) (auto simp: bit_shl1 nth_append snoc.IH)
next
  case Nil
  then show ?case using bit_imp_le_length [of i n] by auto
qed

lemma shift_byte: "fold shl1 (byte_bits x) i = push_bit 8 i OR ucast x"
proof (rule bit_word_eqI)
  fix n assume "n < LENGTH(32)"
  then show "bit (fold shl1 (byte_bits x) i) n = bit (push_bit 8 i OR ucast x) n"
    by (auto simp: bit_shift_bits byte_bits_def bit_simps dest: bit_imp_le_length)
qed

text \<open>The chip is idle between two bits: single-bit mode, clock high, no cycle running.\<close>

definition at_bit :: "flashsim \<Rightarrow> bool" where
  "at_bit s \<longleftrightarrow> m_mode s = FM_SPI \<and> m_last_sck s = 1 \<and> m_write_count s = 0 \<and>
     m_state s \<noteq> QSPIF_QUAD_READ_IDLE \<and> m_state s \<noteq> QSPIF_DUAL_READ_IDLE"

definition shifted :: "bool list \<Rightarrow> flashsim \<Rightarrow> flashsim" where
  "shifted bs s = s\<lparr>m_ireg := fold shl1 bs (m_ireg s), m_count := m_count s + of_nat (length bs),
     m_oreg := push_bit (length bs) (m_oreg s)\<rparr>"

lemma shift_in_shifted: "m_mode s = FM_SPI \<Longrightarrow> shift_in (of_bool b) s = shifted [b] s"
  by (simp add: shift_in_def shifted_def shl1_def)

lemma shifted_Cons: "shifted (b # bs) s = shifted bs (shifted [b] s)"
  by (simp add: shifted_def push_bit_push_bit add.assoc)

lemma shifted_sel [simp]:
  "m_mode (shifted bs s) = m_mode s" "m_last_sck (shifted bs s) = m_last_sck s" "m_state (shifted bs s) = m_state s"
  "m_write_count (shifted bs s) = m_write_count s" "m_count (shifted bs s) = m_count s + of_nat (length bs)"
  "m_oreg (shifted bs s) = push_bit (length bs) (m_oreg s)" "m_mem (shifted bs s) = m_mem s"
  "m_sreg (shifted bs s) = m_sreg s" "m_memmask (shifted bs s) = m_memmask s"
  "m_ireg (shifted bs s) = fold shl1 bs (m_ireg s)" "m_addr (shifted bs s) = m_addr s"
  "m_pmem (shifted bs s) = m_pmem s" "m_membytes (shifted bs s) = m_membytes s"
  by (simp_all add: shifted_def)

lemma of_nat_busw_eq: "m < 2 ^ 32 \<Longrightarrow> n < 2 ^ 32 \<Longrightarrow> (of_nat m = (of_nat n :: busw)) = (m = n)"
  by (simp add: word_unat_eq_iff unsigned_of_nat take_bit_nat_eq_self)

lemma and_7: "n < 2 ^ 32 \<Longrightarrow> ((of_nat n :: busw) AND 7 = 0) = (n mod 8 = 0)"
proof -
  assume "n < 2 ^ 32"
  then have "unat ((of_nat n :: busw) AND 7) = n mod 8"
    using unat_and_mask [of "of_nat n :: busw" 3] by (simp add: mask_eq_exp_minus_1 unat_of_nat_lt)
  then show ?thesis by (metis unat_0 unat_eq_zero)
qed

lemma spi_pin: "m_mode s = FM_SPI \<Longrightarrow> bit (pins (of_bool b) s) 1 = bit (m_oreg s) 8"
  using and_exp_eq_0_iff_not_bit [of "m_oreg s" 8]
  by (cases b) (auto simp: pins_def bit_simps bit_2_iff)

lemma pins_last_sck: "pins d (t\<lparr>m_last_sck := v\<rparr>) = pins d t"
  by (simp add: pins_def split: flash_mode.split)

lemma op_falling:
  assumes "at_bit s" and "falling (shifted [b] s) = (Inr u, t)"
  shows "flash_op 0 0 (of_bool b) s = (Inr (pins (of_bool b) t), t\<lparr>m_last_sck := 0\<rparr>)"
  using assms
  by (simp add: at_bit_def flash_op_def bindE_def call_defs count_down_def shift_in_shifted pins_last_sck del: of_bool_eq_0_iff split del: if_split)

lemma op_rising:
  assumes "m_write_count s = 0" and "m_last_sck s = 0"
  shows "flash_op 0 1 d s = (Inr (pins d (s\<lparr>m_last_sck := 1\<rparr>)), s\<lparr>m_last_sck := 1\<rparr>)"
  using assms by (simp add: flash_op_def bindE_def call_defs count_down_def Let_def)

lemma spi_bit_step:
  assumes "at_bit s" and "falling (shifted [b] s) = (Inr u, t)" and "at_bit t"
  shows "spi_bits (b # bs) s = bindE (spi_bits bs) (\<lambda>rs. returnE (bit (m_oreg t) 8 # rs)) t"
proof -
  have "bit (pins (of_bool b) t) 1 = bit (m_oreg t) 8" using assms(3) spi_pin [of t b] unfolding at_bit_def by blast
  moreover have "t\<lparr>m_last_sck := 0\<rparr>\<lparr>m_last_sck := 1\<rparr> = t" using assms(3) by (simp add: at_bit_def)
  ultimately show ?thesis
    using assms(3) op_falling [OF assms(1,2)] op_rising [of "t\<lparr>m_last_sck := 0\<rparr>" "of_bool b"]
    by (simp add: bindE_def at_bit_def del: One_nat_def split del: if_split)
qed

lemma falling_within:
  assumes "at_bit s" and "m_count s = of_nat c" and "c < 2 ^ 32" and "c mod 8 \<noteq> 0"
  shows "falling s = (Inr (), s)"
  using assms of_nat_busw_eq [of c 8] and_7 [of c] by (auto simp: falling_def at_bit_def)

lemma at_bit_shifted [simp]: "at_bit (shifted bs s) = at_bit s"
  by (simp add: at_bit_def)

lemma spi_bits_within:
  assumes "at_bit s" and "m_count s = of_nat c" and "c mod 8 + length bs < 8" and "c + length bs < 2 ^ 32"
  shows "spi_bits (bs @ cs) s =
    bindE (spi_bits cs) (\<lambda>rs. returnE (map (\<lambda>j. bit (m_oreg s) (7 - j)) [0..<length bs] @ rs)) (shifted bs s)"
  using assms
proof (induction bs arbitrary: s c)
  case Nil
  have "shifted [] s = s" by (simp add: shifted_def)
  then show ?case by (simp add: bindE_def returnE_def split: prod.splits sum.splits)
next
  case (Cons b bs)
  let ?t = "shifted [b] s"
  have c: "Suc c mod 8 = Suc (c mod 8)" using Cons.prems(3) by (simp add: mod_Suc)
  have f: "falling ?t = (Inr (), ?t)"
    using Cons.prems c by (intro falling_within [of _ "Suc c"]) (auto simp: add.commute)
  have 7: "bit (m_oreg ?t) 8 = bit (m_oreg s) 7" unfolding shifted_sel bit_push_bit_iff by simp
  have "bit (m_oreg ?t) (7 - j) = bit (m_oreg s) (7 - Suc j)" if "j < length bs" for j
    unfolding shifted_sel bit_push_bit_iff using Cons.prems(3) that by auto
  then have m: "bit (m_oreg s) 7 # map (\<lambda>j. bit (m_oreg ?t) (7 - j)) [0..<length bs] = map (\<lambda>j. bit (m_oreg s) (7 - j)) [0..<length (b # bs)]"
    by (simp only: length_Cons upt_conv_Cons [OF zero_less_Suc] map_Suc_upt [symmetric]) simp
  have "spi_bits ((b # bs) @ cs) s = bindE (spi_bits (bs @ cs)) (\<lambda>rs. returnE (bit (m_oreg ?t) 8 # rs)) ?t"
    using spi_bit_step [OF Cons.prems(1) f] Cons.prems(1) by simp
  also have "\<dots> = bindE (bindE (spi_bits cs) (\<lambda>rs. returnE (map (\<lambda>j. bit (m_oreg ?t) (7 - j)) [0..<length bs] @ rs)))
      (\<lambda>rs. returnE (bit (m_oreg s) 7 # rs)) (shifted bs ?t)"
    using Cons.IH [of ?t "Suc c"] Cons.prems c 7 by (simp add: bindE_def add.commute)
  finally show ?case by (simp only: bindE_assoc returnE_bind shifted_Cons [of b bs] append_Cons [symmetric] m)
qed

lemma byte_bits_split: "byte_bits x = map (\<lambda>i. bit x (7 - i)) [0..<7] @ [bit x 0]"
proof -
  have "[0..<8] = [0..<7] @ [7::nat]" by code_simp
  then show ?thesis by (simp add: byte_bits_def)
qed

text \<open>One byte: the eighth falling edge does the work; the bits sampled are the low byte of the
  output register.\<close>

lemma spi_byte_gen:
  assumes "at_bit s" and "m_count s = of_nat (8 * k)" and "8 * k + 8 < 2 ^ 32"
    and "falling (shifted (byte_bits x) s) = (Inr u, t)" and "at_bit t"
  shows "spi_bits (byte_bits x) s = (Inr (map (\<lambda>j. bit (m_oreg s) (7 - j)) [0..<7] @ [bit (m_oreg t) 8]), t)"
proof -
  let ?bs = "map (\<lambda>i. bit x (7 - i)) [0..<7]"
  have sh: "shifted [bit x 0] (shifted ?bs s) = shifted (byte_bits x) s"
    by (simp add: byte_bits_split shifted_def push_bit_push_bit)
  have last: "spi_bits [bit x 0] (shifted ?bs s) = (Inr [bit (m_oreg t) 8], t)"
    using spi_bit_step [of "shifted ?bs s" "bit x 0" u t "[]"] assms sh by (simp add: returnE_def)
  then show ?thesis
    using spi_bits_within [of s "8 * k" ?bs "[bit x 0]"] assms(1-3) last
    by (simp add: byte_bits_split returnE_def bindE_def)
qed

lemma byte_bits_oreg: "map (\<lambda>j. bit w (7 - j)) [0..<7] @ [bit w 0] = byte_bits (ucast w)" for w :: busw
  by (auto simp: byte_bits_split bit_simps)

lemma spi_byte_step:
  assumes "at_bit s" and "m_count s = of_nat (8 * k)" and "8 * k + 8 < 2 ^ 32"
    and "falling (shifted (byte_bits x) s) = (Inr u, t)" and "at_bit t" and "bit (m_oreg t) 8 = bit (m_oreg s) 0"
  shows "spi_bits (byte_bits x) s = (Inr (byte_bits (ucast (m_oreg s))), t)"
  using spi_byte_gen [OF assms(1-5)] assms(6) byte_bits_oreg [of "m_oreg s"] by simp

subsection \<open>Programming a page\<close>

lemma falling_command:
  assumes "at_bit s" and "m_count s = 8"
  shows "falling s = command s"
  using assms by (simp add: falling_def at_bit_def)

lemma falling_later:
  assumes "at_bit s" and "m_count s = of_nat (8 * c)" and "2 \<le> c" and "8 * c < 2 ^ 32"
  shows "falling s = later_byte s"
proof -
  have "m_count s \<noteq> 8" "m_count s \<noteq> 0"
    using assms(2-4) of_nat_busw_eq [of "8 * c" 8] of_nat_busw_eq [of "8 * c" 0] by auto
  then show ?thesis using assms and_7 [of "8 * c"] by (simp add: falling_def at_bit_def)
qed

lemma ucast_ucast8 [simp]: "ucast (ucast x :: busw) = (x :: byte)"
  by (rule bit_word_eqI) (simp add: bit_simps)

lemma ireg_command: "(push_bit 8 i OR ucast x) AND 0xff = ucast (x :: byte)" for i :: busw
proof (rule bit_word_eqI)
  fix n assume "n < LENGTH(32)"
  then show "bit ((push_bit 8 i OR ucast x) AND 0xff) n = bit (ucast x :: busw) n"
    using bit_imp_le_length [of x n] unfolding bit_and_iff bit_or_iff bit_push_bit_iff bit_unsigned_iff bit_ff by auto
qed

lemma QOREG_oreg: "m_oreg (QOREG a s) = (m_oreg s AND NOT 0x0ff) OR (a AND 0x0ff)"
  by (simp add: QOREG_def)

lemma bit_QOREG: "8 \<le> n \<Longrightarrow> bit (m_oreg (QOREG a s)) n = bit (m_oreg s) n"
  using bit_imp_le_length [of "m_oreg s" n] unfolding QOREG_oreg bit_and_iff bit_or_iff bit_not_iff bit_ff by auto

lemma oreg_carry: "bit (push_bit 8 w) 8 = bit w 0" for w :: busw
  by (simp add: bit_simps)

definition in_pp :: "nat \<Rightarrow> byte list \<Rightarrow> busw \<Rightarrow> nat \<Rightarrow> flashsim \<Rightarrow> bool" where
  "in_pp c m r k s \<longleftrightarrow> at_bit s \<and> m_state s = QSPIF_PP \<and> m_count s = of_nat (8 * c) \<and> m_mem s = m \<and>
     m_sreg s = r \<and> m_memmask s = mask k"

text \<open>The common part of every later byte.\<close>

definition byte_in :: "flashsim \<Rightarrow> flashsim" where
  "byte_in s = (let s = QOREG 0 s in
     if m_idle_throttle s \<and> m_state s \<noteq> QSPIF_IDLE then s\<lparr>m_idle_throttle := False\<rparr> else s)"

lemma byte_in_sel [simp]:
  "m_state (byte_in s) = m_state s" "m_mem (byte_in s) = m_mem s" "m_sreg (byte_in s) = m_sreg s"
  "m_ireg (byte_in s) = m_ireg s" "m_count (byte_in s) = m_count s" "m_addr (byte_in s) = m_addr s"
  "m_memmask (byte_in s) = m_memmask s" "m_mode (byte_in s) = m_mode s" "m_pmem (byte_in s) = m_pmem s"
  "m_write_count (byte_in s) = m_write_count s" "m_last_sck (byte_in s) = m_last_sck s" "at_bit (byte_in s) = at_bit s"
  by (auto simp: byte_in_def Let_def at_bit_def)

lemma byte_in_oreg: "8 \<le> n \<Longrightarrow> bit (m_oreg (byte_in s)) n = bit (m_oreg s) n"
  by (simp add: byte_in_def Let_def bit_QOREG)

lemma later_byte_states:
  "m_state s = QSPIF_PP \<Longrightarrow> later_byte s = program_byte (byte_in s)"
  "m_state s = QSPIF_SLOW_READ \<Longrightarrow> later_byte s = read_states (byte_in s)"
  by (simp_all add: later_byte_def byte_in_def Let_def)

lemma length_byte_bits [simp]: "length (byte_bits x) = 8"
  by (simp add: byte_bits_def)

text \<open>A later byte of a command, up to what its state does.\<close>

lemma spi_later_falling:
  assumes "at_bit s" and "m_count s = of_nat (8 * c)" and "1 \<le> c" and "8 * c + 8 < 2 ^ 32"
  shows "falling (shifted (byte_bits x) s) = later_byte (shifted (byte_bits x) s)"
proof -
  have "m_count (shifted (byte_bits x) s) = of_nat (8 * Suc c)" using assms(2) by simp
  then show ?thesis using assms falling_later [of "shifted (byte_bits x) s" "Suc c"] by simp
qed

lemma spi_later_byte:
  assumes "at_bit s" and "m_count s = of_nat (8 * c)" and "1 \<le> c" and "8 * c + 8 < 2 ^ 32"
    and "later_byte (shifted (byte_bits x) s) = (Inr (), t)" and "at_bit t" and "bit (m_oreg t) 8 = bit (m_oreg s) 0"
  shows "spi_bits (byte_bits x) s = (Inr (byte_bits (ucast (m_oreg s))), t)"
  using spi_byte_step [of s c x "()" t] spi_later_falling [of s c x] assms by simp

lemma pp_byte:
  assumes "in_pp c m r k s" and "1 \<le> c" and "8 * c + 8 < 2 ^ 32"
    and "program_byte (byte_in (shifted (byte_bits x) s)) = (Inr (), t)"
    and "at_bit t" and "bit (m_oreg t) 8 = bit (m_oreg s) 0"
  shows "spi_bits (byte_bits x) s = (Inr (byte_bits (ucast (m_oreg s))), t)"
  using assms spi_later_byte [of s c x t] by (simp add: in_pp_def later_byte_states)

lemma pp_oreg: "bit (m_oreg (byte_in (shifted (byte_bits x) s))) 8 = bit (m_oreg s) 0"
  by (simp add: byte_in_oreg oreg_carry)

lemma pp_address_byte:
  assumes "in_pp c m r k s" and "c = 1 \<or> c = 2"
  shows "\<exists>t. spi_bits (byte_bits x) s = (Inr (byte_bits (ucast (m_oreg s))), t) \<and> in_pp (Suc c) m r k t \<and>
    m_ireg t = push_bit 8 (m_ireg s) OR ucast x"
proof -
  let ?t = "byte_in (shifted (byte_bits x) s)"
  have c: "m_count ?t = of_nat (8 * Suc c)" using assms(1) by (simp add: in_pp_def)
  then have "program_byte ?t = (Inr (), ?t)" using assms(2) by (auto simp: program_byte_def)
  then have "spi_bits (byte_bits x) s = (Inr (byte_bits (ucast (m_oreg s))), ?t)"
    using pp_byte [OF assms(1)] assms pp_oreg by (auto simp: in_pp_def)
  then show ?thesis using assms(1) by (auto simp: in_pp_def shift_byte)
qed

lemma and_memmask: "(w AND v) AND NOT v = 0" for w v :: busw
  by (simp add: and.assoc)

lemma pp_last_address_byte:
  assumes "in_pp 3 m r k s"
  shows "\<exists>t. spi_bits (byte_bits x) s = (Inr (byte_bits (ucast (m_oreg s))), t) \<and> in_pp 4 m r k t \<and>
    m_addr t = (push_bit 8 (m_ireg s) OR ucast x) AND mask k \<and> m_pmem t = replicate 256 0xff"
proof -
  let ?s = "byte_in (shifted (byte_bits x) s)"
  let ?t = "?s\<lparr>m_addr := m_ireg ?s AND m_memmask ?s, m_pmem := replicate 256 0xff, m_mode := m_mode ?s\<rparr>"
  have "m_count ?s = 32" using assms by (simp add: in_pp_def)
  then have "program_byte ?s = (Inr (), ?t)"
    using assms by (simp add: program_byte_def latch_addr_def Let_def and_memmask in_pp_def)
  then have "spi_bits (byte_bits x) s = (Inr (byte_bits (ucast (m_oreg s))), ?t)"
    using pp_byte [OF assms, of x ?t] assms pp_oreg [of x s] by (simp add: in_pp_def at_bit_def)
  then show ?thesis using assms by (auto simp: in_pp_def shift_byte at_bit_def)
qed

lemma pp_data_byte:
  assumes "in_pp c m r k s" and "4 \<le> c" and "8 * c + 8 < 2 ^ 32"
  shows "\<exists>t. spi_bits (byte_bits x) s = (Inr (byte_bits (ucast (m_oreg s))), t) \<and> in_pp (Suc c) m r k t \<and>
    m_addr t = (m_addr s AND NOT 0x0ff) OR ((m_addr s + 1) AND 0x0ff) \<and>
    m_pmem t = (m_pmem s)[unat (m_addr s AND 0x0ff) := x]"
proof -
  let ?s = "byte_in (shifted (byte_bits x) s)"
  let ?t = "?s\<lparr>m_pmem := (m_pmem ?s)[unat (m_addr ?s AND 0x0ff) := ucast (m_ireg ?s AND 0x0ff)],
    m_addr := (m_addr ?s AND NOT 0x0ff) OR ((m_addr ?s + 1) AND 0x0ff)\<rparr>"
  have c: "m_count ?s = of_nat (8 * Suc c)" using assms(1) by (simp add: in_pp_def)
  have "m_count ?s \<noteq> 32" using assms(2,3) of_nat_busw_eq [of "8 * Suc c" 32] unfolding c by auto
  moreover have "m_count ?s \<ge> 40"
    using assms(2,3) unat_of_nat_lt [of "8 * Suc c", where 'a = 32] unfolding c word_le_nat_alt by simp
  ultimately have "program_byte ?s = (Inr (), ?t)" by (simp add: program_byte_def)
  then have "spi_bits (byte_bits x) s = (Inr (byte_bits (ucast (m_oreg s))), ?t)"
    using pp_byte [OF assms(1), of x ?t] assms pp_oreg [of x s] by (simp add: in_pp_def at_bit_def)
  then show ?thesis using assms(1) c by (auto simp: in_pp_def shift_byte at_bit_def ireg_command)
qed

text \<open>The page buffer after data bytes: each goes to the next place of the page, round its end.\<close>

fun page_fill :: "nat \<Rightarrow> byte list \<Rightarrow> byte list \<Rightarrow> byte list" where
  "page_fill p [] pm = pm"
| "page_fill p (x # xs) pm = page_fill (Suc p mod 256) xs (pm[p := x])"

lemma length_page_fill [simp]: "length (page_fill p xs pm) = length pm"
  by (induction p xs pm rule: page_fill.induct) auto

lemma page_distance:
  fixes p i :: nat
  assumes "p < 256" and "i < 256" and "i \<noteq> p"
  shows "(i + 256 - p) mod 256 = Suc ((i + 256 - Suc p mod 256) mod 256)"
proof -
  have l: "(i + 256 - q) mod 256 = (if q \<le> i then i - q else i + 256 - q)" if "q < 256" for q
  proof (cases "q \<le> i")
    case True
    then have "i + 256 - q = (i - q) + 256" by simp
    then have "(i + 256 - q) mod 256 = (i - q) mod 256" by (simp only: mod_add_self2)
    then show ?thesis using True assms(2) by simp
  qed (use that in simp)
  have "Suc p mod 256 < 256" by simp
  with l [of p] l [of "Suc p mod 256"] show ?thesis using assms by (auto simp: mod_Suc)
qed

lemma page_fill_nth:
  assumes "p < 256" and "i < 256" and "length pm = 256" and "length xs \<le> 256"
  shows "page_fill p xs pm ! i = (let d = (i + 256 - p) mod 256 in if d < length xs then xs ! d else pm ! i)"
  using assms
proof (induction p xs pm rule: page_fill.induct)
  case (2 p x xs pm)
  let ?p = "Suc p mod 256"
  have ih: "page_fill ?p xs (pm[p := x]) ! i =
      (let d = (i + 256 - ?p) mod 256 in if d < length xs then xs ! d else pm[p := x] ! i)"
    using "2.IH" "2.prems" by simp
  show ?case
  proof (cases "i = p")
    case True
    have "(i + 256 - ?p) mod 256 = 255"
      using True "2.prems"(1) by (cases "p = 255") (auto simp: mod_Suc)
    then have "\<not> (i + 256 - ?p) mod 256 < length xs" using "2.prems"(4) by simp
    then show ?thesis using ih True "2.prems" by (simp add: Let_def)
  next
    case False
    then show ?thesis using ih page_distance [of p i] "2.prems" by (simp add: Let_def)
  qed
qed simp

text \<open>The address keeps its page and steps within it.\<close>

lemma page_step:
  fixes w :: busw
  defines "v \<equiv> (w AND NOT 0x0ff) OR ((w + 1) AND 0x0ff)"
  shows "v AND NOT 0x0ff = w AND NOT 0x0ff" "v AND 0x0ff = (w + 1) AND 0x0ff"
proof -
  show "v AND NOT 0x0ff = w AND NOT 0x0ff"
    by (rule bit_word_eqI) (unfold v_def bit_and_iff bit_or_iff bit_not_iff bit_ff, auto)
  show "v AND 0x0ff = (w + 1) AND 0x0ff"
    by (rule bit_word_eqI) (unfold v_def bit_and_iff bit_or_iff bit_not_iff bit_ff, auto)
qed

lemma unat_plus1_ff: "unat ((w + 1) AND 0xff) = Suc (unat (w AND 0xff)) mod 256" for w :: busw
proof -
  have "unat (w + 1) mod 256 = Suc (unat w) mod 2 ^ 32 mod 256"
    by (simp add: unat_word_ariths(1))
  also have "\<dots> = Suc (unat w) mod 256" by (rule mod_mod_cancel) simp
  finally show ?thesis unfolding unat_and_ff by (simp add: mod_Suc_eq)
qed

lemma pp_data_bytes:
  assumes "in_pp c m r k s" and "4 \<le> c" and "8 * (c + length xs) < 2 ^ 32"
  shows "\<exists>rs t. spi_bytes xs s = (Inr rs, t) \<and> in_pp (c + length xs) m r k t \<and>
    m_addr t AND NOT 0x0ff = m_addr s AND NOT 0x0ff \<and>
    m_pmem t = page_fill (unat (m_addr s AND 0xff)) xs (m_pmem s)"
  using assms
proof (induction xs arbitrary: s c)
  case (Cons x xs)
  obtain t where t: "spi_bits (byte_bits x) s = (Inr (byte_bits (ucast (m_oreg s))), t)" "in_pp (Suc c) m r k t"
    "m_addr t = (m_addr s AND NOT 0x0ff) OR ((m_addr s + 1) AND 0x0ff)"
    "m_pmem t = (m_pmem s)[unat (m_addr s AND 0x0ff) := x]"
    using pp_data_byte [of c m r k s x] Cons.prems by auto
  obtain rs t' where t': "spi_bytes xs t = (Inr rs, t')" "in_pp (Suc c + length xs) m r k t'"
    "m_addr t' AND NOT 0x0ff = m_addr t AND NOT 0x0ff" "m_pmem t' = page_fill (unat (m_addr t AND 0xff)) xs (m_pmem t)"
    using Cons.IH [of "Suc c" t] t(2) Cons.prems(2,3) by auto
  have "spi_bytes (x # xs) s = (Inr (byte_bits (ucast (m_oreg s)) # rs), t')"
    using t(1) t'(1) by (simp add: bindE_def returnE_def)
  moreover have "m_pmem t' = page_fill (unat (m_addr s AND 0xff)) (x # xs) (m_pmem s)"
    unfolding t'(4) t(3,4) page_step(2) unat_plus1_ff by simp
  moreover have "m_addr t' AND NOT 0x0ff = m_addr s AND NOT 0x0ff"
    unfolding t'(3) t(3) by (rule page_step(1))
  moreover have "in_pp (c + length (x # xs)) m r k t'" using t'(2) by simp
  ultimately show ?case by blast
qed (auto simp: returnE_def)

lemma fold_and_nth:
  "j < length m \<Longrightarrow> fold (\<lambda>i m. m[b + i := (m ! (b + i)) AND (pm ! i)]) [0..<n] m ! j =
     (if b \<le> j \<and> j < b + n then m ! j AND pm ! (j - b) else m ! j)"
  "length (fold (\<lambda>i m. m[b + i := (m ! (b + i)) AND (pm ! i)]) [0..<n] m) = length m"
  for m pm :: "byte list"
proof (induction n)
  case (Suc n)
  { case 1
    then show ?case using Suc by (cases "j = b + n") (auto simp: nth_list_update)
  next
    case 2
    then show ?case using Suc by simp }
qed auto

text \<open>A chip that can take a command.\<close>

definition ready :: "nat \<Rightarrow> flashsim \<Rightarrow> bool" where
  "ready k s \<longleftrightarrow> at_bit s \<and> m_count s = 0 \<and> m_memmask s = mask k \<and> length (m_mem s) = 2 ^ k \<and> 8 \<le> k \<and> k \<le> 24"

lemma spi_command_byte:
  assumes "at_bit s" and "m_count s = 0"
    and "command (shifted (byte_bits x) s) = (Inr (), t)" and "at_bit t" and "bit (m_oreg t) 8 = bit (m_oreg s) 0"
  shows "spi_bits (byte_bits x) s = (Inr (byte_bits (ucast (m_oreg s))), t)"
proof -
  have "falling (shifted (byte_bits x) s) = (Inr (), t)"
    using assms falling_command [of "shifted (byte_bits x) s"] by simp
  then show ?thesis using spi_byte_step [of s 0 x "()" t] assms by simp
qed

lemma command_ireg: "m_ireg (shifted (byte_bits x) s) AND 0xff = ucast x"
  by (simp add: shift_byte ireg_command)

lemma command_oreg: "bit (m_oreg (QOREG a (shifted (byte_bits x) s))) 8 = bit (m_oreg s) 0"
  by (simp add: bit_QOREG oreg_carry)

lemma awake:
  assumes "w AND 0x203 = (v :: busw)" and "v \<in> {0, 2}"
  shows "w AND 0x200 = 0"
proof -
  have "w AND 0x200 = (w AND 0x203) AND 0x200" by (simp add: and.assoc)
  then show ?thesis using assms by auto
qed

text \<open>Deselecting in a state without an effect.\<close>

lemma deselect_quiet:
  assumes "m_write_count s = 0" and "m_state s \<in> {QSPIF_IDLE, QSPIF_SLOW_READ, QSPIF_FAST_READ, QSPIF_RDSR}"
  shows "flash_op 1 1 0 s = (Inr 0, s\<lparr>m_last_sck := 1, m_ireg := 0, m_oreg := 0x0fe, m_count := 0\<rparr>)"
  using assms by (auto simp: flash_op_def deselect_def bindE_def call_defs count_down_def)

lemma write_enable:
  assumes "ready k s" and "m_sreg s AND 0x203 = 0"
  shows "\<exists>rs t. transaction [0x06] s = (Inr rs, t) \<and> ready k t \<and> m_sreg t AND 0x203 = 2 \<and> m_mem t = m_mem s \<and>
    m_state t = QSPIF_IDLE"
proof -
  let ?s = "shifted (byte_bits 6) s"
  let ?t = "(QOREG 0xa5 ?s)\<lparr>m_state := QSPIF_IDLE, m_sreg := m_sreg s OR QSPIF_WEL_FLAG\<rparr>"
  have "command ?s = (Inr (), ?t)"
    using awake [OF assms(2)] command_ireg [of 6 s] by (simp add: command_def Let_def QSPIF_DEEP_POWER_DOWN_FLAG_def)
  then have b: "spi_bits (byte_bits 6) s = (Inr (byte_bits (ucast (m_oreg s))), ?t)"
    using spi_command_byte [of s 6 ?t] assms(1) command_oreg [of "0xa5" 6 s] by (simp add: ready_def at_bit_def)
  have d: "flash_op 1 1 0 ?t = (Inr 0, ?t\<lparr>m_last_sck := 1, m_ireg := 0, m_oreg := 0x0fe, m_count := 0\<rparr>)"
    using deselect_quiet [of ?t] assms(1) by (simp add: ready_def at_bit_def)
  have "(m_sreg s OR QSPIF_WEL_FLAG) AND 0x203 = 2"
    using assms(2) by (simp add: QSPIF_WEL_FLAG_def bit.conj_disj_distrib2)
  then show ?thesis using b d assms(1)
    by (auto simp: transaction_def bindE_def returnE_def ready_def at_bit_def)
qed

lemma spi_bytes_append:
  "spi_bytes (xs @ ys) = bindE (spi_bytes xs) (\<lambda>r. bindE (spi_bytes ys) (\<lambda>r'. returnE (r @ r')))"
proof (induction xs)
  case Nil
  show ?case by (rule ext) (simp add: bindE_def returnE_def split: prod.splits sum.splits)
next
  case (Cons x xs)
  then show ?case by (simp add: bindE_assoc)
qed

text \<open>The three address bytes.\<close>

lemma address_bytes:
  fixes a i :: busw
  assumes "a < 2 ^ k" and "k \<le> 24"
  shows "(push_bit 8 (push_bit 8 (push_bit 8 i OR ucast (ucast (drop_bit 16 a) :: byte)) OR ucast (ucast (drop_bit 8 a) :: byte))
     OR ucast (ucast a :: byte)) AND mask k = a"
proof (rule bit_word_eqI)
  fix n assume n: "n < LENGTH(32)"
  have "unat a < 2 ^ k" using assms unat_pow2_lt [of k] by (simp add: word_less_nat_alt)
  then have a: "a = a AND mask k" by (simp add: word_unat_eq_iff)
  have "bit a n \<Longrightarrow> n < k" by (subst (asm) a) (simp add: bit_simps)
  then show "bit ((push_bit 8 (push_bit 8 (push_bit 8 i OR ucast (ucast (drop_bit 16 a) :: byte)) OR ucast (ucast (drop_bit 8 a) :: byte))
     OR ucast (ucast a :: byte)) AND mask k) n = bit a n"
    using n assms(2)
    by (cases "n < 8"; cases "n < 16"; cases "n < 24"; cases "n < k") (auto simp: bit_simps not_less)
qed

lemma pp_header:
  assumes "ready k s" and "m_sreg s AND 0x203 = 2" and "a < 2 ^ k"
  shows "\<exists>rs t. spi_bytes [0x02, ucast (drop_bit 16 a), ucast (drop_bit 8 a), ucast a] s = (Inr rs, t) \<and>
    in_pp 4 (m_mem s) (m_sreg s) k t \<and> m_addr t = a \<and> m_pmem t = replicate 256 0xff"
proof -
  let ?s = "shifted (byte_bits 2) s"
  let ?t = "(QOREG 0xa5 ?s)\<lparr>m_state := QSPIF_PP\<rparr>"
  have "command ?s = (Inr (), ?t)"
    using awake [OF assms(2)] assms(2) command_ireg [of 2 s]
    by (simp add: command_def Let_def QSPIF_DEEP_POWER_DOWN_FLAG_def if_writable_def)
  then have b: "spi_bits (byte_bits 2) s = (Inr (byte_bits (ucast (m_oreg s))), ?t)"
    using spi_command_byte [of s 2 ?t] assms(1) command_oreg [of "0xa5" 2 s] by (simp add: ready_def at_bit_def)
  have i: "in_pp 1 (m_mem s) (m_sreg s) k ?t" using assms(1) by (simp add: in_pp_def ready_def at_bit_def)
  obtain t1 where t1: "spi_bits (byte_bits (ucast (drop_bit 16 a))) ?t = (Inr (byte_bits (ucast (m_oreg ?t))), t1)"
    "in_pp 2 (m_mem s) (m_sreg s) k t1" "m_ireg t1 = push_bit 8 (m_ireg ?t) OR ucast (ucast (drop_bit 16 a) :: byte)"
    using pp_address_byte [OF i, of "ucast (drop_bit 16 a)"] by (auto simp: eval_nat_numeral)
  obtain t2 where t2: "spi_bits (byte_bits (ucast (drop_bit 8 a))) t1 = (Inr (byte_bits (ucast (m_oreg t1))), t2)"
    "in_pp 3 (m_mem s) (m_sreg s) k t2" "m_ireg t2 = push_bit 8 (m_ireg t1) OR ucast (ucast (drop_bit 8 a) :: byte)"
    using pp_address_byte [OF t1(2), of "ucast (drop_bit 8 a)"] by (auto simp: eval_nat_numeral)
  obtain t3 where t3: "spi_bits (byte_bits (ucast a)) t2 = (Inr (byte_bits (ucast (m_oreg t2))), t3)"
    "in_pp 4 (m_mem s) (m_sreg s) k t3" "m_addr t3 = (push_bit 8 (m_ireg t2) OR ucast (ucast a :: byte)) AND mask k"
    "m_pmem t3 = replicate 256 0xff"
    using pp_last_address_byte [OF t2(2), of "ucast a"] by auto
  have "m_addr t3 = a"
    unfolding t3(3) t2(3) t1(3) using assms(1) by (intro address_bytes [OF assms(3)]) (simp add: ready_def)
  then show ?thesis using b t1(1) t2(1) t3 by (auto simp: bindE_def returnE_def)
qed

lemma unat_page: "unat (w AND NOT 0xff) = unat w div 256 * 256" for w :: busw
proof -
  have "w AND NOT 0xff = push_bit 8 (drop_bit 8 w)"
    by (rule bit_word_eqI) (unfold bit_and_iff bit_not_iff bit_ff bit_push_bit_iff bit_drop_bit_eq, auto)
  moreover have "unat (push_bit 8 (drop_bit 8 w)) = unat (drop_bit 8 w) * 256"
    using unat_lt32 [of w] by (simp add: push_bit_eq_mult unat_word_ariths(2) unat_drop_bit)
  ultimately show ?thesis by (simp add: unat_drop_bit)
qed

lemma page_in_memory:
  fixes a k :: nat
  assumes "a < 2 ^ k" and "8 \<le> k"
  shows "a div 256 * 256 + 256 \<le> 2 ^ k"
proof -
  obtain j where k: "k = 8 + j" using assms(2) le_Suc_ex by blast
  then have "a div 256 < 2 ^ j" using assms(1) by (simp add: power_add less_mult_imp_div_less mult.commute)
  then have "(a div 256 + 1) * 256 \<le> 2 ^ j * 256" by (intro mult_right_mono) auto
  then show ?thesis by (simp add: k power_add)
qed

lemma pp_deselect:
  assumes "in_pp c m r k s" and "length m = 2 ^ k" and "8 \<le> k" and "unat (m_addr s) div 256 = a div 256" and "a < 2 ^ k"
    and "length (m_pmem s) = 256"
  shows "\<exists>u. flash_op 1 1 0 s = (Inr 0, u) \<and> length (m_mem u) = 2 ^ k \<and> m_write_count u = tPP \<and>
    m_sreg u = (r AND NOT 2) OR 1 \<and> m_state u = QSPIF_IDLE \<and> m_mode u = FM_SPI \<and>
    (\<forall>i < 2 ^ k. m_mem u ! i = (if i div 256 = a div 256 then m ! i AND m_pmem s ! (i mod 256) else m ! i))"
proof -
  let ?b = "a div 256 * 256"
  have le: "?b + 256 \<le> length m" using page_in_memory [OF assms(5,3)] assms(2) by simp
  have base: "unat (m_addr s AND NOT 0xff) = ?b" unfolding unat_page assms(4) ..
  let ?m = "fold (\<lambda>i m. m[?b + i := (m ! (?b + i)) AND (m_pmem s ! i)]) [0..<256] m"
  have idx: "(?b \<le> i \<and> i < ?b + 256) = (i div 256 = a div 256)" for i by auto
  have off: "i div 256 = a div 256 \<Longrightarrow> i - ?b = i mod 256" for i
    by (metis minus_div_mult_eq_mod)
  have "flash_op 1 1 0 s = (Inr 0, (begin_write tPP (s\<lparr>m_last_sck := 1, m_ireg := 0, m_oreg := 0, m_count := 0\<rparr>))
      \<lparr>m_mem := ?m, m_mode := FM_SPI, m_oreg := 0x0fe\<rparr>)"
    using assms(1,6) le base
    by (simp add: in_pp_def at_bit_def flash_op_def deselect_def bindE_def call_defs count_down_def program_page_def begin_write_def Let_def
        del: unsigned_and_eq)
  moreover have "\<forall>i < 2 ^ k. ?m ! i = (if i div 256 = a div 256 then m ! i AND m_pmem s ! (i mod 256) else m ! i)"
    using fold_and_nth(1) [of _ m ?b "m_pmem s" 256] assms(2) idx off by simp
  ultimately show ?thesis using assms(1,2) fold_and_nth(2) [of ?b "m_pmem s" 256 m]
    by (auto simp: begin_write_def in_pp_def QSPIF_WEL_FLAG_def QSPIF_WIP_FLAG_def)
qed

lemma flags_after_write: "((w AND NOT 2) OR 1) AND 3 = (1 :: busw)"
proof -
  have "((w AND NOT 2) OR 1) AND 3 = (w AND (NOT 2 AND 3)) OR 1" by (simp add: bit.conj_disj_distrib2 and.assoc)
  also have "\<dots> = (w AND 1) OR 1" by simp
  also have "\<dots> = 1" by (rule bit_word_eqI) (auto simp: bit_simps)
  finally show ?thesis .
qed

text \<open>A write-enable and a page-program transaction, with the states they leave.\<close>

lemma page_program_transactions:
  fixes a :: busw
  assumes "ready k s" and "m_sreg s AND 0x203 = 0" and "a < 2 ^ k" and "length xs \<le> 256"
  shows "\<exists>rs t rs' u. transaction [0x06] s = (Inr rs, t) \<and>
    transaction ([0x02, ucast (drop_bit 16 a), ucast (drop_bit 8 a), ucast a] @ xs) t = (Inr rs', u) \<and>
    ready k t \<and> m_state t = QSPIF_IDLE \<and> m_sreg t AND 0x203 = 2 \<and>
    m_sreg u = (m_sreg t AND NOT 2) OR 1 \<and> m_state u = QSPIF_IDLE \<and> m_mode u = FM_SPI \<and>
    length (m_mem u) = 2 ^ k \<and> m_write_count u = tPP \<and>
    (\<forall>i < 2 ^ k. m_mem u ! i =
       (let d = (i mod 256 + 256 - unat a mod 256) mod 256
        in if i div 256 = unat a div 256 \<and> d < length xs then m_mem s ! i AND xs ! d else m_mem s ! i))"
proof -
  obtain rs t where t: "transaction [0x06] s = (Inr rs, t)" "ready k t" "m_sreg t AND 0x203 = 2" "m_mem t = m_mem s"
    "m_state t = QSPIF_IDLE" using write_enable [OF assms(1,2)] by blast
  obtain r1 t1 where t1: "spi_bytes [0x02, ucast (drop_bit 16 a), ucast (drop_bit 8 a), ucast a] t = (Inr r1, t1)"
    "in_pp 4 (m_mem s) (m_sreg t) k t1" "m_addr t1 = a" "m_pmem t1 = replicate 256 0xff"
    using pp_header [OF t(2,3) assms(3)] t(4) by metis
  obtain r2 t2 where t2: "spi_bytes xs t1 = (Inr r2, t2)" "in_pp (4 + length xs) (m_mem s) (m_sreg t) k t2"
    "m_addr t2 AND NOT 0x0ff = a AND NOT 0x0ff" "m_pmem t2 = page_fill (unat (a AND 0xff)) xs (replicate 256 0xff)"
    using pp_data_bytes [OF t1(2), of xs] assms(4) t1(3,4) by auto
  have k: "length (m_mem s) = 2 ^ k" "8 \<le> k" "k \<le> 24" using assms(1) by (simp_all add: ready_def)
  have a: "unat a < 2 ^ k" using assms(3) k(3) unat_pow2_lt [of k] by (simp add: word_less_nat_alt)
  have pg: "unat (m_addr t2) div 256 = unat a div 256"
    using arg_cong [OF t2(3), of unat] unfolding unat_page by simp
  obtain u where u: "flash_op 1 1 0 t2 = (Inr 0, u)" "length (m_mem u) = 2 ^ k" "m_write_count u = tPP"
    "m_sreg u = (m_sreg t AND NOT 2) OR 1" "m_state u = QSPIF_IDLE" "m_mode u = FM_SPI"
    "\<forall>i < 2 ^ k. m_mem u ! i = (if i div 256 = unat a div 256 then m_mem s ! i AND m_pmem t2 ! (i mod 256) else m_mem s ! i)"
    using pp_deselect [OF t2(2) k(1,2) pg a] t2(4) by auto
  have "transaction ([0x02, ucast (drop_bit 16 a), ucast (drop_bit 8 a), ucast a] @ xs) t = (Inr (r1 @ r2), u)"
    unfolding transaction_def spi_bytes_append using t1(1) t2(1) u(1) by (simp add: bindE_def returnE_def del: spi_bytes.simps)
  moreover have "m_pmem t2 ! (i mod 256) =
      (let d = (i mod 256 + 256 - unat a mod 256) mod 256 in if d < length xs then xs ! d else 0xff)" for i
    using page_fill_nth [of "unat a mod 256" "i mod 256" "replicate 256 0xff" xs] assms(4)
    unfolding t2(4) unat_and_ff by (simp add: Let_def nth_replicate)
  moreover have "x AND 0xff = x" for x :: byte
  proof -
    have "(0xff :: byte) = - 1" by simp
    then show ?thesis by (simp only: and.right_neutral)
  qed
  ultimately show ?thesis
    using t u(2-7)
    by (intro exI [of _ rs] exI [of _ t] exI [of _ "r1 @ r2"] exI [of _ u]) (auto simp: Let_def)
qed

text \<open>C5: a write-enable transaction followed by a page-program transaction of at most 256 bytes
  programs the flash: each byte goes to the next address of the page, round the end of the
  page, where it can only clear bits; every other byte of the memory is kept. The
  write-enable latch is clear again, and the chip is busy for the programming time.\<close>

theorem flash_page_program:
  fixes a :: busw
  assumes "ready k s" and "m_sreg s AND 0x203 = 0" and "a < 2 ^ k" and "length xs \<le> 256"
  shows "\<exists>rs t rs' u. transaction [0x06] s = (Inr rs, t) \<and>
    transaction ([0x02, ucast (drop_bit 16 a), ucast (drop_bit 8 a), ucast a] @ xs) t = (Inr rs', u) \<and>
    length (m_mem u) = 2 ^ k \<and> m_sreg u AND 3 = 1 \<and> m_write_count u = tPP \<and>
    (\<forall>i < 2 ^ k. m_mem u ! i =
       (let d = (i mod 256 + 256 - unat a mod 256) mod 256
        in if i div 256 = unat a div 256 \<and> d < length xs then m_mem s ! i AND xs ! d else m_mem s ! i))"
proof -
  obtain rs t rs' u where "transaction [0x06] s = (Inr rs, t)"
    "transaction ([0x02, ucast (drop_bit 16 a), ucast (drop_bit 8 a), ucast a] @ xs) t = (Inr rs', u)"
    "m_sreg u = (m_sreg t AND NOT 2) OR 1" "length (m_mem u) = 2 ^ k" "m_write_count u = tPP"
    "\<forall>i < 2 ^ k. m_mem u ! i =
       (let d = (i mod 256 + 256 - unat a mod 256) mod 256
        in if i div 256 = unat a div 256 \<and> d < length xs then m_mem s ! i AND xs ! d else m_mem s ! i)"
    using page_program_transactions [OF assms] by blast
  moreover from this(3) have "m_sreg u AND 3 = 1" by (simp only: flags_after_write)
  ultimately show ?thesis by blast
qed

theorem flash_page_program_witness:
  "\<exists>rs t rs' u. let s = (FLASHSIM 8 0 8 (0, 0, [], None)) in transaction [0x06] s = (Inr rs, t) \<and>
    transaction [0x02, 0, 0, 0xff, 0x12, 0x34] t = (Inr rs', u) \<and> m_mem u ! 255 = 0x12 \<and> m_mem u ! 0 = 0x34"
proof -
  let ?s = "FLASHSIM 8 0 8 (0, 0, [], None)"
  have r: "ready 8 ?s" by (simp add: ready_def at_bit_def FLASHSIM_def mask_eq_exp_minus_1)
  have g: "m_sreg ?s AND 0x203 = 0" by (simp add: FLASHSIM_def)
  have m: "m_mem ?s ! 255 = 0xff" "m_mem ?s ! 0 = 0xff" by (simp_all add: FLASHSIM_def nth_replicate)
  obtain rs t rs' u where "transaction [0x06] ?s = (Inr rs, t)"
    "transaction ([0x02, ucast (drop_bit 16 (0xff :: busw)), ucast (drop_bit 8 (0xff :: busw)), ucast (0xff :: busw)] @ [0x12, 0x34]) t = (Inr rs', u)"
    "\<forall>i < 2 ^ 8. m_mem u ! i =
       (let d = (i mod 256 + 256 - unat (0xff :: busw) mod 256) mod 256
        in if i div 256 = unat (0xff :: busw) div 256 \<and> d < length [0x12, 0x34 :: byte] then m_mem ?s ! i AND [0x12, 0x34] ! d else m_mem ?s ! i)"
    using flash_page_program [of 8 ?s "0xff" "[0x12, 0x34]", OF r g] by auto
  then show ?thesis using m by (intro exI [of _ rs] exI [of _ t] exI [of _ rs'] exI [of _ u]) (simp add: Let_def)
qed

subsection \<open>Reading\<close>

definition in_read :: "nat \<Rightarrow> flashsim \<Rightarrow> byte list \<Rightarrow> busw \<Rightarrow> nat \<Rightarrow> bool" where
  "in_read c s m r k \<longleftrightarrow> at_bit s \<and> m_state s = QSPIF_SLOW_READ \<and> m_count s = of_nat (8 * c) \<and> m_mem s = m \<and>
     m_sreg s = r \<and> m_memmask s = mask k"

lemma read_address_byte:
  assumes "in_read c s m r k" and "c = 1 \<or> c = 2"
  shows "\<exists>v t. spi_bits (byte_bits x) s = (Inr v, t) \<and> in_read (Suc c) t m r k \<and>
    m_ireg t = push_bit 8 (m_ireg s) OR ucast x"
proof -
  let ?s = "byte_in (shifted (byte_bits x) s)"
  let ?t = "?s\<lparr>m_oreg := 0\<rparr>"
  have s: "at_bit s" "m_count s = of_nat (8 * c)" "m_state s = QSPIF_SLOW_READ" using assms(1) by (simp_all add: in_read_def)
  have "m_count ?s = of_nat (8 * Suc c)" using s(2) by simp
  then have "read_states ?s = (Inr (), ?t)" using assms(2) s(3) by (auto simp: read_states_def Let_def)
  then have f: "falling (shifted (byte_bits x) s) = (Inr (), ?t)"
    using spi_later_falling [OF s(1,2), of x] assms(2) s(3) later_byte_states(2) [of "shifted (byte_bits x) s"] by auto
  have at: "at_bit ?t" using s(1) by (simp add: at_bit_def)
  have "8 * c + 8 < 2 ^ 32" using assms(2) by auto
  from spi_byte_gen [OF s(1,2) this f at] show ?thesis
    using assms(1) by (auto simp: in_read_def shift_byte at_bit_def)
qed

lemma read_next_ok:
  assumes "unat (m_addr s) < length (m_mem s)"
  shows "\<exists>t. read_next s = (Inr (), t) \<and> ucast (m_oreg t) = m_mem s ! unat (m_addr s) \<and> m_addr t = m_addr s + 1 \<and>
    (\<forall>n. 8 \<le> n \<longrightarrow> bit (m_oreg t) n = bit (m_oreg s) n) \<and> at_bit t = at_bit s \<and> m_state t = m_state s \<and> m_mem t = m_mem s \<and>
    m_count t = m_count s \<and> m_sreg t = m_sreg s \<and> m_memmask t = m_memmask s"
proof -
  let ?b = "m_mem s ! unat (m_addr s)"
  have "bit (ucast (m_oreg (QOREG (ucast ?b) s)) :: byte) n = bit ?b n" if "n < 8" for n
    using that unfolding bit_unsigned_iff QOREG_oreg bit_or_iff bit_and_iff bit_not_iff bit_ff by auto
  then have "(ucast (m_oreg (QOREG (ucast ?b) s)) :: byte) = ?b" by (intro bit_word_eqI) simp
  then show ?thesis using assms by (auto simp: read_next_def at_bit_def bit_QOREG)
qed

lemma read_last_address_byte:
  assumes "in_read 3 s m r k" and "unat ((push_bit 8 (m_ireg s) OR ucast x) AND mask k) < length m"
  shows "\<exists>v t. spi_bits (byte_bits x) s = (Inr v, t) \<and> in_read 4 t m r k \<and>
    m_addr t = ((push_bit 8 (m_ireg s) OR ucast x) AND mask k) + 1 \<and>
    ucast (m_oreg t) = m ! unat ((push_bit 8 (m_ireg s) OR ucast x) AND mask k)"
proof -
  let ?s = "byte_in (shifted (byte_bits x) s)"
  let ?l = "?s\<lparr>m_addr := m_ireg ?s AND m_memmask ?s\<rparr>"
  have s: "at_bit s" "m_count s = of_nat (8 * 3)" "m_state s = QSPIF_SLOW_READ" using assms(1) by (simp_all add: in_read_def)
  obtain t where t: "read_next ?l = (Inr (), t)" "ucast (m_oreg t) = m ! unat (m_addr ?l)" "m_addr t = m_addr ?l + 1"
    "at_bit t" "m_state t = QSPIF_SLOW_READ" "m_mem t = m" "m_count t = 32" "m_sreg t = r" "m_memmask t = mask k"
    using read_next_ok [of ?l] assms by (auto simp: in_read_def shift_byte at_bit_def)
  have "read_states ?s = (Inr (), t)"
    using s t(1) by (simp add: read_states_def Let_def bindE_def latch_addr_def and_memmask)
  then have f: "falling (shifted (byte_bits x) s) = (Inr (), t)"
    using spi_later_falling [OF s(1,2), of x] s(3) later_byte_states(2) [of "shifted (byte_bits x) s"] by simp
  have "8 * 3 + 8 < (2 ^ 32 :: nat)" by simp
  from spi_byte_gen [OF s(1,2) this f t(4)] show ?thesis
    using t assms(1) by (auto simp: in_read_def shift_byte)
qed

lemma read_data_byte:
  assumes "in_read c s m r k" and "4 \<le> c" and "8 * c + 8 < 2 ^ 32" and "r AND 1 = 0" and "unat (m_addr s) < length m"
  shows "\<exists>t. spi_bits (byte_bits x) s = (Inr (byte_bits (ucast (m_oreg s))), t) \<and> in_read (Suc c) t m r k \<and>
    m_addr t = m_addr s + 1 \<and> ucast (m_oreg t) = m ! unat (m_addr s)"
proof -
  let ?s = "byte_in (shifted (byte_bits x) s)"
  have s: "at_bit s" "m_count s = of_nat (8 * c)" "m_state s = QSPIF_SLOW_READ" "m_sreg s = r" using assms(1) by (simp_all add: in_read_def)
  have c: "m_count ?s = of_nat (8 * Suc c)" using s(2) by simp
  obtain t where t: "read_next ?s = (Inr (), t)" "ucast (m_oreg t) = m ! unat (m_addr s)" "m_addr t = m_addr s + 1"
    "bit (m_oreg t) 8 = bit (m_oreg ?s) 8"
    "at_bit t" "m_state t = QSPIF_SLOW_READ" "m_mem t = m" "m_count t = m_count ?s" "m_sreg t = r" "m_memmask t = mask k"
    using read_next_ok [of ?s] assms(1,5) by (auto simp: in_read_def)
  have "m_count ?s \<noteq> 32" using assms(2,3) of_nat_busw_eq [of "8 * Suc c" 32] unfolding c by auto
  moreover have "m_count ?s \<ge> 40"
    using assms(2,3) unat_of_nat_lt [of "8 * Suc c", where 'a = 32] unfolding c word_le_nat_alt by simp
  ultimately have "read_states ?s = (Inr (), t)" using s t(1) assms(4) by (simp add: read_states_def Let_def)
  then show ?thesis
    using spi_later_byte [OF s(1,2) _ assms(3), of x t] later_byte_states(2) [of "shifted (byte_bits x) s"]
      s(3) assms(2) t pp_oreg [of x s] c by (simp add: in_read_def)
qed

lemma read_data_bytes:
  assumes "in_read c s m r k" and "4 \<le> c" and "8 * (c + n) < 2 ^ 32" and "r AND 1 = 0"
    and "m_addr s = of_nat (Suc a)" and "ucast (m_oreg s) = m ! a" and "a + n < length m" and "length m < 2 ^ 32"
  shows "\<exists>t. spi_bytes (replicate n 0) s = (Inr (map (\<lambda>i. byte_bits (m ! (a + i))) [0..<n]), t) \<and>
    in_read (c + n) t m r k"
  using assms
proof (induction n arbitrary: c s a)
  case (Suc n)
  have u: "unat (m_addr s) = Suc a" using Suc.prems(5,7,8) unat_of_nat_lt [of "Suc a", where 'a = 32] by simp
  obtain t where t: "spi_bits (byte_bits 0) s = (Inr (byte_bits (m ! a)), t)" "in_read (Suc c) t m r k"
    "m_addr t = m_addr s + 1" "ucast (m_oreg t) = m ! Suc a"
    using read_data_byte [OF Suc.prems(1,2), of 0] Suc.prems(3,4,6,7) u by auto
  obtain t' where t': "spi_bytes (replicate n 0) t = (Inr (map (\<lambda>i. byte_bits (m ! (Suc a + i))) [0..<n]), t')"
    "in_read (Suc c + n) t' m r k"
    using Suc.IH [of "Suc c" t "Suc a"] t Suc.prems by (auto simp: add.commute)
  have "map (\<lambda>i. byte_bits (m ! (a + i))) [0..<Suc n] = byte_bits (m ! a) # map (\<lambda>i. byte_bits (m ! (Suc a + i))) [0..<n]"
    by (simp only: upt_conv_Cons [OF zero_less_Suc] map_Suc_upt [symmetric]) simp
  then show ?case using t(1) t' by (auto simp: bindE_def returnE_def simp del: upt_Suc)
qed (auto simp: returnE_def)

lemma read_header:
  assumes "ready k s" and "m_sreg s AND 0x203 = 0" and "a < 2 ^ k"
  shows "\<exists>rs t. spi_bytes [0x03, ucast (drop_bit 16 a), ucast (drop_bit 8 a), ucast a] s = (Inr rs, t) \<and> length rs = 4 \<and>
    in_read 4 t (m_mem s) (m_sreg s) k \<and> m_addr t = a + 1 \<and> ucast (m_oreg t) = m_mem s ! unat a"
proof -
  let ?s = "shifted (byte_bits 3) s"
  let ?t = "(QOREG 0xa5 ?s)\<lparr>m_state := QSPIF_SLOW_READ\<rparr>"
  have "command ?s = (Inr (), ?t)"
    using awake [OF assms(2)] command_ireg [of 3 s] by (simp add: command_def Let_def QSPIF_DEEP_POWER_DOWN_FLAG_def)
  then have b: "spi_bits (byte_bits 3) s = (Inr (byte_bits (ucast (m_oreg s))), ?t)"
    using spi_command_byte [of s 3 ?t] assms(1) command_oreg [of "0xa5" 3 s] by (simp add: ready_def at_bit_def)
  have i: "in_read 1 ?t (m_mem s) (m_sreg s) k" using assms(1) by (simp add: in_read_def ready_def at_bit_def)
  obtain v1 t1 where t1: "spi_bits (byte_bits (ucast (drop_bit 16 a))) ?t = (Inr v1, t1)"
    "in_read 2 t1 (m_mem s) (m_sreg s) k" "m_ireg t1 = push_bit 8 (m_ireg ?t) OR ucast (ucast (drop_bit 16 a) :: byte)"
    using read_address_byte [OF i, of "ucast (drop_bit 16 a)"] by (auto simp: eval_nat_numeral)
  obtain v2 t2 where t2: "spi_bits (byte_bits (ucast (drop_bit 8 a))) t1 = (Inr v2, t2)"
    "in_read 3 t2 (m_mem s) (m_sreg s) k" "m_ireg t2 = push_bit 8 (m_ireg t1) OR ucast (ucast (drop_bit 8 a) :: byte)"
    using read_address_byte [OF t1(2), of "ucast (drop_bit 8 a)"] by (auto simp: eval_nat_numeral)
  have k: "length (m_mem s) = 2 ^ k" "k \<le> 24" using assms(1) by (simp_all add: ready_def)
  have adr: "(push_bit 8 (m_ireg t2) OR ucast (ucast a :: byte)) AND mask k = a"
    unfolding t2(3) t1(3) by (rule address_bytes [OF assms(3) k(2)])
  have "unat a < 2 ^ k" using assms(3) k(2) unat_pow2_lt [of k] by (simp add: word_less_nat_alt)
  then obtain v3 t3 where t3: "spi_bits (byte_bits (ucast a)) t2 = (Inr v3, t3)" "in_read 4 t3 (m_mem s) (m_sreg s) k"
    "m_addr t3 = a + 1" "ucast (m_oreg t3) = m_mem s ! unat a"
    using read_last_address_byte [OF t2(2), of "ucast a"] k(1) unfolding adr by auto
  then show ?thesis using b t1(1) t2(1) by (auto simp: bindE_def returnE_def)
qed

text \<open>C23: a read transaction (command \<open>03\<close>) on an idle chip returns the bytes of the memory from the
  given address on, in order, and changes neither the memory nor the status, as long as
  one more byte than is asked for lies inside the memory.\<close>

theorem flash_slow_read:
  fixes a :: busw
  assumes "ready k s" and "m_sreg s AND 0x203 = 0" and "unat a + n < 2 ^ k"
  shows "\<exists>rs t. transaction ([0x03, ucast (drop_bit 16 a), ucast (drop_bit 8 a), ucast a] @ replicate n 0) s = (Inr rs, t) \<and>
    drop 4 rs = map (\<lambda>i. byte_bits (m_mem s ! (unat a + i))) [0..<n] \<and> m_mem t = m_mem s \<and> m_sreg t = m_sreg s \<and> ready k t"
proof -
  have k: "length (m_mem s) = 2 ^ k" "8 \<le> k" "k \<le> 24" using assms(1) by (simp_all add: ready_def)
  have k32: "(2 :: nat) ^ k \<le> 2 ^ 24" using k(3) by (rule power_increasing) simp
  have a: "a < 2 ^ k" using assms(3) k(3) unat_pow2_lt [of k] by (simp add: word_less_nat_alt)
  obtain r1 t1 where t1: "spi_bytes [0x03, ucast (drop_bit 16 a), ucast (drop_bit 8 a), ucast a] s = (Inr r1, t1)" "length r1 = 4"
    "in_read 4 t1 (m_mem s) (m_sreg s) k" "m_addr t1 = a + 1" "ucast (m_oreg t1) = m_mem s ! unat a"
    using read_header [OF assms(1,2) a] by metis
  have "m_sreg s AND 1 = (m_sreg s AND 0x203) AND 1" by (simp add: and.assoc)
  then have q: "m_sreg s AND 1 = 0" using assms(2) by simp
  have ad: "m_addr t1 = of_nat (Suc (unat a))" using t1(4) by simp
  obtain t2 where t2: "spi_bytes (replicate n 0) t1 = (Inr (map (\<lambda>i. byte_bits (m_mem s ! (unat a + i))) [0..<n]), t2)"
    "in_read (4 + n) t2 (m_mem s) (m_sreg s) k"
    using read_data_bytes [OF t1(3) _ _ q ad t1(5), of n] assms(3) k(1) k32 by auto
  have "flash_op 1 1 0 t2 = (Inr 0, t2\<lparr>m_last_sck := 1, m_ireg := 0, m_oreg := 0x0fe, m_count := 0\<rparr>)"
    using deselect_quiet [of t2] t2(2) by (simp add: in_read_def at_bit_def)
  then have "transaction ([0x03, ucast (drop_bit 16 a), ucast (drop_bit 8 a), ucast a] @ replicate n 0) s =
      (Inr (r1 @ map (\<lambda>i. byte_bits (m_mem s ! (unat a + i))) [0..<n]), t2\<lparr>m_last_sck := 1, m_ireg := 0, m_oreg := 0x0fe, m_count := 0\<rparr>)"
    unfolding transaction_def spi_bytes_append using t1(1) t2(1) by (simp add: bindE_def returnE_def del: spi_bytes.simps)
  then show ?thesis using t1(2) t2(2) k by (auto simp: in_read_def ready_def at_bit_def)
qed

theorem flash_slow_read_witness:
  "\<exists>rs t. transaction [0x03, 0, 0, 5, 0] (FLASHSIM 8 0 8 (0, 0, [], None)) = (Inr rs, t) \<and> drop 4 rs = [byte_bits 0xff]"
proof -
  let ?s = "FLASHSIM 8 0 8 (0, 0, [], None)"
  have r: "ready 8 ?s" by (simp add: ready_def at_bit_def FLASHSIM_def mask_eq_exp_minus_1)
  have g: "m_sreg ?s AND 0x203 = 0" by (simp add: FLASHSIM_def)
  have "m_mem ?s ! 5 = 0xff" by (simp add: FLASHSIM_def nth_replicate)
  then show ?thesis using flash_slow_read [of 8 ?s 5 1, OF r g] by auto
qed

text \<open>Reading the last byte of the flash runs one byte past the end of its memory: the next byte is
  fetched before the first is shifted out.\<close>

lemma flash_read_past_end:
  "fst (transaction [0x03, 0, 0, 3, 0] (FLASHSIM 2 0 8 (0, 0, [], None))) = Inl OutOfBounds \<and>
   fst (transaction [0x03, 0, 0, 3] (FLASHSIM 2 0 8 (0, 0, [], None))) \<noteq> Inl OutOfBounds"
  by code_simp

text \<open>The words a test bench sets are the words it finds.\<close>

lemma set_word_word_at:
  assumes "unat (push_bit 2 i) + 4 \<le> length (m_mem s)"
  shows "\<exists>t. set_word i v s = (Inr (), t) \<and> word_at i t = (Inr v, t)"
proof -
  let ?p = "unat (push_bit 2 i)"
  let ?m = "take ?p (m_mem s) @ [ucast (drop_bit 24 v), ucast (drop_bit 16 v), ucast (drop_bit 8 v), ucast v] @ drop (?p + 4) (m_mem s)"
  have e: "set_word i v s = (Inr (), s\<lparr>m_mem := ?m\<rparr>)"
    using assms by (simp add: set_word_def store_at_def eval_nat_numeral)
  have n: "?m ! ?p = ucast (drop_bit 24 v)" "?m ! (?p + 1) = ucast (drop_bit 16 v)" "?m ! (?p + 2) = ucast (drop_bit 8 v)"
    "?m ! (?p + 3) = ucast v" using assms by (simp_all add: nth_append)
  have "push_bit 8 (push_bit 8 (push_bit 8 (ucast (ucast (drop_bit 24 v) :: byte)) OR ucast (ucast (drop_bit 16 v) :: byte))
      OR ucast (ucast (drop_bit 8 v) :: byte)) OR ucast (ucast v :: byte) = v" (is "?w = v")
  proof (rule bit_word_eqI)
    fix n assume "n < LENGTH(32)"
    then show "bit ?w n = bit v n" by (cases "n < 8"; cases "n < 16"; cases "n < 24") (auto simp: bit_simps not_less)
  qed
  then have "word_at i (s\<lparr>m_mem := ?m\<rparr>) = (Inr v, s\<lparr>m_mem := ?m\<rparr>)" using assms n by (simp add: word_at_def Let_def)
  then show ?thesis using e by blast
qed

end
