(* ===== verification/IpCksum.thy ===== *)
theory IpCksum
  imports Prelude
begin

text \<open>
  The Internet checksum of the network programs (\<open>src/sw/rv32/ipcksum.c\<close>): the code sums the
  sixteen-bit halves of a buffer into a 32-bit word, folds the carries back and complements.
  The reference is arithmetic modulo \<open>2^16 - 1\<close>.
\<close>

subsection \<open>Definitions\<close>

text \<open>\<open>for(int i=0; i<len; i+=2)\<close>. Both bytes are read, also when only one is left.\<close>

function cksum_sum :: "nat \<Rightarrow> byte list \<Rightarrow> nat \<Rightarrow> busw \<Rightarrow> exn + busw" where
  "cksum_sum len ucp i checksum =
     (if i < len then
        (if i + 1 < length ucp
         then cksum_sum len ucp (i + 2) (checksum + push_bit 8 (ucast (ucp ! i) AND 0x0ff) + (ucast (ucp ! (i + 1)) AND 0x0ff))
         else Inl OutOfBounds)
      else Inr checksum)"
  by auto
termination by (relation "measure (\<lambda>(len, ucp, i, c). len - i)") auto

declare cksum_sum.simps [simp del]

text \<open>The fold of the carries takes fuel; four rounds are given and three are enough, as shown below.\<close>

fun cksum_fold :: "nat \<Rightarrow> busw \<Rightarrow> exn + busw" where
  "cksum_fold 0 checksum = Inl OutOfFuel"
| "cksum_fold (Suc fuel) checksum =
     (if checksum AND NOT 0x0ffff \<noteq> 0
      then cksum_fold fuel ((checksum AND 0x0ffff) + drop_bit 16 checksum)
      else Inr checksum)"

definition ipcksum :: "nat \<Rightarrow> byte list \<Rightarrow> exn + busw" where
  "ipcksum len ptr =
     bindS (cksum_sum len ptr 0 0) (\<lambda>checksum.
     bindS (cksum_fold 4 checksum) (\<lambda>checksum.
       Inr (checksum XOR 0x0ffff)))"

text \<open>Reference: the sum of the big-endian halves, and its representative among \<open>1, ..., 2^16 - 1\<close>
  (0 for a buffer of zeroes).\<close>

fun halves_sum :: "byte list \<Rightarrow> nat" where
  "halves_sum (a # b # xs) = 256 * unat a + unat b + halves_sum xs"
| "halves_sum _ = 0"

definition ones_rep :: "nat \<Rightarrow> nat" where
  "ones_rep n = (if n = 0 then 0 else (n - 1) mod 65535 + 1)"

subsection \<open>The sum\<close>

lemma halves_sum_append: "even (length xs) \<Longrightarrow> halves_sum (xs @ ys) = halves_sum xs + halves_sum ys"
  by (induction xs rule: halves_sum.induct) auto

lemma halves_sum_bound: "halves_sum xs \<le> 65535 * (length xs div 2)"
proof (induction xs rule: halves_sum.induct)
  case (1 a b xs)
  have "unat a \<le> 255" "unat b \<le> 255" using unsigned_less [of a, where 'a = nat] unsigned_less [of b, where 'a = nat] by simp_all
  then show ?case using 1 by simp
qed simp_all

lemma byte_half: "push_bit 8 (ucast a AND 0x0ff) + (ucast b AND 0x0ff) = (of_nat (256 * unat a + unat b) :: busw)" for a b :: byte
proof -
  have m: "(0xff :: busw) = mask 8" by (simp add: mask_eq_exp_minus_1)
  have "ucast x AND 0xff = (of_nat (unat x) :: busw)" for x :: byte
  proof (rule bit_word_eqI)
    fix n assume "n < LENGTH(32)"
    then show "bit (ucast x AND 0xff :: busw) n = bit (of_nat (unat x) :: busw) n"
      unfolding m using bit_imp_le_length [of x n] by (auto simp: bit_simps bit_unsigned_iff)
  qed
  then show ?thesis by (simp add: push_bit_eq_mult mult.commute)
qed

lemma cksum_sum_ref:
  assumes "even len" and "len \<le> length ucp" and "even i" and "i \<le> len"
  shows "cksum_sum len ucp i c = Inr (c + of_nat (halves_sum (drop i (take len ucp))))"
  using assms
proof (induction len ucp i c rule: cksum_sum.induct)
  case (1 len ucp i c)
  show ?case
  proof (cases "i < len")
    case True
    then have l: "i + 1 < len" using "1.prems"(1,3) by presburger
    have d: "drop i (take len ucp) = ucp ! i # ucp ! (i + 1) # drop (i + 2) (take len ucp)"
      using l "1.prems"(2) by (simp add: Cons_nth_drop_Suc [symmetric])
    show ?thesis unfolding d cksum_sum.simps [of len ucp i c]
      using True l "1.prems" "1.IH" byte_half [of "ucp ! i" "ucp ! (i + 1)"] by (simp add: add.assoc)
  next
    case False
    then show ?thesis using "1.prems" by (simp add: cksum_sum.simps)
  qed
qed

subsection \<open>Folding the carries\<close>

lemma high_zero_iff: "(w AND NOT 0xffff = 0) = (unat w < 65536)" for w :: busw
proof -
  have "w = (w AND NOT 0xffff) OR (w AND 0xffff)" by (simp add: bit.conj_disj_distrib [symmetric])
  moreover have "(w AND 0xffff) AND NOT 0xffff = 0" by (simp add: and.assoc)
  moreover have "(w = w AND 0xffff) = (unat w < 65536)"
    by (metis unat_and_ffff mod_less mod_less_divisor word_unat_eq_iff zero_less_numeral)
  ultimately show ?thesis by (metis or.left_neutral)
qed

lemma ones_rep_step:
  fixes n :: nat
  assumes "0 < n"
  shows "ones_rep (n mod 65536 + n div 65536) = ones_rep n"
proof -
  have n: "n = n mod 65536 + n div 65536 + 65535 * (n div 65536)" by simp
  have p: "0 < n mod 65536 + n div 65536" using assms by (cases "n div 65536 = 0") auto
  have "(n - 1) = (n mod 65536 + n div 65536 - 1) + 65535 * (n div 65536)" using n p by linarith
  then have "(n - 1) mod 65535 = (n mod 65536 + n div 65536 - 1) mod 65535" by (metis mod_mult_self2)
  then show ?thesis using assms p by (simp add: ones_rep_def)
qed

lemma ones_rep_small: "n < 65536 \<Longrightarrow> ones_rep n = n"
  by (cases "n = 0") (auto simp: ones_rep_def)

lemma unat_fold: "unat ((w AND 0xffff) + drop_bit 16 w) = unat w mod 65536 + unat w div 65536" for w :: busw
proof -
  have "unat w mod 65536 + unat w div 65536 < 2 ^ 32" using unat_lt32 [of w] by (simp add: less_mult_imp_div_less)
  then show ?thesis by (simp add: unat_word_ariths(1) unat_and_ffff unat_drop_bit del: unsigned_and_eq)
qed

lemma cksum_fold_Suc:
  "cksum_fold (Suc fuel) c = (if unat c < 65536 then Inr c else cksum_fold fuel ((c AND 0xffff) + drop_bit 16 c))"
  using high_zero_iff [of c] by simp

lemma cksum_fold_ref: "cksum_fold 4 c = Inr (of_nat (ones_rep (unat c)))"
proof -
  let ?f = "\<lambda>w :: busw. (w AND 0xffff) + drop_bit 16 w"
  have r: "ones_rep (unat (?f w)) = ones_rep (unat w)" if "\<not> unat w < 65536" for w
    unfolding unat_fold by (rule ones_rep_step) (use that in simp)
  have d: "cksum_fold (Suc fuel) w = Inr (of_nat (ones_rep (unat w)))" if "unat w < 65536" for fuel w
    using that by (simp add: cksum_fold_Suc ones_rep_small del: cksum_fold.simps)
  have b1: "unat (?f c) \<le> 131070" unfolding unat_fold using unat_lt32 [of c] by simp
  have small: "n mod 65536 + n div 65536 < 65536" if "65536 \<le> n" "n \<le> 131070" for n :: nat
  proof -
    have "n = (n - 65536) + 1 * 65536" using that by simp
    then have "n mod 65536 = (n - 65536) mod 65536" "n div 65536 = (n - 65536) div 65536 + 1"
      by (metis mod_mult_self1, metis div_mult_self1 add.commute zero_neq_numeral)
    then show ?thesis using that by simp
  qed
  have b2: "unat (?f (?f c)) < 65536" if "\<not> unat (?f c) < 65536"
    unfolding unat_fold [of "?f c"] by (rule small) (use that b1 in auto)
  have "cksum_fold (Suc (Suc (Suc (Suc 0)))) c = Inr (of_nat (ones_rep (unat c)))"
  proof (cases "unat c < 65536")
    case False
    then have c: "cksum_fold (Suc (Suc (Suc (Suc 0)))) c = cksum_fold (Suc (Suc (Suc 0))) (?f c)" by (rule cksum_fold_Suc [THEN trans, OF if_not_P])
    show ?thesis
    proof (cases "unat (?f c) < 65536")
      case True
      show ?thesis unfolding c d [OF True] r [OF False] ..
    next
      case F: False
      then have "cksum_fold (Suc (Suc (Suc 0))) (?f c) = cksum_fold (Suc (Suc 0)) (?f (?f c))" by (rule cksum_fold_Suc [THEN trans, OF if_not_P])
      then show ?thesis unfolding c d [OF b2 [OF F]] r [OF F] r [OF False] by simp
    qed
  qed (rule d)
  then show ?thesis by (simp add: numeral_eq_Suc)
qed

subsection \<open>The checksum\<close>

lemma ones_rep_le: "ones_rep n \<le> 65535"
  using mod_less_divisor [of 65535 "n - 1"] by (auto simp: ones_rep_def)

lemma xor_ffff:
  assumes "n \<le> 65535"
  shows "(of_nat n :: busw) XOR 0xffff = of_nat (65535 - n)"
proof -
  let ?w = "of_nat n :: busw"
  have u: "unat ?w = n" using assms by (simp add: unat_of_nat_lt)
  have w: "?w AND 0xffff = ?w" using assms u unat_and_ffff [of ?w] by (simp add: word_unat_eq_iff)
  have sub: "bit ?w i \<Longrightarrow> bit (0xffff :: busw) i" for i by (metis w bit_and_iff)
  have "?w AND (?w XOR 0xffff) = 0"
    by (rule bit_word_eqI) (unfold bit_and_iff bit_xor_iff, use sub in auto)
  then have "?w + (?w XOR 0xffff) = ?w OR (?w XOR 0xffff)" by (rule disjunctive_add_eq_or)
  also have "\<dots> = 0xffff"
    by (rule bit_word_eqI) (unfold bit_or_iff bit_xor_iff, use sub in auto)
  finally have "?w XOR 0xffff = 0xffff - ?w" by (metis add_diff_cancel_left')
  also have "\<dots> = of_nat (65535 - n)" using assms by (simp add: of_nat_diff)
  finally show ?thesis .
qed

lemma ipcksum_ref:
  assumes "even len" and "len \<le> length ptr" and "len \<le> 131072"
  shows "ipcksum len ptr = Inr (of_nat (65535 - ones_rep (halves_sum (take len ptr))))"
proof -
  let ?S = "halves_sum (take len ptr)"
  have "?S \<le> 65535 * 65536" using halves_sum_bound [of "take len ptr"] assms(2,3) by simp
  then have "unat (of_nat ?S :: busw) = ?S" by (intro unat_of_nat_lt) simp
  then show ?thesis
    using cksum_sum_ref [OF assms(1,2), of 0 0] cksum_fold_ref [of "of_nat ?S"] xor_ffff [OF ones_rep_le]
    by (simp add: ipcksum_def del: cksum_fold.simps)
qed

text \<open>C29: for an even number of bytes inside the buffer, up to \<open>2^17\<close>, the checksum routine ends and
  returns the complement of the one's-complement sum of the sixteen-bit halves: the 32-bit
  accumulator never overflows and the folding loop ends.\<close>

theorem ipcksum_ones_complement:
  assumes "even len" and "len \<le> length ptr" and "len \<le> 131072"
  shows "\<exists>c. ipcksum len ptr = Inr c \<and> unat c = 65535 - ones_rep (halves_sum (take len ptr))"
proof -
  have "unat (of_nat (65535 - ones_rep (halves_sum (take len ptr))) :: busw) = 65535 - ones_rep (halves_sum (take len ptr))"
    by (rule unat_of_nat_lt) simp
  then show ?thesis using ipcksum_ref [OF assms] by blast
qed

theorem ipcksum_ones_complement_witness:
  "\<exists>c. ipcksum 4 [0x45, 0, 0xff, 0xff] = Inr c \<and> unat c = 65535 - ones_rep (0x4500 + 0xffff)"
  using ipcksum_ones_complement [of 4 "[0x45, 0, 0xff, 0xff]"] by simp

lemma ipcksum_field:
  assumes "even (length xs)" and "even (length ys)" and "length xs + 2 + length ys \<le> 131072"
    and "ipcksum (length xs + 2 + length ys) (xs @ [0, 0] @ ys) = Inr c"
  shows "ipcksum (length xs + 2 + length ys) (xs @ [ucast (drop_bit 8 c AND 0xff), ucast (c AND 0xff)] @ ys) = Inr 0"
proof -
  let ?n = "length xs + 2 + length ys" and ?S = "halves_sum xs + halves_sum ys"
  let ?c = "65535 - ones_rep ?S"
  have e: "even ?n" using assms(1,2) by simp
  have c: "c = of_nat ?c"
    using ipcksum_ref [OF e, of "xs @ [0, 0] @ ys"] assms by (simp add: halves_sum_append)
  have u: "unat c = ?c" unfolding c by (rule unat_of_nat_lt) simp
  have b: "unat (ucast (c AND 0xff) :: byte) = ?c mod 256"
    using unat_and_mask [of c 8] u by (simp add: mask_eq_exp_minus_1 unsigned_ucast_eq take_bit_nat_eq_self)
  have "unat (drop_bit 8 c AND 0xff) = ?c div 256 mod 256"
    using unat_and_mask [of "drop_bit 8 c" 8] u by (simp add: mask_eq_exp_minus_1 unat_drop_bit)
  moreover have "?c div 256 mod 256 = ?c div 256" by (rule mod_less) simp
  ultimately have a: "unat (ucast (drop_bit 8 c AND 0xff) :: byte) = ?c div 256"
    by (simp add: unsigned_ucast_eq take_bit_nat_eq_self)
  let ?p = "xs @ [ucast (drop_bit 8 c AND 0xff), ucast (c AND 0xff)] @ ys"
  have s: "halves_sum ?p = ?S + ?c"
    using assms(1) a b by (simp add: halves_sum_append)
  have "ones_rep (?S + ?c) = 65535"
  proof (cases "?S = 0")
    case False
    let ?r = "(?S - 1) mod 65535"
    have "?S - 1 = ?r + (?S - 1) div 65535 * 65535" by simp
    moreover have "?c = 65534 - ?r" using False by (simp add: ones_rep_def)
    moreover have "?r \<le> 65534" using mod_less_divisor [of 65535 "?S - 1"] by simp
    ultimately have "?S + ?c - 1 = 65534 + (?S - 1) div 65535 * 65535" using False by linarith
    then have "(?S + ?c - 1) mod 65535 = 65534 mod 65535" by (metis mod_mult_self1)
    then show ?thesis using False by (simp add: ones_rep_def)
  qed (simp add: ones_rep_def)
  then show ?thesis using ipcksum_ref [OF e, of ?p] assms(3) s by simp
qed

text \<open>A packet that carries its checksum verifies: when the field held zero and the checksum of the
  packet is stored into it, most significant byte first, the checksum of the result is zero.\<close>

lemma ipcksum_verifies:
  assumes "even (length xs)" and "even (length ys)" and "length xs + 2 + length ys \<le> 131072"
    and "ipcksum (length xs + 2 + length ys) (xs @ [0, 0] @ ys) = Inr c"
  shows "ipcksum (length xs + 2 + length ys) (xs @ [ucast (drop_bit 8 c AND 0xff), ucast (c AND 0xff)] @ ys) = Inr 0"
  by (rule ipcksum_field [OF assms])

lemma ipcksum_verifies_witness:
  "ipcksum 4 [0x45, 0, 0xba, 0xff] = Inr 0"
proof -
  have "ipcksum 4 [0x45, 0, 0, 0] = Inr 0xbaff" by code_simp
  moreover have n: "length [0x45, 0 :: byte] + 2 + length ([] :: byte list) = 4" by simp
  ultimately show ?thesis using ipcksum_verifies [of "[0x45, 0]" "[]" "0xbaff", unfolded n] by simp
qed

text \<open>With an odd length the routine reads one byte past the buffer.\<close>

lemma ipcksum_odd_reads_past:
  assumes "odd len" and "length ptr = len"
  shows "ipcksum len ptr = Inl OutOfBounds"
proof -
  have "cksum_sum len ptr i c = Inl OutOfBounds" if "even i" "i \<le> len" for i c
    using assms that
  proof (induction len ptr i c rule: cksum_sum.induct)
    case (1 len ucp i c)
    then have "i < len" by (metis le_neq_implies_less)
    show ?case
    proof (cases "i + 1 < len")
      case True
      then show ?thesis using 1 \<open>i < len\<close> by (subst cksum_sum.simps) simp
    next
      case False
      then show ?thesis using "1.prems" \<open>i < len\<close> by (subst cksum_sum.simps) simp
    qed
  qed
  from this [of 0 0] show ?thesis by (simp add: ipcksum_def)
qed

lemma ipcksum_odd_reads_past_witness: "ipcksum 3 [1, 2, 3] = Inl OutOfBounds"
  using ipcksum_odd_reads_past [of 3 "[1, 2, 3]"] by simp

end
