(* ===== verification/NetPkt.thy ===== *)
theory NetPkt
  imports IpCksum
begin

text \<open>
  The packets and the Ethernet layer of the network programs for the RISC-V core
  (\<open>src/sw/rv32/pkt.c\<close>, \<open>ethproto.c\<close>) and the one waiting packet of \<open>pingtest.c\<close>.

  The global variables of the programs, the registers of the network device and the blocks
  that \<open>malloc\<close> handed out are one record. A packet is a block of the heap; its \<open>p_user\<close> is
  the distance from \<open>p_raw\<close>. \<open>malloc\<close> always succeeds, with an unknown content (\<open>junk\<close>).
  The use of a freed block is \<open>BadPointer\<close>, an access outside a block \<open>OutOfBounds\<close>. Writing
  the transmit command starts the transmission, which is recorded in \<open>sent\<close>, and makes the
  register read as busy (the two bits are the same); writing the receive command is recorded in
  \<open>rxcmd_log\<close>. Printing is left out.
\<close>

subsection \<open>State\<close>

record net_packet =
  p_usage_count :: int
  p_rawlen :: busw
  p_length :: busw
  p_raw :: "byte list"
  p_user :: int

record arp_table_entry =
  arp_valid :: bool
  arp_age :: busw
  arp_ip :: busw
  arp_mac :: u64

record net =
  heap :: "nat \<Rightarrow> net_packet option"
  brk :: nat
  junk :: "nat \<Rightarrow> byte"
  n_rxcmd :: busw
  n_txcmd :: busw
  netbrx :: "byte list"
  sent :: "(busw \<times> byte list) list"
  rxcmd_log :: "busw list"
  buspic_log :: "busw list"
  gpio :: busw
  waiting_pkt :: "nat option"
  my_mac_addr :: u64
  router_mac_addr :: u64
  my_ip_addr :: busw
  my_ip_mask :: busw
  my_ip_router :: busw
  ip_pktid :: busw
  icmppkt_id :: busw
  arp_requests_sent :: busw
  arp_table :: "arp_table_entry list"
  arp_logid :: nat
  arp_table_log :: "(busw \<times> u64) list"
  now :: busw
  lastping :: busw
  lasthello :: busw

definition ENET_TXBUSY :: busw where "ENET_TXBUSY = 0x004000"
definition ENET_TXGO :: busw where "ENET_TXGO = 0x004000"
definition ENET_NOHWIPCHK :: busw where "ENET_NOHWIPCHK = 0x040000"
definition ENET_RXAVAIL :: busw where "ENET_RXAVAIL = 0x004000"
definition ENET_RXCLR :: busw where "ENET_RXCLR = 0x004000"
definition ENET_RXCLRERR :: busw where "ENET_RXCLRERR = 0x078000"
definition ENET_RXLEN :: "busw \<Rightarrow> busw" where "ENET_RXLEN cmd = cmd AND 0x03fff"

definition ETHERTYPE_IP :: busw where "ETHERTYPE_IP = 0x0800"
definition ETHERTYPE_ARP :: busw where "ETHERTYPE_ARP = 0x0806"
definition IPPROTO_ICMP :: busw where "IPPROTO_ICMP = 1"
definition IPPROTO_UDP :: busw where "IPPROTO_UDP = 17"
definition ICMP_ECHOREPLY :: byte where "ICMP_ECHOREPLY = 0"
definition ICMP_PING :: byte where "ICMP_PING = 8"
definition BIG_PRIME :: busw where "BIG_PRIME = 0x0134513b"

subsection \<open>Blocks of the heap\<close>

definition get_pkt :: "nat \<Rightarrow> (net, net_packet) call" where
  "get_pkt p s = (case heap s p of None \<Rightarrow> (Inl BadPointer, s) | Some k \<Rightarrow> (Inr k, s))"

definition put_pkt :: "nat \<Rightarrow> net_packet \<Rightarrow> net \<Rightarrow> net" where
  "put_pkt p k s = s\<lparr>heap := (heap s)(p := Some k)\<rparr>"

definition mod_pkt :: "nat \<Rightarrow> (net_packet \<Rightarrow> net_packet) \<Rightarrow> (net, unit) call" where
  "mod_pkt p f = bindE (get_pkt p) (\<lambda>k. modifyE (put_pkt p (f k)))"

text \<open>\<open>p_user[i]\<close>, and assignments to \<open>p_user[i], p_user[i+1], ...\<close>\<close>

definition user_get :: "nat \<Rightarrow> int \<Rightarrow> (net, byte) call" where
  "user_get p i =
     bindE (get_pkt p) (\<lambda>k.
       let a = p_user k + i in
       if 0 \<le> a \<and> nat a < length (p_raw k) then returnE (p_raw k ! nat a) else throwE OutOfBounds)"

definition user_put :: "nat \<Rightarrow> int \<Rightarrow> byte list \<Rightarrow> (net, unit) call" where
  "user_put p i vs =
     bindE (get_pkt p) (\<lambda>k.
       let a = p_user k + i in
       if 0 \<le> a
       then bindE (liftE (store_at (nat a) vs (p_raw k))) (\<lambda>m. modifyE (put_pkt p (k\<lparr>p_raw := m\<rparr>)))
       else throwE OutOfBounds)"

text \<open>The bytes from \<open>p_user\<close> to the end of the block, and the first \<open>n\<close> of them, which must exist.\<close>

definition user_block :: "nat \<Rightarrow> (net, byte list) call" where
  "user_block p =
     bindE (get_pkt p) (\<lambda>k. if 0 \<le> p_user k then returnE (drop (nat (p_user k)) (p_raw k)) else throwE OutOfBounds)"

definition user_bytes :: "nat \<Rightarrow> nat \<Rightarrow> (net, byte list) call" where
  "user_bytes p n =
     bindE (user_block p) (\<lambda>b. if n \<le> length b then returnE (take n b) else throwE OutOfBounds)"

text \<open>\<open>p_user += d; p_length -= d;\<close>\<close>

definition user_skip :: "nat \<Rightarrow> int \<Rightarrow> (net, unit) call" where
  "user_skip p d = mod_pkt p (\<lambda>k. k\<lparr>p_user := p_user k + d, p_length := p_length k - of_int d\<rparr>)"

text \<open>One byte of a word: \<open>(w >> k) & 0x0ff\<close>.\<close>

definition oct :: "nat \<Rightarrow> 'a::len word \<Rightarrow> byte" where
  "oct k w = ucast (drop_bit k w AND 0xff)"

definition be16 :: "byte \<Rightarrow> byte \<Rightarrow> busw" where
  "be16 a b = push_bit 8 (ucast a) OR ucast b"

definition be32 :: "byte \<Rightarrow> byte \<Rightarrow> byte \<Rightarrow> byte \<Rightarrow> busw" where
  "be32 a b c d = ucast d OR push_bit 8 (ucast c OR push_bit 8 (ucast b OR push_bit 8 (ucast a)))"

subsection \<open>pkt.c\<close>

definition free_pkt :: "nat option \<Rightarrow> (net, unit) call" where
  "free_pkt q = (case q of None \<Rightarrow> returnE () | Some p \<Rightarrow>
     bindE (mod_pkt p (\<lambda>k. if p_usage_count k > 0 then k\<lparr>p_usage_count := p_usage_count k - 1\<rparr> else k)) (\<lambda>_.
     bindE (get_pkt p) (\<lambda>k.
       whenE (p_usage_count k = 0) (modifyE (\<lambda>s. s\<lparr>heap := (heap s)(p := None)\<rparr>)))))"

definition pkt_reset :: "nat option \<Rightarrow> (net, unit) call" where
  "pkt_reset q = (case q of None \<Rightarrow> returnE () | Some p \<Rightarrow>
     mod_pkt p (\<lambda>k. k\<lparr>p_length := p_rawlen k, p_user := 0\<rparr>))"

definition new_pkt :: "busw \<Rightarrow> (net, nat) call" where
  "new_pkt msglen s =
     (let p = brk s in
      (Inr p, (put_pkt p \<lparr>p_usage_count = 1, p_rawlen = msglen, p_length = msglen,
                          p_raw = map (junk s) [0..<unat msglen], p_user = 0\<rparr> s)\<lparr>brk := p + 1\<rparr>))"

definition rx_pkt :: "(net, nat option) call" where
  "rx_pkt s =
     (if n_rxcmd s AND ENET_RXAVAIL \<noteq> 0 then
        (let rxv = n_rxcmd s; pktlen = ENET_RXLEN rxv;
             clear = (\<lambda>s. s\<lparr>rxcmd_log := rxcmd_log s @ [ENET_RXCLRERR OR ENET_RXCLR]\<rparr>) in
         if rxv AND ENET_RXCLRERR \<noteq> 0 \<or> pktlen > 2047 then (Inr None, clear s)
         else if unat pktlen + 2 \<le> length (netbrx s) then
           (let p = brk s in
            (Inr (Some p), clear ((put_pkt p \<lparr>p_usage_count = 1, p_rawlen = pktlen, p_length = pktlen,
               p_raw = take (unat pktlen + 2) (netbrx s), p_user = 0\<rparr> s)\<lparr>brk := p + 1\<rparr>)))
         else (Inl OutOfBounds, s))
      else (Inr None, s))"

text \<open>From \<open>pingtest.c\<close>: the packet that waits for the transmitter.\<close>

definition tx_busy :: "nat \<Rightarrow> (net, unit) call" where
  "tx_busy txpkt s =
     (case waiting_pkt s of
        None \<Rightarrow> (Inr (), s\<lparr>waiting_pkt := Some txpkt\<rparr>)
      | Some w \<Rightarrow>
          if txpkt \<noteq> w
          then bindE (free_pkt (Some w)) (\<lambda>_. modifyE (\<lambda>s. s\<lparr>waiting_pkt := Some txpkt\<rparr>)) s
          else (Inr (), s))"

definition tx_pkt :: "nat \<Rightarrow> (net, unit) call" where
  "tx_pkt p s =
     (if n_txcmd s AND ENET_TXBUSY \<noteq> 0 then tx_busy p s
      else bindE (get_pkt p) (\<lambda>k.
           bindE (user_bytes p (unat (p_length k))) (\<lambda>frame.
           bindE (modifyE (\<lambda>s. let txcmd = ENET_TXGO OR p_length k OR ENET_NOHWIPCHK
                               in s\<lparr>sent := sent s @ [(txcmd, frame)], n_txcmd := txcmd\<rparr>)) (\<lambda>_.
             free_pkt (Some p)))) s)"

subsection \<open>ethproto.c\<close>

definition eth_headersize :: busw where
  "eth_headersize = 8"

definition new_ethpkt :: "busw \<Rightarrow> (net, nat) call" where
  "new_ethpkt ln = bindE (new_pkt (ln + 8)) (\<lambda>p. bindE (user_skip p 8) (\<lambda>_. returnE p))"

definition tx_ethpkt :: "nat \<Rightarrow> busw \<Rightarrow> u64 \<Rightarrow> (net, unit) call" where
  "tx_ethpkt p ethtype mac =
     bindE (user_skip p (- uint eth_headersize)) (\<lambda>_.
     bindE (user_put p 0 [oct 40 mac, oct 32 mac, oct 24 mac, oct 16 mac, oct 8 mac, oct 0 mac,
                          oct 8 ethtype, oct 0 ethtype]) (\<lambda>_.
       tx_pkt p))"

definition rx_ethpkt :: "nat \<Rightarrow> (net, unit) call" where
  "rx_ethpkt p = user_skip p 8"

definition ethpkt_mac :: "nat \<Rightarrow> (net, u64) call" where
  "ethpkt_mac p =
     bindE (user_bytes p 6) (\<lambda>b. returnE (fold (\<lambda>x m. ucast x OR push_bit 8 m) b 0))"

definition ethpkt_ethtype :: "nat \<Rightarrow> (net, busw) call" where
  "ethpkt_ethtype p = bindE (user_get p 6) (\<lambda>a. bindE (user_get p 7) (\<lambda>b. returnE (be16 a b)))"

end
