(* ===== verification/NetIp.thy ===== *)
theory NetIp
  imports NetPkt
begin

text \<open>
  Address resolution and the Internet layer (\<open>src/sw/rv32/arp.c\<close>, \<open>ipproto.c\<close>), and the two
  protocols above it (\<open>icmp.c\<close>, \<open>udpproto.c\<close>).

  \<open>arp_table_add\<close> uses its local variable \<open>eid\<close> before it is set; its value at that point is
  the argument \<open>eid0\<close>. The functions that only print a packet (\<open>dump_...\<close>) are modelled for what
  they do to it: they clear and restore checksum fields, and \<open>dump_ippkt\<close> never returns for a
  packet whose first byte is not \<open>0x45\<close>.
\<close>

subsection \<open>arp.c\<close>

definition ARP_REQUEST :: byte where "ARP_REQUEST = 1"
definition ARP_REPLY :: byte where "ARP_REPLY = 2"
definition NUM_ARP_ENTRIES :: nat where "NUM_ARP_ENTRIES = 8"

definition arp_packet :: "byte list" where
  "arp_packet = [0x00, 0x01, 0x08, 0x00, 0x06, 0x04, 0x00, 0x01] @ replicate 20 0"

definition init_arp_table :: "net \<Rightarrow> net" where
  "init_arp_table s = s\<lparr>arp_table := map (\<lambda>e. e\<lparr>arp_valid := False\<rparr>) (arp_table s)\<rparr>"

fun next_arp_loop :: "nat \<Rightarrow> nat \<Rightarrow> busw \<Rightarrow> arp_table_entry list \<Rightarrow> nat" where
  "next_arp_loop eid eldest oldage [] = eldest"
| "next_arp_loop eid eldest oldage (e # es) =
     (if \<not> arp_valid e then eid
      else if arp_age e > oldage then next_arp_loop (eid + 1) eid (arp_age e) es
      else next_arp_loop (eid + 1) eldest oldage es)"

definition get_next_arp_index :: "arp_table_entry list \<Rightarrow> nat" where
  "get_next_arp_index table = next_arp_loop 0 0 0 table"

definition new_arp :: "(net, nat) call" where
  "new_arp = new_ethpkt 28"

text \<open>The request and the reply differ in the operation, the target hardware address and where
  they are sent.\<close>

definition arp_body :: "byte \<Rightarrow> u64 \<Rightarrow> busw \<Rightarrow> u64 \<Rightarrow> busw \<Rightarrow> byte list" where
  "arp_body op smac sip dmac dip =
     take 7 arp_packet @ [op] @
     [oct 40 smac, oct 32 smac, oct 24 smac, oct 16 smac, oct 8 smac, oct 0 smac,
      oct 24 sip, oct 16 sip, oct 8 sip, oct 0 sip,
      oct 40 dmac, oct 32 dmac, oct 24 dmac, oct 16 dmac, oct 8 dmac, oct 0 dmac,
      oct 24 dip, oct 16 dip, oct 8 dip, oct 0 dip]"

definition send_arp_request :: "busw \<Rightarrow> (net, unit) call" where
  "send_arp_request ipaddr =
     bindE new_arp (\<lambda>p.
     bindE (\<lambda>s. user_put p 0 (arp_body ARP_REQUEST (my_mac_addr s) (my_ip_addr s) 0 ipaddr) s) (\<lambda>_.
     bindE (modifyE (\<lambda>s. s\<lparr>arp_requests_sent := arp_requests_sent s + 1\<rparr>)) (\<lambda>_.
       tx_ethpkt p ETHERTYPE_ARP 0x0ffffffffffff)))"

definition send_arp_reply :: "u64 \<Rightarrow> busw \<Rightarrow> (net, unit) call" where
  "send_arp_reply dest_mac_addr dest_ip_addr =
     bindE new_arp (\<lambda>p.
     bindE (\<lambda>s. user_put p 0 (arp_body ARP_REPLY (my_mac_addr s) (my_ip_addr s) dest_mac_addr dest_ip_addr) s) (\<lambda>_.
       tx_ethpkt p ETHERTYPE_ARP dest_mac_addr))"

text \<open>The search through the table also ages the entries it passes.\<close>

fun arp_search :: "busw \<Rightarrow> busw \<Rightarrow> arp_table_entry list \<Rightarrow> u64 option \<times> arp_table_entry list" where
  "arp_search ip oldage [] = (None, [])"
| "arp_search ip oldage (e # es) =
     (if arp_valid e then
        (if arp_ip e = ip then (Some (arp_mac e), e\<lparr>arp_age := 0\<rparr> # es)
         else if arp_age e > oldage then
           (let oldage = arp_age e; e = e\<lparr>arp_age := arp_age e + 1\<rparr>;
                e = (if (0x010000 :: busw) <=s oldage then e\<lparr>arp_valid := False\<rparr> else e);
                (r, es') = arp_search ip oldage es
            in (r, e # es'))
         else (let (r, es') = arp_search ip oldage es in (r, e\<lparr>arp_age := arp_age e + 1\<rparr> # es')))
      else (let (r, es') = arp_search ip oldage es in (r, e # es')))"

text \<open>\<open>arp_lookup\<close>: \<open>Some mac\<close> for the result 0.\<close>

definition arp_lookup :: "busw \<Rightarrow> (net, u64 option) call" where
  "arp_lookup ip s =
     (if ((ip XOR my_ip_addr s) AND my_ip_mask s \<noteq> 0 \<or> ip = my_ip_router s) \<and> router_mac_addr s \<noteq> 0
      then (Inr (Some (router_mac_addr s)), s)
      else (case arp_search ip 0 (arp_table s) of
              (Some m, t) \<Rightarrow> (Inr (Some m), s\<lparr>arp_table := t\<rparr>)
            | (None, t) \<Rightarrow> bindE (send_arp_request ip) (\<lambda>_. returnE None) (s\<lparr>arp_table := t\<rparr>)))"

text \<open>The new address of a known host goes to its first valid entry.\<close>

fun arp_update :: "busw \<Rightarrow> u64 \<Rightarrow> arp_table_entry list \<Rightarrow> arp_table_entry list" where
  "arp_update ip m [] = []"
| "arp_update ip m (e # es) =
     (if arp_valid e \<and> arp_ip e = ip then e\<lparr>arp_age := 0, arp_mac := m, arp_valid := True\<rparr> # es
      else e # arp_update ip m es)"

definition arp_insert :: "int \<Rightarrow> busw \<Rightarrow> u64 \<Rightarrow> arp_table_entry list \<Rightarrow> exn + arp_table_entry list" where
  "arp_insert eid0 ip m t =
     (let eid = get_next_arp_index t in
      if 0 \<le> eid0 \<and> nat eid0 < length t \<and> eid < length t then
        (let v = nat eid0;
             t = t[v := (t ! v)\<lparr>arp_valid := False\<rparr>];
             t = t[eid := (t ! eid)\<lparr>arp_age := 0, arp_ip := ip, arp_mac := m\<rparr>]
         in Inr (t[v := (t ! v)\<lparr>arp_valid := True\<rparr>]))
      else Inl BadPointer)"

definition arp_table_add :: "int \<Rightarrow> busw \<Rightarrow> u64 \<Rightarrow> (net, unit) call" where
  "arp_table_add eid0 ip m =
     bindE (modifyE (\<lambda>s. s\<lparr>arp_table_log := (arp_table_log s)[arp_logid s := (ip, m)],
                           arp_logid := (arp_logid s + 1) mod 32\<rparr>)) (\<lambda>_ s.
     if ip = my_ip_addr s then (Inr (), s)
     else if ip = my_ip_router s then (Inr (), s\<lparr>router_mac_addr := m\<rparr>)
     else bindE (arp_lookup ip) (\<lambda>r s.
       case r of
         Some lclmac \<Rightarrow> (Inr (), if m \<noteq> lclmac then s\<lparr>arp_table := arp_update ip m (arp_table s)\<rparr> else s)
       | None \<Rightarrow> bindE (liftE (arp_insert eid0 ip m (arp_table s))) (\<lambda>t. modifyE (\<lambda>s. s\<lparr>arp_table := t\<rparr>)) s) s)"

subsection \<open>ipproto.c\<close>

definition ip_headersize :: busw where
  "ip_headersize = 5 * 4"

definition new_ippkt :: "busw \<Rightarrow> (net, nat) call" where
  "new_ippkt ln = bindE (new_ethpkt (ln + 20)) (\<lambda>p. bindE (user_skip p 20) (\<lambda>_. returnE p))"

definition ip_set :: "nat \<Rightarrow> busw \<Rightarrow> busw \<Rightarrow> busw \<Rightarrow> (net, unit) call" where
  "ip_set p subproto src dest =
     bindE (get_pkt p) (\<lambda>k.
     bindE (user_put p 0 [0x45, 0x00, oct 8 (p_length k), oct 0 (p_length k)]) (\<lambda>_.
     bindE (modifyE (\<lambda>s. s\<lparr>ip_pktid := ip_pktid s + BIG_PRIME\<rparr>)) (\<lambda>_.
     bindE (\<lambda>s. user_put p 4
        [oct 8 (ip_pktid s), oct 0 (ip_pktid s), 0x00, 0x00, 0x80, ucast subproto, 0x00, 0x00,
         oct 24 src, oct 16 src, oct 8 src, oct 0 src,
         oct 24 dest, oct 16 dest, oct 8 dest, oct 0 dest] s) (\<lambda>_.
     bindE (user_block p) (\<lambda>b.
     bindE (liftE (ipcksum (unat ip_headersize) b)) (\<lambda>cksum.
       user_put p 10 [oct 8 cksum, oct 0 cksum]))))))"

text \<open>The prints of a packet.\<close>

definition dump_icmp :: "nat \<Rightarrow> (net, unit) call" where
  "dump_icmp p =
     bindE (user_get p 2) (\<lambda>a. bindE (user_get p 3) (\<lambda>b.
     let pktsum = be16 a b in
     bindE (user_put p 2 [0, 0]) (\<lambda>_.
     bindE (get_pkt p) (\<lambda>k. bindE (user_block p) (\<lambda>u.
     bindE (liftE (ipcksum (unat (p_length k)) u)) (\<lambda>cksum.
       user_put p 2 [oct 8 pktsum, oct 0 pktsum]))))))"

definition dump_ippkt :: "nat \<Rightarrow> (net, unit) call" where
  "dump_ippkt p =
     bindE (user_get p 0) (\<lambda>v.
     let ihl = int (unat (v AND 0x0f) * 4) in
     if v \<noteq> 0x45 then throwE Hang
     else bindE (user_get p 2) (\<lambda>l1. bindE (user_get p 3) (\<lambda>l0.
     bindE (get_pkt p) (\<lambda>k.
     if be16 l1 l0 > p_length k then returnE ()
     else bindE (user_get p 9) (\<lambda>proto.
     bindE (user_get p 10) (\<lambda>c1. bindE (user_get p 11) (\<lambda>c0.
     bindE (user_put p 10 [0, 0]) (\<lambda>_.
     bindE (user_block p) (\<lambda>u.
     bindE (liftE (ipcksum (nat ihl) u)) (\<lambda>calcsum.
     bindE (user_put p 10 [oct 8 (be16 c1 c0), oct 0 (be16 c1 c0)]) (\<lambda>_.
     bindE (user_skip p ihl) (\<lambda>_.
     bindE (whenE (ucast proto = IPPROTO_ICMP) (dump_icmp p)) (\<lambda>_.
       user_skip p (- ihl))))))))))))))"

definition dump_ethpkt :: "nat \<Rightarrow> (net, unit) call" where
  "dump_ethpkt p =
     bindE (pkt_reset (Some p)) (\<lambda>_.
     bindE (ethpkt_ethtype p) (\<lambda>t.
     whenE (t = ETHERTYPE_IP)
       (bindE (user_skip p 8) (\<lambda>_. bindE (dump_ippkt p) (\<lambda>_. user_skip p (- 8))))))"

definition tx_ippkt :: "nat \<Rightarrow> busw \<Rightarrow> busw \<Rightarrow> busw \<Rightarrow> (net, unit) call" where
  "tx_ippkt p subproto src dest =
     bindE (get_pkt p) (\<lambda>k.
     if p_user k < 20 + 8
     then bindE (dump_ippkt p) (\<lambda>_. bindE (free_pkt (Some p)) (\<lambda>_. modifyE (\<lambda>s. s\<lparr>gpio := 0x0100010\<rparr>)))
     else bindE (user_skip p (- uint ip_headersize)) (\<lambda>_.
          bindE (ip_set p subproto src dest) (\<lambda>_.
          bindE (arp_lookup dest) (\<lambda>r.
            case r of Some m \<Rightarrow> tx_ethpkt p ETHERTYPE_IP m | None \<Rightarrow> free_pkt (Some p)))))"

definition rx_ippkt :: "nat \<Rightarrow> (net, unit) call" where
  "rx_ippkt p = bindE (user_get p 0) (\<lambda>v. user_skip p (int (unat (v AND 0x0f) * 4)))"

definition user_be32 :: "nat \<Rightarrow> int \<Rightarrow> (net, busw) call" where
  "user_be32 p i =
     bindE (user_get p i) (\<lambda>a. bindE (user_get p (i + 1)) (\<lambda>b. bindE (user_get p (i + 2)) (\<lambda>c.
     bindE (user_get p (i + 3)) (\<lambda>d. returnE (be32 a b c d)))))"

definition ippkt_src :: "nat \<Rightarrow> (net, busw) call" where
  "ippkt_src p = user_be32 p 12"

definition ippkt_dst :: "nat \<Rightarrow> (net, busw) call" where
  "ippkt_dst p = user_be32 p 16"

definition ippkt_subproto :: "nat \<Rightarrow> (net, busw) call" where
  "ippkt_subproto p = bindE (user_get p 9) (\<lambda>v. returnE (ucast v))"

text \<open>The ARP packets that come in: the receiver needs the packet printer, which it uses for
  malformed ones.\<close>

fun arp_mismatch :: "nat \<Rightarrow> nat list \<Rightarrow> (net, bool) call" where
  "arp_mismatch p [] = returnE False"
| "arp_mismatch p (k # ks) =
     bindE (user_get p (int k)) (\<lambda>v. if v \<noteq> arp_packet ! k then returnE True else arp_mismatch p ks)"

definition rx_arp :: "int \<Rightarrow> nat \<Rightarrow> (net, unit) call" where
  "rx_arp eid0 p =
     bindE (arp_mismatch p [0..<6]) (\<lambda>bad.
     if bad
     then bindE (pkt_reset (Some p)) (\<lambda>_. bindE (dump_ethpkt p) (\<lambda>_. free_pkt (Some p)))
     else bindE (user_bytes p 18) (\<lambda>b.
       let src_mac = fold (\<lambda>x m. ucast x OR push_bit 8 m) (take 6 (drop 8 b)) 0;
           src_ip = be32 (b ! 14) (b ! 15) (b ! 16) (b ! 17)
       in bindE (if b ! 7 = 1 then send_arp_reply src_mac src_ip
                 else if b ! 7 = 2 then arp_table_add eid0 src_ip src_mac
                 else returnE ()) (\<lambda>_.
          free_pkt (Some p))))"

subsection \<open>icmp.c\<close>

definition new_icmp :: "busw \<Rightarrow> (net, nat) call" where
  "new_icmp ln = new_ippkt ln"

definition icmp_reply :: "busw \<Rightarrow> nat \<Rightarrow> (net, unit) call" where
  "icmp_reply ipaddr icmp_request =
     bindE (get_pkt icmp_request) (\<lambda>k.
     let pktln = (if p_length k <s 8 then 8 else p_length k) in
     bindE (user_get icmp_request 0) (\<lambda>t.
     if t \<noteq> ICMP_PING then returnE ()
     else if 1024 <=s pktln then returnE ()
     else bindE (new_icmp pktln) (\<lambda>p.
          bindE (user_bytes icmp_request (unat pktln)) (\<lambda>b.
          bindE (user_put p 0 b) (\<lambda>_.
          bindE (user_put p 0 [ICMP_ECHOREPLY, 0, 0, 0]) (\<lambda>_.
          bindE (get_pkt p) (\<lambda>k.
          bindE (user_block p) (\<lambda>u.
          bindE (liftE (ipcksum (unat (p_length k)) u)) (\<lambda>cksum.
          bindE (user_put p 2 [oct 8 cksum, oct 0 cksum]) (\<lambda>_ s.
            tx_ippkt p IPPROTO_ICMP (my_ip_addr s) ipaddr s))))))))))"

definition icmp_send_ping :: "busw \<Rightarrow> (net, unit) call" where
  "icmp_send_ping ping_ip_addr =
     bindE (new_icmp 8) (\<lambda>p.
     bindE (modifyE (\<lambda>s. s\<lparr>icmppkt_id := icmppkt_id s + (BIG_PRIME + push_bit 2 BIG_PRIME)\<rparr>)) (\<lambda>_.
     bindE (\<lambda>s. let i = icmppkt_id s in user_put p 0 [ICMP_PING, 0, 0, 0, oct 24 i, oct 16 i, oct 8 i, oct 0 i] s) (\<lambda>_.
     bindE (user_block p) (\<lambda>u.
     bindE (liftE (ipcksum 8 u)) (\<lambda>cksum.
     bindE (user_put p 2 [oct 8 cksum, oct 0 cksum]) (\<lambda>_.
     bindE (mod_pkt p (\<lambda>k. k\<lparr>p_length := 8\<rparr>)) (\<lambda>_ s.
       tx_ippkt p IPPROTO_ICMP (my_ip_addr s) ping_ip_addr s)))))))"

subsection \<open>udpproto.c\<close>

definition udp_headersize :: busw where
  "udp_headersize = 8"

text \<open>The function has no \<open>return\<close> statement; its result is not a value a caller can use.\<close>

definition new_udppkt :: "busw \<Rightarrow> (net, unit) call" where
  "new_udppkt len = bindE (new_ippkt (len + udp_headersize)) (\<lambda>p. user_skip p (uint udp_headersize))"

definition tx_udp :: "nat \<Rightarrow> busw \<Rightarrow> busw \<Rightarrow> busw \<Rightarrow> (net, unit) call" where
  "tx_udp p dest sport dport =
     bindE (user_skip p (- uint udp_headersize)) (\<lambda>_.
     bindE (get_pkt p) (\<lambda>k.
     bindE (user_put p 0 [oct 8 sport, oct 0 sport, oct 8 dport, oct 0 dport,
                          oct 8 (p_length k), oct 0 (p_length k), 0, 0]) (\<lambda>_ s.
       tx_ippkt p IPPROTO_UDP (my_ip_addr s) dest s)))"

definition udp_rx_length :: "busw \<Rightarrow> busw \<Rightarrow> busw" where
  "udp_rx_length ln len =
     (if ln \<le> 8 then 0 else if len > ln then ln - udp_headersize else len - udp_headersize)"

definition rx_udp :: "nat \<Rightarrow> (net, unit) call" where
  "rx_udp p =
     bindE (user_get p 4) (\<lambda>a. bindE (user_get p 5) (\<lambda>b.
     mod_pkt p (\<lambda>k. k\<lparr>p_user := p_user k + uint udp_headersize, p_length := udp_rx_length (be16 a b) (p_length k)\<rparr>)))"

definition udp_sport :: "nat \<Rightarrow> (net, busw) call" where
  "udp_sport p = bindE (user_get p 0) (\<lambda>a. bindE (user_get p 1) (\<lambda>b. returnE (be16 a b)))"

definition udp_dport :: "nat \<Rightarrow> (net, busw) call" where
  "udp_dport p = bindE (user_get p 2) (\<lambda>a. bindE (user_get p 3) (\<lambda>b. returnE (be16 a b)))"

definition dump_udppkt :: "nat \<Rightarrow> (net, unit) call" where
  "dump_udppkt p =
     bindE (user_get p 4) (\<lambda>a. bindE (user_get p 5) (\<lambda>b.
     bindE (user_put p 6 [0, 0]) (\<lambda>_.
     bindE (user_block p) (\<lambda>u.
     bindE (liftE (ipcksum (unat (be16 a b)) u)) (\<lambda>cksum.
       user_put p 6 [oct 8 cksum, oct 0 cksum])))))"

end
