(* ===== verification/NetPing.thy ===== *)
theory NetPing
  imports NetIp
begin

text \<open>
  The main loop of the ping test (\<open>src/sw/rv32/pingtest.c\<close>). One iteration is a function of the
  interrupt controller's value and the state; \<open>eid0\<close> is the uninitialised variable of
  \<open>arp_table_add\<close>.
\<close>

definition BUSPIC_TIMER :: busw where "BUSPIC_TIMER = push_bit 1 1"
definition BUSPIC_NETTX :: busw where "BUSPIC_NETTX = push_bit 6 1"
definition BUSPIC_NETRX :: busw where "BUSPIC_NETRX = push_bit 7 1"
definition DEFAULT_ROUTERIP :: busw where "DEFAULT_ROUTERIP = 0xc0a80f01"

definition buspic_write :: "busw \<Rightarrow> (net, unit) call" where
  "buspic_write v = modifyE (\<lambda>s. s\<lparr>buspic_log := buspic_log s @ [v]\<rparr>)"

definition ping_timer :: "(net, unit) call" where
  "ping_timer =
     bindE (modifyE (\<lambda>s. s\<lparr>now := now s + 1\<rparr>)) (\<lambda>_.
     bindE (\<lambda>s. whenE (now s - lastping s \<ge> 20 \<and> waiting_pkt s = None)
                  (bindE (icmp_send_ping DEFAULT_ROUTERIP) (\<lambda>_. modifyE (\<lambda>s. s\<lparr>lastping := now s\<rparr>))) s) (\<lambda>_.
     bindE (modifyE (\<lambda>s. if now s - lasthello s \<ge> 3000 then s\<lparr>lasthello := now s\<rparr> else s)) (\<lambda>_.
       buspic_write BUSPIC_TIMER)))"

definition ping_ip :: "nat \<Rightarrow> (net, unit) call" where
  "ping_ip rcvd =
     bindE (rx_ethpkt rcvd) (\<lambda>_.
     bindE (ippkt_src rcvd) (\<lambda>ipsrc.
     bindE (ippkt_dst rcvd) (\<lambda>ipdst.
     bindE (ippkt_subproto rcvd) (\<lambda>subproto.
     bindE (rx_ippkt rcvd) (\<lambda>_ s.
       if ipdst = my_ip_addr s then
         (if subproto = IPPROTO_ICMP
          then bindE (user_get rcvd 0) (\<lambda>t.
               bindE (whenE (t = ICMP_PING) (icmp_reply ipsrc rcvd)) (\<lambda>_.
                 free_pkt (Some rcvd))) s
          else bindE (pkt_reset (Some rcvd)) (\<lambda>_. bindE (dump_ethpkt rcvd) (\<lambda>_. free_pkt (Some rcvd))) s)
       else (Inr (), s))))))"

definition ping_dispatch :: "int \<Rightarrow> nat \<Rightarrow> (net, unit) call" where
  "ping_dispatch eid0 rcvd =
     bindE (mod_pkt rcvd (\<lambda>k. k\<lparr>p_usage_count := p_usage_count k + 1\<rparr>)) (\<lambda>_.
     bindE (ethpkt_ethtype rcvd) (\<lambda>t.
     bindE (if t = ETHERTYPE_ARP then bindE (rx_ethpkt rcvd) (\<lambda>_. rx_arp eid0 rcvd)
            else if t = ETHERTYPE_IP then ping_ip rcvd
            else bindE (pkt_reset (Some rcvd)) (\<lambda>_. bindE (dump_ethpkt rcvd) (\<lambda>_. free_pkt (Some rcvd)))) (\<lambda>_.
       free_pkt (Some rcvd))))"

definition ping_rx :: "int \<Rightarrow> (net, unit) call" where
  "ping_rx eid0 =
     bindE rx_pkt (\<lambda>rcvd.
     bindE (buspic_write BUSPIC_NETRX) (\<lambda>_.
       case rcvd of None \<Rightarrow> returnE () | Some p \<Rightarrow> ping_dispatch eid0 p))"

definition ping_tx :: "(net, unit) call" where
  "ping_tx s =
     (case waiting_pkt s of
        None \<Rightarrow> (Inr (), s)
      | Some pkt \<Rightarrow> bindE (tx_pkt pkt) (\<lambda>_. buspic_write BUSPIC_NETTX) (s\<lparr>waiting_pkt := None\<rparr>))"

definition ping_iteration :: "int \<Rightarrow> busw \<Rightarrow> (net, unit) call" where
  "ping_iteration eid0 pic =
     bindE (whenE (pic AND BUSPIC_TIMER \<noteq> 0) ping_timer) (\<lambda>_.
     bindE (\<lambda>s. if pic AND BUSPIC_NETRX \<noteq> 0 then ping_rx eid0 s
                else if n_rxcmd s AND ENET_RXCLRERR \<noteq> 0
                then (Inr (), s\<lparr>rxcmd_log := rxcmd_log s @ [ENET_RXCLRERR OR ENET_RXCLR]\<rparr>)
                else (Inr (), s)) (\<lambda>_.
       whenE (pic AND BUSPIC_NETTX \<noteq> 0) ping_tx))"

end
