(* ===== verification/NetSend.thy ===== *)
theory NetSend
  imports NetPing
begin

text \<open>
  What the network programs put on the wire: the headers that the layers push in front of a
  payload, and the frames that leave the device.
\<close>

subsection \<open>A packet as headers and payload\<close>

lemma put_pkt_simps [simp]:
  "heap (put_pkt p k s) p = Some k" "put_pkt p k (put_pkt p k' s) = put_pkt p k s"
  "q \<noteq> p \<Longrightarrow> heap (put_pkt p k s) q = heap s q"
  "brk (put_pkt p k s) = brk s" "junk (put_pkt p k s) = junk s" "n_txcmd (put_pkt p k s) = n_txcmd s"
  "n_rxcmd (put_pkt p k s) = n_rxcmd s" "sent (put_pkt p k s) = sent s" "arp_table (put_pkt p k s) = arp_table s"
  "my_ip_addr (put_pkt p k s) = my_ip_addr s" "my_ip_mask (put_pkt p k s) = my_ip_mask s"
  "my_ip_router (put_pkt p k s) = my_ip_router s" "router_mac_addr (put_pkt p k s) = router_mac_addr s"
  "my_mac_addr (put_pkt p k s) = my_mac_addr s" "ip_pktid (put_pkt p k s) = ip_pktid s"
  "waiting_pkt (put_pkt p k s) = waiting_pkt s" "netbrx (put_pkt p k s) = netbrx s"
  by (simp_all add: put_pkt_def)

definition mkpkt :: "int \<Rightarrow> busw \<Rightarrow> busw \<Rightarrow> byte list \<Rightarrow> byte list \<Rightarrow> net_packet" where
  "mkpkt c rl l h b = \<lparr>p_usage_count = c, p_rawlen = rl, p_length = l, p_raw = h @ b, p_user = int (length h)\<rparr>"

lemma mkpkt_sel [simp]:
  "p_usage_count (mkpkt c rl l h b) = c" "p_rawlen (mkpkt c rl l h b) = rl" "p_length (mkpkt c rl l h b) = l"
  "p_raw (mkpkt c rl l h b) = h @ b" "p_user (mkpkt c rl l h b) = int (length h)"
  by (simp_all add: mkpkt_def)

lemma get_pkt_ok: "heap s p = Some k \<Longrightarrow> get_pkt p s = (Inr k, s)"
  by (simp add: get_pkt_def)

lemma user_put_mkpkt:
  assumes "heap s p = Some (mkpkt c rl l h b)" and "i + length vs \<le> length b"
  shows "user_put p (int i) vs s = (Inr (), put_pkt p (mkpkt c rl l h (take i b @ vs @ drop (i + length vs) b)) s)"
  using assms
  by (simp add: user_put_def bindE_def get_pkt_ok Let_def store_at_def call_defs nat_add_distrib mkpkt_def)

lemma user_put_front:
  assumes "heap s p = Some (mkpkt c rl l h (vs @ b))" and "length us = length vs"
  shows "user_put p 0 us s = (Inr (), put_pkt p (mkpkt c rl l h (us @ b)) s)"
  using user_put_mkpkt [of s p c rl l h "vs @ b" 0 us] assms by simp

text \<open>Moving the user pointer back over the last \<open>n\<close> bytes in front of it.\<close>

lemma user_skip_back:
  assumes "heap s p = Some (mkpkt c rl l (h @ x) b)"
  shows "user_skip p (- int (length x)) s = (Inr (), put_pkt p (mkpkt c rl (l + of_nat (length x)) h (x @ b)) s)"
  using assms by (simp add: user_skip_def mod_pkt_def bindE_def get_pkt_ok modifyE_def mkpkt_def)

lemma user_skip_forward:
  assumes "heap s p = Some (mkpkt c rl l h (x @ b))"
  shows "user_skip p (int (length x)) s = (Inr (), put_pkt p (mkpkt c rl (l - of_nat (length x)) (h @ x) b) s)"
  using assms by (simp add: user_skip_def mod_pkt_def bindE_def get_pkt_ok modifyE_def mkpkt_def)

lemma user_block_mkpkt: "heap s p = Some (mkpkt c rl l h b) \<Longrightarrow> user_block p s = (Inr b, s)"
  by (simp add: user_block_def bindE_def get_pkt_ok returnE_def)

lemma user_bytes_mkpkt:
  "heap s p = Some (mkpkt c rl l h b) \<Longrightarrow> n \<le> length b \<Longrightarrow> user_bytes p n s = (Inr (take n b), s)"
  by (simp add: user_bytes_def bindE_def user_block_mkpkt returnE_def)

lemma user_get_mkpkt:
  "heap s p = Some (mkpkt c rl l h b) \<Longrightarrow> i < length b \<Longrightarrow> user_get p (int i) s = (Inr (b ! i), s)"
  by (simp add: user_get_def bindE_def get_pkt_ok Let_def returnE_def nth_append nat_add_distrib)

lemma free_pkt_last:
  assumes "heap s p = Some k" and "p_usage_count k = 1"
  shows "free_pkt (Some p) s = (Inr (), s\<lparr>heap := (heap s)(p := None)\<rparr>)"
  using assms
  by (simp add: free_pkt_def bindE_def mod_pkt_def get_pkt_ok modifyE_def get_pkt_def put_pkt_def whenE_def)

lemma free_pkt_shared:
  assumes "heap s p = Some k" and "p_usage_count k > 1"
  shows "free_pkt (Some p) s = (Inr (), put_pkt p (k\<lparr>p_usage_count := p_usage_count k - 1\<rparr>) s)"
  using assms
  by (simp add: free_pkt_def bindE_def mod_pkt_def get_pkt_ok modifyE_def get_pkt_def put_pkt_def whenE_def returnE_def)

subsection \<open>Headers\<close>

definition eth_header :: "u64 \<Rightarrow> busw \<Rightarrow> byte list" where
  "eth_header m t = [oct 40 m, oct 32 m, oct 24 m, oct 16 m, oct 8 m, oct 0 m, oct 8 t, oct 0 t]"

definition ip_header0 :: "busw \<Rightarrow> busw \<Rightarrow> busw \<Rightarrow> busw \<Rightarrow> busw \<Rightarrow> byte list" where
  "ip_header0 len i proto src dest =
     [0x45, 0x00, oct 8 len, oct 0 len, oct 8 i, oct 0 i, 0x00, 0x00, 0x80, ucast proto, 0x00, 0x00,
      oct 24 src, oct 16 src, oct 8 src, oct 0 src, oct 24 dest, oct 16 dest, oct 8 dest, oct 0 dest]"

definition ip_header :: "busw \<Rightarrow> busw \<Rightarrow> busw \<Rightarrow> busw \<Rightarrow> busw \<Rightarrow> byte list" where
  "ip_header len i proto src dest =
     (let h = ip_header0 len i proto src dest; c = (of_nat (65535 - ones_rep (halves_sum h)) :: busw)
      in take 10 h @ [oct 8 c, oct 0 c] @ drop 12 h)"

lemma length_headers [simp]: "length (eth_header m t) = 8" "length (ip_header0 len i proto src dest) = 20"
  "length (ip_header len i proto src dest) = 20"
  by (simp_all add: eth_header_def ip_header0_def ip_header_def Let_def)

text \<open>The header that is sent verifies.\<close>

lemma ip_header_verifies: "ipcksum 20 (ip_header len i proto src dest) = Inr 0"
proof -
  let ?h = "ip_header0 len i proto src dest"
  let ?c = "of_nat (65535 - ones_rep (halves_sum ?h)) :: busw"
  have c: "ipcksum 20 ?h = Inr ?c" using ipcksum_ref [of 20 ?h] by simp
  have h: "take 10 ?h @ [0, 0] @ drop 12 ?h = ?h" by (simp add: ip_header0_def)
  have l: "length (take 10 ?h) + 2 + length (drop 12 ?h) = 20" by simp
  show ?thesis
    using ipcksum_field [of "take 10 ?h" "drop 12 ?h" ?c, unfolded l h] c
    by (simp add: ip_header_def Let_def oct_def)
qed

lemma ip_set_mkpkt:
  assumes "heap s p = Some (mkpkt c rl l h (x @ b))" and "length x = 20"
  shows "ip_set p proto src dest s =
    (Inr (), put_pkt p (mkpkt c rl l h (ip_header l (ip_pktid s + BIG_PRIME) proto src dest @ b))
       (s\<lparr>ip_pktid := ip_pktid s + BIG_PRIME\<rparr>))"
proof -
  let ?i = "ip_pktid s + BIG_PRIME" and ?s = "s\<lparr>ip_pktid := ip_pktid s + BIG_PRIME\<rparr>"
  let ?h0 = "ip_header0 l ?i proto src dest"
  let ?c = "of_nat (65535 - ones_rep (halves_sum ?h0)) :: busw"
  have comm: "put_pkt p k (s\<lparr>ip_pktid := v\<rparr>) = (put_pkt p k s)\<lparr>ip_pktid := v\<rparr>" for k v by (simp add: put_pkt_def)
  have p1: "user_put p 0 [0x45, 0x00, oct 8 l, oct 0 l] s =
      (Inr (), put_pkt p (mkpkt c rl l h (take 4 ?h0 @ drop 4 x @ b)) s)"
    using user_put_mkpkt [OF assms(1), of 0 "[0x45, 0x00, oct 8 l, oct 0 l]"] assms(2) by (simp add: ip_header0_def eval_nat_numeral)
  have td: "take 4 ?h0 @ drop 4 ?h0 @ b = ?h0 @ b" by (simp flip: append_assoc)
  have p2: "user_put p 4 (drop 4 ?h0) (put_pkt p (mkpkt c rl l h (take 4 ?h0 @ drop 4 x @ b)) ?s) =
      (Inr (), put_pkt p (mkpkt c rl l h (?h0 @ b)) ?s)"
    using user_put_mkpkt [of "put_pkt p (mkpkt c rl l h (take 4 ?h0 @ drop 4 x @ b)) ?s" p c rl l h "take 4 ?h0 @ drop 4 x @ b" 4 "drop 4 ?h0"]
      assms(2) td by simp
  have d4: "drop 4 ?h0 = [oct 8 ?i, oct 0 ?i, 0x00, 0x00, 0x80, ucast proto, 0x00, 0x00,
         oct 24 src, oct 16 src, oct 8 src, oct 0 src, oct 24 dest, oct 16 dest, oct 8 dest, oct 0 dest]"
    by (simp add: ip_header0_def)
  have cs: "ipcksum (unat ip_headersize) (?h0 @ b) = Inr ?c" using ipcksum_ref [of 20 "?h0 @ b"] by (simp add: ip_headersize_def)
  have p3: "user_put p 10 [oct 8 ?c, oct 0 ?c] (put_pkt p (mkpkt c rl l h (?h0 @ b)) ?s) =
      (Inr (), put_pkt p (mkpkt c rl l h (ip_header l ?i proto src dest @ b)) ?s)"
    using user_put_mkpkt [of "put_pkt p (mkpkt c rl l h (?h0 @ b)) ?s" p c rl l h "?h0 @ b" 10 "[oct 8 ?c, oct 0 ?c]"]
    by (simp add: ip_header_def Let_def)
  show ?thesis
    using assms(1) p1 p2 [unfolded d4] cs p3
    by (simp add: ip_set_def bindE_def get_pkt_ok modifyE_def comm [symmetric] user_block_mkpkt liftE_def)
qed

text \<open>Sending a packet when the transmitter is idle.\<close>

lemma tx_pkt_idle:
  assumes "heap s p = Some (mkpkt 1 rl l h b)" and "unat l \<le> length b" and "n_txcmd s AND ENET_TXBUSY = 0"
  shows "\<exists>s'. tx_pkt p s = (Inr (), s') \<and> sent s' = sent s @ [(ENET_TXGO OR l OR ENET_NOHWIPCHK, take (unat l) b)] \<and>
    heap s' = (heap s)(p := None)"
proof -
  let ?t = "s\<lparr>sent := sent s @ [(ENET_TXGO OR l OR ENET_NOHWIPCHK, take (unat l) b)], n_txcmd := ENET_TXGO OR l OR ENET_NOHWIPCHK\<rparr>"
  have "free_pkt (Some p) ?t = (Inr (), ?t\<lparr>heap := (heap ?t)(p := None)\<rparr>)"
    by (rule free_pkt_last [of _ _ "mkpkt 1 rl l h b"]) (use assms(1) in simp_all)
  then show ?thesis
    using assms by (simp add: tx_pkt_def bindE_def get_pkt_ok user_bytes_mkpkt modifyE_def Let_def)
qed

lemma tx_ethpkt_idle:
  assumes "heap s p = Some (mkpkt 1 rl l (h @ x) b)" and "length x = 8" and "unat l \<le> length b" and "unat l + 8 < 2 ^ 32"
    and "n_txcmd s AND ENET_TXBUSY = 0"
  shows "\<exists>s'. tx_ethpkt p t m s = (Inr (), s') \<and>
    sent s' = sent s @ [(ENET_TXGO OR (l + 8) OR ENET_NOHWIPCHK, eth_header m t @ take (unat l) b)] \<and>
    heap s' = (heap s)(p := None)"
proof -
  let ?s = "put_pkt p (mkpkt 1 rl (l + 8) h (eth_header m t @ b)) s"
  have a: "user_skip p (- 8) s = (Inr (), put_pkt p (mkpkt 1 rl (l + 8) h (x @ b)) s)"
    using user_skip_back [OF assms(1)] assms(2) by simp
  have b: "user_put p 0 (eth_header m t) (put_pkt p (mkpkt 1 rl (l + 8) h (x @ b)) s) = (Inr (), ?s)"
    using user_put_front [of "put_pkt p (mkpkt 1 rl (l + 8) h (x @ b)) s" p 1 rl "l + 8" h x b "eth_header m t"] assms(2) by simp
  have u: "unat (l + 8) = unat l + 8" using assms(4) by (simp add: unat_word_ariths(1))
  obtain s' where "tx_pkt p ?s = (Inr (), s')"
    "sent s' = sent s @ [(ENET_TXGO OR (l + 8) OR ENET_NOHWIPCHK, eth_header m t @ take (unat l) b)]"
    "heap s' = (heap ?s)(p := None)"
    using tx_pkt_idle [of ?s p rl "l + 8" h "eth_header m t @ b"] assms(3,5) u by auto
  then show ?thesis using a b
    by (auto simp: tx_ethpkt_def bindE_def eth_headersize_def eth_header_def put_pkt_def)
qed

text \<open>The hardware address a destination resolves to, without a change of the table.\<close>

definition arp_known :: "net \<Rightarrow> busw \<Rightarrow> u64 \<Rightarrow> bool" where
  "arp_known s ip m \<longleftrightarrow> (\<exists>t. arp_lookup ip s = (Inr (Some m), s\<lparr>arp_table := t\<rparr>))"

lemma arp_lookup_known:
  assumes "arp_known s ip m" and "arp_table s' = arp_table s" "my_ip_addr s' = my_ip_addr s" "my_ip_mask s' = my_ip_mask s"
    "my_ip_router s' = my_ip_router s" "router_mac_addr s' = router_mac_addr s"
  shows "\<exists>t. arp_lookup ip s' = (Inr (Some m), s'\<lparr>arp_table := t\<rparr>)"
proof (cases "((ip XOR my_ip_addr s) AND my_ip_mask s \<noteq> 0 \<or> ip = my_ip_router s) \<and> router_mac_addr s \<noteq> 0")
  case True
  then have "m = router_mac_addr s" using assms(1) by (simp add: arp_known_def arp_lookup_def)
  moreover have "arp_lookup ip s' = (Inr (Some (router_mac_addr s')), s'\<lparr>arp_table := arp_table s'\<rparr>)"
    using True assms(2-) by (simp add: arp_lookup_def)
  ultimately show ?thesis using assms(2-) by metis
next
  case False
  obtain r t where r: "arp_search ip 0 (arp_table s) = (r, t)" by fastforce
  have "r = Some m"
  proof (cases r)
    case None
    then have "arp_lookup ip s = bindE (send_arp_request ip) (\<lambda>_. returnE None) (s\<lparr>arp_table := t\<rparr>)"
      using r False by (auto simp: arp_lookup_def)
    then have False using assms(1) unfolding arp_known_def by (simp add: bindE_eq_Inr_iff returnE_def)
    then show ?thesis ..
  next
    case (Some a)
    then have "arp_lookup ip s = (Inr (Some a), s\<lparr>arp_table := t\<rparr>)"
      using r False by (auto simp: arp_lookup_def)
    then show ?thesis using assms(1) Some unfolding arp_known_def by simp
  qed
  then have "arp_lookup ip s' = (Inr (Some m), s'\<lparr>arp_table := t\<rparr>)"
    unfolding arp_lookup_def assms(2-) if_not_P [OF False] using r by simp
  then show ?thesis by blast
qed

lemma tx_ippkt_known:
  assumes "heap s p = Some (mkpkt 1 rl l (h @ x @ y) b)" and "length x = 8" and "length y = 20"
    and "unat l \<le> length b" and "unat l + 28 < 2 ^ 32" and "n_txcmd s AND ENET_TXBUSY = 0" and "arp_known s dest m"
  shows "\<exists>s'. tx_ippkt p proto src dest s = (Inr (), s') \<and>
    sent s' = sent s @ [(ENET_TXGO OR (l + 28) OR ENET_NOHWIPCHK,
      eth_header m ETHERTYPE_IP @ ip_header (l + 20) (ip_pktid s + BIG_PRIME) proto src dest @ take (unat l) b)] \<and>
    heap s' = (heap s)(p := None)"
proof -
  let ?hd = "ip_header (l + 20) (ip_pktid s + BIG_PRIME) proto src dest"
  let ?s1 = "put_pkt p (mkpkt 1 rl (l + 20) (h @ x) (y @ b)) s"
  let ?s2 = "put_pkt p (mkpkt 1 rl (l + 20) (h @ x) (?hd @ b)) (s\<lparr>ip_pktid := ip_pktid s + BIG_PRIME\<rparr>)"
  have a: "user_skip p (- 20) s = (Inr (), ?s1)"
    using user_skip_back [of s p 1 rl l "h @ x" y b] assms(1,3) by simp
  have b: "ip_set p proto src dest ?s1 = (Inr (), ?s2)"
    using ip_set_mkpkt [of ?s1 p 1 rl "l + 20" "h @ x" y b proto src dest] assms(3) by (simp add: put_pkt_def)
  obtain t where c: "arp_lookup dest ?s2 = (Inr (Some m), ?s2\<lparr>arp_table := t\<rparr>)"
    using arp_lookup_known [OF assms(7), of ?s2] by auto
  have u: "unat (l + 20) = unat l + 20" using assms(5) by (simp add: unat_word_ariths(1))
  have hp: "heap (?s2\<lparr>arp_table := t\<rparr>) p = Some (mkpkt 1 rl (l + 20) (h @ x) (?hd @ b))" by (simp add: put_pkt_def)
  obtain s' where "tx_ethpkt p ETHERTYPE_IP m (?s2\<lparr>arp_table := t\<rparr>) = (Inr (), s')"
    "sent s' = sent s @ [(ENET_TXGO OR (l + 20 + 8) OR ENET_NOHWIPCHK, eth_header m ETHERTYPE_IP @ take (unat l + 20) (?hd @ b))]"
    "heap s' = (heap s)(p := None)"
    using tx_ethpkt_idle [OF hp assms(2), of ETHERTYPE_IP m] assms(4-6) u by (auto simp: put_pkt_def)
  then show ?thesis using assms(1,2,3) a b c
    by (auto simp: tx_ippkt_def bindE_def get_pkt_ok ip_headersize_def add.assoc)
qed

subsection \<open>Reading the headers back\<close>

lemma ip_header_list:
  "\<exists>c :: busw. ip_header len i proto src dest =
     [0x45, 0x00, oct 8 len, oct 0 len, oct 8 i, oct 0 i, 0x00, 0x00, 0x80, ucast proto, oct 8 c, oct 0 c,
      oct 24 src, oct 16 src, oct 8 src, oct 0 src, oct 24 dest, oct 16 dest, oct 8 dest, oct 0 dest]"
  by (rule exI [of _ "of_nat (65535 - ones_rep (halves_sum (ip_header0 len i proto src dest)))"])
    (simp add: ip_header_def ip_header0_def Let_def)

lemma bit_oct: "bit (oct k w) n \<longleftrightarrow> n < 8 \<and> bit w (k + n)"
proof -
  have "w' AND 0xff = take_bit 8 w'" for w' :: "'a word" by (simp add: take_bit_eq_mask mask_eq_exp_minus_1)
  then show ?thesis using bit_imp_le_length [of w "k + n"] by (auto simp: oct_def bit_simps)
qed

lemma be32_oct: "be32 (oct 24 w) (oct 16 w) (oct 8 w) (oct 0 w) = w"
proof (rule bit_word_eqI)
  fix n assume "n < LENGTH(32)"
  then show "bit (be32 (oct 24 w) (oct 16 w) (oct 8 w) (oct 0 w)) n = bit w n"
    unfolding be32_def by (cases "n < 8"; cases "n < 16"; cases "n < 24") (auto simp: bit_simps bit_oct not_less)
qed

lemma be16_oct: "be16 (oct 8 w) (oct 0 w) = w AND 0xffff" for w :: busw
proof -
  have m: "w AND 0xffff = take_bit 16 w" by (simp add: take_bit_eq_mask mask_eq_exp_minus_1)
  show ?thesis unfolding m
  proof (rule bit_word_eqI)
    fix n assume "n < LENGTH(32)"
    then show "bit (be16 (oct 8 w) (oct 0 w)) n = bit (take_bit 16 w) n"
      unfolding be16_def by (cases "n < 8"; cases "n < 16") (auto simp: bit_simps bit_oct not_less)
  qed
qed

lemma mac_oct:
  fixes m :: u64
  assumes "m < 2 ^ 48"
  shows "fold (\<lambda>x m. ucast x OR push_bit 8 m) [oct 40 m, oct 32 m, oct 24 m, oct 16 m, oct 8 m, oct 0 m] 0 = m"
proof -
  have "take_bit 48 m = m" 
    using assms by (simp add: word_unat_eq_iff unsigned_take_bit_eq take_bit_nat_eq_self word_less_nat_alt)
  then have hi: "bit m n \<Longrightarrow> n < 48" for n by (metis bit_take_bit_iff)
  show ?thesis
  proof (rule bit_word_eqI)
    fix n assume "n < LENGTH(64)"
    then show "bit (fold (\<lambda>x m. ucast x OR push_bit 8 m) [oct 40 m, oct 32 m, oct 24 m, oct 16 m, oct 8 m, oct 0 m] (0 :: u64)) n = bit m n"
      using hi [of n] by (cases "n < 8"; cases "n < 16"; cases "n < 24"; cases "n < 32"; cases "n < 40"; cases "n < 48")
        (auto simp: bit_simps bit_oct not_less)
  qed
qed

text \<open>What the receiving functions look at in an IP header: its length, which may include options, the protocol and the two addresses.
  The type of service, the identifier, the flags, the time to live and the checksum are not looked at.\<close>

definition ip_fields :: "byte list \<Rightarrow> busw \<Rightarrow> busw \<Rightarrow> busw \<Rightarrow> bool" where
  "ip_fields h proto src dest \<longleftrightarrow> 20 \<le> length h \<and> length h = unat (h ! 0 AND 0x0f) * 4 \<and> ucast (h ! 9) = proto \<and>
     be32 (h ! 12) (h ! 13) (h ! 14) (h ! 15) = src \<and> be32 (h ! 16) (h ! 17) (h ! 18) (h ! 19) = dest"

lemma ip_header_fields: "ip_fields (ip_header il i proto src dest) (proto AND 0xff) src dest"
proof -
  obtain cs :: busw where ih: "ip_header il i proto src dest =
      [0x45, 0x00, oct 8 il, oct 0 il, oct 8 i, oct 0 i, 0x00, 0x00, 0x80, ucast proto, oct 8 cs, oct 0 cs,
       oct 24 src, oct 16 src, oct 8 src, oct 0 src, oct 24 dest, oct 16 dest, oct 8 dest, oct 0 dest]"
    using ip_header_list by blast
  have "ucast (ucast proto :: byte) = proto AND 0xff"
    by (rule bit_word_eqI) (unfold bit_unsigned_iff bit_and_iff bit_ff, auto)
  then show ?thesis by (simp add: ip_fields_def ih be32_oct)
qed

text \<open>A packet that starts with the two headers, seen by the receiving functions.\<close>

lemma receive_eth:
  assumes "heap r q = Some (mkpkt c rl len [] (eth_header m t @ h @ b))" and "m < 2 ^ 48" and "t < 2 ^ 16"
  shows "ethpkt_ethtype q r = (Inr t, r)" "ethpkt_mac q r = (Inr m, r)"
    "rx_ethpkt q r = (Inr (), put_pkt q (mkpkt c rl (len - 8) (eth_header m t) (h @ b)) r)"
proof -
  have tt: "t AND 0xffff = t"
  proof -
    have "unat t < 65536" using assms(3) by (simp add: word_less_nat_alt)
    then show ?thesis by (simp add: word_unat_eq_iff unat_and_ffff)
  qed
  have g: "user_get q (int n) r = (Inr ((eth_header m t @ h @ b) ! n), r)" if "n < 8" for n
    by (rule user_get_mkpkt [OF assms(1)]) (use that in simp)
  show "ethpkt_ethtype q r = (Inr t, r)"
    using g [of 6] g [of 7] be16_oct [of t] tt by (simp add: ethpkt_ethtype_def bindE_def returnE_def eth_header_def)
  show "ethpkt_mac q r = (Inr m, r)"
    using user_bytes_mkpkt [OF assms(1), of 6] mac_oct [OF assms(2)]
    by (simp add: ethpkt_mac_def bindE_def returnE_def eth_header_def)
  show "rx_ethpkt q r = (Inr (), put_pkt q (mkpkt c rl (len - 8) (eth_header m t) (h @ b)) r)"
    using user_skip_forward [OF assms(1)] by (simp add: rx_ethpkt_def)
qed

lemma receive_ip:
  assumes "heap r q = Some (mkpkt c rl len e (h @ b))" and "ip_fields h proto src dest"
  shows "ippkt_src q r = (Inr src, r)" "ippkt_dst q r = (Inr dest, r)" "ippkt_subproto q r = (Inr proto, r)"
    "rx_ippkt q r = (Inr (), put_pkt q (mkpkt c rl (len - of_nat (length h)) (e @ h) b) r)"
proof -
  have len: "20 \<le> length h" and l: "int (unat (h ! 0 AND 0x0f) * 4) = int (length h)" using assms(2) by (simp_all add: ip_fields_def)
  have g: "user_get q (int n) r = (Inr (h ! n), r)" if "n < 20" for n
    using user_get_mkpkt [OF assms(1), of n] that len by (simp add: nth_append)
  show "ippkt_src q r = (Inr src, r)"
    using g [of 12] g [of 13] g [of 14] g [of 15] assms(2) by (simp add: ippkt_src_def user_be32_def bindE_def returnE_def ip_fields_def)
  show "ippkt_dst q r = (Inr dest, r)"
    using g [of 16] g [of 17] g [of 18] g [of 19] assms(2) by (simp add: ippkt_dst_def user_be32_def bindE_def returnE_def ip_fields_def)
  show "ippkt_subproto q r = (Inr proto, r)"
    using g [of 9] assms(2) by (simp add: ippkt_subproto_def bindE_def returnE_def ip_fields_def)
  show "rx_ippkt q r = (Inr (), put_pkt q (mkpkt c rl (len - of_nat (length h)) (e @ h) b) r)"
    using g [of 0] user_skip_forward [OF assms(1)] by (simp add: rx_ippkt_def bindE_def l del: of_nat_mult)
qed

lemma receive_headers:
  assumes "heap r q = Some (mkpkt c rl len [] (eth_header m t @ ip_header il i proto src dest @ b))" and "m < 2 ^ 48" and "t < 2 ^ 16"
  shows "ethpkt_ethtype q r = (Inr t, r)" "ethpkt_mac q r = (Inr m, r)"
    "\<exists>r'. rx_ethpkt q r = (Inr (), r') \<and> ippkt_src q r' = (Inr src, r') \<and> ippkt_dst q r' = (Inr dest, r') \<and>
       ippkt_subproto q r' = (Inr (proto AND 0xff), r') \<and>
       (\<exists>r''. rx_ippkt q r' = (Inr (), r'') \<and>
          heap r'' q = Some (mkpkt c rl (len - 28) (eth_header m t @ ip_header il i proto src dest) b))"
proof -
  let ?r' = "put_pkt q (mkpkt c rl (len - 8) (eth_header m t) (ip_header il i proto src dest @ b)) r"
  have "heap ?r' q = Some (mkpkt c rl (len - 8) (eth_header m t) (ip_header il i proto src dest @ b))" by simp
  from receive_ip [OF this ip_header_fields]
  show "\<exists>r'. rx_ethpkt q r = (Inr (), r') \<and> ippkt_src q r' = (Inr src, r') \<and> ippkt_dst q r' = (Inr dest, r') \<and>
       ippkt_subproto q r' = (Inr (proto AND 0xff), r') \<and>
       (\<exists>r''. rx_ippkt q r' = (Inr (), r'') \<and>
          heap r'' q = Some (mkpkt c rl (len - 28) (eth_header m t @ ip_header il i proto src dest) b))"
    using receive_eth(3) [OF assms] by (simp add: diff_diff_eq)
qed (rule receive_eth [OF assms])+

text \<open>C22: an IP packet with room for its headers, sent while the transmitter is idle to a host whose
  hardware address is known, leaves as one frame; the packet is freed. The checksum of the
  IP header in the frame verifies, and the receiving functions of the same program find in the
  frame the Ethernet type and address, the IP addresses, the protocol and the payload.\<close>

theorem ip_send_receive:
  assumes "heap s p = Some (mkpkt 1 rl l (h @ x @ y) b)" and "length x = 8" and "length y = 20"
    and "unat l = length b" and "length b + 28 < 2 ^ 14" and "n_txcmd s AND ENET_TXBUSY = 0" and "arp_known s dest m" and "m < 2 ^ 48"
  shows "\<exists>s' frame. tx_ippkt p proto src dest s = (Inr (), s') \<and> heap s' = (heap s)(p := None) \<and>
    sent s' = sent s @ [(ENET_TXGO OR (l + 28) OR ENET_NOHWIPCHK, frame)] \<and> length frame = length b + 28 \<and>
    ipcksum 20 (take 20 (drop 8 frame)) = Inr 0 \<and>
    (\<forall>r q c rl len. heap r q = Some (mkpkt c rl len [] frame) \<longrightarrow>
       ethpkt_ethtype q r = (Inr ETHERTYPE_IP, r) \<and> ethpkt_mac q r = (Inr m, r) \<and>
       (\<exists>r' r''. rx_ethpkt q r = (Inr (), r') \<and> ippkt_src q r' = (Inr src, r') \<and> ippkt_dst q r' = (Inr dest, r') \<and>
          ippkt_subproto q r' = (Inr (proto AND 0xff), r') \<and> rx_ippkt q r' = (Inr (), r'') \<and>
          user_bytes q (length b) r'' = (Inr b, r'')))"
proof -
  let ?ih = "ip_header (l + 20) (ip_pktid s + BIG_PRIME) proto src dest"
  let ?f = "eth_header m ETHERTYPE_IP @ ?ih @ b"
  obtain s' where s': "tx_ippkt p proto src dest s = (Inr (), s')" "heap s' = (heap s)(p := None)"
    "sent s' = sent s @ [(ENET_TXGO OR (l + 28) OR ENET_NOHWIPCHK, ?f)]"
    using tx_ippkt_known [OF assms(1-3) _ _ assms(6,7), of proto src] assms(4,5) by auto
  have t: "ETHERTYPE_IP < 2 ^ 16" by (simp add: ETHERTYPE_IP_def)
  have "\<exists>r' r''. rx_ethpkt q r = (Inr (), r') \<and> ippkt_src q r' = (Inr src, r') \<and> ippkt_dst q r' = (Inr dest, r') \<and>
          ippkt_subproto q r' = (Inr (proto AND 0xff), r') \<and> rx_ippkt q r' = (Inr (), r'') \<and>
          user_bytes q (length b) r'' = (Inr b, r'')" if "heap r q = Some (mkpkt c rl len [] ?f)" for r q c rl len
    using receive_headers(3) [OF that assms(8) t] user_bytes_mkpkt [where n = "length b" and b = b] by fastforce
  then show ?thesis
    using s' receive_headers(1,2) [OF _ assms(8) t] ip_header_verifies [of "l + 20" "ip_pktid s + BIG_PRIME" proto src dest]
    by (intro exI [of _ s'] exI [of _ ?f]) simp
qed

text \<open>The global variables as the program starts with them.\<close>

definition net_start :: "(nat \<Rightarrow> byte) \<Rightarrow> net" where
  "net_start j = \<lparr>heap = (\<lambda>_. None), brk = 0, junk = j, n_rxcmd = 0, n_txcmd = 0, netbrx = [], sent = [],
     rxcmd_log = [], buspic_log = [], gpio = 0, waiting_pkt = None, my_mac_addr = 0xa25345b6fb5e, router_mac_addr = 0,
     my_ip_addr = 0xc0a80f16, my_ip_mask = 0xffffff00, my_ip_router = 0xc0a80f01, ip_pktid = BIG_PRIME * 241,
     icmppkt_id = 0, arp_requests_sent = 0,
     arp_table = replicate 8 \<lparr>arp_valid = False, arp_age = 0, arp_ip = 0, arp_mac = 0\<rparr>,
     arp_logid = 0, arp_table_log = replicate 32 (0, 0), now = 0, lastping = 0, lasthello = 0\<rparr>"

lemma arp_known_router:
  "router_mac_addr s = m \<Longrightarrow> m \<noteq> 0 \<Longrightarrow> ip = my_ip_router s \<Longrightarrow> arp_known s ip m"
  unfolding arp_known_def by (rule exI [of _ "arp_table s"]) (simp add: arp_lookup_def)

theorem ip_send_receive_witness:
  "\<exists>s' frame. tx_ippkt 0 17 0xc0a80f16 0xc0a80f01 ((net_start (\<lambda>_. 0))\<lparr>router_mac_addr := 0x123456789abc,
       heap := [0 \<mapsto> mkpkt 1 30 2 (replicate 28 0) [7, 8]]\<rparr>) = (Inr (), s') \<and>
    map snd (sent s') = [frame] \<and> ipcksum 20 (take 20 (drop 8 frame)) = Inr 0"
proof -
  let ?s = "(net_start (\<lambda>_. 0))\<lparr>router_mac_addr := 0x123456789abc, heap := [0 \<mapsto> mkpkt 1 30 2 (replicate 28 0) [7, 8]]\<rparr>"
  have h: "heap ?s 0 = Some (mkpkt 1 30 2 ([] @ replicate 8 0 @ replicate 20 0) [7, 8])"
    by (simp flip: replicate_add)
  have k: "arp_known ?s 0xc0a80f01 0x123456789abc" by (rule arp_known_router) (simp_all add: net_start_def)
  have i: "n_txcmd ?s AND ENET_TXBUSY = 0" by (simp add: net_start_def)
  obtain s' frame where "tx_ippkt 0 17 0xc0a80f16 0xc0a80f01 ?s = (Inr (), s')"
    "sent s' = sent ?s @ [(ENET_TXGO OR (2 + 28) OR ENET_NOHWIPCHK, frame)]" "ipcksum 20 (take 20 (drop 8 frame)) = Inr 0"
    using ip_send_receive [OF h _ _ _ _ i k, of 17 "0xc0a80f16"] by auto
  moreover have "sent ?s = []" by (simp add: net_start_def)
  ultimately show ?thesis by (intro exI [of _ s'] exI [of _ frame]) simp
qed

subsection \<open>Answering a ping\<close>

lemma new_icmp_mkpkt:
  assumes "unat l + 28 < 2 ^ 32"
  shows "\<exists>h x y z. new_icmp l s =
    (Inr (brk s), (put_pkt (brk s) (mkpkt 1 (l + 28) l (h @ x @ y) z) s)\<lparr>brk := Suc (brk s)\<rparr>) \<and>
    length h = 0 \<and> length x = 8 \<and> length y = 20 \<and> length z = unat l"
proof -
  let ?j = "map (junk s) [0..<unat (l + 28)]"
  let ?x = "take 8 ?j" and ?y = "take 20 (drop 8 ?j)" and ?z = "drop 28 ?j"
  let ?s1 = "(put_pkt (brk s) (mkpkt 1 (l + 28) (l + 28) [] (?x @ ?y @ ?z)) s)\<lparr>brk := Suc (brk s)\<rparr>"
  let ?s2 = "put_pkt (brk s) (mkpkt 1 (l + 28) (l + 20) ?x (?y @ ?z)) ?s1"
  have u: "unat (l + 28) = unat l + 28" using assms by (simp add: unat_word_ariths(1))
  have j: "?x @ ?y @ ?z = ?j"
    using append_take_drop_id [of 8 ?j] append_take_drop_id [of 20 "drop 8 ?j"] by (simp only: drop_drop) simp
  have a: "new_pkt (l + 20 + 8) s = (Inr (brk s), ?s1)"
    unfolding j by (simp add: new_pkt_def mkpkt_def Let_def add.assoc)
  have lx: "length ?x = 8" "length ?y = 20" "length ?z = unat l" using u by simp_all
  have h1: "heap ?s1 (brk s) = Some (mkpkt 1 (l + 28) (l + 28) [] (?x @ ?y @ ?z))" by (simp add: put_pkt_def)
  have b: "user_skip (brk s) 8 ?s1 = (Inr (), ?s2)"
    using user_skip_forward [OF h1] lx(1) by (simp add: add.commute)
  have h2: "heap ?s2 (brk s) = Some (mkpkt 1 (l + 28) (l + 20) ?x (?y @ ?z))" by simp
  have c: "user_skip (brk s) 20 ?s2 = (Inr (), put_pkt (brk s) (mkpkt 1 (l + 28) l (?x @ ?y) ?z) ?s2)"
    using user_skip_forward [OF h2] lx(2) by simp
  have "new_icmp l s = (Inr (brk s), (put_pkt (brk s) (mkpkt 1 (l + 28) l (?x @ ?y) ?z) s)\<lparr>brk := Suc (brk s)\<rparr>)"
    using a b c by (simp add: new_icmp_def new_ippkt_def new_ethpkt_def bindE_def returnE_def put_pkt_def)
  then show ?thesis using lx by (intro exI [of _ "[]"] exI [of _ ?x] exI [of _ ?y] exI [of _ ?z]) simp
qed

lemma signed_small:
  assumes "unat l < 1024"
  shows "l <s 8 \<longleftrightarrow> unat l < 8" "\<not> (1024 :: busw) <=s l"
proof -
  have i: "int (unat l) = uint l" by simp
  then have "uint l < 1024" using assms by linarith
  moreover have "- (2 ^ 31) \<le> uint l" by (rule order.trans [of _ 0]) simp_all
  ultimately have "signed_take_bit 31 (uint l) = uint l" by (intro signed_take_bit_int_eq_self) auto
  then have si: "sint l = int (unat l)" unfolding i by (simp add: sint_uint)
  have "sint (8 :: busw) = 8" "sint (1024 :: busw) = 1024" by simp_all
  with si show "l <s 8 \<longleftrightarrow> unat l < 8" "\<not> (1024 :: busw) <=s l"
    unfolding word_sless_alt word_sle_eq si using assms by linarith+
qed

text \<open>The body of the reply: type and code zero, the checksum, the rest of the request.\<close>

definition echo_body :: "byte list \<Rightarrow> byte list" where
  "echo_body b =
     (let h = [0, 0, 0, 0] @ drop 4 b; c = (of_nat (65535 - ones_rep (halves_sum h)) :: busw)
      in [0, 0, oct 8 c, oct 0 c] @ drop 4 b)"

lemma echo_body_verifies:
  assumes "even (length b)" and "4 \<le> length b" and "length b \<le> 1024"
  shows "ipcksum (length b) (echo_body b) = Inr 0"
proof -
  let ?h = "[0, 0, 0, 0] @ drop 4 b"
  let ?c = "of_nat (65535 - ones_rep (halves_sum ?h)) :: busw"
  have l: "length [0, 0 :: byte] + 2 + length (drop 4 b) = length b" using assms(2) by simp
  have "ipcksum (length b) ?h = Inr ?c" using ipcksum_ref [of "length b" ?h] assms by simp
  then show ?thesis
    using ipcksum_field [of "[0, 0]" "drop 4 b" ?c, unfolded l] assms by (simp add: echo_body_def Let_def oct_def)
qed

lemma length_echo_body: "4 \<le> length b \<Longrightarrow> length (echo_body b) = length b"
  by (simp add: echo_body_def Let_def)

lemma icmp_reply_sends:
  assumes "heap s q = Some (mkpkt c rl l h b)" and "b \<noteq> []" and "b ! 0 = ICMP_PING"
    and "8 \<le> unat l" and "unat l < 1024" and "even (unat l)" and "unat l \<le> length b" and "q \<noteq> brk s"
    and "n_txcmd s AND ENET_TXBUSY = 0" and "arp_known s ip m"
  shows "\<exists>s' rest. icmp_reply ip q s = (Inr (), s') \<and> heap s' = (heap s)(brk s := None) \<and>
    sent s' = sent s @ [(ENET_TXGO OR (l + 28) OR ENET_NOHWIPCHK,
      eth_header m ETHERTYPE_IP @ ip_header (l + 20) (ip_pktid s + BIG_PRIME) IPPROTO_ICMP (my_ip_addr s) ip @ echo_body (take (unat l) b))]"
proof -
  let ?p = "brk s" and ?b = "take (unat l) b"
  let ?h = "[0, 0, 0, 0] @ drop 4 ?b"
  let ?c = "of_nat (65535 - ones_rep (halves_sum ?h)) :: busw"
  have l28: "unat l + 28 < 2 ^ 32" using assms(5) by simp
  obtain h' x y z where n: "new_icmp l s = (Inr ?p, (put_pkt ?p (mkpkt 1 (l + 28) l (h' @ x @ y) z) s)\<lparr>brk := Suc ?p\<rparr>)"
    "length x = 8" "length y = 20" "length z = unat l"
    using new_icmp_mkpkt [OF l28, of s] by blast
  let ?S = "\<lambda>w. put_pkt ?p (mkpkt 1 (l + 28) l (h' @ x @ y) w) (s\<lparr>brk := Suc ?p\<rparr>)"
  have S: "(put_pkt ?p k s)\<lparr>brk := Suc ?p\<rparr> = put_pkt ?p k (s\<lparr>brk := Suc ?p\<rparr>)" for k by (simp add: put_pkt_def)
  have hS: "heap (?S w) ?p = Some (mkpkt 1 (l + 28) l (h' @ x @ y) w)" for w by simp
  have q: "user_bytes q (unat l) (?S z) = (Inr ?b, ?S z)"
    by (rule user_bytes_mkpkt [of _ _ c rl l h]) (use assms(1,7,8) in \<open>simp_all add: put_pkt_def\<close>)
  have p1: "user_put ?p 0 ?b (?S z) = (Inr (), ?S ?b)"
    using user_put_front [of "?S z" ?p 1 "l + 28" l "h' @ x @ y" z "[]" ?b] n(4) assms(7) by simp
  have p2: "user_put ?p 0 [ICMP_ECHOREPLY, 0, 0, 0] (?S ?b) = (Inr (), ?S ?h)"
    using user_put_mkpkt [OF hS [of ?b], of 0 "[0, 0, 0, 0]"] assms(4,7) by (simp add: ICMP_ECHOREPLY_def eval_nat_numeral)
  have lh: "length ?h = unat l" using assms(4,7) by simp
  have cs: "ipcksum (unat l) ?h = Inr ?c" using ipcksum_ref [of "unat l" ?h] assms(5,6) lh by simp
  have p3: "user_put ?p 2 [oct 8 ?c, oct 0 ?c] (?S ?h) = (Inr (), ?S (echo_body ?b))"
    using user_put_mkpkt [OF hS [of ?h], of 2 "[oct 8 ?c, oct 0 ?c]"] by (simp add: echo_body_def Let_def numeral_2_eq_2)
  have le: "length (echo_body ?b) = unat l" using length_echo_body [of ?b] assms(4,7) by simp
  have k: "arp_known (?S (echo_body ?b)) ip m"
    using arp_lookup_known [OF assms(10), of "?S (echo_body ?b)"] unfolding arp_known_def by (simp add: put_pkt_def)
  obtain s' where s': "tx_ippkt ?p IPPROTO_ICMP (my_ip_addr s) ip (?S (echo_body ?b)) = (Inr (), s')"
    "heap s' = (heap (?S (echo_body ?b)))(?p := None)"
    "sent s' = sent s @ [(ENET_TXGO OR (l + 28) OR ENET_NOHWIPCHK, eth_header m ETHERTYPE_IP @
      ip_header (l + 20) (ip_pktid s + BIG_PRIME) IPPROTO_ICMP (my_ip_addr s) ip @ echo_body ?b)]"
    using tx_ippkt_known [OF hS [of "echo_body ?b"] n(2,3) _ _ _ k, of IPPROTO_ICMP "my_ip_addr s"] le assms(5,9)
    by (auto simp: put_pkt_def)
  have g: "user_get q 0 s = (Inr ICMP_PING, s)"
    using user_get_mkpkt [OF assms(1), of 0] assms(2,3) by simp
  have ln: "\<not> l <s 8" using signed_small(1) [OF assms(5)] assms(4) by simp
  have mi: "my_ip_addr (?S w) = my_ip_addr s" for w by (simp add: put_pkt_def)
  have "icmp_reply ip q s = (Inr (), s')"
    using assms(1) g ln signed_small(2) [OF assms(5)] n(1) q p1 p2 p3 hS cs s'(1) mi
    by (simp add: icmp_reply_def bindE_def get_pkt_ok S user_block_mkpkt liftE_def Let_def del: append_Cons append_Nil put_pkt_simps(1))
  then show ?thesis using s'(2,3) by (auto simp: put_pkt_def)
qed

lemma rx_pkt_frame:
  assumes "n_rxcmd s AND ENET_RXAVAIL \<noteq> 0" and "n_rxcmd s AND ENET_RXCLRERR = 0" and "ENET_RXLEN (n_rxcmd s) = of_nat (length f)"
    and "length f \<le> 2047" and "netbrx s = f @ [x, y] @ tr"
  shows "rx_pkt s = (Inr (Some (brk s)), (put_pkt (brk s) (mkpkt 1 (of_nat (length f)) (of_nat (length f)) [] (f @ [x, y])) s)
    \<lparr>brk := Suc (brk s), rxcmd_log := rxcmd_log s @ [ENET_RXCLRERR OR ENET_RXCLR]\<rparr>)"
proof -
  have u: "unat (of_nat (length f) :: busw) = length f" using assms(4) by (intro unat_of_nat_lt) simp
  then have "\<not> (of_nat (length f) :: busw) > 2047" using assms(4) by (simp add: word_less_nat_alt)
  then show ?thesis using assms u by (simp add: rx_pkt_def Let_def mkpkt_def put_pkt_def)
qed

text \<open>A ping request for this host that has come in is answered and freed.\<close>

lemma ping_ip_answers:
  assumes "heap r q = Some (mkpkt 2 rl len [] (eth_header m0 ETHERTYPE_IP @ ih @ b))" and "ip_fields ih IPPROTO_ICMP src (my_ip_addr r)"
    and "m0 < 2 ^ 48" and "b \<noteq> []" and "b ! 0 = ICMP_PING" and "len = l + 8 + of_nat (length ih)" and "8 \<le> unat l" and "unat l < 1024"
    and "even (unat l)" and "unat l \<le> length b" and "q \<noteq> brk r" and "heap r (brk r) = None" and "n_txcmd r AND ENET_TXBUSY = 0"
    and "arp_known r src m"
  shows "\<exists>r' k. ping_ip q r = (Inr (), r') \<and> heap r' = (heap r)(q := Some k) \<and> p_usage_count k = 1 \<and>
    sent r' = sent r @ [(ENET_TXGO OR (l + 28) OR ENET_NOHWIPCHK,
      eth_header m ETHERTYPE_IP @ ip_header (l + 20) (ip_pktid r + BIG_PRIME) IPPROTO_ICMP (my_ip_addr r) src @ echo_body (take (unat l) b))]"
proof -
  let ?hd = "eth_header m0 ETHERTYPE_IP"
  let ?r1 = "put_pkt q (mkpkt 2 rl (len - 8) ?hd (ih @ b)) r" and ?r2 = "put_pkt q (mkpkt 2 rl l (?hd @ ih) b) r"
  have t: "ETHERTYPE_IP < 2 ^ 16" by (simp add: ETHERTYPE_IP_def)
  have r1: "rx_ethpkt q r = (Inr (), ?r1)" by (rule receive_eth(3) [OF assms(1,3) t])
  have h1: "heap ?r1 q = Some (mkpkt 2 rl (len - 8) ?hd (ih @ b))" by simp
  note ip = receive_ip [OF h1, of IPPROTO_ICMP src "my_ip_addr r", OF assms(2)]
  have r2: "rx_ippkt q ?r1 = (Inr (), ?r2)" using ip(4) assms(6) by simp
  have h2: "heap ?r2 q = Some (mkpkt 2 rl l (?hd @ ih) b)" by simp
  have g: "user_get q 0 ?r2 = (Inr ICMP_PING, ?r2)" using user_get_mkpkt [OF h2, of 0] assms(4,5) by simp
  have k2: "arp_known ?r2 src m" using arp_lookup_known [OF assms(14), of ?r2] unfolding arp_known_def by simp
  obtain r3 where r3: "icmp_reply src q ?r2 = (Inr (), r3)" "heap r3 = (heap ?r2)(brk r := None)"
    "sent r3 = sent r @ [(ENET_TXGO OR (l + 28) OR ENET_NOHWIPCHK,
      eth_header m ETHERTYPE_IP @ ip_header (l + 20) (ip_pktid r + BIG_PRIME) IPPROTO_ICMP (my_ip_addr r) src @ echo_body (take (unat l) b))]"
    using icmp_reply_sends [OF h2 assms(4,5,7-10) _ _ k2] assms(11,13) by auto
  have h3: "heap r3 q = Some (mkpkt 2 rl l (?hd @ ih) b)" using r3(2) h2 assms(11) by simp
  have f: "free_pkt (Some q) r3 = (Inr (), put_pkt q ((mkpkt 2 rl l (?hd @ ih) b)\<lparr>p_usage_count := 1\<rparr>) r3)"
    using free_pkt_shared [OF h3] by simp
  have "my_ip_addr ?r2 = my_ip_addr r" by simp
  then have "ping_ip q r = (Inr (), put_pkt q ((mkpkt 2 rl l (?hd @ ih) b)\<lparr>p_usage_count := 1\<rparr>) r3)"
    using r1 ip(1-3) r2 g r3(1) f by (simp add: ping_ip_def bindE_def)
  moreover have "heap (put_pkt q k r3) = (heap r)(q := Some k)" for k
    using r3(2) assms(12) by (auto simp: put_pkt_def fun_eq_iff)
  ultimately show ?thesis using r3(3) by (auto simp: put_pkt_def)
qed

text \<open>C4: a ping request for this host, from a host whose hardware address is known, is answered. The request is an ICMP echo
  request of an even number of bytes from 8 to 1022 in an IP packet with any header, options included, that names ICMP
  and the two addresses. When the receiver hands over the frame while the transmitter is idle, one frame is sent, to
  that host and from this one, that repeats the request with type and code zero and a checksum
  that verifies; both packets are freed.\<close>

theorem ping_answered:
  assumes "f = eth_header m0 ETHERTYPE_IP @ ih @ req" and "ip_fields ih IPPROTO_ICMP src (my_ip_addr s)" and "m0 < 2 ^ 48"
    and "req \<noteq> []" and "req ! 0 = ICMP_PING" and "8 \<le> length req" and "length req < 1024" and "even (length req)"
    and "n_rxcmd s AND ENET_RXAVAIL \<noteq> 0" and "n_rxcmd s AND ENET_RXCLRERR = 0" and "ENET_RXLEN (n_rxcmd s) = of_nat (length f)"
    and "netbrx s = f @ [x, y] @ tr" and "heap s (brk s) = None" and "heap s (Suc (brk s)) = None"
    and "n_txcmd s AND ENET_TXBUSY = 0" and "arp_known s src m"
  shows "\<exists>s' cmd body. ping_rx eid0 s = (Inr (), s') \<and> heap s' = heap s \<and>
    sent s' = sent s @ [(cmd, eth_header m ETHERTYPE_IP @
      ip_header (of_nat (length req) + 20) (ip_pktid s + BIG_PRIME) IPPROTO_ICMP (my_ip_addr s) src @ body)] \<and>
    length body = length req \<and> take 2 body = [ICMP_ECHOREPLY, 0] \<and> drop 4 body = drop 4 req \<and>
    ipcksum (length body) body = Inr 0"
proof -
  let ?p = "brk s" and ?l = "of_nat (length req) :: busw"
  let ?k = "mkpkt 1 (of_nat (length f)) (of_nat (length f)) [] (f @ [x, y])"
  let ?s1 = "(put_pkt ?p ?k s)\<lparr>brk := Suc ?p, rxcmd_log := rxcmd_log s @ [ENET_RXCLRERR OR ENET_RXCLR]\<rparr>"
  let ?s2 = "?s1\<lparr>buspic_log := buspic_log s @ [BUSPIC_NETRX]\<rparr>"
  let ?k2 = "mkpkt 2 (of_nat (length f)) (of_nat (length f)) [] (f @ [x, y])"
  let ?s3 = "put_pkt ?p ?k2 ?s2"
  have "unat (ih ! 0 AND 0x0f) \<le> 15" using word_and_le1 [of "ih ! 0" "0x0f"] by (simp add: word_le_nat_alt)
  then have ih: "length ih \<le> 60" using assms(2) by (simp add: ip_fields_def)
  have lf: "length f = length req + 8 + length ih" using assms(1) by simp
  have rx: "rx_pkt s = (Inr (Some ?p), ?s1)" by (rule rx_pkt_frame) (use assms(7,9-12) lf ih in simp_all)
  have w: "buspic_write BUSPIC_NETRX ?s1 = (Inr (), ?s2)" by (simp add: buspic_write_def modifyE_def put_pkt_def)
  have m: "mod_pkt ?p (\<lambda>k. k\<lparr>p_usage_count := p_usage_count k + 1\<rparr>) ?s2 = (Inr (), ?s3)"
    by (simp add: mod_pkt_def bindE_def get_pkt_def modifyE_def put_pkt_def mkpkt_def)
  have h3: "heap ?s3 ?p = Some (mkpkt 2 (of_nat (length f)) (of_nat (length f)) [] (eth_header m0 ETHERTYPE_IP @
      ih @ req @ [x, y]))" and i3: "ip_fields ih IPPROTO_ICMP src (my_ip_addr ?s3)"
    using assms(1,2) by (simp_all add: put_pkt_def)
  have t: "ETHERTYPE_IP < 2 ^ 16" by (simp add: ETHERTYPE_IP_def)
  have et: "ethpkt_ethtype ?p ?s3 = (Inr ETHERTYPE_IP, ?s3)" by (rule receive_eth(1) [OF h3 assms(3) t])
  have u: "unat ?l = length req" using assms(7) by (intro unat_of_nat_lt) simp
  have kn: "arp_known ?s3 src m" using arp_lookup_known [OF assms(16), of ?s3] unfolding arp_known_def by (simp add: put_pkt_def)
  have brk3: "brk ?s3 = Suc ?p" by (simp add: put_pkt_def)
  have none3: "heap ?s3 (brk ?s3) = None" using assms(14) by (simp add: put_pkt_def)
  have nth0: "(req @ [x, y]) ! 0 = ICMP_PING" using assms(4,5) by (simp add: nth_append)
  have idle3: "n_txcmd ?s3 AND ENET_TXBUSY = 0" using assms(15) by (simp add: put_pkt_def)
  have len3: "(of_nat (length f) :: busw) = ?l + 8 + of_nat (length ih)" by (simp add: lf)
  obtain s4 k4 where s4: "ping_ip ?p ?s3 = (Inr (), s4)" "heap s4 = (heap ?s3)(?p := Some k4)" "p_usage_count k4 = 1"
    "sent s4 = sent s @ [(ENET_TXGO OR (?l + 28) OR ENET_NOHWIPCHK, eth_header m ETHERTYPE_IP @
      ip_header (?l + 20) (ip_pktid s + BIG_PRIME) IPPROTO_ICMP (my_ip_addr s) src @ echo_body (take (unat ?l) (req @ [x, y])))]"
    using ping_ip_answers [OF h3 i3 assms(3) _ nth0 len3 _ _ _ _ _ none3 idle3 kn] assms(6-8) u brk3
    by (auto simp: put_pkt_def)
  have h4: "heap s4 ?p = Some k4" using s4(2) by simp
  have f4: "free_pkt (Some ?p) s4 = (Inr (), s4\<lparr>heap := (heap s4)(?p := None)\<rparr>)" by (rule free_pkt_last [OF h4 s4(3)])
  have "ETHERTYPE_IP \<noteq> ETHERTYPE_ARP" by (simp add: ETHERTYPE_IP_def ETHERTYPE_ARP_def)
  then have "ping_dispatch eid0 ?p ?s2 = (Inr (), s4\<lparr>heap := (heap s4)(?p := None)\<rparr>)"
    using m et s4(1) f4 by (simp add: ping_dispatch_def bindE_def)
  then have "ping_rx eid0 s = (Inr (), s4\<lparr>heap := (heap s4)(?p := None)\<rparr>)"
    using rx w by (simp add: ping_rx_def bindE_def)
  moreover have "(heap s4)(?p := None) = heap s" using s4(2) assms(13) by (auto simp: put_pkt_def fun_eq_iff)
  moreover have "take (unat ?l) (req @ [x, y]) = req" by (simp add: u)
  moreover have "take 2 (echo_body req) = [ICMP_ECHOREPLY, 0]" "drop 4 (echo_body req) = drop 4 req"
    by (simp_all add: echo_body_def Let_def ICMP_ECHOREPLY_def numeral_2_eq_2)
  ultimately show ?thesis
    using s4(4) length_echo_body [of req] echo_body_verifies [of req] assms(6-8) by auto
qed

text \<open>A request as another system sends it: a time to live of 64, the do-not-fragment flag and a word of options.\<close>

definition request_header :: "byte list" where
  "request_header = [0x46, 0, 0, 32, 0x12, 0x34, 0x40, 0, 64, 1, 0xab, 0xcd, 0xc0, 0xa8, 0x0f, 0x01, 0xc0, 0xa8, 0x0f, 0x16, 1, 1, 1, 0]"

theorem ping_answered_witness:
  "\<exists>s' cmd frame. ping_rx 0 ((net_start (\<lambda>_. 0))\<lparr>router_mac_addr := 0x123456789abc, n_rxcmd := 0x4028,
      netbrx := eth_header 0x123456789abc ETHERTYPE_IP @ request_header @ [8, 0, 0, 0, 1, 2, 3, 4] @ [0, 0]\<rparr>) = (Inr (), s') \<and>
    sent s' = [(cmd, frame)] \<and> heap s' 0 = None"
proof -
  let ?f = "eth_header 0x123456789abc ETHERTYPE_IP @ request_header @ [8, 0, 0, 0, 1, 2, 3, 4]"
  let ?s = "(net_start (\<lambda>_. 0))\<lparr>router_mac_addr := 0x123456789abc, n_rxcmd := 0x4028, netbrx := eth_header 0x123456789abc ETHERTYPE_IP @
      request_header @ [8, 0, 0, 0, 1, 2, 3, 4] @ [0, 0]\<rparr>"
  have "ip_fields request_header IPPROTO_ICMP 0xc0a80f01 0xc0a80f16" by code_simp
  then have ih: "ip_fields request_header IPPROTO_ICMP 0xc0a80f01 (my_ip_addr ?s)" by (simp add: net_start_def)
  have k: "arp_known ?s 0xc0a80f01 0x123456789abc" by (rule arp_known_router) (simp_all add: net_start_def)
  have b: "netbrx ?s = ?f @ [0, 0] @ []" by simp
  have h: "heap ?s (brk ?s) = None" "heap ?s (Suc (brk ?s)) = None" "sent ?s = []" "heap ?s 0 = None" by (simp_all add: net_start_def)
  have "\<exists>s' cmd body. ping_rx 0 ?s = (Inr (), s') \<and> heap s' = heap ?s \<and> sent s' = sent ?s @ [(cmd, eth_header 0x123456789abc ETHERTYPE_IP @
      ip_header (of_nat (length [8, 0, 0, 0, 1, 2, 3, 4 :: byte]) + 20) (ip_pktid ?s + BIG_PRIME) IPPROTO_ICMP (my_ip_addr ?s) 0xc0a80f01 @ body)] \<and>
      length body = length [8, 0, 0, 0, 1, 2, 3, 4 :: byte] \<and> take 2 body = [ICMP_ECHOREPLY, 0] \<and>
      drop 4 body = drop 4 [8, 0, 0, 0, 1, 2, 3, 4 :: byte] \<and> ipcksum (length body) body = Inr 0"
    by (rule ping_answered [OF refl ih _ _ _ _ _ _ _ _ _ b h(1,2) _ k])
      (simp_all add: ICMP_PING_def net_start_def ENET_RXAVAIL_def ENET_RXCLRERR_def ENET_RXLEN_def request_header_def)
  then show ?thesis using h(3,4) by (metis append_Nil)
qed

end
