(* ===== verification/NetArp.thy ===== *)
theory NetArp
  imports NetSend
begin

text \<open>
  The address cache of \<open>src/sw/rv32/arp.c\<close> as the layers above it rely on it, the uninitialised
  index in \<open>arp_table_add\<close>, received UDP lengths, and the packets that the main loop of
  \<open>pingtest.c\<close> keeps.
\<close>

subsection \<open>The contract of an address cache\<close>

text \<open>A lookup may forget entries (they age), it never changes one; a learned address is found.\<close>

locale address_cache =
  fixes find :: "'t \<Rightarrow> 'ip \<Rightarrow> 'mac option"
    and age :: "'ip \<Rightarrow> 't \<Rightarrow> 't"
    and learn :: "'ip \<Rightarrow> 'mac \<Rightarrow> 't \<Rightarrow> 't"
    and inv :: "'t \<Rightarrow> bool"
  assumes inv_age: "inv t \<Longrightarrow> inv (age ip t)"
    and inv_learn: "inv t \<Longrightarrow> find t ip = None \<Longrightarrow> inv (learn ip m t)"
    and find_learn: "inv t \<Longrightarrow> find t ip = None \<Longrightarrow> find (learn ip m t) ip = Some m"
    and find_age: "inv t \<Longrightarrow> find (age ip t) ip' = find t ip' \<or> find (age ip t) ip' = None"
    and find_learn_other: "inv t \<Longrightarrow> ip' \<noteq> ip \<Longrightarrow> find t ip = None \<Longrightarrow>
      find (learn ip m t) ip' = find t ip' \<or> find (learn ip m t) ip' = None"
begin

lemma find_after_ages:
  "inv t \<Longrightarrow> find (fold age ips t) ip = find t ip \<or> find (fold age ips t) ip = None"
proof (induction ips arbitrary: t)
  case (Cons a ips)
  from find_age [OF Cons.prems, of a ip] Cons.IH [OF inv_age [OF Cons.prems], of a] show ?case by auto
qed simp

lemma never_wrong:
  assumes "inv t" and "find t ip = None" and "find (fold age ips (learn ip m t)) ip = Some m'"
  shows "m' = m"
  using find_after_ages [OF inv_learn [OF assms(1,2)], of ips m ip] find_learn [OF assms(1,2), of m] assms(3) by auto

end

subsection \<open>The table implements it\<close>

fun arp_find :: "arp_table_entry list \<Rightarrow> busw \<Rightarrow> u64 option" where
  "arp_find [] ip = None"
| "arp_find (e # es) ip = (if arp_valid e \<and> arp_ip e = ip then Some (arp_mac e) else arp_find es ip)"

definition arp_inv :: "arp_table_entry list \<Rightarrow> bool" where
  "arp_inv t \<longleftrightarrow> length t = 8 \<and>
     (\<forall>i j. i < length t \<longrightarrow> j < length t \<longrightarrow> arp_valid (t ! i) \<longrightarrow> arp_valid (t ! j) \<longrightarrow> arp_ip (t ! i) = arp_ip (t ! j) \<longrightarrow> i = j)"

lemma arp_find_None: "arp_find t ip = None \<longleftrightarrow> (\<forall>i < length t. \<not> (arp_valid (t ! i) \<and> arp_ip (t ! i) = ip))"
  by (induction t) (auto simp: nth_Cons' less_Suc_eq_0_disj)

lemma arp_find_nth:
  assumes "arp_inv t" and "i < length t" and "arp_valid (t ! i)" and "arp_ip (t ! i) = ip"
  shows "arp_find t ip = Some (arp_mac (t ! i))"
proof -
  have "\<forall>i < length t. \<forall>j < length t. arp_valid (t ! i) \<longrightarrow> arp_valid (t ! j) \<longrightarrow> arp_ip (t ! i) = arp_ip (t ! j) \<longrightarrow> i = j \<Longrightarrow>
      \<forall>i < length t. arp_valid (t ! i) \<longrightarrow> arp_find t (arp_ip (t ! i)) = Some (arp_mac (t ! i))" for t
  proof (induction t)
    case (Cons e es)
    have u: "\<forall>i < length es. \<forall>j < length es. arp_valid (es ! i) \<longrightarrow> arp_valid (es ! j) \<longrightarrow> arp_ip (es ! i) = arp_ip (es ! j) \<longrightarrow> i = j"
      using Cons.prems by (metis Suc_less_eq length_Cons nat.inject nth_Cons_Suc)
    show ?case
    proof (intro allI impI)
      fix i assume i: "i < length (e # es)" "arp_valid ((e # es) ! i)"
      show "arp_find (e # es) (arp_ip ((e # es) ! i)) = Some (arp_mac ((e # es) ! i))"
      proof (cases i)
        case (Suc k)
        then have "\<not> (arp_valid e \<and> arp_ip e = arp_ip (es ! k))"
          using Cons.prems i by (metis length_greater_0_conv list.distinct(1) nat.distinct(1) nth_Cons_0 nth_Cons_Suc)
        then show ?thesis using Cons.IH [OF u] i Suc by auto
      qed (use i in simp)
    qed
  qed simp
  then show ?thesis using assms unfolding arp_inv_def by metis
qed

lemma arp_search_find: "fst (arp_search ip a t) = arp_find t ip"
  by (induction ip a t rule: arp_search.induct) (auto simp: Let_def split: prod.splits)

text \<open>What a search leaves of each entry.\<close>

lemma arp_search_kept:
  "list_all2 (\<lambda>e e'. arp_ip e' = arp_ip e \<and> arp_mac e' = arp_mac e \<and> (arp_valid e' \<longrightarrow> arp_valid e)) t (snd (arp_search ip a t))"
proof (induction t arbitrary: a)
  case (Cons e es)
  have refl: "list_all2 (\<lambda>e e'. arp_ip e' = arp_ip e \<and> arp_mac e' = arp_mac e \<and> (arp_valid e' \<longrightarrow> arp_valid e)) es es"
    by (rule list_all2_refl) simp
  show ?case using Cons.IH [of a] Cons.IH [of "arp_age e"] refl by (auto simp: Let_def split: prod.splits)
qed simp

lemma arp_search_entries:
  "length (snd (arp_search ip a t)) = length t \<and>
   (\<forall>i < length t. let e = t ! i; e' = snd (arp_search ip a t) ! i in
      arp_ip e' = arp_ip e \<and> arp_mac e' = arp_mac e \<and> (arp_valid e' \<longrightarrow> arp_valid e))"
  using arp_search_kept [of t ip a] by (auto simp: list_all2_conv_all_nth Let_def)

definition arp_age_table :: "busw \<Rightarrow> arp_table_entry list \<Rightarrow> arp_table_entry list" where
  "arp_age_table ip t = snd (arp_search ip 0 t)"

text \<open>Learning, when the uninitialised index happens to be the right one.\<close>

definition arp_learn :: "busw \<Rightarrow> u64 \<Rightarrow> arp_table_entry list \<Rightarrow> arp_table_entry list" where
  "arp_learn ip m t = (case arp_insert (int (get_next_arp_index t)) ip m t of Inr t' \<Rightarrow> t' | Inl _ \<Rightarrow> t)"

lemma next_arp_loop_range: "next_arp_loop eid eldest a t < eid + length t \<or> next_arp_loop eid eldest a t = eldest"
  by (induction eid eldest a t rule: next_arp_loop.induct) auto

lemma get_next_arp_index_range: "t \<noteq> [] \<Longrightarrow> get_next_arp_index t < length t"
  using next_arp_loop_range [of 0 0 0 t] by (auto simp: get_next_arp_index_def)

lemma arp_learn_eq:
  assumes "t \<noteq> []"
  shows "arp_learn ip m t = (let i = get_next_arp_index t in t[i := (t ! i)\<lparr>arp_age := 0, arp_ip := ip, arp_mac := m, arp_valid := True\<rparr>])"
  using get_next_arp_index_range [OF assms] by (simp add: arp_learn_def arp_insert_def Let_def)

lemma arp_inv_shrink:
  assumes "arp_inv t" and "length t' = length t"
    and "\<forall>i < length t. arp_ip (t' ! i) = arp_ip (t ! i) \<and> arp_mac (t' ! i) = arp_mac (t ! i) \<and> (arp_valid (t' ! i) \<longrightarrow> arp_valid (t ! i))"
  shows "arp_inv t'" "arp_find t' ip = arp_find t ip \<or> arp_find t' ip = None"
proof -
  show i: "arp_inv t'" using assms unfolding arp_inv_def by (metis (full_types))
  show "arp_find t' ip = arp_find t ip \<or> arp_find t' ip = None"
  proof (cases "arp_find t' ip")
    case (Some a)
    then obtain k where k: "k < length t'" "arp_valid (t' ! k)" "arp_ip (t' ! k) = ip" using arp_find_None [of t' ip] by auto
    then show ?thesis using arp_find_nth [OF i k] arp_find_nth [OF assms(1), of k ip] assms(2,3) by auto
  qed simp
qed

interpretation arp: address_cache arp_find arp_age_table arp_learn arp_inv
proof
  fix t ip m ip'
  assume inv: "arp_inv t"
  have sh: "arp_inv (arp_age_table ip t)" "arp_find (arp_age_table ip t) ip' = arp_find t ip' \<or> arp_find (arp_age_table ip t) ip' = None"
    using arp_inv_shrink [OF inv, of "arp_age_table ip t"] arp_search_entries [of ip 0 t] by (simp_all add: arp_age_table_def Let_def)
  show "arp_inv (arp_age_table ip t)" by (rule sh(1))
  show "arp_find (arp_age_table ip t) ip' = arp_find t ip' \<or> arp_find (arp_age_table ip t) ip' = None" by (rule sh(2))
next
  fix t ip and m :: u64
  assume inv: "arp_inv t" and none: "arp_find t ip = None"
  let ?i = "get_next_arp_index t" and ?e = "(t ! get_next_arp_index t)\<lparr>arp_age := 0, arp_ip := ip, arp_mac := m, arp_valid := True\<rparr>"
  have ne: "t \<noteq> []" using inv by (auto simp: arp_inv_def)
  have i: "?i < length t" by (rule get_next_arp_index_range [OF ne])
  have eq: "arp_learn ip m t = t[?i := ?e]" by (simp add: arp_learn_eq [OF ne] Let_def)
  show l: "arp_inv (arp_learn ip m t)"
    unfolding arp_inv_def eq length_list_update
  proof (intro conjI allI impI)
    fix a b assume ab: "a < length t" "b < length t" "arp_valid (t[?i := ?e] ! a)" "arp_valid (t[?i := ?e] ! b)"
      "arp_ip (t[?i := ?e] ! a) = arp_ip (t[?i := ?e] ! b)"
    show "a = b"
      using ab inv none unfolding arp_inv_def arp_find_None
      by (cases "a = ?i"; cases "b = ?i") (simp_all add: nth_list_update, blast+)
  qed (use inv in \<open>simp add: arp_inv_def\<close>)
  show "arp_find (arp_learn ip m t) ip = Some m"
    using arp_find_nth [OF l, of ?i ip] i by (simp add: eq)
  fix ip' assume "ip' \<noteq> ip"
  show "arp_find (arp_learn ip m t) ip' = arp_find t ip' \<or> arp_find (arp_learn ip m t) ip' = None"
  proof (cases "arp_find (arp_learn ip m t) ip'")
    case (Some a)
    then obtain k where k: "k < length (arp_learn ip m t)" "arp_valid (arp_learn ip m t ! k)" "arp_ip (arp_learn ip m t ! k) = ip'"
      using arp_find_None [of "arp_learn ip m t" ip'] by auto
    then have "k \<noteq> ?i" using \<open>ip' \<noteq> ip\<close> i by (auto simp: eq)
    then show ?thesis using arp_find_nth [OF l k] arp_find_nth [OF inv, of k ip'] k by (simp add: eq)
  qed simp
qed

text \<open>With the index that the code means to use, the table would keep the contract: after the address of a host that
  was not in the table has been entered, a lookup finds it, and after any sequence of further lookups, which age the table,
  it finds that address or none.\<close>

lemma arp_never_wrong:
  assumes "arp_inv t" and "fst (arp_search ip 0 t) = None" and "arp_insert (int (get_next_arp_index t)) ip m t = Inr t'"
  shows "fst (arp_search ip 0 t') = Some m \<and>
    fst (arp_search ip 0 (fold (\<lambda>i u. snd (arp_search i 0 u)) ips t')) \<in> {Some m, None}"
proof -
  have t': "t' = arp_learn ip m t" using assms(3) by (simp add: arp_learn_def)
  have n: "arp_find t ip = None" using assms(2) by (simp add: arp_search_find)
  have "(\<lambda>i u. snd (arp_search i 0 u)) = arp_age_table" by (simp add: arp_age_table_def fun_eq_iff)
  then show ?thesis
    using arp.find_learn [OF assms(1) n, of m] arp.find_after_ages [OF arp.inv_learn [OF assms(1) n], of ips m ip]
    by (simp add: arp_search_find t')
qed

text \<open>\<open>arp_table_add\<close> marks as valid the entry its variable \<open>eid\<close> named before it was set. When the
  new address goes to an unused entry and that variable named another one, the address just
  learned is not found by the next lookup.\<close>

lemma arp_add_stale_index:
  assumes "length t = 8" and "fst (arp_search ip 0 t) = None" and "\<not> arp_valid (t ! get_next_arp_index t)"
    and "0 \<le> eid0" and "eid0 < 8" and "nat eid0 \<noteq> get_next_arp_index t" and "arp_ip (t ! nat eid0) \<noteq> ip"
  shows "\<exists>t'. arp_insert eid0 ip m t = Inr t' \<and> fst (arp_search ip 0 t') = None"
proof -
  have n: "\<forall>i < length t. \<not> (arp_valid (t ! i) \<and> arp_ip (t ! i) = ip)"
    using assms(2) by (simp add: arp_search_find arp_find_None)
  have "t \<noteq> []" using assms(1) by auto
  then have i: "get_next_arp_index t < 8" using get_next_arp_index_range assms(1) by metis
  let ?v = "nat eid0" and ?i = "get_next_arp_index t"
  let ?t = "t[?v := (t ! ?v)\<lparr>arp_valid := False\<rparr>]"
  let ?t' = "?t[?i := (?t ! ?i)\<lparr>arp_age := 0, arp_ip := ip, arp_mac := m\<rparr>]"
  let ?t'' = "?t'[?v := (?t' ! ?v)\<lparr>arp_valid := True\<rparr>]"
  have v: "?v < 8" using assms(4,5) by simp
  have "arp_insert eid0 ip m t = Inr ?t''" using assms(1,4) v i by (simp add: arp_insert_def Let_def)
  moreover have "\<not> (arp_valid (?t'' ! k) \<and> arp_ip (?t'' ! k) = ip)" if "k < 8" for k
    using n assms(1,3,6,7) v i that by (cases "k = ?v"; cases "k = ?i") (auto simp: nth_list_update)
  ultimately show ?thesis using assms(1) by (auto simp: arp_search_find arp_find_None)
qed

lemma arp_add_stale_index_witness:
  "\<exists>t'. arp_insert 5 7 99 (arp_table (net_start (\<lambda>_. 0))) = Inr t' \<and> fst (arp_search 7 0 t') = None"
proof -
  let ?t = "arp_table (net_start (\<lambda>_. 0))"
  have g: "get_next_arp_index ?t = 0" by (simp add: net_start_def get_next_arp_index_def numeral_eq_Suc)
  have s: "fst (arp_search 7 0 ?t) = None" by (simp add: arp_search_find net_start_def arp_find_None)
  show ?thesis using arp_add_stale_index [OF _ s, of 5 99] unfolding g by (simp add: net_start_def)
qed

subsection \<open>What the cache gives out as it is written\<close>

text \<open>Whatever value the uninitialised index has, a lookup gives out only addresses that were entered.
  The variables of \<open>arp.c\<close> and the addresses of the host, which the rest of the program leaves alone.\<close>

definition arp_same :: "net \<Rightarrow> net \<Rightarrow> bool" where
  "arp_same s t \<longleftrightarrow> arp_table t = arp_table s \<and> router_mac_addr t = router_mac_addr s \<and> my_ip_addr t = my_ip_addr s \<and>
     my_ip_mask t = my_ip_mask s \<and> my_ip_router t = my_ip_router s"

definition keeps_arp :: "(net, 'a) call \<Rightarrow> bool" where
  "keeps_arp m \<longleftrightarrow> (\<forall>s. arp_same s (snd (m s)))"

lemma arp_same_refl [simp]: "arp_same s s"
  by (simp add: arp_same_def)

lemma keeps_arp_bind: "keeps_arp m \<Longrightarrow> (\<And>x. keeps_arp (f x)) \<Longrightarrow> keeps_arp (bindE m f)"
  unfolding keeps_arp_def bindE_def arp_same_def by (simp split: prod.splits sum.splits) (metis snd_conv)

lemma keeps_arp_basic: "keeps_arp (returnE x)" "keeps_arp (throwE e)" "keeps_arp (liftE r)" "keeps_arp (get_pkt p)"
  "(\<And>s. arp_same s (g s)) \<Longrightarrow> keeps_arp (modifyE g)"
  by (simp_all add: keeps_arp_def call_defs get_pkt_def split: option.splits)

lemma keeps_arp_if: "keeps_arp m \<Longrightarrow> keeps_arp n \<Longrightarrow> keeps_arp (if b then m else n)"
  by simp

lemma keeps_arp_pkt: "keeps_arp (mod_pkt p f)" "keeps_arp (user_skip p d)" "keeps_arp (user_put p i vs)" "keeps_arp (user_bytes p n)"
  "keeps_arp (free_pkt q)" "keeps_arp (new_pkt l)"
proof -
  show mod: "keeps_arp (mod_pkt p f)" for p f unfolding mod_pkt_def by (intro keeps_arp_bind keeps_arp_basic) (simp add: arp_same_def put_pkt_def)
  show "keeps_arp (user_skip p d)" unfolding user_skip_def by (rule mod)
  show "keeps_arp (user_put p i vs)" unfolding user_put_def Let_def
    by (intro keeps_arp_bind keeps_arp_basic keeps_arp_if) (simp add: arp_same_def put_pkt_def)
  show "keeps_arp (user_bytes p n)" unfolding user_bytes_def user_block_def
    by (intro keeps_arp_bind keeps_arp_basic keeps_arp_if)
  show "keeps_arp (free_pkt q)" unfolding free_pkt_def whenE_def
    by (cases q) (auto intro!: keeps_arp_bind keeps_arp_basic keeps_arp_if mod simp: arp_same_def)
  show "keeps_arp (new_pkt l)" by (simp add: keeps_arp_def new_pkt_def Let_def arp_same_def put_pkt_def)
qed

lemma keeps_arp_send: "keeps_arp (send_arp_request ip)"
proof -
  have busy: "keeps_arp (tx_busy p)" for p
    using keeps_arp_bind [OF keeps_arp_pkt(5) keeps_arp_basic(5), of "\<lambda>_ s. s\<lparr>waiting_pkt := Some p\<rparr>"]
    by (auto simp: keeps_arp_def tx_busy_def arp_same_def split: option.splits)
  have "keeps_arp (bindE (get_pkt p) (\<lambda>k. bindE (user_bytes p (unat (p_length k))) (\<lambda>frame.
           bindE (modifyE (\<lambda>s. let txcmd = ENET_TXGO OR p_length k OR ENET_NOHWIPCHK
                               in s\<lparr>sent := sent s @ [(txcmd, frame)], n_txcmd := txcmd\<rparr>)) (\<lambda>_. free_pkt (Some p)))))" for p
    by (intro keeps_arp_bind keeps_arp_basic keeps_arp_pkt) (simp add: arp_same_def Let_def)
  then have "keeps_arp (tx_pkt p)" for p using busy by (simp add: keeps_arp_def tx_pkt_def)
  then have "keeps_arp (tx_ethpkt p ty m)" for p ty m unfolding tx_ethpkt_def by (intro keeps_arp_bind keeps_arp_pkt)
  moreover have "keeps_arp new_arp" unfolding new_arp_def new_ethpkt_def by (intro keeps_arp_bind keeps_arp_basic keeps_arp_pkt)
  moreover have "keeps_arp (\<lambda>s. user_put p 0 (g s) s)" for p g using keeps_arp_pkt(3) by (simp add: keeps_arp_def)
  moreover have "keeps_arp (modifyE (\<lambda>s. s\<lparr>arp_requests_sent := arp_requests_sent s + 1\<rparr>))"
    by (rule keeps_arp_basic) (simp add: arp_same_def)
  ultimately show ?thesis unfolding send_arp_request_def by (intro keeps_arp_bind)
qed

text \<open>Hosts that are reached through the router.\<close>

definition via_router :: "net \<Rightarrow> busw \<Rightarrow> bool" where
  "via_router s ip \<longleftrightarrow> (ip XOR my_ip_addr s) AND my_ip_mask s \<noteq> 0 \<or> ip = my_ip_router s"

text \<open>Both outcomes of a lookup.\<close>

lemma arp_lookup_outcome:
  "\<exists>r u. arp_lookup ip s = (r, u) \<and> router_mac_addr u = router_mac_addr s \<and> my_ip_addr u = my_ip_addr s \<and> my_ip_mask u = my_ip_mask s \<and>
     my_ip_router u = my_ip_router s \<and>
     (if via_router s ip \<and> router_mac_addr s \<noteq> 0 then r = Inr (Some (router_mac_addr s)) \<and> arp_table u = arp_table s
      else arp_table u = snd (arp_search ip 0 (arp_table s)) \<and>
        (case arp_find (arp_table s) ip of Some m \<Rightarrow> r = Inr (Some m) | None \<Rightarrow> r = Inr None \<or> (\<exists>e. r = Inl e)))"
proof (cases "via_router s ip \<and> router_mac_addr s \<noteq> 0")
  case True
  then show ?thesis by (simp add: arp_lookup_def via_router_def)
next
  case False
  obtain m v where m: "arp_search ip 0 (arp_table s) = (m, v)" by fastforce
  then have f: "arp_find (arp_table s) ip = m" using arp_search_find [of ip 0 "arp_table s"] by simp
  have "arp_same (s\<lparr>arp_table := v\<rparr>) (snd (send_arp_request ip (s\<lparr>arp_table := v\<rparr>)))" using keeps_arp_send by (simp add: keeps_arp_def)
  then show ?thesis using False m f
    by (cases "send_arp_request ip (s\<lparr>arp_table := v\<rparr>)"; cases "fst (send_arp_request ip (s\<lparr>arp_table := v\<rparr>))"; cases m)
      (auto simp: arp_lookup_def via_router_def bindE_def returnE_def arp_same_def)
qed

text \<open>The pairs of addresses in the table and the address of the router are among those entered; an entry never written holds zeros.\<close>

definition arp_pairs :: "arp_table_entry list \<Rightarrow> (busw \<times> u64) set" where
  "arp_pairs t = (\<lambda>e. (arp_ip e, arp_mac e)) ` set t"

definition arp_knows :: "(busw \<times> u64) set \<Rightarrow> net \<Rightarrow> bool" where
  "arp_knows K s \<longleftrightarrow> arp_pairs (arp_table s) \<subseteq> insert (0, 0) K \<and>
     (router_mac_addr s = 0 \<or> (my_ip_router s, router_mac_addr s) \<in> K)"

lemma arp_knows_same: "arp_same s t \<Longrightarrow> arp_knows K s \<Longrightarrow> arp_knows K t"
  by (simp add: arp_same_def arp_knows_def)

lemma arp_search_pairs: "arp_pairs (snd (arp_search ip a t)) = arp_pairs t"
proof -
  have "map (\<lambda>e. (arp_ip e, arp_mac e)) (snd (arp_search ip a t)) = map (\<lambda>e. (arp_ip e, arp_mac e)) t"
    using arp_search_entries [of ip a t] by (simp add: list_eq_iff_nth_eq Let_def)
  then have "set (map (\<lambda>e. (arp_ip e, arp_mac e)) (snd (arp_search ip a t))) = set (map (\<lambda>e. (arp_ip e, arp_mac e)) t)" by (rule arg_cong)
  then show ?thesis unfolding arp_pairs_def set_map .
qed

lemma arp_find_pair: "arp_find t ip = Some m \<Longrightarrow> (ip, m) \<in> arp_pairs t"
  by (induction t) (auto simp: arp_pairs_def split: if_splits)

lemma arp_lookup_knows:
  assumes "arp_knows K s"
  shows "arp_knows K (snd (arp_lookup ip s))"
proof -
  obtain r u where "arp_lookup ip s = (r, u)" "router_mac_addr u = router_mac_addr s" "my_ip_router u = my_ip_router s"
    "arp_table u = arp_table s \<or> arp_table u = snd (arp_search ip 0 (arp_table s))"
    using arp_lookup_outcome [of ip s] by (auto split: if_splits)
  then show ?thesis using assms arp_search_pairs [of ip 0 "arp_table s"] by (auto simp: arp_knows_def)
qed

lemma arp_update_pairs: "arp_pairs (arp_update ip m t) \<subseteq> insert (ip, m) (arp_pairs t)"
  by (induction t) (auto simp: arp_pairs_def)

lemma set_update_pairs: "(arp_ip e, arp_mac e) \<in> P \<Longrightarrow> arp_pairs t \<subseteq> P \<Longrightarrow> arp_pairs (t[i := e]) \<subseteq> P"
  using set_update_subset_insert [of t i e] by (auto simp: arp_pairs_def)

lemma nth_pair: "i < length t \<Longrightarrow> (arp_ip (t ! i), arp_mac (t ! i)) \<in> arp_pairs t"
  by (auto simp: arp_pairs_def)

lemma arp_insert_pairs:
  assumes "arp_insert eid0 ip m t = Inr t'"
  shows "arp_pairs t' \<subseteq> insert (ip, m) (arp_pairs t)"
proof -
  let ?P = "insert (ip, m) (arp_pairs t)" let ?i = "get_next_arp_index t" let ?v = "nat eid0"
  let ?t1 = "t[?v := (t ! ?v)\<lparr>arp_valid := False\<rparr>]"
  let ?t2 = "?t1[?i := (?t1 ! ?i)\<lparr>arp_age := 0, arp_ip := ip, arp_mac := m\<rparr>]"
  have v: "?v < length t" and t': "t' = ?t2[?v := (?t2 ! ?v)\<lparr>arp_valid := True\<rparr>]"
    using assms by (auto simp: arp_insert_def Let_def split: if_splits)
  have "arp_pairs ?t1 \<subseteq> ?P" using nth_pair [OF v] by (intro set_update_pairs) auto
  then have 2: "arp_pairs ?t2 \<subseteq> ?P" by (rule set_update_pairs [rotated]) simp
  then have "(arp_ip (?t2 ! ?v), arp_mac (?t2 ! ?v)) \<in> ?P" using v nth_pair [of ?v ?t2] by auto
  then show ?thesis unfolding t' by (intro set_update_pairs [OF _ 2]) simp
qed

lemma arp_add_knows:
  assumes "arp_knows K s"
  shows "arp_knows (insert (ip, m) K) (snd (arp_table_add eid0 ip m s))"
proof -
  define s1 where "s1 = s\<lparr>arp_table_log := (arp_table_log s)[arp_logid s := (ip, m)], arp_logid := (arp_logid s + 1) mod 32\<rparr>"
  have K1: "arp_knows (insert (ip, m) K) s1" using assms by (auto simp: arp_knows_def s1_def)
  obtain r u where u: "arp_lookup ip s1 = (r, u)" by fastforce
  then have Ku: "arp_knows (insert (ip, m) K) u" using arp_lookup_knows [OF K1, of ip] by simp
  have ins: "arp_knows (insert (ip, m) K) (u\<lparr>arp_table := t'\<rparr>)" if "arp_insert eid0 ip m (arp_table u) = Inr t'" for t'
    using arp_insert_pairs [OF that] Ku unfolding arp_knows_def by fastforce
  have upd: "arp_knows (insert (ip, m) K) (u\<lparr>arp_table := arp_update ip m (arp_table u)\<rparr>)"
    using arp_update_pairs [of ip m "arp_table u"] Ku unfolding arp_knows_def by fastforce
  have rtr: "arp_knows (insert (ip, m) K) (s1\<lparr>router_mac_addr := m\<rparr>)" if "ip = my_ip_router s1"
    using K1 that by (auto simp: arp_knows_def)
  have "arp_table_add eid0 ip m s = (if ip = my_ip_addr s1 then (Inr (), s1)
     else if ip = my_ip_router s1 then (Inr (), s1\<lparr>router_mac_addr := m\<rparr>)
     else bindE (arp_lookup ip) (\<lambda>r s. case r of
         Some lclmac \<Rightarrow> (Inr (), if m \<noteq> lclmac then s\<lparr>arp_table := arp_update ip m (arp_table s)\<rparr> else s)
       | None \<Rightarrow> bindE (liftE (arp_insert eid0 ip m (arp_table s))) (\<lambda>t. modifyE (\<lambda>s. s\<lparr>arp_table := t\<rparr>)) s) s1)"
    by (simp add: arp_table_add_def bindE_def modifyE_def s1_def)
  then show ?thesis using K1 Ku rtr upd ins u
    by (auto simp: bindE_def liftE_def modifyE_def split: sum.splits option.splits)
qed

text \<open>Every sequence of uses of the cache from the start of the program, with the pairs entered so far: an address is entered, whatever the
  uninitialised index, a host is looked up, the table is initialised, and the rest of the program runs.\<close>

inductive arp_run :: "(busw \<times> u64) set \<Rightarrow> net \<Rightarrow> bool" where
  start: "arp_run {} (net_start j)"
| init: "arp_run K s \<Longrightarrow> arp_run K (init_arp_table s)"
| add: "arp_run K s \<Longrightarrow> arp_run (insert (ip, m) K) (snd (arp_table_add eid0 ip m s))"
| look: "arp_run K s \<Longrightarrow> arp_run K (snd (arp_lookup ip s))"
| other: "arp_run K s \<Longrightarrow> arp_same s t \<Longrightarrow> arp_run K t"

lemma arp_run_knows: "arp_run K s \<Longrightarrow> arp_knows K s"
  by (induction rule: arp_run.induct)
    (auto simp: arp_add_knows arp_lookup_knows intro: arp_knows_same, auto simp: arp_knows_def arp_pairs_def net_start_def init_arp_table_def)

text \<open>Entering a new address of a host that is in the table.\<close>

lemma arp_find_search: "arp_find t ip = Some m \<Longrightarrow> arp_find (snd (arp_search ip a t)) ip = Some m"
proof (induction t arbitrary: a)
  case (Cons e es)
  then show ?case by (auto simp: Let_def split: prod.splits if_splits) (metis snd_conv)+
qed simp

lemma arp_find_update: "arp_find t ip = Some m0 \<Longrightarrow> arp_find (arp_update ip m t) ip = Some m"
  by (induction t) auto

lemma arp_add_known:
  assumes "arp_find (arp_table s) ip = Some m0" and "\<not> via_router s ip" and "ip \<noteq> my_ip_addr s"
  shows "\<exists>t u. arp_table_add eid0 ip m s = (Inr (), t) \<and> arp_lookup ip t = (Inr (Some m), u)"
proof -
  define s1 where "s1 = s\<lparr>arp_table_log := (arp_table_log s)[arp_logid s := (ip, m)], arp_logid := (arp_logid s + 1) mod 32\<rparr>"
  have s1: "\<not> via_router s1 ip" "arp_find (arp_table s1) ip = Some m0" "ip \<noteq> my_ip_router s" using assms by (simp_all add: s1_def via_router_def)
  obtain u where u: "arp_lookup ip s1 = (Inr (Some m0), u)" "arp_table u = snd (arp_search ip 0 (arp_table s1))" "\<not> via_router u ip"
    using arp_lookup_outcome [of ip s1] s1 by (auto simp: via_router_def)
  define t where "t = (if m \<noteq> m0 then u\<lparr>arp_table := arp_update ip m (arp_table u)\<rparr> else u)"
  have add: "arp_table_add eid0 ip m s = (Inr (), t)"
    using assms(3) s1(3) u(1) by (simp add: arp_table_add_def bindE_def modifyE_def s1_def t_def)
  have "arp_find (arp_table u) ip = Some m0" using arp_find_search [OF s1(2)] u(2) by simp
  then have "arp_find (arp_table t) ip = Some m" using arp_find_update [of "arp_table u" ip m0 m] by (simp add: t_def)
  moreover have "\<not> via_router t ip" using u(3) by (simp add: t_def via_router_def)
  ultimately show ?thesis using add arp_lookup_outcome [of ip t] by auto
qed

text \<open>C32: What \<open>arp_lookup\<close> gives out, for the code as it is written and whatever the uninitialised index of \<open>arp_table_add\<close> is, after any
  sequence of uses of the cache. (1) The hardware address was entered for the host that is looked up, or it was entered for the
  router and the host is reached through the router, or both addresses are zero, those of an entry that was never written. (2)
  After a new address is entered for a host of the local network that a lookup finds in the table, a lookup gives that address, and (3) after one is entered
  for the router, a lookup of any host reached through it does. For a host that is not in the table this does not hold (\<open>arp_add_stale_index\<close>).\<close>

theorem arp_gives_learned:
  assumes "arp_run K s"
  shows "(\<forall>ip m s'. arp_lookup ip s = (Inr (Some m), s') \<longrightarrow>
      (ip, m) \<in> K \<or> via_router s ip \<and> (my_ip_router s, m) \<in> K \<or> ip = 0 \<and> m = 0) \<and>
    (\<forall>eid0 ip m0 m s'. arp_lookup ip s = (Inr (Some m0), s') \<and> \<not> via_router s ip \<and> ip \<noteq> my_ip_addr s \<longrightarrow>
      (\<exists>t u. arp_table_add eid0 ip m s = (Inr (), t) \<and> arp_lookup ip t = (Inr (Some m), u))) \<and>
    (\<forall>eid0 ip m. via_router s ip \<and> my_ip_router s \<noteq> my_ip_addr s \<and> m \<noteq> 0 \<longrightarrow>
      (\<exists>t. arp_table_add eid0 (my_ip_router s) m s = (Inr (), t) \<and> arp_lookup ip t = (Inr (Some m), t)))"
proof (intro conjI allI impI)
  fix ip m s' assume l: "arp_lookup ip s = (Inr (Some m), s')"
  have K: "arp_knows K s" by (rule arp_run_knows [OF assms])
  show "(ip, m) \<in> K \<or> via_router s ip \<and> (my_ip_router s, m) \<in> K \<or> ip = 0 \<and> m = 0"
    using arp_lookup_outcome [of ip s] l K arp_find_pair [of "arp_table s" ip m]
    by (auto simp: arp_knows_def split: if_splits option.splits)
next
  fix eid0 ip m0 m s' assume h: "arp_lookup ip s = (Inr (Some m0), s') \<and> \<not> via_router s ip \<and> ip \<noteq> my_ip_addr s"
  then have "arp_find (arp_table s) ip = Some m0" using arp_lookup_outcome [of ip s] by (auto split: option.splits)
  then show "\<exists>t u. arp_table_add eid0 ip m s = (Inr (), t) \<and> arp_lookup ip t = (Inr (Some m), u)" using h arp_add_known by blast
next
  fix eid0 :: int and ip and m :: u64 assume h: "via_router s ip \<and> my_ip_router s \<noteq> my_ip_addr s \<and> m \<noteq> 0"
  then show "\<exists>t. arp_table_add eid0 (my_ip_router s) m s = (Inr (), t) \<and> arp_lookup ip t = (Inr (Some m), t)"
    by (simp add: arp_table_add_def bindE_def modifyE_def arp_lookup_def via_router_def)
qed

text \<open>A host whose address was entered while the index happened to be right is found; then an entry with another index.\<close>

definition arp_example :: net where
  "arp_example = snd (arp_table_add 5 0xc0a80f08 77 (snd (arp_table_add 0 0xc0a80f07 99 (net_start (\<lambda>_. 0)))))"

theorem arp_gives_learned_witness:
  "fst (arp_lookup 0xc0a80f07 arp_example) = Inr (Some 99) \<and> arp_run {(0xc0a80f08, 77), (0xc0a80f07, 99)} arp_example \<and>
   (\<exists>t u. arp_table_add 3 0xc0a80f07 55 arp_example = (Inr (), t) \<and> arp_lookup 0xc0a80f07 t = (Inr (Some 55), u))"
proof -
  have run: "arp_run {(0xc0a80f08, 77), (0xc0a80f07, 99)} arp_example" unfolding arp_example_def by (intro arp_run.intros)
  have look: "fst (arp_lookup 0xc0a80f07 arp_example) = Inr (Some 99)" by code_simp
  then obtain s' where "arp_lookup 0xc0a80f07 arp_example = (Inr (Some 99), s')" by (metis prod.collapse)
  moreover have "\<not> via_router arp_example 0xc0a80f07" "0xc0a80f07 \<noteq> my_ip_addr arp_example" by code_simp+
  ultimately show ?thesis using arp_gives_learned [OF run] run look by blast
qed

subsection \<open>UDP lengths\<close>

text \<open>After \<open>rx_udp\<close> the payload lies inside the packet that came in, for every value of the length
  field, if the packet was long enough for the UDP header.\<close>

lemma rx_udp_inside:
  assumes "heap s p = Some (mkpkt c rl l h b)" and "8 \<le> unat l" and "unat l \<le> length b"
  shows "\<exists>s' k. rx_udp p s = (Inr (), s') \<and> heap s' p = Some k \<and> p_raw k = h @ b \<and> p_user k = int (length h) + 8 \<and>
    nat (p_user k) + unat (p_length k) \<le> length h + unat l \<and> unat (p_length k) \<le> unat (be16 (b ! 4) (b ! 5)) - 8"
proof -
  let ?ln = "be16 (b ! 4) (b ! 5)"
  have g: "user_get p 4 s = (Inr (b ! 4), s)" "user_get p 5 s = (Inr (b ! 5), s)"
    using user_get_mkpkt [OF assms(1), of 4] user_get_mkpkt [OF assms(1), of 5] assms(2,3) by simp_all
  have "unat (udp_rx_length ?ln l) \<le> unat l - 8 \<and> unat (udp_rx_length ?ln l) \<le> unat ?ln - 8"
  proof -
    have s: "unat (w - 8) = unat w - 8" if "8 \<le> unat w" for w :: busw
      using that by (intro unat_sub_if' [THEN trans]) (simp add: unat_word_ariths word_le_nat_alt)
    show ?thesis using assms(2) s [of l] s [of ?ln]
      by (auto simp: udp_rx_length_def udp_headersize_def word_le_nat_alt word_less_nat_alt)
  qed
  then show ?thesis using g assms
    by (auto simp: rx_udp_def bindE_def mod_pkt_def get_pkt_ok modifyE_def udp_headersize_def nat_add_distrib)
qed

lemma rx_udp_inside_witness:
  "\<exists>s' k. rx_udp 0 ((net_start (\<lambda>_. 0))\<lparr>heap := [0 \<mapsto> mkpkt 1 10 10 [] [0, 1, 0, 2, 0, 9, 0, 0, 7, 7]]\<rparr>) = (Inr (), s') \<and>
    heap s' 0 = Some k \<and> unat (p_length k) \<le> 1"
  using rx_udp_inside [of "(net_start (\<lambda>_. 0))\<lparr>heap := [0 \<mapsto> mkpkt 1 10 10 [] [0, 1, 0, 2, 0, 9, 0, 0, 7, 7]]\<rparr>" 0 1 10 10 "[]"
      "[0, 1, 0, 2, 0, 9, 0, 0, 7, 7]"]
  by (auto simp: be16_def)

subsection \<open>Packets for other hosts\<close>

text \<open>The main loop never frees an IP packet that is not addressed to this host: it takes a second
  reference to the packet and gives back only one.\<close>

lemma ping_foreign_leaks:
  assumes "f = eth_header m0 ETHERTYPE_IP @ ip_header il i proto src dest @ b" and "m0 < 2 ^ 48" and "dest \<noteq> my_ip_addr s"
    and "n_rxcmd s AND ENET_RXAVAIL \<noteq> 0" and "n_rxcmd s AND ENET_RXCLRERR = 0" and "ENET_RXLEN (n_rxcmd s) = of_nat (length f)"
    and "length f \<le> 2047" and "netbrx s = f @ [x, y] @ tr"
  shows "\<exists>s' k. ping_rx eid0 s = (Inr (), s') \<and> heap s' = (heap s)(brk s := Some k) \<and> p_usage_count k = 1 \<and>
    brk s' = Suc (brk s) \<and> waiting_pkt s' = waiting_pkt s \<and> sent s' = sent s"
proof -
  let ?p = "brk s" and ?len = "of_nat (length f) :: busw"
  let ?s1 = "(put_pkt ?p (mkpkt 1 ?len ?len [] (f @ [x, y])) s)\<lparr>brk := Suc ?p, rxcmd_log := rxcmd_log s @ [ENET_RXCLRERR OR ENET_RXCLR]\<rparr>"
  let ?s2 = "?s1\<lparr>buspic_log := buspic_log s @ [BUSPIC_NETRX]\<rparr>"
  let ?hd = "eth_header m0 ETHERTYPE_IP" and ?ih = "ip_header il i proto src dest"
  let ?s3 = "put_pkt ?p (mkpkt 2 ?len ?len [] (?hd @ ?ih @ b @ [x, y])) ?s2"
  have rx: "rx_pkt s = (Inr (Some ?p), ?s1)" by (rule rx_pkt_frame) (use assms(4-8) in simp_all)
  have w: "buspic_write BUSPIC_NETRX ?s1 = (Inr (), ?s2)" by (simp add: buspic_write_def modifyE_def put_pkt_def)
  have m: "mod_pkt ?p (\<lambda>k. k\<lparr>p_usage_count := p_usage_count k + 1\<rparr>) ?s2 = (Inr (), ?s3)"
    using assms(1) by (simp add: mod_pkt_def bindE_def get_pkt_def modifyE_def put_pkt_def mkpkt_def)
  have h3: "heap ?s3 ?p = Some (mkpkt 2 ?len ?len [] (?hd @ ?ih @ b @ [x, y]))" by simp
  have t: "ETHERTYPE_IP < 2 ^ 16" "ETHERTYPE_IP \<noteq> ETHERTYPE_ARP" by (simp_all add: ETHERTYPE_IP_def ETHERTYPE_ARP_def)
  obtain r1 r2 where r: "rx_ethpkt ?p ?s3 = (Inr (), r1)" "ippkt_src ?p r1 = (Inr src, r1)" "ippkt_dst ?p r1 = (Inr dest, r1)"
      "ippkt_subproto ?p r1 = (Inr (proto AND 0xff), r1)" "rx_ippkt ?p r1 = (Inr (), r2)"
      "heap r2 ?p = Some (mkpkt 2 ?len (?len - 28) (?hd @ ?ih) (b @ [x, y]))"
    using receive_headers(3) [OF h3 assms(2) t(1)] by blast
  have e1: "\<exists>k. r1 = put_pkt ?p k ?s2" using r(1) user_skip_forward [OF h3] by (auto simp: rx_ethpkt_def)
  have e2: "\<exists>k. r2 = put_pkt ?p k ?s2"
    using r(5) e1 by (auto simp: rx_ippkt_def user_skip_def mod_pkt_def bindE_def modifyE_def get_pkt_def user_get_def returnE_def throwE_def Let_def
        split: prod.splits sum.splits if_splits option.splits)
  then have e: "heap r2 = (heap s)(?p := heap r2 ?p)" "brk r2 = Suc ?p" "waiting_pkt r2 = waiting_pkt s" "sent r2 = sent s" "my_ip_addr r2 = my_ip_addr s"
    by (auto simp: put_pkt_def)
  have ip: "ping_ip ?p ?s3 = (Inr (), r2)" using r assms(3) e(5) by (simp add: ping_ip_def bindE_def)
  have et: "ethpkt_ethtype ?p ?s3 = (Inr ETHERTYPE_IP, ?s3)" by (rule receive_headers(1) [OF h3 assms(2) t(1)])
  have f: "free_pkt (Some ?p) r2 = (Inr (), put_pkt ?p ((mkpkt 2 ?len (?len - 28) (?hd @ ?ih) (b @ [x, y]))\<lparr>p_usage_count := 1\<rparr>) r2)"
    using free_pkt_shared [OF r(6)] by simp
  have "ping_dispatch eid0 ?p ?s2 = free_pkt (Some ?p) r2" using m et ip t(2) by (simp add: ping_dispatch_def bindE_def)
  then have "ping_rx eid0 s = free_pkt (Some ?p) r2" using rx w by (simp add: ping_rx_def bindE_def)
  moreover have "(heap r2)(?p := v) = (heap s)(?p := v)" for v by (metis e(1) fun_upd_upd)
  ultimately show ?thesis unfolding f using e(2-4)
    by (intro exI [of _ "put_pkt ?p ((mkpkt 2 ?len (?len - 28) (?hd @ ?ih) (b @ [x, y]))\<lparr>p_usage_count := 1\<rparr>) r2"] exI
        [of _ "(mkpkt 2 ?len (?len - 28) (?hd @ ?ih) (b @ [x, y]))\<lparr>p_usage_count := 1\<rparr>"]) (simp add: put_pkt_def)
qed

lemma ping_foreign_leaks_witness:
  "\<exists>s' k. ping_rx 0 ((net_start (\<lambda>_. 0))\<lparr>n_rxcmd := 0x401c,
      netbrx := eth_header 0x123456789abc ETHERTYPE_IP @ ip_header 20 5 17 0xc0a80f01 0xc0a80f63 @ [0, 0]\<rparr>) = (Inr (), s') \<and>
    heap s' 0 = Some k \<and> p_usage_count k = 1"
proof -
  let ?f = "eth_header 0x123456789abc ETHERTYPE_IP @ ip_header 20 5 17 0xc0a80f01 0xc0a80f63 @ []"
  let ?s = "(net_start (\<lambda>_. 0))\<lparr>n_rxcmd := 0x401c,
      netbrx := eth_header 0x123456789abc ETHERTYPE_IP @ ip_header 20 5 17 0xc0a80f01 0xc0a80f63 @ [0, 0]\<rparr>"
  have b: "netbrx ?s = ?f @ [0, 0] @ []" by simp
  have "brk ?s = 0" by (simp add: net_start_def)
  then show ?thesis
    using ping_foreign_leaks [OF refl _ _ _ _ _ _ b, of 0]
    by (auto simp: net_start_def ENET_RXAVAIL_def ENET_RXCLRERR_def ENET_RXLEN_def)
qed

end
