(* ===== verification/SoftDiv.thy ===== *)
theory SoftDiv
  imports Prelude
begin

text \<open>
  The 64-bit division of the run-time library (\<open>src/sw/zlib/udiv.c\<close>, \<open>umod.c\<close>), with the C
  versions of \<open>zip_bitrev\<close> and \<open>cltz\<close>; \<open>unsigned long\<close> has 64 bits. A division by zero
  of the 32-bit divide instruction is the error \<open>DivByZero\<close>.
\<close>

subsection \<open>Definitions\<close>

fun bitrev_loop :: "nat \<Rightarrow> busw \<Rightarrow> busw \<Rightarrow> busw" where
  "bitrev_loop 0 r b = r"
| "bitrev_loop (Suc i) r b = bitrev_loop i (push_bit 1 r OR (b AND 1)) (drop_bit 1 b)"

definition zip_bitrev :: "busw \<Rightarrow> busw" where
  "zip_bitrev a = bitrev_loop 32 0 a"

definition cltz_step :: "nat \<Rightarrow> nat \<times> busw \<Rightarrow> nat \<times> busw" where
  "cltz_step n = (\<lambda>(cnt, hv). if hv AND mask n = 0 then (cnt + n, drop_bit n hv) else (cnt, hv))"

definition cltz :: "u64 \<Rightarrow> nat" where
  "cltz v =
     (let hv = ucast (drop_bit 32 v) :: busw;
          (cnt, hv) = (if hv = 0 then (32, ucast (v AND 0x0ffffffff)) else (0, hv));
          hv = zip_bitrev hv;
          (cnt, hv) = cltz_step 16 (cnt, hv);
          (cnt, hv) = cltz_step 8 (cnt, hv);
          (cnt, hv) = cltz_step 4 (cnt, hv);
          (cnt, hv) = cltz_step 2 (cnt, hv)
      in if hv AND 0x01 = 0 then cnt + 1 else cnt)"

text \<open>\<open>while(m > 0)\<close>: the mask starts as a single bit and is shifted out.\<close>

function udiv_loop :: "u64 \<Rightarrow> u64 \<Rightarrow> u64 \<Rightarrow> u64 \<Rightarrow> u64" where
  "udiv_loop m a b r =
     (if m > 0 then
        (let (r, a) = (if a \<ge> b then (r OR m, a - b) else (r, a))
         in udiv_loop (drop_bit 1 m) a (drop_bit 1 b) r)
      else r)"
  by auto
termination
proof (relation "measure (\<lambda>(m, a, b, r). unat m)")
  fix m a b r :: u64
  assume m: "0 < m"
  then have "unat (drop_bit 1 m) < unat m" by (simp add: unat_drop_bit word_less_nat_alt)
  then show "((drop_bit 1 m, a', drop_bit 1 b, r'), (m, a, b, r)) \<in> measure (\<lambda>(m, a, b, r). unat m)" for a' r' by simp
qed simp

declare udiv_loop.simps [simp del]

definition udivdi3 :: "u64 \<Rightarrow> u64 \<Rightarrow> exn + u64" where
  "udivdi3 a b =
     (if a < b then Inr 0
      else if drop_bit 32 b = 0 \<and> drop_bit 32 a = 0 then
        (let ia = ucast a :: busw; ib = ucast b :: busw
         in if ib = 0 then Inl DivByZero else Inr (ucast (ia div ib)))
      else
        (let la = cltz a; lb = cltz b; a = push_bit la a in
         if int lb - int la < 32 \<and> push_bit la b AND 0x0ffffffff = 0 then
           (let b = push_bit la b; ia = ucast (drop_bit 32 a) :: busw; ib = ucast (drop_bit 32 b) :: busw
            in if ib = 0 then Inl DivByZero else Inr (ucast (ia div ib)))
         else if lb < la then Inl BadShift
         else Inr (udiv_loop (push_bit (lb - la) 1) a (push_bit lb b) 0)))"

definition divdi3 :: "u64 \<Rightarrow> u64 \<Rightarrow> exn + u64" where
  "divdi3 a b =
     (let (s, a) = (if a <s 0 then (True, - a) else (False, a));
          (s, b) = (if b <s 0 then (\<not> s, - b) else (s, b))
      in bindS (udivdi3 a b) (\<lambda>r. Inr (if s then - r else r)))"

definition umoddi3 :: "u64 \<Rightarrow> u64 \<Rightarrow> exn + u64" where
  "umoddi3 a b = bindS (udivdi3 a b) (\<lambda>r. Inr (a - r * b))"

subsection \<open>Counting leading zeroes\<close>

lemma bit_bitrev_loop:
  "k < 32 \<Longrightarrow> i \<le> 32 \<Longrightarrow> bit (bitrev_loop i r b) k \<longleftrightarrow> (if k < i then bit b (i - 1 - k) else bit r (k - i))"
proof (induction i arbitrary: r b)
  case (Suc i)
  have "bit (push_bit 1 r OR (b AND 1)) (k - i) = (if k = i then bit b 0 else bit r (k - Suc i))" if "i \<le> k"
    unfolding bit_or_iff bit_and_iff bit_push_bit_iff bit_1_iff using that Suc.prems(1) by auto
  moreover have "bit (drop_bit 1 b) (i - 1 - k) = bit b (i - k)" if "k < i"
    unfolding bit_drop_bit_eq using that by (simp add: Suc_diff_Suc)
  ultimately show ?case using Suc.IH [of "push_bit 1 r OR (b AND 1)" "drop_bit 1 b"] Suc.prems
    by (cases "k < i"; cases "k = i") (simp_all only: bitrev_loop.simps, auto)
qed simp

lemma bit_zip_bitrev: "k < 32 \<Longrightarrow> bit (zip_bitrev a) k = bit a (31 - k)"
  using bit_bitrev_loop [of k 32 0 a] by (simp add: zip_bitrev_def)

definition low_bit :: "busw \<Rightarrow> nat" where
  "low_bit w = (LEAST k. bit w k)"

lemma bit_low_bit: "w \<noteq> 0 \<Longrightarrow> bit w (low_bit w)"
  unfolding low_bit_def by (rule LeastI_ex) (metis bit_eqI bit_0_eq bot_apply bot_bool_def)

lemma low_bit_le: "bit w k \<Longrightarrow> low_bit w \<le> k"
  unfolding low_bit_def by (rule Least_le)

lemma low_bit_eqI: "bit w k \<Longrightarrow> (\<And>j. j < k \<Longrightarrow> \<not> bit w j) \<Longrightarrow> low_bit w = k"
  unfolding low_bit_def by (rule Least_equality) (auto simp: not_less [symmetric])

lemma cltz_step_low_bit:
  assumes "w \<noteq> 0" and "cltz_step n (c, w) = (c', w')"
  shows "w' \<noteq> 0 \<and> c' + low_bit w' = c + low_bit w \<and> (low_bit w < 2 * n \<longrightarrow> low_bit w' < n)"
proof (cases "w AND mask n = 0")
  case True
  then have z: "\<not> bit w k" if "k < n" for k
    using that bit_imp_le_length [of w k] by (metis bit_and_iff bit_mask_iff bit_0_eq bot_apply bot_bool_def exp_eq_0_imp_not_bit possible_bit_word)
  have b: "bit w (low_bit w)" by (rule bit_low_bit [OF assms(1)])
  have n: "n \<le> low_bit w" using z [of "low_bit w"] b by (meson not_less)
  have d: "bit (drop_bit n w) (low_bit w - n)" using b n by (simp add: bit_drop_bit_eq)
  have "low_bit (drop_bit n w) = low_bit w - n"
  proof (rule low_bit_eqI [OF d])
    fix j assume "j < low_bit w - n"
    then show "\<not> bit (drop_bit n w) j" using low_bit_le [of w "n + j"] by (auto simp: bit_drop_bit_eq)
  qed
  moreover have "drop_bit n w \<noteq> 0" using d by auto
  ultimately show ?thesis using True assms(2) n by (auto simp: cltz_step_def)
next
  case False
  then obtain k where "bit (w AND mask n) k" by (metis bit_eqI bit_0_eq bot_apply bot_bool_def)
  then have "low_bit w < n" using low_bit_le [of w k] by (simp add: bit_and_iff bit_mask_iff)
  then show ?thesis using False assms by (auto simp: cltz_step_def)
qed

lemma cltz_steps:
  assumes "w \<noteq> 0"
  shows "(let (cnt, hv) = cltz_step 16 (c, w); (cnt, hv) = cltz_step 8 (cnt, hv); (cnt, hv) = cltz_step 4 (cnt, hv);
      (cnt, hv) = cltz_step 2 (cnt, hv) in if hv AND 0x01 = 0 then cnt + 1 else cnt) = c + low_bit w"
proof -
  obtain c1 w1 where 1: "cltz_step 16 (c, w) = (c1, w1)" by fastforce
  obtain c2 w2 where 2: "cltz_step 8 (c1, w1) = (c2, w2)" by fastforce
  obtain c3 w3 where 3: "cltz_step 4 (c2, w2) = (c3, w3)" by fastforce
  obtain c4 w4 where 4: "cltz_step 2 (c3, w3) = (c4, w4)" by fastforce
  have "low_bit w < 32" using bit_imp_le_length [OF bit_low_bit [OF assms]] by simp
  then have s: "w1 \<noteq> 0" "c1 + low_bit w1 = c + low_bit w" "low_bit w1 < 16" using cltz_step_low_bit [OF assms 1] by auto
  then have "w2 \<noteq> 0" "c2 + low_bit w2 = c + low_bit w" "low_bit w2 < 8" using cltz_step_low_bit [OF s(1) 2] by auto
  note s2 = this
  then have "w3 \<noteq> 0" "c3 + low_bit w3 = c + low_bit w" "low_bit w3 < 4" using cltz_step_low_bit [OF s2(1) 3] by auto
  note s3 = this
  then have s4: "w4 \<noteq> 0" "c4 + low_bit w4 = c + low_bit w" "low_bit w4 < 2" using cltz_step_low_bit [OF s3(1) 4] by auto
  have "w4 AND 1 = 0 \<longleftrightarrow> \<not> bit w4 0" by (simp add: and_one_eq even_iff_mod_2_eq_zero bit_0)
  moreover have "bit w4 0 \<longleftrightarrow> low_bit w4 = 0" using bit_low_bit [OF s4(1)] low_bit_le [of w4 0] by auto
  ultimately show ?thesis using s4(2,3) by (simp add: 1 2 3 4)
qed

lemma top_bit_of_low_bit:
  assumes "w \<noteq> 0"
  shows "zip_bitrev w \<noteq> 0" "low_bit (zip_bitrev w) < 32" "bit w (31 - low_bit (zip_bitrev w))"
    "\<And>n. bit w n \<Longrightarrow> n \<le> 31 - low_bit (zip_bitrev w)"
proof -
  obtain k where k: "bit w k" using assms by (metis bit_eqI bit_0_eq bot_apply bot_bool_def)
  then have k32: "k < 32" using bit_imp_le_length [of w k] by simp
  then have "bit (zip_bitrev w) (31 - k)" using bit_zip_bitrev [of "31 - k" w] k by simp
  then show nz: "zip_bitrev w \<noteq> 0" by auto
  let ?l = "low_bit (zip_bitrev w)"
  have l: "bit (zip_bitrev w) ?l" by (rule bit_low_bit [OF nz])
  then show l32: "?l < 32" using bit_imp_le_length by fastforce
  show "bit w (31 - ?l)" using l bit_zip_bitrev [OF l32] by simp
  fix n assume n: "bit w n"
  then have "n < 32" using bit_imp_le_length [of w n] by simp
  then have "bit (zip_bitrev w) (31 - n)" using bit_zip_bitrev [of "31 - n" w] n by simp
  then have "?l \<le> 31 - n" by (rule low_bit_le)
  then show "n \<le> 31 - ?l" using \<open>n < 32\<close> l32 by simp
qed

lemma cltz_top:
  assumes "v \<noteq> 0"
  shows "cltz v \<le> 63" "bit v (63 - cltz v)" "\<And>n. bit v n \<Longrightarrow> n \<le> 63 - cltz v"
proof -
  let ?h = "ucast (drop_bit 32 v) :: busw" and ?l = "ucast (v AND 0x0ffffffff) :: busw"
  have m: "v AND 0xffffffff = take_bit 32 v" by (simp add: take_bit_eq_mask mask_eq_exp_minus_1)
  have bh: "bit ?h n = (n < 32 \<and> bit v (32 + n))" for n by (auto simp: bit_simps)
  have bl: "bit ?l n = (n < 32 \<and> bit v n)" for n unfolding m by (auto simp: bit_simps)
  have "cltz v \<le> 63 \<and> bit v (63 - cltz v) \<and> (\<forall>n. bit v n \<longrightarrow> n \<le> 63 - cltz v)"
  proof (cases "?h = 0")
    case False
    note T = top_bit_of_low_bit [OF False]
    have c: "cltz v = low_bit (zip_bitrev ?h)" using cltz_steps [OF T(1), of 0] False by (simp add: cltz_def Let_def)
    have "bit v n \<Longrightarrow> n \<le> 63 - cltz v" for n
    proof (cases "n < 32")
      case False
      assume "bit v n"
      then have "bit ?h (n - 32)" using False bit_imp_le_length [of v n] by (simp add: bh)
      then show ?thesis using T(2) T(4) [of "n - 32"] c False by simp
    qed (use T(2) c in simp)
    moreover have "32 + (31 - cltz v) = 63 - cltz v" using T(2) c by simp
    ultimately show ?thesis using T(2) T(3) bh [of "31 - cltz v"] c by auto
  next
    case True
    have z: "\<not> bit v n" if "32 \<le> n" for n
      using that True bh [of "n - 32"] bit_imp_le_length [of v n] by auto
    obtain k where k: "bit v k" using assms by (metis bit_eqI bit_0_eq bot_apply bot_bool_def)
    then have "bit ?l k" using z [of k] unfolding bl by (meson not_less)
    then have nz: "?l \<noteq> 0" by auto
    note T = top_bit_of_low_bit [OF nz]
    have c: "cltz v = 32 + low_bit (zip_bitrev ?l)" using cltz_steps [OF T(1), of 32] True by (simp add: cltz_def Let_def)
    have "bit v n \<Longrightarrow> n \<le> 63 - cltz v" for n using T(4) [of n] z [of n] c by (cases "n < 32") (auto simp: bl)
    then show ?thesis using T(2) T(3) bl [of "31 - low_bit (zip_bitrev ?l)"] c by auto
  qed
  then show "cltz v \<le> 63" "bit v (63 - cltz v)" "\<And>n. bit v n \<Longrightarrow> n \<le> 63 - cltz v" by auto
qed

lemma cltz_bounds:
  assumes "v \<noteq> 0"
  shows "2 ^ (63 - cltz v) \<le> unat v" "unat v < 2 ^ (64 - cltz v)"
proof -
  let ?k = "63 - cltz v"
  show "2 ^ ?k \<le> unat v"
  proof (rule ccontr)
    assume "\<not> 2 ^ ?k \<le> unat v"
    then have "\<not> bit (unat v) ?k" by (intro not_bit_small [of _ ?k]) auto
    then show False using cltz_top(2) [OF assms] by (simp add: bit_unsigned_iff)
  qed
  have "take_bit (Suc ?k) v = v"
    by (rule bit_word_eqI) (use cltz_top(3) [OF assms] in \<open>auto simp: bit_take_bit_iff less_Suc_eq_le\<close>)
  then have "unat v = unat v mod 2 ^ Suc ?k" by (metis unsigned_take_bit_eq take_bit_eq_mod)
  then have "unat v < 2 ^ Suc ?k" by (metis mod_less_divisor zero_less_numeral zero_less_power)
  moreover have "Suc ?k = 64 - cltz v" using cltz_top(1) [OF assms] by simp
  ultimately show "unat v < 2 ^ (64 - cltz v)" by simp
qed

subsection \<open>The shift-and-subtract loop\<close>

lemma or_bit_add:
  fixes r :: u64
  assumes "\<not> bit r n"
  shows "r OR 2 ^ n = r + 2 ^ n"
proof -
  have "r AND 2 ^ n = 0" using assms by (simp add: and_exp_eq_0_iff_not_bit)
  then show ?thesis by (simp add: disjunctive_add_eq_or)
qed

lemma bit_or_exp: "bit (r OR 2 ^ n) k \<longleftrightarrow> bit r k \<or> (k = n \<and> n < 64)" for r :: u64
  by (auto simp: bit_or_iff bit_exp_iff)

lemma unat_exp64: "k < 64 \<Longrightarrow> unat (2 ^ k :: u64) = 2 ^ k"
  using unat_of_nat_lt [of "2 ^ k", where 'a = 64] power_strict_increasing [of k 64 "2::nat"] by simp

lemma udiv_loop_div:
  assumes "n < 64" and "0 < d" and "unat b = d * 2 ^ n" and "unat a < 2 * unat b" and "\<And>k. k \<le> n \<Longrightarrow> \<not> bit r k"
  shows "udiv_loop (2 ^ n) a b r = r + of_nat (unat a div d)"
  using assms
proof (induction n arbitrary: a b r)
  case 0
  have stop: "udiv_loop 0 x y z = z" for x y z by (subst udiv_loop.simps) simp
  show ?case
  proof (cases "a \<ge> b")
    case True
    then have "d \<le> unat a" using 0 by (simp add: word_le_nat_alt)
    moreover have "unat a - d < d" using 0 by simp
    ultimately have "unat a div d = 1" by (metis div_less le_div_geq add.right_neutral One_nat_def Suc_eq_plus1 "0.prems"(2))
    then show ?thesis using True or_bit_add [of r 0] 0 by (subst udiv_loop.simps) (simp add: stop)
  next
    case False
    then have "unat a < d" using 0 by (simp add: word_le_nat_alt)
    then show ?thesis using False by (subst udiv_loop.simps) (simp add: stop)
  qed
next
  case (Suc n)
  have m: "drop_bit 1 (2 ^ Suc n :: u64) = 2 ^ n"
  proof (rule bit_word_eqI)
    fix k assume "k < LENGTH(64)"
    then show "bit (drop_bit 1 (2 ^ Suc n :: u64)) k = bit (2 ^ n :: u64) k"
      unfolding bit_drop_bit_eq bit_exp_iff using Suc.prems(1) by (auto simp: bit_exp_iff)
  qed
  have pos: "0 < (2 ^ Suc n :: u64)" using unat_exp64 [OF Suc.prems(1)] by (simp only: word_less_nat_alt) simp
  have b': "unat (drop_bit 1 b) = d * 2 ^ n" using Suc.prems(3) by (simp add: unat_drop_bit)
  show ?case
  proof (cases "a \<ge> b")
    case True
    have s: "unat (a - b) = unat a - unat b" using True by (simp add: unat_sub)
    have lt: "unat (a - b) < 2 * unat (drop_bit 1 b)" using s b' Suc.prems(3,4) by simp
    have nb: "\<not> bit (r OR 2 ^ Suc n) k" if "k \<le> n" for k using Suc.prems(5) [of k] that unfolding bit_or_exp by simp
    have "unat a = unat (a - b) + 2 ^ Suc n * d" using s True Suc.prems(3) by (simp add: word_le_nat_alt)
    then have q: "unat a div d = unat (a - b) div d + 2 ^ Suc n" using Suc.prems(2) by simp
    have "udiv_loop (2 ^ Suc n) a b r = udiv_loop (2 ^ n) (a - b) (drop_bit 1 b) (r OR 2 ^ Suc n)"
      using True pos m by (subst udiv_loop.simps) simp
    also have "\<dots> = (r OR 2 ^ Suc n) + of_nat (unat (a - b) div d)"
      by (rule Suc.IH) (use Suc.prems b' lt nb in auto)
    finally show ?thesis using or_bit_add [of r "Suc n"] Suc.prems(5) [of "Suc n"] q by simp
  next
    case False
    then have lt: "unat a < 2 * unat (drop_bit 1 b)" using b' Suc.prems(3) by (simp add: word_le_nat_alt)
    have "udiv_loop (2 ^ Suc n) a b r = udiv_loop (2 ^ n) a (drop_bit 1 b) r"
      using False pos m by (subst udiv_loop.simps) simp
    also have "\<dots> = r + of_nat (unat a div d)" by (rule Suc.IH) (use Suc.prems b' lt in auto)
    finally show ?thesis .
  qed
qed

subsection \<open>Division\<close>

lemma unat_push_bit:
  fixes v :: u64
  assumes "unat v * 2 ^ k < 2 ^ 64"
  shows "unat (push_bit k v) = unat v * 2 ^ k"
proof -
  have "unat (push_bit k v) = take_bit 64 (push_bit k (unat v))" by (simp add: unsigned_push_bit_eq)
  then show ?thesis using assms by (simp add: push_bit_eq_mult take_bit_nat_eq_self)
qed

lemma unat_eq_of_nat: "unat v = n \<Longrightarrow> v = of_nat n" for v :: u64
  using unsigned_less [of v, where 'a = nat] unat_of_nat_lt [of n, where 'a = 64] by (auto simp: word_unat_eq_iff)

lemma cltz_mono: "b \<noteq> 0 \<Longrightarrow> b \<le> a \<Longrightarrow> cltz a \<le> cltz b"
proof -
  assume b: "b \<noteq> 0" and ab: "b \<le> a"
  then have a: "a \<noteq> 0" by auto
  have "(2::nat) ^ (63 - cltz b) < 2 ^ (64 - cltz a)"
    using cltz_bounds(1) [OF b] cltz_bounds(2) [OF a] ab unfolding word_le_nat_alt by linarith
  then have "63 - cltz b < 64 - cltz a" by (rule power_less_imp_less_exp [rotated]) simp
  then show ?thesis using cltz_top(1) [OF b] by simp
qed

lemma cltz_shift: "v \<noteq> 0 \<Longrightarrow> k \<le> cltz v \<Longrightarrow> unat (push_bit k v) = unat v * 2 ^ k"
proof (rule unat_push_bit)
  assume v: "v \<noteq> 0" and k: "k \<le> cltz v"
  have "unat v * 2 ^ k < 2 ^ (64 - cltz v) * 2 ^ k" using cltz_bounds(2) [OF v] by simp
  also have "\<dots> = 2 ^ (64 - cltz v + k)" by (simp add: power_add)
  also have "\<dots> \<le> 2 ^ 64" using k cltz_top(1) [OF v] by (intro power_increasing) auto
  finally show "unat v * 2 ^ k < 2 ^ 64" .
qed

lemma udivdi3_div:
  assumes "b \<noteq> 0"
  shows "udivdi3 a b = Inr (a div b)"
proof -
  have d: "a div b = of_nat (unat a div unat b)" by (simp add: word_arith_nat_defs(6))
  consider (less) "a < b" | (small) "b \<le> a" "drop_bit 32 b = 0" "drop_bit 32 a = 0"
    | (big) "b \<le> a" "\<not> (drop_bit 32 b = 0 \<and> drop_bit 32 a = 0)" by fastforce
  then show ?thesis
  proof cases
    case less
    then show ?thesis unfolding d by (simp add: udivdi3_def word_less_nat_alt)
  next
    case small
    have s: "unat v < 2 ^ 32" if "drop_bit 32 v = 0" for v :: u64
      using arg_cong [OF that, of unat] by (simp add: unat_drop_bit div_eq_0_iff)
    have u: "unat (ucast b :: busw) = unat b" "unat (ucast a :: busw) = unat a"
      using s [OF small(2)] s [OF small(3)] by (simp_all add: unat_ucast32)
    then have "(ucast b :: busw) \<noteq> 0" using assms by (metis unat_0 unat_eq_zero)
    moreover have "ucast ((ucast a :: busw) div ucast b) = (of_nat (unat a div unat b) :: u64)"
    proof -
      have "unat (ucast ((ucast a :: busw) div ucast b) :: u64) = unat a div unat b"
        unfolding unat_ucast64 unat_div_distrib u ..
      then show ?thesis by (rule unat_eq_of_nat)
    qed
    ultimately show ?thesis using small unfolding d by (simp add: udivdi3_def Let_def not_less)
  next
    case big
    then have a: "a \<noteq> 0" using assms by auto
    let ?la = "cltz a" and ?lb = "cltz b"
    have le: "?la \<le> ?lb" by (rule cltz_mono [OF assms big(1)])
    have ua: "unat (push_bit ?la a) = unat a * 2 ^ ?la" by (rule cltz_shift [OF a order.refl])
    have uba: "unat (push_bit ?la b) = unat b * 2 ^ ?la" by (rule cltz_shift [OF assms le])
    have ubb: "unat (push_bit ?lb b) = unat b * 2 ^ ?lb" by (rule cltz_shift [OF assms order.refl])
    have q: "unat (push_bit ?la a) div unat (push_bit ?la b) = unat a div unat b" unfolding ua uba by simp
    show ?thesis
    proof (cases "int ?lb - int ?la < 32 \<and> push_bit ?la b AND 0x0ffffffff = 0")
      case True
      let ?A = "push_bit ?la a" and ?B = "push_bit ?la b"
      have "unat (?B AND 0xffffffff) = unat ?B mod 2 ^ 32"
        using unat_and_mask [of ?B 32] by (simp add: mask_eq_exp_minus_1)
      then have "2 ^ 32 dvd unat ?B" using True by (simp add: dvd_eq_mod_eq_0)
      then obtain c where c: "unat ?B = 2 ^ 32 * c" by (rule dvdE)
      have h: "unat (ucast (drop_bit 32 v) :: busw) = unat v div 2 ^ 32" for v :: u64
        using unsigned_less [of v, where 'a = nat] by (simp add: unat_ucast32 unat_drop_bit)
      have ib: "unat (ucast (drop_bit 32 ?B) :: busw) = c" unfolding h c by simp
      have "c \<noteq> 0" using c uba assms by (metis mult_eq_0_iff mult_0_right power_not_zero unat_eq_zero zero_neq_numeral)
      then have "(ucast (drop_bit 32 ?B) :: busw) \<noteq> 0" using ib by (metis unat_0)
      moreover have "unat (ucast ((ucast (drop_bit 32 ?A) :: busw) div ucast (drop_bit 32 ?B)) :: u64) = unat a div unat b"
        unfolding unat_ucast64 unat_div_distrib h q [symmetric] c by (simp flip: div_mult2_eq)
      ultimately show ?thesis
        using big(1) unfolding d udivdi3_def Let_def if_not_P [OF big(2)] if_P [OF True]
        by (simp only: not_less [symmetric] if_False) (simp add: unat_eq_of_nat)
    next
      case False
      have n: "?lb - ?la < 64" using cltz_top(1) [OF assms] by simp
      have B: "unat (push_bit ?lb b) = unat (push_bit ?la b) * 2 ^ (?lb - ?la)"
        unfolding ubb uba using le by (simp flip: power_add)
      have pos: "0 < unat (push_bit ?la b)" unfolding uba using assms by (simp add: unat_gt_0)
      have "2 ^ 63 \<le> unat (push_bit ?lb b)"
      proof -
        have "(2::nat) ^ 63 = 2 ^ (63 - ?lb) * 2 ^ ?lb" using cltz_top(1) [OF assms] by (simp flip: power_add)
        also have "\<dots> \<le> unat b * 2 ^ ?lb" using cltz_bounds(1) [OF assms] by (intro mult_right_mono) simp_all
        finally show ?thesis unfolding ubb .
      qed
      then have lt: "unat (push_bit ?la a) < 2 * unat (push_bit ?lb b)"
        using unsigned_less [of "push_bit ?la a", where 'a = nat] by simp
      have "udiv_loop (2 ^ (?lb - ?la)) (push_bit ?la a) (push_bit ?lb b) 0 = 0 + of_nat (unat (push_bit ?la a) div unat (push_bit ?la b))"
        by (rule udiv_loop_div [OF n pos B lt]) simp
      then show ?thesis using big False le unfolding d q [symmetric] by (auto simp: udivdi3_def Let_def not_less push_bit_of_1)
    qed
  qed
qed

text \<open>C26: the 64-bit division and remainder of the run-time library, written with shifts, a bit
  reversal and a 32-bit divide, are division and remainder for every divisor but zero.\<close>

theorem udivdi3_umoddi3:
  assumes "b \<noteq> 0"
  shows "udivdi3 a b = Inr (a div b) \<and> umoddi3 a b = Inr (a mod b)"
proof -
  have "a - a div b * b = a mod b" by (metis add_diff_cancel_left' word_mod_div_equality add.commute)
  then show ?thesis using udivdi3_div [OF assms] by (simp add: umoddi3_def)
qed

theorem udivdi3_umoddi3_witness:
  "udivdi3 0x1234567890abcdef 0x100000007 = Inr (0x1234567890abcdef div 0x100000007) \<and>
   umoddi3 0x1234567890abcdef 0x100000007 = Inr (0x1234567890abcdef mod 0x100000007)"
  by (rule udivdi3_umoddi3) simp

lemma sint64_range: "- (2 ^ 63) \<le> sint v" "sint v < 2 ^ 63" for v :: u64
  using sint_ge [of v] sint_lt [of v] by simp_all

lemma sint64_of_int: "- (2 ^ 63) \<le> i \<Longrightarrow> i < 2 ^ 63 \<Longrightarrow> sint (of_int i :: u64) = i"
  by (simp add: signed_of_int signed_take_bit_int_eq_self)

text \<open>The signed division rounds towards zero, for every dividend and divisor whose quotient fits.\<close>

lemma divdi3_truncates:
  assumes "b \<noteq> 0" and "\<not> (sint a = - (2 ^ 63) \<and> sint b = - 1)"
  shows "\<exists>r. divdi3 a b = Inr r \<and> sint r = sgn (sint a) * sgn (sint b) * (\<bar>sint a\<bar> div \<bar>sint b\<bar>)"
proof -
  let ?A = "if a <s 0 then - a else a" and ?B = "if b <s 0 then - b else b"
  let ?q = "\<bar>sint a\<bar> div \<bar>sint b\<bar>" and ?s = "(a <s 0) \<noteq> (b <s 0)"
  have "of_int (sint b) = b" by simp
  then have b: "sint b \<noteq> 0" using assms(1) by (metis of_int_0)
  then have "unat ?B \<noteq> 0" unfolding unat_abs by simp
  then have "?B \<noteq> 0" by (rule contrapos_nn) (simp only: unat_0)
  then have d: "udivdi3 ?A ?B = Inr (?A div ?B)" by (rule udivdi3_div)
  have "unat (?A div ?B) = nat ?q" unfolding unat_div_distrib unat_abs by (simp add: nat_div_distrib)
  then have q: "?A div ?B = of_int ?q"
    using unat_eq_of_nat [of "?A div ?B" "nat ?q"] by (simp add: div_int_pos_iff)
  have le: "0 \<le> ?q" "?q \<le> \<bar>sint a\<bar>"
    by (simp add: div_int_pos_iff, rule order.trans [OF zdiv_mono2 [of "\<bar>sint a\<bar>" 1 "\<bar>sint b\<bar>"]], use b in auto)
  have lt: "?q < 2 ^ 63" if "\<not> ?s"
  proof (cases "sint a = - (2 ^ 63)")
    case True
    then have "sint b < 0" using that by (auto simp: word_sless_alt)
    then have "1 < \<bar>sint b\<bar>" using assms(2) True by auto
    then have "?q < \<bar>sint a\<bar>" using True by (intro int_div_less_self) auto
    then show ?thesis using True by simp
  next
    case False
    then show ?thesis using le(2) sint64_range [of a] by linarith
  qed
  have "divdi3 a b = Inr (if ?s then - (?A div ?B) else ?A div ?B)"
    using d by (auto simp: divdi3_def Let_def)
  moreover have "sint (if ?s then - (?A div ?B) else ?A div ?B) = (if ?s then - ?q else ?q)"
  proof (cases ?s)
    case True
    have "- (?A div ?B) = of_int (- ?q)" unfolding q by simp
    moreover have "?q \<le> 2 ^ 63" using le(2) sint64_range [of a] by linarith
    ultimately show ?thesis using True sint64_of_int [of "- ?q"] le(1) by simp
  next
    case False
    then show ?thesis using sint64_of_int [of ?q] le(1) lt q by simp
  qed
  moreover have "(if ?s then - ?q else ?q) = sgn (sint a) * sgn (sint b) * ?q"
    using b by (auto simp: word_sless_alt sgn_if)
  ultimately show ?thesis by simp
qed

lemma divdi3_truncates_witness: "\<exists>r. divdi3 (- 7) 2 = Inr r \<and> sint r = - 3"
  using divdi3_truncates [of 2 "- 7"] by simp

end
