(* ===== verification/UartLine.thy ===== *)
theory UartLine
  imports Prelude
begin

text \<open>
  The serial line of the simulators (\<open>src/rtl/helloworld/uart_line.cpp\<close>, \<open>uart_line.h\<close>; the file
  \<open>src/sim/verilated/dbluart_line.cpp\<close> has the same code a second time): the setup register, the
  receiver, which watches the design's transmit wire, and the transmitter, which drives the
  design's receive wire. What becomes of a received character and where the next one to
  send comes from is the business of the two simulators, theories \<open>UartSim\<close> and \<open>DblUartSim\<close>, whose
  records extend the one here.

  The counters are mathematical integers: they stay small, except \<open>m_rx_changectr\<close>, which counts
  the clocks since the last falling edge.
\<close>

subsection \<open>Definitions\<close>

datatype rx_state = RXIDLE | RXDATA
datatype tx_state = TXIDLE | TXDATA

record uart_line =
  m_setup :: busw
  m_nparity :: nat
  m_fixdp :: bool
  m_evenp :: busw
  m_nbits :: nat
  m_nstop :: nat
  m_baud_counts :: int
  m_rx_baudcounter :: int
  m_rx_state :: rx_state
  m_rx_busy :: int
  m_rx_changectr :: int
  m_last_tx :: bool
  m_tx_baudcounter :: int
  m_tx_state :: tx_state
  m_tx_busy :: int
  m_rx_data :: busw
  m_tx_data :: busw

definition uart_setup :: "busw \<Rightarrow> 'a uart_line_scheme \<Rightarrow> 'a uart_line_scheme" where
  "uart_setup isetup s =
     (if isetup \<noteq> m_setup s then
        s\<lparr>m_setup := isetup, m_baud_counts := int (unat (isetup AND 0x0ffffff)),
          m_nbits := 8 - unat (drop_bit 28 isetup AND 0x03), m_nstop := unat (drop_bit 27 isetup AND 1) + 1,
          m_nparity := unat (drop_bit 26 isetup AND 1), m_fixdp := (drop_bit 25 isetup AND 1 \<noteq> 0),
          m_evenp := drop_bit 24 isetup AND 1\<rparr>
      else s)"

text \<open>The clocks since the last falling edge.\<close>

definition rx_edge :: "bool \<Rightarrow> 'a uart_line_scheme \<Rightarrow> 'a uart_line_scheme" where
  "rx_edge i_tx s =
     s\<lparr>m_rx_changectr := (if \<not> i_tx \<and> m_last_tx s then 0 else m_rx_changectr s + 1), m_last_tx := i_tx\<rparr>"

text \<open>The receiver, with the character it has finished, if any.\<close>

definition rx_line :: "bool \<Rightarrow> 'a uart_line_scheme \<Rightarrow> byte option \<times> 'a uart_line_scheme" where
  "rx_line i_tx s =
     (if m_rx_state s = RXIDLE then
        (if \<not> i_tx then
           (None, s\<lparr>m_rx_state := RXDATA,
                    m_rx_baudcounter := m_baud_counts s + m_baud_counts s div 2 - 1 - m_rx_changectr s,
                    m_rx_busy := 0, m_rx_data := 0\<rparr>)
         else (None, s))
      else if m_rx_baudcounter s \<le> 0 then
        (if m_rx_busy s \<ge> 2 ^ (m_nbits s + m_nparity s + m_nstop s - 1)
         then (Some (ucast (drop_bit (32 - m_nbits s - m_nstop s - m_nparity s) (m_rx_data s) AND 0x0ff)),
               s\<lparr>m_rx_state := RXIDLE, m_rx_baudcounter := m_baud_counts s - 1\<rparr>)
         else (None, s\<lparr>m_rx_busy := 2 * m_rx_busy s + 1,
                       m_rx_data := push_bit 31 (of_bool i_tx) OR drop_bit 1 (m_rx_data s),
                       m_rx_baudcounter := m_baud_counts s - 1\<rparr>))
      else (None, s\<lparr>m_rx_baudcounter := m_rx_baudcounter s - 1\<rparr>))"

definition parity_of :: "'a uart_line_scheme \<Rightarrow> busw \<Rightarrow> busw" where
  "parity_of s d =
     (if m_fixdp s then m_evenp s
      else let p = drop_bit 1 d AND 0x0ff;
               p = p XOR drop_bit 4 p;
               p = p XOR drop_bit 2 p;
               p = p XOR drop_bit 1 p;
               p = p AND 1
           in p XOR m_evenp s)"

text \<open>The transmitter: a character is loaded, which lowers the wire, or the frame goes on.\<close>

definition tx_load :: "byte \<Rightarrow> 'a uart_line_scheme \<Rightarrow> 'a uart_line_scheme" where
  "tx_load buf s =
     (let d = push_bit (m_nbits s + m_nparity s + 1) (- 1) OR (push_bit 1 (ucast buf) AND 0x01fe);
          d = (if m_nparity s \<noteq> 0 then d OR push_bit (m_nbits s + m_nparity s) (parity_of s d) else d)
      in s\<lparr>m_tx_data := d, m_tx_busy := 2 ^ (m_nbits s + m_nparity s + m_nstop s + 1) - 1,
           m_tx_state := TXDATA, m_tx_baudcounter := m_baud_counts s - 1\<rparr>)"

definition tx_shift :: "'a uart_line_scheme \<Rightarrow> bool \<times> 'a uart_line_scheme" where
  "tx_shift s =
     (if m_tx_baudcounter s \<le> 0 then
        (let s = s\<lparr>m_tx_data := drop_bit 1 (m_tx_data s), m_tx_busy := m_tx_busy s div 2\<rparr>;
             s = (if m_tx_busy s = 0 then s\<lparr>m_tx_state := TXIDLE\<rparr> else s\<lparr>m_tx_baudcounter := m_baud_counts s - 1\<rparr>)
         in (bit (m_tx_data s) 0, s))
      else (let s = s\<lparr>m_tx_baudcounter := m_tx_baudcounter s - 1\<rparr> in (bit (m_tx_data s) 0, s)))"

subsection \<open>The line alone\<close>

text \<open>A clock of the line: the level of the design's transmit wire and, for an idle transmitter,
  the character offered to it, give the level of the receive wire and the character received.
  The simulators are shown to follow this line.\<close>

definition tx_line :: "byte option \<Rightarrow> uart_line \<Rightarrow> bool \<times> uart_line" where
  "tx_line offer s =
     (if m_tx_state s = TXIDLE then (case offer of None \<Rightarrow> (True, s) | Some b \<Rightarrow> (False, tx_load b s)) else tx_shift s)"

definition rx_part :: "bool \<Rightarrow> uart_line \<Rightarrow> byte option \<times> uart_line" where
  "rx_part i s = rx_line i (rx_edge i s)"

definition line_tick :: "byte option \<Rightarrow> bool \<Rightarrow> uart_line \<Rightarrow> (bool \<times> byte option) \<times> uart_line" where
  "line_tick offer i s =
     (let (ch, s) = rx_part i s; (o_rx, s) = tx_line offer s in ((o_rx, ch), s))"

fun line_run :: "(nat \<Rightarrow> byte option) \<Rightarrow> nat \<Rightarrow> bool list \<Rightarrow> uart_line \<Rightarrow> (bool \<times> byte option) list \<times> uart_line" where
  "line_run f t [] s = ([], s)"
| "line_run f t (i # is) s =
     (let (r, s) = line_tick (f t) i s; (rs, s) = line_run f (Suc t) is s in (r # rs, s))"

definition line_wire :: "(nat \<Rightarrow> byte option) \<Rightarrow> nat \<Rightarrow> bool list \<Rightarrow> uart_line \<Rightarrow> bool list" where
  "line_wire f t is s = map fst (fst (line_run f t is s))"

definition chars_of :: "byte option \<Rightarrow> byte list" where
  "chars_of ch = (case ch of None \<Rightarrow> [] | Some b \<Rightarrow> [b])"

definition line_chars :: "(nat \<Rightarrow> byte option) \<Rightarrow> nat \<Rightarrow> bool list \<Rightarrow> uart_line \<Rightarrow> byte list" where
  "line_chars f t is s = concat (map (chars_of \<circ> snd) (fst (line_run f t is s)))"

text \<open>The reference: a frame is a start bit and the frame's bits, each held for \<open>B\<close> clocks; the
  byte of a frame is made of its first eight bits, the first the least significant.\<close>

definition uart_frame :: "nat \<Rightarrow> bool list \<Rightarrow> bool list" where
  "uart_frame B fs = concat (map (replicate B) (False # fs))"

definition frame_byte :: "bool list \<Rightarrow> byte" where
  "frame_byte fs = horner_sum of_bool 2 (take 8 fs)"

definition frame_length :: "'a uart_line_scheme \<Rightarrow> nat" where
  "frame_length s = m_nbits s + m_nparity s + m_nstop s"

text \<open>The bits that are sent after the start bit.\<close>

definition frame_bits :: "'a uart_line_scheme \<Rightarrow> byte \<Rightarrow> bool list" where
  "frame_bits s b = map (\<lambda>k. bit (m_tx_data (tx_load b s)) (Suc k)) [0..<frame_length s]"

subsection \<open>One clock\<close>

definition uart_cfg :: "int \<Rightarrow> nat \<Rightarrow> uart_line \<Rightarrow> bool" where
  "uart_cfg B n s \<longleftrightarrow> m_baud_counts s = B \<and> frame_length s = n"

definition rx_waits :: "nat \<Rightarrow> int \<Rightarrow> busw \<Rightarrow> uart_line \<Rightarrow> bool" where
  "rx_waits k c d s \<longleftrightarrow> m_rx_state s = RXDATA \<and> m_rx_busy s = 2 ^ k - 1 \<and> m_rx_baudcounter s = c \<and> m_rx_data s = d"

lemma chars_of_simps [simp]: "chars_of None = []" "chars_of (Some b) = [b]"
  by (simp_all add: chars_of_def)

text \<open>The two directions do not interfere.\<close>

lemma tx_line_keeps [simp]:
  "m_rx_state (snd (tx_line b s)) = m_rx_state s" "m_rx_busy (snd (tx_line b s)) = m_rx_busy s"
  "m_rx_baudcounter (snd (tx_line b s)) = m_rx_baudcounter s" "m_rx_data (snd (tx_line b s)) = m_rx_data s"
  "m_rx_changectr (snd (tx_line b s)) = m_rx_changectr s" "m_last_tx (snd (tx_line b s)) = m_last_tx s"
  "m_baud_counts (snd (tx_line b s)) = m_baud_counts s" "frame_length (snd (tx_line b s)) = frame_length s"
  by (simp_all add: tx_line_def tx_load_def tx_shift_def frame_length_def Let_def split: option.split)

lemma line_tick_split:
  "line_tick b i s = ((fst (tx_line b (snd (rx_part i s))), fst (rx_part i s)), snd (tx_line b (snd (rx_part i s))))"
  by (simp add: line_tick_def Let_def split: prod.split)

lemmas rx_defs = rx_part_def rx_line_def rx_edge_def uart_cfg_def frame_length_def rx_waits_def Let_def

lemma rx_wait:
  assumes "uart_cfg B n s" "rx_waits k c d s" "c > 0"
  shows "fst (rx_part i s) = None" "uart_cfg B n (snd (rx_part i s))" "rx_waits k (c - 1) d (snd (rx_part i s))"
  using assms by (simp_all add: rx_defs)

definition rx_push :: "bool \<Rightarrow> busw \<Rightarrow> busw" where
  "rx_push v d = push_bit 31 (of_bool v) OR drop_bit 1 d"

lemma rx_sample:
  assumes "uart_cfg B n s" "rx_waits k 0 d s" "k < n"
  shows "fst (rx_part i s) = None" "uart_cfg B n (snd (rx_part i s))"
    "rx_waits (Suc k) (B - 1) (rx_push i d) (snd (rx_part i s))"
proof -
  have "(2::int) ^ k \<le> 2 ^ (n - 1)" using assms(3) by (intro power_increasing) auto
  then show "fst (rx_part i s) = None" "uart_cfg B n (snd (rx_part i s))"
    "rx_waits (Suc k) (B - 1) (rx_push i d) (snd (rx_part i s))"
    using assms by (simp_all add: rx_defs rx_push_def)
qed

lemma rx_finishes:
  assumes "uart_cfg B n s" "rx_waits n 0 d s" "n > 0"
  shows "fst (rx_part i s) = Some (ucast (drop_bit (32 - n) d AND 0xff))" "uart_cfg B n (snd (rx_part i s))"
    "m_rx_state (snd (rx_part i s)) = RXIDLE"
proof -
  have "(2::int) ^ n = 2 * 2 ^ (n - 1)" using assms(3) by (cases n) auto
  moreover have "(1::int) \<le> 2 ^ (n - 1)" by simp
  ultimately have *: "(2::int) ^ (n - 1) \<le> 2 ^ n - 1" by linarith
  have n: "32 - m_nbits s - m_nstop s - m_nparity s = 32 - n"
    using assms(1) unfolding uart_cfg_def frame_length_def by arith
  show "fst (rx_part i s) = Some (ucast (drop_bit (32 - n) d AND 0xff))" "uart_cfg B n (snd (rx_part i s))"
    "m_rx_state (snd (rx_part i s)) = RXIDLE"
    using assms * n by (simp_all add: rx_defs)
qed

lemma rx_idle:
  assumes "uart_cfg B n s" "m_rx_state s = RXIDLE" "i"
  shows "fst (rx_part i s) = None" "uart_cfg B n (snd (rx_part i s))" "m_rx_state (snd (rx_part i s)) = RXIDLE"
  using assms by (simp_all add: rx_defs)

lemma rx_starts:
  assumes "uart_cfg B n s" "m_rx_state s = RXIDLE" "\<not> i"
  shows "fst (rx_part i s) = None" "uart_cfg B n (snd (rx_part i s))"
    "rx_waits 0 (B + B div 2 - 1 - m_rx_changectr (rx_edge i s)) 0 (snd (rx_part i s))"
  using assms by (simp_all add: rx_defs)

lemma rx_part_edge [simp]:
  "m_rx_changectr (snd (rx_part i s)) = m_rx_changectr (rx_edge i s)" "m_last_tx (snd (rx_part i s)) = i"
  by (simp_all add: rx_defs)

lemma tx_line_stable [simp]:
  "rx_waits k c d (snd (tx_line b s)) = rx_waits k c d s"
  "uart_cfg B n (snd (tx_line b s)) = uart_cfg B n s"
  by (simp_all add: rx_waits_def uart_cfg_def)

subsection \<open>Receiving\<close>

text \<open>\<open>rx_drives P is w Q\<close>: from a state with \<open>P\<close>, the levels \<open>is\<close> make the receiver
  report \<open>w\<close> and end in a state with \<open>Q\<close>.\<close>

definition rx_drives :: "(uart_line \<Rightarrow> bool) \<Rightarrow> bool list \<Rightarrow> byte list \<Rightarrow> (uart_line \<Rightarrow> bool) \<Rightarrow> bool" where
  "rx_drives P is w Q \<longleftrightarrow> (\<forall>f t s. P s \<longrightarrow> line_chars f t is s = w \<and> Q (snd (line_run f t is s)))"

definition tx_stable :: "(uart_line \<Rightarrow> bool) \<Rightarrow> bool" where
  "tx_stable Q \<longleftrightarrow> (\<forall>b s. Q s \<longrightarrow> Q (snd (tx_line b s)))"

lemma line_run_append:
  "line_run f t (xs @ ys) s =
     (fst (line_run f t xs s) @ fst (line_run f (t + length xs) ys (snd (line_run f t xs s))),
      snd (line_run f (t + length xs) ys (snd (line_run f t xs s))))"
  by (induction xs arbitrary: t s) (simp_all add: Let_def split: prod.split)

lemma rx_drives_Nil: "(\<And>s. P s \<Longrightarrow> Q s) \<Longrightarrow> rx_drives P [] [] Q"
  by (simp add: rx_drives_def line_chars_def)

lemma rx_drives_append: "rx_drives P xs w Q \<Longrightarrow> rx_drives Q ys v R \<Longrightarrow> rx_drives P (xs @ ys) (w @ v) R"
  by (simp add: rx_drives_def line_chars_def line_run_append)

lemma rx_drives_post: "rx_drives P xs w Q \<Longrightarrow> (\<And>s. Q s \<Longrightarrow> R s) \<Longrightarrow> rx_drives P xs w R"
  by (auto simp: rx_drives_def)

lemma rx_drives_pre: "rx_drives P xs w Q \<Longrightarrow> (\<And>s. R s \<Longrightarrow> P s) \<Longrightarrow> rx_drives R xs w Q"
  by (auto simp: rx_drives_def)

lemma rx_drives_one:
  assumes "\<And>s. P s \<Longrightarrow> chars_of (fst (rx_part i s)) = w \<and> Q (snd (rx_part i s))" and "tx_stable Q"
  shows "rx_drives P [i] w Q"
  using assms by (simp add: rx_drives_def line_chars_def line_tick_split tx_stable_def)

lemmas rx_drives_Cons = rx_drives_append [of P "[i]" for P i, simplified]

text \<open>\<open>m\<close> low levels have been seen since the wire was last high.\<close>

definition low_for :: "nat \<Rightarrow> uart_line \<Rightarrow> bool" where
  "low_for m s \<longleftrightarrow> (if m = 0 then m_last_tx s else \<not> m_last_tx s \<and> m_rx_changectr s = int m - 1)"

lemma tx_stable_intros [simp]:
  "tx_stable (\<lambda>s. uart_cfg B n s)" "tx_stable (\<lambda>s. rx_waits k c d s)" "tx_stable (\<lambda>s. m_last_tx s = l)"
  "tx_stable (\<lambda>s. m_last_tx s)" "tx_stable (low_for m)" "tx_stable (\<lambda>s. m_rx_state s = r)"
  "tx_stable P \<Longrightarrow> tx_stable Q \<Longrightarrow> tx_stable (\<lambda>s. P s \<and> Q s)"
  by (simp_all add: tx_stable_def low_for_def)

lemma low_for_edge:
  "low_for m s \<Longrightarrow> m_rx_changectr (rx_edge False s) = int m"
  "low_for m s \<Longrightarrow> low_for (Suc m) (snd (rx_part False s))"
  by (auto simp: low_for_def rx_edge_def split: if_splits)

lemma rx_hold:
  "int m \<le> c \<Longrightarrow> rx_drives (\<lambda>s. uart_cfg B n s \<and> rx_waits k c d s) (replicate m i) []
     (\<lambda>s. uart_cfg B n s \<and> rx_waits k (c - int m) d s \<and> (m > 0 \<longrightarrow> m_last_tx s = i))"
proof (induction m arbitrary: c)
  case 0
  then show ?case by (simp add: rx_drives_Nil)
next
  case (Suc m)
  have one: "rx_drives (\<lambda>s. uart_cfg B n s \<and> rx_waits k c d s) [i] []
    (\<lambda>s. (uart_cfg B n s \<and> rx_waits k (c - 1) d s) \<and> m_last_tx s = i)"
    using Suc.prems by (intro rx_drives_one) (auto simp: rx_wait)
  show ?case
  proof (cases m)
    case 0
    then show ?thesis using rx_drives_post [OF one] by simp
  next
    case (Suc m')
    have "rx_drives (\<lambda>s. (uart_cfg B n s \<and> rx_waits k (c - 1) d s) \<and> m_last_tx s = i) (replicate m i) []
      (\<lambda>s. uart_cfg B n s \<and> rx_waits k (c - 1 - int m) d s \<and> (m > 0 \<longrightarrow> m_last_tx s = i))"
      by (rule rx_drives_pre [OF Suc.IH]) (use Suc.prems in auto)
    from rx_drives_Cons [OF one this] show ?thesis
      using Suc by (auto simp: algebra_simps elim!: rx_drives_post)
  qed
qed

lemma rx_hold_low:
  "int m \<le> c \<Longrightarrow> rx_drives (\<lambda>s. uart_cfg B n s \<and> rx_waits k c d s \<and> low_for j s) (replicate m False) []
     (\<lambda>s. uart_cfg B n s \<and> rx_waits k (c - int m) d s \<and> low_for (j + m) s)"
proof (induction m arbitrary: c j)
  case 0
  then show ?case by (simp add: rx_drives_Nil)
next
  case (Suc m)
  have one: "rx_drives (\<lambda>s. uart_cfg B n s \<and> rx_waits k c d s \<and> low_for j s) [False] []
    (\<lambda>s. uart_cfg B n s \<and> rx_waits k (c - 1) d s \<and> low_for (Suc j) s)"
    using Suc.prems by (intro rx_drives_one) (auto simp: rx_wait low_for_edge)
  have "int m \<le> c - 1" using Suc.prems by simp
  from rx_drives_Cons [OF one Suc.IH [OF this]] show ?case
    by (simp add: algebra_simps)
qed

lemma rx_bit:
  assumes "k < n" "B \<ge> 2"
  shows "rx_drives (\<lambda>s. uart_cfg (int B) n s \<and> rx_waits k (int B div 2) d s) (replicate B v) []
     (\<lambda>s. uart_cfg (int B) n s \<and> rx_waits (Suc k) (int B div 2) (rx_push v d) s \<and> m_last_tx s = v)"
proof -
  let ?d = "rx_push v d"
  have split: "replicate B v = replicate (B div 2) v @ v # replicate (B - 1 - B div 2) v"
    using assms(2) by (simp add: replicate_app_Cons_same flip: replicate_add replicate_Suc)
  have c: "int B div 2 - int (B div 2) = 0" by (simp add: zdiv_int)
  have c': "int B - 1 - int (B - 1 - B div 2) = int B div 2" using assms(2) by linarith
  have one: "rx_drives (\<lambda>s. uart_cfg (int B) n s \<and> rx_waits k 0 d s) [v] []
    (\<lambda>s. uart_cfg (int B) n s \<and> rx_waits (Suc k) (int B - 1) ?d s \<and> m_last_tx s = v)"
    using assms by (intro rx_drives_one) (auto simp: rx_sample)
  have first: "rx_drives (\<lambda>s. uart_cfg (int B) n s \<and> rx_waits k (int B div 2) d s) (replicate (B div 2) v) []
    (\<lambda>s. uart_cfg (int B) n s \<and> rx_waits k 0 d s)"
    by (rule rx_drives_post [OF rx_hold]) (use c in auto)
  have last: "rx_drives (\<lambda>s. uart_cfg (int B) n s \<and> rx_waits (Suc k) (int B - 1) ?d s \<and> m_last_tx s = v) (replicate (B - 1 - B div 2) v) []
    (\<lambda>s. uart_cfg (int B) n s \<and> rx_waits (Suc k) (int B div 2) ?d s \<and> m_last_tx s = v)"
  proof (cases "B - 1 - B div 2")
    case 0
    then have "int B - 1 = int B div 2" using c' by simp
    then show ?thesis using 0 by (simp add: rx_drives_Nil)
  next
    case (Suc m)
    show ?thesis
      by (rule rx_drives_pre [OF rx_drives_post [OF rx_hold [of _ "int B - 1" "int B" n "Suc k" ?d v]]]) (use Suc c' in \<open>auto simp: zdiv_int\<close>)
  qed
  from rx_drives_append [OF first rx_drives_Cons [OF one last]] show ?thesis by (simp add: split)
qed

definition rx_shift :: "bool list \<Rightarrow> busw \<Rightarrow> busw" where
  "rx_shift fs d = fold rx_push fs d"

lemma rx_bits:
  assumes "k + length fs \<le> n" "B \<ge> 2" "fs \<noteq> []"
  shows "rx_drives (\<lambda>s. uart_cfg (int B) n s \<and> rx_waits k (int B div 2) d s) (concat (map (replicate B) fs)) []
     (\<lambda>s. uart_cfg (int B) n s \<and> rx_waits (k + length fs) (int B div 2) (rx_shift fs d) s \<and> m_last_tx s = last fs)"
  using assms
proof (induction fs arbitrary: k d)
  case (Cons v fs)
  let ?d = "rx_push v d"
  have b: "rx_drives (\<lambda>s. uart_cfg (int B) n s \<and> rx_waits k (int B div 2) d s) (replicate B v) []
     (\<lambda>s. uart_cfg (int B) n s \<and> rx_waits (Suc k) (int B div 2) ?d s \<and> m_last_tx s = v)"
    using Cons.prems by (intro rx_bit) auto
  show ?case
  proof (cases "fs = []")
    case True
    then show ?thesis using b by (simp add: rx_shift_def)
  next
    case False
    have "Suc k + length fs \<le> n" using Cons.prems by simp
    note ih = Cons.IH [OF this Cons.prems(2) False, of ?d]
    have "rx_drives (\<lambda>s. uart_cfg (int B) n s \<and> rx_waits k (int B div 2) d s) (replicate B v) []
      (\<lambda>s. uart_cfg (int B) n s \<and> rx_waits (Suc k) (int B div 2) ?d s)"
      by (rule rx_drives_post [OF b]) simp
    from rx_drives_append [OF this ih] show ?thesis using False by (simp add: rx_shift_def)
  qed
qed simp

text \<open>Between frames the receiver is idle or, in the second half of the last stop bit's
  time, still holds a byte that it writes when its counter ends.\<close>

type_synonym pending = "(nat \<times> busw) option"

definition rx_ready :: "int \<Rightarrow> nat \<Rightarrow> pending \<Rightarrow> uart_line \<Rightarrow> bool" where
  "rx_ready B n p s \<longleftrightarrow> uart_cfg B n s \<and> low_for 0 s \<and>
     (case p of None \<Rightarrow> m_rx_state s = RXIDLE | Some (c, d) \<Rightarrow> rx_waits n (int c) d s)"

definition pending_ok :: "nat \<Rightarrow> pending \<Rightarrow> bool" where
  "pending_ok B p \<longleftrightarrow> (case p of None \<Rightarrow> True | Some (c, d) \<Rightarrow> c \<le> B div 2)"

definition pending_out :: "nat \<Rightarrow> pending \<Rightarrow> byte list" where
  "pending_out n p = (case p of None \<Rightarrow> [] | Some (c, d) \<Rightarrow> [ucast (drop_bit (32 - n) d AND 0xff)])"

lemma rx_start_idle:
  assumes "B \<ge> 2"
  shows "rx_drives (rx_ready (int B) n None) (replicate B False) [] (\<lambda>s. uart_cfg (int B) n s \<and> rx_waits 0 (int B div 2) 0 s)"
proof -
  let ?c = "int B + int B div 2 - 1"
  have one: "rx_drives (rx_ready (int B) n None) [False] [] (\<lambda>s. uart_cfg (int B) n s \<and> rx_waits 0 ?c 0 s)"
    by (intro rx_drives_one) (auto simp: rx_ready_def rx_starts(1,2) low_for_edge dest: rx_starts(3) [where i = False])
  have "rx_drives (\<lambda>s. uart_cfg (int B) n s \<and> rx_waits 0 ?c 0 s) (replicate (B - 1) False) []
    (\<lambda>s. uart_cfg (int B) n s \<and> rx_waits 0 (int B div 2) 0 s)"
    by (rule rx_drives_post [OF rx_hold]) (use assms in \<open>auto simp: of_nat_diff\<close>)
  from rx_drives_Cons [OF one this] show ?thesis using assms by (simp flip: replicate_Suc)
qed

lemma rx_start_pending:
  assumes "B \<ge> 3" "c \<le> B div 2" "n > 0"
  shows "rx_drives (rx_ready (int B) n (Some (c, d))) (replicate B False) (pending_out n (Some (c, d)))
    (\<lambda>s. uart_cfg (int B) n s \<and> rx_waits 0 (int B div 2) 0 s)"
proof -
  let ?c = "int B + int B div 2 - 1 - int (Suc c)"
  let ?cfg = "\<lambda>s. uart_cfg (int B) n s"
  have "c + 2 \<le> B" using assms by linarith
  then have split: "replicate B False = replicate c False @ False # False # replicate (B - c - 2) False"
    by (simp flip: replicate_add replicate_Suc)
  have hold: "rx_drives (rx_ready (int B) n (Some (c, d))) (replicate c False) []
    (\<lambda>s. ?cfg s \<and> rx_waits n 0 d s \<and> low_for c s)"
    by (rule rx_drives_pre [OF rx_drives_post [OF rx_hold_low [of c "int c" "int B" n n d 0]]]) (auto simp: rx_ready_def)
  have fin: "rx_drives (\<lambda>s. ?cfg s \<and> rx_waits n 0 d s \<and> low_for c s) [False] (pending_out n (Some (c, d)))
    (\<lambda>s. ?cfg s \<and> m_rx_state s = RXIDLE \<and> low_for (Suc c) s)"
    using assms(3) by (intro rx_drives_one) (auto simp: rx_finishes low_for_edge pending_out_def)
  have start: "rx_drives (\<lambda>s. ?cfg s \<and> m_rx_state s = RXIDLE \<and> low_for (Suc c) s) [False] []
    (\<lambda>s. ?cfg s \<and> rx_waits 0 ?c 0 s)"
    by (intro rx_drives_one) (auto simp: rx_starts(1,2) low_for_edge dest: rx_starts(3) [where i = False])
  have rest: "rx_drives (\<lambda>s. ?cfg s \<and> rx_waits 0 ?c 0 s) (replicate (B - c - 2) False) []
    (\<lambda>s. ?cfg s \<and> rx_waits 0 (int B div 2) 0 s)"
    by (rule rx_drives_post [OF rx_hold]) (use \<open>c + 2 \<le> B\<close> in \<open>auto simp: of_nat_diff\<close>)
  from rx_drives_append [OF hold rx_drives_Cons [OF fin rx_drives_Cons [OF start rest]]] show ?thesis
    by (simp add: split)
qed

lemma rx_frame:
  assumes "B \<ge> 3" "pending_ok B p" "length fs = n" "fs \<noteq> []" "last fs"
  shows "rx_drives (rx_ready (int B) n p) (uart_frame B fs) (pending_out n p) (rx_ready (int B) n (Some (B div 2, rx_shift fs 0)))"
proof -
  have "rx_drives (rx_ready (int B) n p) (replicate B False) (pending_out n p)
    (\<lambda>s. uart_cfg (int B) n s \<and> rx_waits 0 (int B div 2) 0 s)"
    using assms rx_start_idle [of B n] rx_start_pending [of B _ n]
    by (cases p) (auto simp: pending_ok_def pending_out_def)
  moreover have "rx_drives (\<lambda>s. uart_cfg (int B) n s \<and> rx_waits 0 (int B div 2) 0 s) (concat (map (replicate B) fs)) []
    (rx_ready (int B) n (Some (B div 2, rx_shift fs 0)))"
    by (rule rx_drives_post [OF rx_bits]) (use assms in \<open>auto simp: rx_ready_def low_for_def zdiv_int\<close>)
  ultimately have "rx_drives (rx_ready (int B) n p) (replicate B False @ concat (map (replicate B) fs)) (pending_out n p @ [])
    (rx_ready (int B) n (Some (B div 2, rx_shift fs 0)))"
    by (rule rx_drives_append)
  then show ?thesis by (simp add: uart_frame_def)
qed

text \<open>The wire stays high.\<close>

definition after_idle :: "nat \<Rightarrow> pending \<Rightarrow> pending" where
  "after_idle g p = (case p of None \<Rightarrow> None | Some (c, d) \<Rightarrow> if g \<le> c then Some (c - g, d) else None)"

definition idle_out :: "nat \<Rightarrow> nat \<Rightarrow> pending \<Rightarrow> byte list" where
  "idle_out n g p = (if after_idle g p = None then pending_out n p else [])"

lemma rx_idle_step:
  assumes "n > 0"
  shows "rx_drives (rx_ready B n p) [True] (idle_out n 1 p) (rx_ready B n (after_idle 1 p))"
proof (cases p)
  case None
  then show ?thesis
    by (intro rx_drives_one) (auto simp: rx_ready_def[abs_def] rx_idle low_for_def after_idle_def idle_out_def pending_out_def)
next
  case (Some q)
  then obtain c d where p: "p = Some (c, d)" by (cases q) auto
  show ?thesis
  proof (cases "c = 0")
    case True
    then show ?thesis using p assms
      by (intro rx_drives_one) (auto simp: rx_ready_def[abs_def] rx_finishes low_for_def after_idle_def idle_out_def pending_out_def)
  next
    case False
    then show ?thesis using p
      by (intro rx_drives_one)
        (auto simp: rx_ready_def[abs_def] rx_wait(1,2) low_for_def after_idle_def idle_out_def of_nat_diff dest: rx_wait(3) [where i = True])
  qed
qed

lemma rx_idles:
  assumes "n > 0"
  shows "rx_drives (rx_ready B n p) (replicate g True) (idle_out n g p) (rx_ready B n (after_idle g p))"
proof (induction g arbitrary: p)
  case 0
  have "after_idle 0 p = p" by (simp add: after_idle_def split: option.split)
  moreover have "idle_out n 0 p = []" by (simp add: idle_out_def after_idle_def pending_out_def split: option.split)
  ultimately show ?case by (simp add: rx_drives_Nil)
next
  case (Suc g)
  have "after_idle g (after_idle 1 p) = after_idle (Suc g) p" by (auto simp: after_idle_def split: option.split)
  moreover have "idle_out n 1 p @ idle_out n g (after_idle 1 p) = idle_out n (Suc g) p"
    by (auto simp: idle_out_def after_idle_def pending_out_def split: option.split)
  ultimately show ?case using rx_drives_Cons [OF rx_idle_step [OF assms] Suc [of "after_idle 1 p"]] by simp
qed

subsection \<open>The byte of a frame\<close>

lemma bit_rx_push:
  "bit (rx_push v d) m \<longleftrightarrow> m < 32 \<and> (if m = 31 then v else bit d (Suc m))"
proof (cases "m < 31")
  case True
  then show ?thesis by (simp add: rx_push_def bit_or_iff bit_push_bit_iff bit_drop_bit_eq)
next
  case False
  then show ?thesis by (auto simp: rx_push_def bit_or_iff bit_push_bit_iff bit_drop_bit_eq bit_1_iff dest: bit_imp_le_length)
qed

lemma bit_rx_shift:
  assumes "length fs \<le> 32"
  shows "bit (rx_shift fs 0) m \<longleftrightarrow> m < 32 \<and> 32 - length fs \<le> m \<and> fs ! (m - (32 - length fs))"
  using assms
proof (induction fs arbitrary: m rule: rev_induct)
  case (snoc v fs)
  have push: "bit (rx_shift (fs @ [v]) 0) m \<longleftrightarrow> m < 32 \<and> (if m = 31 then v else bit (rx_shift fs 0) (Suc m))"
    by (simp add: rx_shift_def bit_rx_push)
  consider "m \<ge> 32" | "m = 31" | "m < 31" by linarith
  then show ?case
  proof cases
    case 1
    then show ?thesis by (simp add: push)
  next
    case 2
    have "31 - (32 - length (fs @ [v])) = length fs" using snoc.prems by simp
    then show ?thesis using 2 push by simp
  next
    case 3
    have "Suc m - (32 - length fs) = m - (32 - length (fs @ [v]))" using snoc.prems by simp
    moreover have "m - (32 - length (fs @ [v])) < length fs" if "32 - length fs \<le> Suc m" using that 3 snoc.prems by simp
    ultimately show ?thesis using snoc.IH [of "Suc m"] snoc.prems 3 by (auto simp: push nth_append)
  qed
qed (simp add: rx_shift_def)

lemma rx_shift_byte:
  assumes "length fs \<le> 32"
  shows "(ucast (drop_bit (32 - length fs) (rx_shift fs 0) AND 0xff) :: byte) = frame_byte fs"
proof (rule bit_word_eqI)
  fix k assume "k < LENGTH(8)"
  then have k: "k < 8" by simp
  have "bit (rx_shift fs 0) (32 - length fs + k) \<longleftrightarrow> k < length fs \<and> fs ! k"
    using assms by (auto simp: bit_rx_shift)
  moreover have "bit (0xff :: busw) k" using k by (simp only: bit_ff)
  ultimately show "bit (ucast (drop_bit (32 - length fs) (rx_shift fs 0) AND 0xff) :: byte) k \<longleftrightarrow> bit (frame_byte fs) k"
    using k by (auto simp: frame_byte_def bit_ucast_iff bit_and_iff bit_drop_bit_eq bit_horner_sum_bit_word_iff)
qed

subsection \<open>Streams of frames\<close>

text \<open>A stream: frames, each followed by some time at the idle level.\<close>

definition uart_stream :: "nat \<Rightarrow> (bool list \<times> nat) list \<Rightarrow> bool list" where
  "uart_stream B xs = concat (map (\<lambda>(fs, g). uart_frame B fs @ replicate g True) xs)"

definition frame_ok :: "nat \<Rightarrow> bool list \<Rightarrow> bool" where
  "frame_ok n fs \<longleftrightarrow> length fs = n \<and> fs \<noteq> [] \<and> last fs"

lemma after_idle_ok: "pending_ok B p \<Longrightarrow> pending_ok B (after_idle g p)"
  by (auto simp: pending_ok_def after_idle_def split: option.split)

lemma idle_out_pending: "idle_out n g p @ pending_out n (after_idle g p) = pending_out n p"
  by (auto simp: idle_out_def after_idle_def pending_out_def split: option.split)

lemma rx_stream:
  assumes "B \<ge> 3" "0 < n" "n \<le> 32" "\<forall>(fs, g) \<in> set xs. frame_ok n fs" "pending_ok B p"
  shows "\<exists>w q. pending_ok B q \<and> rx_drives (rx_ready (int B) n p) (uart_stream B xs) w (rx_ready (int B) n q) \<and>
    w @ pending_out n q = pending_out n p @ map (frame_byte \<circ> fst) xs"
  using assms(4,5)
proof (induction xs arbitrary: p)
  case Nil
  then show ?case by (auto simp: uart_stream_def intro!: exI [of _ "[]"] exI [of _ p] rx_drives_Nil)
next
  case (Cons x xs)
  obtain fs g where x: "x = (fs, g)" by (cases x)
  let ?f = "Some (B div 2, rx_shift fs 0)"
  let ?p = "after_idle g ?f"
  have fs: "length fs = n" "fs \<noteq> []" "last fs" using Cons.prems(1) x by (auto simp: frame_ok_def)
  have "pending_ok B ?p" by (rule after_idle_ok) (simp add: pending_ok_def)
  with Cons.IH [of ?p] Cons.prems(1) obtain w q where ih: "pending_ok B q"
    "rx_drives (rx_ready (int B) n ?p) (uart_stream B xs) w (rx_ready (int B) n q)"
    "w @ pending_out n q = pending_out n ?p @ map (frame_byte \<circ> fst) xs" by auto
  have "rx_drives (rx_ready (int B) n p) (uart_frame B fs @ replicate g True @ uart_stream B xs)
     (pending_out n p @ idle_out n g ?f @ w) (rx_ready (int B) n q)"
    using rx_drives_append [OF rx_frame [OF assms(1) Cons.prems(2) fs] rx_drives_append [OF rx_idles [OF assms(2)] ih(2)]] .
  moreover have "idle_out n g ?f @ w @ pending_out n q = frame_byte fs # map (frame_byte \<circ> fst) xs"
    using idle_out_pending [of n g ?f] ih(3) rx_shift_byte [of fs] fs(1) assms(3)
    by (metis append.assoc append_Cons append_Nil option.simps(5) pending_out_def prod.simps(2))
  ultimately show ?case using ih(1) x
    by (intro exI [of _ "pending_out n p @ idle_out n g ?f @ w"] exI [of _ q]) (simp add: uart_stream_def)
qed

lemma rx_stream_out:
  assumes "B \<ge> 3" "0 < n" "n \<le> 32" "\<forall>(fs, g) \<in> set xs. frame_ok n fs" "g > B div 2"
  shows "rx_drives (rx_ready (int B) n None) (uart_stream B xs @ replicate g True) (map (frame_byte \<circ> fst) xs) (rx_ready (int B) n None)"
proof -
  obtain w q where q: "pending_ok B q" "rx_drives (rx_ready (int B) n None) (uart_stream B xs) w (rx_ready (int B) n q)"
    "w @ pending_out n q = map (frame_byte \<circ> fst) xs"
    using rx_stream [OF assms(1-4), of None] by (auto simp: pending_ok_def pending_out_def)
  have "after_idle g q = None" using q(1) assms(5) by (auto simp: after_idle_def pending_ok_def split: option.splits)
  then show ?thesis using rx_drives_append [OF q(2) rx_idles [OF assms(2), of _ _ g]] q(3) by (simp add: idle_out_def)
qed

subsection \<open>Sending\<close>

text \<open>\<open>tx_drives\<close>: the same with the level that the simulator puts on the design's receive wire;
  what the design sends is arbitrary.\<close>

definition tx_cfg :: "uart_line \<Rightarrow> uart_line \<Rightarrow> bool" where
  "tx_cfg u s \<longleftrightarrow> m_baud_counts s = m_baud_counts u \<and> m_nbits s = m_nbits u \<and> m_nparity s = m_nparity u \<and> m_nstop s = m_nstop u \<and>
     m_fixdp s = m_fixdp u \<and> m_evenp s = m_evenp u"

definition tx_sends :: "nat \<Rightarrow> int \<Rightarrow> busw \<Rightarrow> uart_line \<Rightarrow> bool" where
  "tx_sends k c d s \<longleftrightarrow> m_tx_state s = TXDATA \<and> m_tx_busy s = 2 ^ k - 1 \<and> m_tx_baudcounter s = c \<and> m_tx_data s = d"

lemma rx_part_keeps [simp]:
  "m_tx_state (snd (rx_part i s)) = m_tx_state s" "m_tx_busy (snd (rx_part i s)) = m_tx_busy s"
  "m_tx_baudcounter (snd (rx_part i s)) = m_tx_baudcounter s" "m_tx_data (snd (rx_part i s)) = m_tx_data s"
  by (simp_all add: rx_defs)

lemma rx_part_cfg [simp]: "tx_cfg u (snd (rx_part i s)) = tx_cfg u s"
  by (simp add: rx_defs tx_cfg_def)

lemma rx_part_sends [simp]: "tx_sends k c d (snd (rx_part i s)) = tx_sends k c d s"
  by (simp add: tx_sends_def)

text \<open>One clock of the transmitter.\<close>

lemma tx_hold_tick:
  assumes "tx_cfg u s" "tx_sends k c d s" "c > 0"
  shows "fst (tx_line b s) = bit d 0" "tx_cfg u (snd (tx_line b s))" "tx_sends k (c - 1) d (snd (tx_line b s))"
  using assms by (simp_all add: tx_sends_def tx_line_def tx_shift_def tx_cfg_def Let_def)

lemma tx_shift_tick:
  assumes "tx_cfg u s" "tx_sends (Suc k) 0 d s" "k > 0"
  shows "fst (tx_line b s) = bit d 1" "tx_cfg u (snd (tx_line b s))"
    "tx_sends k (m_baud_counts u - 1) (drop_bit 1 d) (snd (tx_line b s))"
proof -
  have b: "(2 * 2 ^ k - 1 :: int) div 2 = 2 ^ k - 1" by simp
  have "(2 :: int) ^ 1 \<le> 2 ^ k" using assms(3) by (intro power_increasing) auto
  then have nz: "(2 ^ k - 1 :: int) \<noteq> 0" by simp
  show "fst (tx_line b s) = bit d 1" "tx_cfg u (snd (tx_line b s))"
    "tx_sends k (m_baud_counts u - 1) (drop_bit 1 d) (snd (tx_line b s))"
    using assms b nz by (simp_all add: tx_sends_def tx_line_def tx_shift_def tx_cfg_def Let_def bit_drop_bit_eq)
qed

lemma tx_end_tick:
  assumes "tx_cfg u s" "tx_sends 1 0 d s"
  shows "fst (tx_line b s) = bit d 1" "tx_cfg u (snd (tx_line b s))" "m_tx_state (snd (tx_line b s)) = TXIDLE"
  using assms by (simp_all add: tx_sends_def tx_line_def tx_shift_def tx_cfg_def Let_def bit_drop_bit_eq)

lemma tx_load_tick:
  assumes "tx_cfg u s" "m_tx_state s = TXIDLE" "b = Some v"
  shows "\<not> fst (tx_line b s)" "tx_cfg u (snd (tx_line b s))"
    "tx_sends (Suc (frame_length u)) (m_baud_counts u - 1) (m_tx_data (tx_load v u)) (snd (tx_line b s))"
  using assms by (simp_all add: tx_sends_def tx_line_def tx_shift_def tx_cfg_def tx_load_def parity_of_def frame_length_def Let_def)

lemma tx_idle_tick:
  assumes "tx_cfg u s" "m_tx_state s = TXIDLE" "b = None"
  shows "fst (tx_line b s)" "tx_cfg u (snd (tx_line b s))" "m_tx_state (snd (tx_line b s)) = TXIDLE"
  using assms by (simp_all add: tx_line_def tx_cfg_def)

text \<open>\<open>tx_drives f t is P ws Q\<close>: while the design sends \<open>is\<close>, the wire takes the levels \<open>ws\<close>.\<close>

definition tx_drives :: "(nat \<Rightarrow> byte option) \<Rightarrow> nat \<Rightarrow> uart_line \<Rightarrow> (uart_line \<Rightarrow> bool) \<Rightarrow> bool list \<Rightarrow> (uart_line \<Rightarrow> bool) \<Rightarrow> bool" where
  "tx_drives f t u P ws Q \<longleftrightarrow> (\<forall>is s. length is = length ws \<longrightarrow> tx_cfg u s \<longrightarrow> P s \<longrightarrow>
     line_wire f t is s = ws \<and> tx_cfg u (snd (line_run f t is s)) \<and> Q (snd (line_run f t is s)))"

lemma tx_drives_Nil: "(\<And>s. P s \<Longrightarrow> Q s) \<Longrightarrow> tx_drives f t u P [] Q"
  by (simp add: tx_drives_def line_wire_def)

lemma tx_drives_append:
  assumes "tx_drives f t u P xs Q" "tx_drives f (t + length xs) u Q ys R"
  shows "tx_drives f t u P (xs @ ys) R"
  unfolding tx_drives_def
proof (intro allI impI)
  fix "is" :: "bool list" and s assume "length is = length (xs @ ys)" and s: "tx_cfg u s" "P s"
  then obtain is1 is2 where i: "is = is1 @ is2" "length is1 = length xs" "length is2 = length ys"
    using that [of "take (length xs) is" "drop (length xs) is"] by simp
  let ?s = "snd (line_run f t is1 s)"
  have "line_wire f t is1 s = xs" "tx_cfg u ?s" "Q ?s"
    using assms(1) i(2) s by (auto simp: tx_drives_def)
  moreover from this have "line_wire f (t + length is1) is2 ?s = ys" "tx_cfg u (snd (line_run f (t + length is1) is2 ?s))"
    "R (snd (line_run f (t + length is1) is2 ?s))"
    using assms(2) i(2,3) by (auto simp: tx_drives_def)
  ultimately show "line_wire f t is s = xs @ ys \<and> tx_cfg u (snd (line_run f t is s)) \<and> R (snd (line_run f t is s))"
    by (simp add: i(1) line_wire_def line_run_append)
qed

lemma tx_drives_one:
  assumes "\<And>s i. P s \<Longrightarrow> P (snd (rx_part i s))"
    and "\<And>s. tx_cfg u s \<Longrightarrow> P s \<Longrightarrow> fst (tx_line (f t) s) = v \<and> tx_cfg u (snd (tx_line (f t) s)) \<and> Q (snd (tx_line (f t) s))"
  shows "tx_drives f t u P [v] Q"
  using assms by (auto simp: tx_drives_def line_wire_def line_tick_split length_Suc_conv)

lemmas tx_drives_Cons = tx_drives_append [of _ _ _ _ "[v]" for v, simplified]

lemma tx_hold:
  assumes "int m \<le> c"
  shows "tx_drives f t u (tx_sends k c d) (replicate m (bit d 0)) (tx_sends k (c - int m) d)"
  using assms
proof (induction m arbitrary: c t)
  case 0
  then show ?case by (simp add: tx_drives_Nil)
next
  case (Suc m)
  have one: "tx_drives f t u (tx_sends k c d) [bit d 0] (tx_sends k (c - 1) d)"
    using Suc.prems by (intro tx_drives_one) (simp_all add: tx_hold_tick)
  have "int m \<le> c - 1" using Suc.prems by simp
  from tx_drives_Cons [OF one Suc.IH [OF this]] show ?case by (simp add: algebra_simps)
qed

lemma tx_bit:
  assumes "m_baud_counts u = int B" "B > 0" "k > 0"
  shows "tx_drives f t u (tx_sends (Suc k) 0 d) (replicate B (bit d 1)) (tx_sends k 0 (drop_bit 1 d))"
proof -
  have one: "tx_drives f t u (tx_sends (Suc k) 0 d) [bit d 1] (tx_sends k (int B - 1) (drop_bit 1 d))"
    using assms tx_shift_tick [of u _ k d] by (intro tx_drives_one) simp_all
  have "tx_drives f (Suc t) u (tx_sends k (int B - 1) (drop_bit 1 d)) (replicate (B - 1) (bit (drop_bit 1 d) 0)) (tx_sends k 0 (drop_bit 1 d))"
    using tx_hold [of "B - 1" "int B - 1" f "Suc t" u k "drop_bit 1 d"] assms(2) by (simp add: of_nat_diff)
  from tx_drives_Cons [OF one this] show ?thesis using assms(2) by (simp add: bit_drop_bit_eq flip: replicate_Suc)
qed

lemma tx_bits:
  assumes "m_baud_counts u = int B" "B > 0"
  shows "tx_drives f t u (tx_sends (Suc k) 0 d) (concat (map (\<lambda>j. replicate B (bit d (Suc j))) [0..<k])) (tx_sends 1 0 (drop_bit k d))"
proof (induction k arbitrary: d t)
  case 0
  then show ?case by (simp add: tx_drives_Nil)
next
  case (Suc k)
  have "map (\<lambda>j. replicate B (bit d (Suc j))) [0..<Suc k] =
     replicate B (bit d 1) # map (\<lambda>j. replicate B (bit (drop_bit 1 d) (Suc j))) [0..<k]"
    by (simp add: map_upt_Suc bit_drop_bit_eq del: upt_Suc)
  moreover have "tx_sends 1 0 (drop_bit k (drop_bit 1 d)) = tx_sends 1 0 (drop_bit (Suc k) d)" by simp
  ultimately show ?case
    using tx_drives_append [OF tx_bit [OF assms, of "Suc k" f t d] Suc.IH [of _ "drop_bit 1 d"]] by simp
qed

subsection \<open>What a frame contains\<close>

definition uart_wf :: "'a uart_line_scheme \<Rightarrow> bool" where
  "uart_wf s \<longleftrightarrow> m_nbits s \<in> {5..8} \<and> m_nparity s \<le> 1 \<and> m_nstop s \<in> {1..2} \<and> m_evenp s \<le> 1 \<and> m_baud_counts s \<in> {0..<2 ^ 24}"

lemma uart_setup_wf:
  assumes "isetup \<noteq> m_setup s"
  shows "uart_wf (uart_setup isetup s)"
proof -
  have one: "unat (w AND 1) \<le> 1" "w AND 1 \<le> 1" for w :: busw
    using unat_and_mask [of w 1] by (simp_all add: mask_eq_exp_minus_1 word_le_nat_alt)
  have "unat (isetup AND 0xffffff) < 2 ^ 24" using unat_and_mask [of isetup 24] by (simp add: mask_eq_exp_minus_1)
  then have "int (unat (isetup AND 0xffffff)) < int (2 ^ 24)" by (simp only: of_nat_less_iff)
  then have "uint (isetup AND 0xffffff) < 2 ^ 24" by simp
  moreover have "unat (drop_bit 28 isetup AND 3) \<le> 3" using unat_and_3 [of "drop_bit 28 isetup"] by simp
  ultimately show ?thesis using assms one by (auto simp: uart_wf_def uart_setup_def)
qed

lemma bit_1fe: "bit (0x1fe :: busw) k \<longleftrightarrow> 1 \<le> k \<and> k \<le> 8"
proof -
  have "(0x1fe :: busw) = push_bit 1 0xff" by simp
  then have "bit (0x1fe :: busw) k = bit (push_bit 1 (0xff :: busw)) k" by (simp only:)
  also have "\<dots> \<longleftrightarrow> 1 \<le> k \<and> k \<le> 8" unfolding bit_push_bit_iff bit_ff by auto
  finally show ?thesis .
qed

definition tx_word :: "'a uart_line_scheme \<Rightarrow> byte \<Rightarrow> busw" where
  "tx_word u b = push_bit (m_nbits u + m_nparity u + 1) (- 1) OR (push_bit 1 (ucast b) AND 0x1fe)"

lemma bit_tx_word:
  "k < 32 \<Longrightarrow> bit (tx_word u b) k \<longleftrightarrow> m_nbits u + m_nparity u < k \<or> 1 \<le> k \<and> k \<le> 8 \<and> bit b (k - 1)"
  unfolding tx_word_def bit_or_iff bit_and_iff bit_push_bit_iff bit_1fe
  by (auto simp: bit_ucast_iff)

text \<open>The parity bit: that of the byte, or a fixed level.\<close>

definition byte_parity :: "byte \<Rightarrow> bool" where
  "byte_parity b = foldr (\<noteq>) (map (bit b) [0..<8]) False"

definition parity_bit :: "'a uart_line_scheme \<Rightarrow> byte \<Rightarrow> bool" where
  "parity_bit u b = (if m_fixdp u then m_evenp u = 1 else byte_parity b \<noteq> (m_evenp u = 1))"

lemma xor8:
  "(((a \<noteq> e) \<noteq> (c \<noteq> g)) \<noteq> ((b \<noteq> f) \<noteq> (d \<noteq> h))) = foldr (\<noteq>) [a, b, c, d, e, f, g, h] False"
  by (cases a; cases b; cases c; cases d; cases e; cases f; cases g; cases h) simp_all

lemma one_bit: "w \<le> 1 \<Longrightarrow> w = of_bool (w = 1)" for w :: busw
  by (cases "w = 0") (auto simp: word_le_nat_alt word_unat_eq_iff le_Suc_eq)

lemma parity_of_tx_word:
  assumes "uart_wf u" "m_nbits u = 8"
  shows "parity_of u (tx_word u b) = of_bool (parity_bit u b)"
proof -
  have e: "m_evenp u = of_bool (m_evenp u = 1)" using assms(1) by (intro one_bit) (simp add: uart_wf_def)
  define x where "x = drop_bit 1 (tx_word u b) AND 0xff"
  have x: "bit x k \<longleftrightarrow> k < 8 \<and> bit b k" for k
    unfolding x_def bit_and_iff bit_drop_bit_eq bit_ff using bit_tx_word [of "Suc k" u b] assms(2) by auto
  define p where "p = x XOR drop_bit 4 x"
  define q where "q = p XOR drop_bit 2 p"
  define r where "r = q XOR drop_bit 1 q"
  have "bit r 0 = (((bit b 0 \<noteq> bit b 4) \<noteq> (bit b 2 \<noteq> bit b 6)) \<noteq> ((bit b 1 \<noteq> bit b 5) \<noteq> (bit b 3 \<noteq> bit b 7)))"
    by (simp add: r_def q_def p_def bit_xor_iff bit_drop_bit_eq x eval_nat_numeral)
  moreover have "[0..<8] = [0, 1, 2, 3, 4, 5, 6, 7 :: nat]" by (simp add: upt_rec)
  ultimately have r: "bit r 0 = byte_parity b" by (simp only: xor8 byte_parity_def list.map)
  have "r AND 1 = of_bool (byte_parity b)" by (simp add: and_one_eq r [symmetric] bit_0 mod_2_eq_odd)
  moreover have "parity_of u (tx_word u b) = (if m_fixdp u then m_evenp u else (r AND 1) XOR m_evenp u)"
    by (simp only: parity_of_def Let_def x_def p_def q_def r_def)
  ultimately have "parity_of u (tx_word u b) = (if m_fixdp u then m_evenp u else of_bool (byte_parity b) XOR m_evenp u)"
    by (simp only:)
  also have "\<dots> = of_bool (parity_bit u b)"
    by (subst (1 2) e) (cases "byte_parity b"; cases "m_evenp u = 1"; simp add: parity_bit_def)
  finally show ?thesis .
qed

lemma bit_tx_load:
  assumes "uart_wf u" "m_nbits u = 8" "k < 32"
  shows "bit (m_tx_data (tx_load b u)) k \<longleftrightarrow>
    8 + m_nparity u < k \<or> 1 \<le> k \<and> k \<le> 8 \<and> bit b (k - 1) \<or> m_nparity u \<noteq> 0 \<and> k = 8 + m_nparity u \<and> parity_bit u b"
proof -
  have "m_tx_data (tx_load b u) = (if m_nparity u \<noteq> 0 then tx_word u b OR push_bit (m_nbits u + m_nparity u) (of_bool (parity_bit u b)) else tx_word u b)"
    using parity_of_tx_word [OF assms(1,2)] by (simp add: tx_load_def tx_word_def Let_def)
  moreover have "bit (push_bit (8 + m_nparity u) (of_bool (parity_bit u b)) :: busw) k \<longleftrightarrow> k = 8 + m_nparity u \<and> parity_bit u b"
    using assms(3) by (auto simp: bit_push_bit_iff bit_1_iff)
  ultimately show ?thesis using assms(2,3) by (auto simp: bit_or_iff bit_tx_word)
qed

lemma frame_bits_8:
  assumes "uart_wf u" "m_nbits u = 8"
  shows "frame_bits u b = map (bit b) [0..<8] @ replicate (m_nparity u) (parity_bit u b) @ replicate (m_nstop u) True"
proof (rule nth_equalityI)
  show len: "length (frame_bits u b) = length (map (bit b) [0..<8] @ replicate (m_nparity u) (parity_bit u b) @ replicate (m_nstop u) True)"
    using assms(2) by (simp add: frame_bits_def frame_length_def)
  fix k assume "k < length (frame_bits u b)"
  then have k: "k < 8 + m_nparity u + m_nstop u" using assms(2) by (simp add: frame_bits_def frame_length_def)
  then have "Suc k < 32" using assms(1) by (simp add: uart_wf_def)
  then show "frame_bits u b ! k = (map (bit b) [0..<8] @ replicate (m_nparity u) (parity_bit u b) @ replicate (m_nstop u) True) ! k"
    using k assms bit_tx_load [OF assms, of "Suc k" b]
    by (auto simp: frame_bits_def frame_length_def nth_append uart_wf_def)
qed

lemma frame_ok_bits:
  assumes "uart_wf u" "m_nbits u = 8"
  shows "frame_ok (frame_length u) (frame_bits u b)" "frame_byte (frame_bits u b) = b"
proof -
  have len: "length (frame_bits u b) = frame_length u" by (simp add: frame_bits_def)
  moreover have "frame_bits u b \<noteq> []" "last (frame_bits u b)"
    using assms(1) unfolding frame_bits_8 [OF assms] by (auto simp: uart_wf_def)
  ultimately show "frame_ok (frame_length u) (frame_bits u b)" by (simp add: frame_ok_def)
  have "take 8 (frame_bits u b) = map (bit b) [0..<8]" by (simp add: frame_bits_8 [OF assms])
  then show "frame_byte (frame_bits u b) = b"
    by (auto simp: frame_byte_def bit_horner_sum_bit_word_iff intro!: bit_word_eqI)
qed

lemma tx_frame:
  assumes "m_baud_counts u = int B" "B > 0" "uart_wf u" "m_nbits u = 8" "f t = Some b"
  shows "tx_drives f t u (\<lambda>s. m_tx_state s = TXIDLE) (uart_frame B (frame_bits u b) @ [True]) (\<lambda>s. m_tx_state s = TXIDLE)"
proof -
  let ?n = "frame_length u" let ?d = "m_tx_data (tx_load b u)"
  have wf: "?n < 31" "?n \<ge> 8 + m_nparity u" using assms(3,4) by (auto simp: uart_wf_def frame_length_def)
  have d0: "\<not> bit ?d 0" using bit_tx_load [OF assms(3,4), of 0 b] by simp
  have load: "tx_drives f t u (\<lambda>s. m_tx_state s = TXIDLE) [False] (tx_sends (Suc ?n) (int B - 1) ?d)"
    using assms(1,5) tx_load_tick [of u _ "Some b" b] by (intro tx_drives_one) auto
  have "tx_drives f (Suc t) u (tx_sends (Suc ?n) (int B - 1) ?d) (replicate (B - 1) (bit ?d 0)) (tx_sends (Suc ?n) 0 ?d)"
    using tx_hold [of "B - 1" "int B - 1" f "Suc t" u "Suc ?n" ?d] assms(2) by (simp add: of_nat_diff)
  from tx_drives_Cons [OF load this] have start:
    "tx_drives f t u (\<lambda>s. m_tx_state s = TXIDLE) (replicate B False) (tx_sends (Suc ?n) 0 ?d)"
    using assms(2) d0 by (simp flip: replicate_Suc)
  have stop: "tx_drives f t' u (tx_sends 1 0 (drop_bit ?n ?d)) [True] (\<lambda>s. m_tx_state s = TXIDLE)" for t'
    using wf bit_tx_load [OF assms(3,4), of "Suc ?n" b] tx_end_tick [of u _ "drop_bit ?n ?d"]
    by (intro tx_drives_one) (auto simp: bit_drop_bit_eq)
  have "uart_frame B (frame_bits u b) = replicate B False @ concat (map (\<lambda>j. replicate B (bit ?d (Suc j))) [0..<?n])"
    by (simp add: uart_frame_def frame_bits_def comp_def)
  then show ?thesis
    using tx_drives_append [OF start tx_drives_append [OF tx_bits [OF assms(1,2)] stop]] by simp
qed

text \<open>The bytes \<open>bs\<close> arrive in time: the next one is there each time the transmitter asks.\<close>

fun feeds :: "(nat \<Rightarrow> byte option) \<Rightarrow> nat \<Rightarrow> nat \<Rightarrow> byte list \<Rightarrow> bool" where
  "feeds f P t [] \<longleftrightarrow> (\<forall>t' \<ge> t. f t' = None)"
| "feeds f P t (b # bs) \<longleftrightarrow> f t = Some b \<and> feeds f P (t + P) bs"

definition sent_frames :: "'a uart_line_scheme \<Rightarrow> byte list \<Rightarrow> (bool list \<times> nat) list" where
  "sent_frames u bs = map (\<lambda>b. (frame_bits u b, 1)) bs"

definition frame_clocks :: "'a uart_line_scheme \<Rightarrow> nat" where
  "frame_clocks u = Suc (frame_length u) * nat (m_baud_counts u) + 1"

lemma length_uart_frame [simp]: "length (uart_frame B fs) = Suc (length fs) * B"
  by (simp add: uart_frame_def length_concat comp_def sum_list_triv)

lemma tx_silence:
  assumes "\<forall>t' \<ge> t. f t' = None"
  shows "tx_drives f t u (\<lambda>s. m_tx_state s = TXIDLE) (replicate g True) (\<lambda>s. m_tx_state s = TXIDLE)"
  using assms
proof (induction g arbitrary: t)
  case 0
  then show ?case by (simp add: tx_drives_Nil)
next
  case (Suc g)
  have "tx_drives f t u (\<lambda>s. m_tx_state s = TXIDLE) [True] (\<lambda>s. m_tx_state s = TXIDLE)"
    using Suc.prems tx_idle_tick [of u _ None] by (intro tx_drives_one) auto
  from tx_drives_Cons [OF this Suc.IH] show ?case using Suc.prems by simp
qed

lemma tx_stream:
  assumes "m_baud_counts u = int B" "B > 0" "uart_wf u" "m_nbits u = 8"
  shows "feeds f (frame_clocks u) t bs \<Longrightarrow>
    tx_drives f t u (\<lambda>s. m_tx_state s = TXIDLE) (uart_stream B (sent_frames u bs) @ replicate g True) (\<lambda>s. m_tx_state s = TXIDLE)"
proof (induction bs arbitrary: t)
  case Nil
  then show ?case using tx_silence [of t f] by (simp add: uart_stream_def sent_frames_def)
next
  case (Cons b bs)
  have len: "length (uart_frame B (frame_bits u b) @ [True]) = frame_clocks u"
    by (simp add: frame_clocks_def assms(1) frame_bits_def)
  have "f t = Some b" "feeds f (frame_clocks u) (t + frame_clocks u) bs" using Cons.prems by auto
  from tx_drives_append [OF tx_frame [of u B f t b, OF assms this(1)]] Cons.IH [OF this(2)] show ?case
    by (simp only: len) (simp add: uart_stream_def sent_frames_def)
qed

lemma length_sent_frames:
  "m_baud_counts u = int B \<Longrightarrow> length (uart_stream B (sent_frames u bs)) = frame_clocks u * length bs"
  by (induction bs) (simp_all add: uart_stream_def sent_frames_def frame_clocks_def frame_bits_def)

text \<open>What one line sends, another with the same setup receives.\<close>

lemma sent_frames_received:
  assumes "uart_wf u" "m_nbits u = 8" "m_baud_counts u = int B" "B \<ge> 3"
    and "m_baud_counts s = m_baud_counts u" "frame_length s = frame_length u" "m_rx_state s = RXIDLE" "m_last_tx s" "g > B div 2"
  shows "line_chars f t (uart_stream B (sent_frames u bs) @ replicate g True) s = bs"
proof -
  let ?n = "frame_length u"
  have n: "0 < ?n" "?n \<le> 32" using assms(1) by (auto simp: uart_wf_def frame_length_def)
  have frames: "\<forall>(fs, g) \<in> set (sent_frames u bs). frame_ok ?n fs"
    using frame_ok_bits [OF assms(1,2)] by (auto simp: sent_frames_def)
  have "map (frame_byte \<circ> fst) (sent_frames u bs) = bs"
    using frame_ok_bits(2) [OF assms(1,2)] by (simp add: sent_frames_def comp_def)
  moreover have "rx_ready (int B) ?n None s"
    using assms by (simp add: rx_ready_def uart_cfg_def low_for_def)
  ultimately show ?thesis
    using rx_stream_out [OF assms(4) n frames assms(9)] by (simp add: rx_drives_def)
qed

subsection \<open>Lines inside simulators\<close>

text \<open>The operations of a simulator's line are those of the line alone.\<close>

abbreviation line_of :: "'a uart_line_scheme \<Rightarrow> uart_line" where
  "line_of s \<equiv> uart_line.truncate s"

lemma line_of_select [simp]:
  "m_setup (line_of s) = m_setup s" "m_nparity (line_of s) = m_nparity s" "m_fixdp (line_of s) = m_fixdp s"
  "m_evenp (line_of s) = m_evenp s" "m_nbits (line_of s) = m_nbits s" "m_nstop (line_of s) = m_nstop s"
  "m_baud_counts (line_of s) = m_baud_counts s" "m_rx_baudcounter (line_of s) = m_rx_baudcounter s"
  "m_rx_state (line_of s) = m_rx_state s" "m_rx_busy (line_of s) = m_rx_busy s" "m_rx_changectr (line_of s) = m_rx_changectr s"
  "m_last_tx (line_of s) = m_last_tx s" "m_tx_baudcounter (line_of s) = m_tx_baudcounter s" "m_tx_state (line_of s) = m_tx_state s"
  "m_tx_busy (line_of s) = m_tx_busy s" "m_rx_data (line_of s) = m_rx_data s" "m_tx_data (line_of s) = m_tx_data s"
  by (simp_all add: uart_line.truncate_def)

lemma line_of_frame [simp]:
  "frame_length (line_of s) = frame_length s" "uart_wf (line_of s) = uart_wf s" "parity_bit (line_of s) b = parity_bit s b"
  "frame_clocks (line_of s) = frame_clocks s" "parity_of (line_of s) d = parity_of s d"
  by (simp_all add: frame_length_def uart_wf_def parity_bit_def frame_clocks_def parity_of_def)

lemma line_of_ops:
  "rx_edge i (line_of s) = line_of (rx_edge i s)" "tx_load b (line_of s) = line_of (tx_load b s)"
  "rx_line i (line_of s) = map_prod id line_of (rx_line i s)" "tx_shift (line_of s) = map_prod id line_of (tx_shift s)"
  by (simp_all add: rx_edge_def tx_load_def rx_line_def tx_shift_def Let_def)

lemma line_of_frame_bits [simp]: "frame_bits (line_of s) b = frame_bits s b" "sent_frames (line_of s) bs = sent_frames s bs"
  by (simp_all add: frame_bits_def sent_frames_def line_of_ops)

end
