(* ===== verification/UartSim.thy ===== *)
theory UartSim
  imports UartLine
begin

text \<open>
  The simulated serial port (\<open>src/rtl/helloworld/uartsim.cpp\<close>, \<open>uartsim.h\<close>): the line of theory
  \<open>UartLine\<close>, whose characters are exchanged with a socket or with two file descriptors.

  The answers of the system calls of a tick are its argument \<open>uart_os\<close>: the result of \<open>accept\<close>
  if a connection waits, whether the descriptor to read from is ready, the result of the read
  and whether the write succeeds. What is written is part of the result; that a failed
  connection is closed and not only forgotten is not. Members that the
  constructor does not set are arguments of it; opening the listening socket is left out.
\<close>

subsection \<open>Definitions\<close>

record uartsim = uart_line +
  m_skt :: int
  m_conrd :: int
  m_conwr :: int

record uart_os =
  os_accept :: "int option"
  os_readable :: bool
  os_read :: "int \<times> byte"
  os_write_ok :: bool

text \<open>The constructor; \<open>skt\<close> is the listening socket when a port is given, \<open>junk\<close> the object
  before construction.\<close>

definition UARTSIM :: "int \<Rightarrow> int \<Rightarrow> uartsim \<Rightarrow> uartsim" where
  "UARTSIM port skt junk =
     (let s = junk\<lparr>m_conrd := -1, m_conwr := -1, m_skt := -1\<rparr>;
          s = (if port = 0 then s\<lparr>m_conrd := 0, m_conwr := 1\<rparr> else s\<lparr>m_skt := skt\<rparr>);
          s = uart_setup 25 s
      in s\<lparr>m_rx_baudcounter := 0, m_tx_baudcounter := 0, m_rx_state := RXIDLE, m_tx_state := TXIDLE\<rparr>)"

text \<open>\<open>kill\<close>, with the descriptors it closes.\<close>

definition uart_kill :: "uartsim \<Rightarrow> int list \<times> uartsim" where
  "uart_kill s =
     (let s = (if m_conrd s = 0 then s\<lparr>m_conwr := -1\<rparr> else s);
          s = (if m_conwr s = 1 then s\<lparr>m_conwr := -1\<rparr> else s)
      in ((if m_conrd s \<ge> 0 then [m_conrd s] else []) @
          (if m_conwr s \<ge> 0 \<and> m_conwr s \<noteq> m_conrd s then [m_conwr s] else []) @
          (if m_skt s \<ge> 0 then [m_skt s] else []),
          s\<lparr>m_conrd := -1, m_conwr := -1, m_skt := -1\<rparr>))"

definition check_for_new_connections :: "uart_os \<Rightarrow> uartsim \<Rightarrow> uartsim" where
  "check_for_new_connections os s =
     (if m_conrd s < 0 \<and> m_conwr s < 0 \<and> m_skt s \<ge> 0
      then (case os_accept os of None \<Rightarrow> s | Some fd \<Rightarrow> s\<lparr>m_conrd := fd, m_conwr := fd\<rparr>)
      else s)"

text \<open>The receiver: the character it has written, if any.\<close>

definition rx_finish :: "uart_os \<Rightarrow> byte \<Rightarrow> uartsim \<Rightarrow> byte list \<times> uartsim" where
  "rx_finish os buf s =
     (if m_conwr s \<ge> 0 then
        (if os_write_ok os then ([buf], s) else ([], s\<lparr>m_conrd := -1, m_conwr := -1\<rparr>))
      else ([], s))"

definition rx_tick :: "uart_os \<Rightarrow> bool \<Rightarrow> uartsim \<Rightarrow> byte list \<times> uartsim" where
  "rx_tick os i_tx s =
     (case rx_line i_tx s of (None, s) \<Rightarrow> ([], s) | (Some buf, s) \<Rightarrow> rx_finish os buf s)"

text \<open>The transmitter: the level of the wire.\<close>

definition tx_tick :: "uart_os \<Rightarrow> bool \<Rightarrow> uartsim \<Rightarrow> bool \<times> uartsim" where
  "tx_tick os network s =
     (if m_tx_state s = TXIDLE \<and> (network \<or> m_conrd s \<ge> 0) then
        (if os_readable os then
           (let (nr, buf) = os_read os in
            if nr = 1 then (False, tx_load buf s)
            else if network \<and> nr = 0 then (True, s\<lparr>m_conrd := -1, m_conwr := -1\<rparr>)
            else if nr < 0 then (if \<not> network then (True, s\<lparr>m_conrd := -1\<rparr>) else (True, s\<lparr>m_conrd := -1, m_conwr := -1\<rparr>))
            else (True, s))
         else (True, s))
      else tx_shift s)"

definition rawtick :: "uart_os \<Rightarrow> bool \<Rightarrow> bool \<Rightarrow> uartsim \<Rightarrow> (bool \<times> byte list) \<times> uartsim" where
  "rawtick os network i_tx s =
     (let s = (if network then check_for_new_connections os s else s);
          s = rx_edge i_tx s;
          (w, s) = rx_tick os i_tx s;
          (o_rx, s) = tx_tick os network s
      in ((o_rx, w), s))"

definition uart_tick :: "uart_os \<Rightarrow> bool \<Rightarrow> uartsim \<Rightarrow> (bool \<times> byte list) \<times> uartsim" where
  "uart_tick os i_tx s = rawtick os (m_skt s \<ge> 0) i_tx s"

definition uart_tick_setup :: "uart_os \<Rightarrow> bool \<Rightarrow> busw \<Rightarrow> uartsim \<Rightarrow> (bool \<times> byte list) \<times> uartsim" where
  "uart_tick_setup os i_tx isetup s = uart_tick os i_tx (uart_setup isetup s)"

text \<open>The simulation loop: one tick per level of the design's transmit wire, the answers of the
  operating system at clock \<open>t\<close> being \<open>os t\<close>.\<close>

fun uart_run :: "(nat \<Rightarrow> uart_os) \<Rightarrow> nat \<Rightarrow> bool list \<Rightarrow> uartsim \<Rightarrow> (bool \<times> byte list) list \<times> uartsim" where
  "uart_run os t [] s = ([], s)"
| "uart_run os t (i # is) s =
     (let (r, s) = uart_tick (os t) i s; (rs, s) = uart_run os (Suc t) is s in (r # rs, s))"

definition uart_wire :: "(nat \<Rightarrow> uart_os) \<Rightarrow> nat \<Rightarrow> bool list \<Rightarrow> uartsim \<Rightarrow> bool list" where
  "uart_wire os t is s = map fst (fst (uart_run os t is s))"

definition uart_written :: "(nat \<Rightarrow> uart_os) \<Rightarrow> nat \<Rightarrow> bool list \<Rightarrow> uartsim \<Rightarrow> byte list" where
  "uart_written os t is s = concat (map snd (fst (uart_run os t is s)))"

text \<open>The operating system accepts what is written, and a descriptor that is ready has a byte.\<close>

definition link_up :: "uart_os \<Rightarrow> bool" where
  "link_up os \<longleftrightarrow> os_write_ok os \<and> (os_readable os \<longrightarrow> fst (os_read os) = 1)"

definition connected :: "uartsim \<Rightarrow> bool" where
  "connected s \<longleftrightarrow> m_conrd s \<ge> 0 \<and> m_conwr s \<ge> 0"

definition os_offer :: "uart_os \<Rightarrow> byte option" where
  "os_offer os = (if os_readable os then Some (snd (os_read os)) else None)"

subsection \<open>The simulator follows the line\<close>

lemma rx_line_keeps [simp]:
  "m_conrd (snd (rx_line i s)) = m_conrd s" "m_conwr (snd (rx_line i s)) = m_conwr s" "m_skt (snd (rx_line i s)) = m_skt s"
  "m_conrd (rx_edge i s) = m_conrd s" "m_conwr (rx_edge i s) = m_conwr s" "m_skt (rx_edge i s) = m_skt s"
  by (simp_all add: rx_line_def rx_edge_def)

lemma line_of_update [simp]:
  "line_of (s\<lparr>m_conrd := a\<rparr>) = line_of s" "line_of (s\<lparr>m_conwr := a\<rparr>) = line_of s" "line_of (s\<lparr>m_skt := a\<rparr>) = line_of s"
  by (simp_all add: uart_line.truncate_def)

lemma tx_keeps [simp]:
  "m_conrd (snd (tx_shift s)) = m_conrd s" "m_conwr (snd (tx_shift s)) = m_conwr s"
  "m_conrd (tx_load b s) = m_conrd s" "m_conwr (tx_load b s) = m_conwr s"
  by (simp_all add: tx_shift_def tx_load_def Let_def)

lemma rx_tick_line:
  assumes "link_up os" "m_conwr s \<ge> 0"
  shows "rx_tick os i s = (chars_of (fst (rx_line i s)), snd (rx_line i s))"
  using assms by (simp add: rx_tick_def rx_finish_def link_up_def split: prod.split option.split) (metis rx_line_keeps(2) snd_conv)

lemma tx_tick_line:
  assumes "link_up os" "m_conrd s \<ge> 0"
  shows "fst (tx_tick os net s) = fst (tx_line (os_offer os) (line_of s))"
    "line_of (snd (tx_tick os net s)) = snd (tx_line (os_offer os) (line_of s))"
    "m_conrd (snd (tx_tick os net s)) = m_conrd s" "m_conwr (snd (tx_tick os net s)) = m_conwr s"
  using assms by (auto simp: tx_tick_def tx_line_def link_up_def os_offer_def line_of_ops split: prod.split)

lemma uart_tick_line:
  assumes "link_up os" "connected s"
  shows "fst (uart_tick os i s) = map_prod id chars_of (fst (line_tick (os_offer os) i (line_of s)))"
    "line_of (snd (uart_tick os i s)) = snd (line_tick (os_offer os) i (line_of s))" "connected (snd (uart_tick os i s))"
proof -
  have c: "check_for_new_connections os s = s" using assms(2) by (simp add: check_for_new_connections_def connected_def)
  let ?r = "rx_line i (rx_edge i s)"
  have rx: "rx_tick os i (rx_edge i s) = (chars_of (fst ?r), snd ?r)"
    using assms by (intro rx_tick_line) (simp_all add: connected_def)
  have t: "uart_tick os i s = ((fst (tx_tick os (m_skt s \<ge> 0) (snd ?r)), chars_of (fst ?r)), snd (tx_tick os (m_skt s \<ge> 0) (snd ?r)))"
    by (simp add: uart_tick_def rawtick_def c rx Let_def split: prod.split)
  have r: "m_conrd (snd ?r) \<ge> 0" using assms(2) by (simp add: connected_def)
  have p: "line_of (snd ?r) = snd (rx_part i (line_of s))" "fst ?r = fst (rx_part i (line_of s))"
    by (simp_all add: rx_part_def line_of_ops)
  show "fst (uart_tick os i s) = map_prod id chars_of (fst (line_tick (os_offer os) i (line_of s)))"
    "line_of (snd (uart_tick os i s)) = snd (line_tick (os_offer os) i (line_of s))" "connected (snd (uart_tick os i s))"
    using assms(2) by (simp_all add: t line_tick_split tx_tick_line [OF assms(1) r] connected_def flip: p)
qed

lemma uart_run_line:
  assumes "\<forall>t. link_up (os t)" "connected s"
  shows "fst (uart_run os t is s) = map (map_prod id chars_of) (fst (line_run (os_offer \<circ> os) t is (line_of s)))"
    "line_of (snd (uart_run os t is s)) = snd (line_run (os_offer \<circ> os) t is (line_of s))" 
proof -
  have "fst (uart_run os t is s) = map (map_prod id chars_of) (fst (line_run (os_offer \<circ> os) t is (line_of s))) \<and>
    line_of (snd (uart_run os t is s)) = snd (line_run (os_offer \<circ> os) t is (line_of s))"
    using assms(2)
  proof (induction "is" arbitrary: t s)
    case (Cons i "is")
    note tick = uart_tick_line [OF assms(1) [rule_format, of t] Cons.prems, of i]
    show ?case using Cons.IH [OF tick(3), of "Suc t"] tick(1,2) by (simp add: Let_def case_prod_beta comp_def id_def)
  qed simp
  then show "fst (uart_run os t is s) = map (map_prod id chars_of) (fst (line_run (os_offer \<circ> os) t is (line_of s)))"
    "line_of (snd (uart_run os t is s)) = snd (line_run (os_offer \<circ> os) t is (line_of s))" by auto
qed

lemma uart_wire_line:
  assumes "\<forall>t. link_up (os t)" "connected s"
  shows "uart_wire os t is s = line_wire (os_offer \<circ> os) t is (line_of s)"
    "uart_written os t is s = line_chars (os_offer \<circ> os) t is (line_of s)"
  by (simp_all add: uart_wire_def uart_written_def line_wire_def line_chars_def uart_run_line(1) [OF assms])

subsection \<open>Properties\<close>

text \<open>An object as the program makes it for a terminal, set to three clocks a bit, with odd
  parity and one stop bit; its memory held zeros before.\<close>

definition uart_zero :: uartsim where
  "uart_zero = \<lparr>m_setup = 0, m_nparity = 0, m_fixdp = False, m_evenp = 0,
     m_nbits = 0, m_nstop = 0, m_baud_counts = 0, m_rx_baudcounter = 0, m_rx_state = RXIDLE, m_rx_busy = 0,
     m_rx_changectr = 0, m_last_tx = True, m_tx_baudcounter = 0, m_tx_state = TXIDLE, m_tx_busy = 0,
     m_rx_data = 0, m_tx_data = 0, m_skt = 0, m_conrd = 0, m_conwr = 0\<rparr>"

definition uart_example :: uartsim where
  "uart_example = uart_setup 0x05000003 (UARTSIM 0 0 uart_zero)"

definition os_example :: "byte list \<Rightarrow> nat \<Rightarrow> nat \<Rightarrow> uart_os" where
  "os_example bs P t = \<lparr>os_accept = None, os_readable = (t mod P = 0 \<and> t div P < length bs),
     os_read = (1, if t div P < length bs then bs ! (t div P) else 0), os_write_ok = True\<rparr>"

lemma uart_example_simps [simp]:
  "m_nparity uart_example = 1" "m_fixdp uart_example = False" "m_evenp uart_example = 1" "m_nbits uart_example = 8"
  "m_nstop uart_example = 1" "m_baud_counts uart_example = 3" "m_rx_state uart_example = RXIDLE" "m_last_tx uart_example = True"
  "m_tx_state uart_example = TXIDLE" "frame_length uart_example = 10" "uart_wf uart_example" "connected uart_example"
  by (simp_all add: uart_example_def uart_zero_def UARTSIM_def uart_setup_def frame_length_def uart_wf_def connected_def Let_def)

lemma os_example_up [simp]: "link_up (os_example bs P t)"
  by (simp add: os_example_def link_up_def)

lemma os_example_2 [simp]: "feeds (os_offer \<circ> os_example [a, b] 34) 34 0 [a, b]"
  by (auto simp: os_example_def os_offer_def)

text \<open>The transmit line of the serial port simulator. Set to eight data bits and idle, with a
  byte waiting, the simulator drives the design's receive wire with exactly one asynchronous
  frame, whatever the design sends meanwhile: a low start bit, the eight bits of the byte from the least
  significant, the parity bit if parity is on (the byte's parity, inverted or not, or a fixed
  level), the stop bits, each held for \<open>m_baud_counts\<close> clocks. One clock later the wire is high and the
  transmitter idle.\<close>

lemma uart_transmits:
  assumes "\<forall>t. link_up (os t)" "connected u" "uart_wf u" "m_nbits u = 8" "m_baud_counts u = int B" "B > 0"
    and "m_tx_state u = TXIDLE" "os_offer (os t) = Some b" "length is = frame_clocks u"
  shows "uart_wire os t is u =
      uart_frame B (map (bit b) [0..<8] @ replicate (m_nparity u) (parity_bit u b) @ replicate (m_nstop u) True) @ [True] \<and>
    m_tx_state (snd (uart_run os t is u)) = TXIDLE"
proof -
  let ?f = "os_offer \<circ> os"
  have wire: "tx_drives ?f t (line_of u) (\<lambda>s. m_tx_state s = TXIDLE) (uart_frame B (frame_bits (line_of u) b) @ [True]) (\<lambda>s. m_tx_state s = TXIDLE)"
    by (rule tx_frame) (use assms in simp_all)
  have "length (uart_frame B (frame_bits u b) @ [True]) = length is"
    using assms(5,9) by (simp add: frame_clocks_def frame_bits_def)
  moreover have "tx_cfg (line_of u) (line_of u)" by (simp add: tx_cfg_def)
  moreover have "m_tx_state (snd (uart_run os t is u)) = m_tx_state (snd (line_run ?f t is (line_of u)))"
    by (simp flip: uart_run_line(2) [OF assms(1,2)])
  ultimately show ?thesis
    using wire assms(7) uart_wire_line(1) [OF assms(1,2)] frame_bits_8 [OF assms(3,4), of b] by (simp add: tx_drives_def)
qed

lemma uart_transmits_witness:
  "uart_wire (os_example [0x41, 0x42] 34) 0 (replicate 34 True) uart_example =
     uart_frame 3 (map (bit (0x41 :: byte)) [0..<8] @ replicate 1 (parity_bit uart_example 0x41) @ replicate 1 True) @ [True]"
  using uart_transmits [of "os_example [0x41, 0x42] 34" uart_example 3 0 "0x41" "replicate 34 True"]
  by (simp add: frame_clocks_def os_example_def os_offer_def link_up_def)

text \<open>The receive line of the serial port simulator. Fed any sequence of frames of the configured length
  that end in a stop bit, back to back or with any idle time between them, at three clocks a bit or
  more, the simulator writes exactly the bytes of these frames, in order, and is idle
  again once the wire has been high for more than half a bit. A frame's byte is its first eight bits: a word of
  fewer data bits is written with its parity and stop bits above it.\<close>

lemma uart_receives:
  assumes "\<forall>t. link_up (os t)" "connected u" "uart_wf u" "m_baud_counts u = int B" "B \<ge> 3"
    and "m_rx_state u = RXIDLE" "m_last_tx u"
    and "\<forall>(fs, g) \<in> set xs. frame_ok (frame_length u) fs" "g > B div 2"
  shows "uart_written os t (uart_stream B xs @ replicate g True) u = map (frame_byte \<circ> fst) xs \<and>
    m_rx_state (snd (uart_run os t (uart_stream B xs @ replicate g True) u)) = RXIDLE"
proof -
  let ?is = "uart_stream B xs @ replicate g True"
  have n: "0 < frame_length u" "frame_length u \<le> 32" using assms(3) by (auto simp: uart_wf_def frame_length_def)
  have "rx_ready (int B) (frame_length u) None (line_of u)"
    using assms(4,6,7) by (simp add: rx_ready_def uart_cfg_def low_for_def)
  then show ?thesis
    using rx_stream_out [OF assms(5) n assms(8,9)] uart_wire_line(2) [OF assms(1,2), of t ?is]
      arg_cong [where f = m_rx_state, OF uart_run_line(2) [OF assms(1,2), of t ?is]]
    by (simp add: rx_drives_def rx_ready_def)
qed

lemma uart_receives_witness:
  "uart_written (os_example [] 1) 0
     (uart_stream 3 [(map (bit (0x41 :: byte)) [0..<8] @ [False, True], 0), (map (bit (0x42 :: byte)) [0..<8] @ [True, True], 5)]
       @ replicate 2 True) uart_example =
   map (frame_byte \<circ> fst) [(map (bit (0x41 :: byte)) [0..<8] @ [False, True], 0 :: nat), (map (bit (0x42 :: byte)) [0..<8] @ [True, True], 5)]"
  using uart_receives [of "os_example [] 1" uart_example 3
    "[(map (bit (0x41 :: byte)) [0..<8] @ [False, True], 0), (map (bit (0x42 :: byte)) [0..<8] @ [True, True], 5)]" 2 0]
  by (simp add: frame_ok_def)

text \<open>C8: two serial port simulators, the transmit wire of one connected to the receive wire of
  the other, with the same eight-bit setup: whatever bytes the first reads from its
  terminal, the second writes exactly these bytes in this order. The line carries the frames back to back,
  one clock apart.\<close>

theorem uart_loopback:
  assumes "\<forall>t. link_up (osa t)" "\<forall>t. link_up (osb t)" "connected a" "connected b"
    and "uart_wf a" "m_nbits a = 8" "m_baud_counts a = int B" "B \<ge> 3" "m_tx_state a = TXIDLE"
    and "m_baud_counts b = m_baud_counts a" "frame_length b = frame_length a" "m_rx_state b = RXIDLE" "m_last_tx b"
    and "feeds (os_offer \<circ> osa) (frame_clocks a) t bs" "length is = frame_clocks a * length bs + B"
  shows "uart_written osb t' (uart_wire osa t is a) b = bs"
proof -
  let ?w = "uart_stream B (sent_frames a bs) @ replicate B True"
  have sent: "tx_drives (os_offer \<circ> osa) t (line_of a) (\<lambda>s. m_tx_state s = TXIDLE)
      (uart_stream B (sent_frames (line_of a) bs) @ replicate B True) (\<lambda>s. m_tx_state s = TXIDLE)"
    by (rule tx_stream) (use assms in simp_all)
  have "length is = length ?w" using assms(7,15) by (simp add: length_sent_frames)
  moreover have "tx_cfg (line_of a) (line_of a)" by (simp add: tx_cfg_def)
  ultimately have wire: "uart_wire osa t is a = ?w"
    using sent assms(9) uart_wire_line(1) [OF assms(1,3)] by (simp add: tx_drives_def)
  have "line_chars (os_offer \<circ> osb) t' ?w (line_of b) = bs"
    by (rule sent_frames_received [OF assms(5-8)]) (use assms in simp_all)
  then show ?thesis using wire uart_wire_line(2) [OF assms(2,4)] by simp
qed

theorem uart_loopback_witness:
  "uart_written (os_example [] 1) 0 (uart_wire (os_example [0x41, 0xff] 34) 0 (replicate 71 False) uart_example) uart_example = [0x41, 0xff]"
  using uart_loopback [of "os_example [0x41, 0xff] 34" "os_example [] 1" uart_example uart_example 3 0 "[0x41, 0xff]" "replicate 71 False" 0]
  by (simp add: frame_clocks_def del: feeds.simps)

text \<open>\<open>kill\<close> looks at the descriptor to read from and clears the one to write to, so it closes the
  standard input. Without a descriptor to read from, the idle transmitter goes on shifting, and after the ones
  of the stop bits come zeros: the wire stays low.\<close>

lemma uart_kill_closes_stdin: "fst (uart_kill (UARTSIM 0 0 junk)) = [0]"
  by (simp add: uart_kill_def UARTSIM_def uart_setup_def Let_def)

lemma uart_closed_wire_low:
  assumes "m_conrd s < 0" "m_tx_baudcounter s \<le> 0" "m_tx_state s = TXIDLE" "m_tx_busy s = 0" "drop_bit 1 (m_tx_data s) = 0"
  shows "fst (tx_tick os False s) = False \<and> (snd (tx_tick os False s)) = s\<lparr>m_tx_data := 0\<rparr>"
  using assms by (simp add: tx_tick_def tx_shift_def Let_def)

end
