(* ===== verification/DblUartSim.thy ===== *)
theory DblUartSim
  imports UartLine
begin

text \<open>
  The serial port of the simulated board (\<open>src/sim/verilated/dbluartsim.cpp\<close>, \<open>dbluartsim.h\<close>): one
  line, theory \<open>UartLine\<close>, shared by two sockets. Characters of the command socket, which carries the
  debugging bus, have their top bit set on the line; characters of the console socket have it clear.

  The answers of the system calls of a tick are its argument \<open>dbl_os\<close>. A tick has at most one
  of each: the result of \<open>accept\<close> on each listening socket if a connection waits there, what is there to
  read on each connection (no byte is the end of the connection or an error), and what the calls of \<open>send\<close>
  return. What goes out is returned as events, the diagnostics of \<open>printf\<close> included; \<open>perror\<close>
  and the messages on the standard error are left out, and so is \<open>m_debug\<close>, which only
  guards a message. Every access to one of the four character arrays is checked.
\<close>

subsection \<open>Definitions\<close>

definition DBLPIPEBUFLEN :: nat where "DBLPIPEBUFLEN = 256"

record dbluartsim = uart_line +
  m_skt :: int
  m_console :: int
  m_cmd :: int
  m_con :: int
  m_conbuf :: "byte list"
  m_cmdbuf :: "byte list"
  m_rxbuf :: "byte list"
  m_cmdline :: "byte list"
  m_ilen :: nat
  m_rxpos :: nat
  m_cmdpos :: nat
  m_conpos :: nat
  m_cllen :: nat
  m_started_flag :: bool
  m_copy :: bool

record dbl_os =
  acc_fail :: bool
  acc_cmd :: "int option"
  acc_con :: "int option"
  rd_ready :: bool
  rd_cmd :: "byte list option"
  rd_con :: "byte list option"
  cmd_send :: "nat \<Rightarrow> int"
  con_send :: int

datatype dbl_event = ToCmd "byte list" | ToCon "byte list" | Stdout "byte list"

type_synonym 'a dbl_call = "(dbluartsim, 'a) call"

definition put_cmdbuf :: "nat \<Rightarrow> byte \<Rightarrow> unit dbl_call" where
  "put_cmdbuf i v s = (case buf_put i v (m_cmdbuf s) of Inl e \<Rightarrow> (Inl e, s) | Inr b \<Rightarrow> (Inr (), s\<lparr>m_cmdbuf := b\<rparr>))"

definition put_conbuf :: "nat \<Rightarrow> byte \<Rightarrow> unit dbl_call" where
  "put_conbuf i v s = (case buf_put i v (m_conbuf s) of Inl e \<Rightarrow> (Inl e, s) | Inr b \<Rightarrow> (Inr (), s\<lparr>m_conbuf := b\<rparr>))"

definition put_rxbuf :: "nat \<Rightarrow> byte \<Rightarrow> unit dbl_call" where
  "put_rxbuf i v s = (case buf_put i v (m_rxbuf s) of Inl e \<Rightarrow> (Inl e, s) | Inr b \<Rightarrow> (Inr (), s\<lparr>m_rxbuf := b\<rparr>))"

definition put_cmdline :: "nat \<Rightarrow> byte \<Rightarrow> unit dbl_call" where
  "put_cmdline i v s = (case buf_put i v (m_cmdline s) of Inl e \<Rightarrow> (Inl e, s) | Inr b \<Rightarrow> (Inr (), s\<lparr>m_cmdline := b\<rparr>))"

text \<open>The constructor, with the two listening sockets and the object before construction.\<close>

definition DBLUARTSIM :: "bool \<Rightarrow> int \<Rightarrow> int \<Rightarrow> dbluartsim \<Rightarrow> dbluartsim" where
  "DBLUARTSIM copy_to_stdout skt console junk =
     (let s = junk\<lparr>m_copy := copy_to_stdout, m_con := -1, m_cmd := -1, m_skt := skt, m_console := console,
                   m_rxpos := 0, m_cmdpos := 0, m_conpos := 0, m_ilen := 0, m_started_flag := False\<rparr>;
          s = uart_setup 25 s
      in s\<lparr>m_rx_baudcounter := 0, m_tx_baudcounter := 0, m_rx_state := RXIDLE, m_tx_state := TXIDLE, m_cllen := 0\<rparr>)"

definition poll_accept :: "dbl_os \<Rightarrow> unit dbl_call" where
  "poll_accept os s =
     (if m_cmd s < 0 \<or> m_con s < 0 then
        (if acc_fail os then (Inl AssertFail, s)
         else let s' = (if m_cmd s < 0 then (case acc_cmd os of None \<Rightarrow> s | Some fd \<Rightarrow> s\<lparr>m_cmd := fd\<rparr>) else s);
                  s' = (if m_con s < 0 then (case acc_con os of None \<Rightarrow> s' | Some fd \<Rightarrow> s'\<lparr>m_con := fd\<rparr>) else s')
              in (Inr (), s'))
      else (Inr (), s))"

text \<open>The characters of the command socket: each is copied to the echo line, which is printed at a newline or
  after 64 characters, and gets its top bit set.\<close>

definition cmd_char :: "nat \<Rightarrow> byte list list dbl_call" where
  "cmd_char k =
     bindE (getsE m_rxbuf) (\<lambda>rx. bindE (liftE (buf_get k rx)) (\<lambda>c.
     bindE (getsE m_cllen) (\<lambda>n. bindE (put_cmdline n c) (\<lambda>_.
     bindE (if c \<noteq> 13 then
              (if c = 10 then
                 bindE (put_cmdline n 0) (\<lambda>_. bindE (getsE m_cmdline) (\<lambda>cl.
                 bindE (modifyE (\<lambda>s. s\<lparr>m_cllen := 0\<rparr>)) (\<lambda>_. returnE [([0x3c, 0x20] @ c_string cl @ [10])])))
               else bindE (modifyE (\<lambda>s. s\<lparr>m_cllen := n + 1\<rparr>)) (\<lambda>_. returnE []))
            else returnE []) (\<lambda>e1.
     bindE (getsE m_cllen) (\<lambda>n.
     bindE (if n \<ge> 64 then
              bindE (put_cmdline (n + 1) 0) (\<lambda>_. bindE (getsE m_cmdline) (\<lambda>cl.
              bindE (modifyE (\<lambda>s. s\<lparr>m_cllen := 0\<rparr>)) (\<lambda>_. returnE [([0x3c, 0x20] @ c_string cl @ [10])])))
            else returnE []) (\<lambda>e2.
     bindE (put_rxbuf k (c OR 0x80)) (\<lambda>_. returnE (e1 @ e2)))))))))"

fun cmd_chars :: "nat \<Rightarrow> nat \<Rightarrow> byte list list dbl_call" where
  "cmd_chars k 0 = returnE []"
| "cmd_chars k (Suc n) = bindE (cmd_char k) (\<lambda>e. bindE (cmd_chars (Suc k) n) (\<lambda>es. returnE (e @ es)))"

text \<open>\<open>recv\<close> into the rest of \<open>m_rxbuf\<close>: the bytes it stores. The kernel stores them wherever the call says,
  so bytes behind the end of the array are the error \<open>OutOfBounds\<close>.\<close>

definition recv_rx :: "byte list \<Rightarrow> byte list dbl_call" where
  "recv_rx avail s =
     (let data = take (DBLPIPEBUFLEN - m_ilen s) avail
      in case store_at (m_ilen s) data (m_rxbuf s) of Inl e \<Rightarrow> (Inl e, s) | Inr b \<Rightarrow> (Inr data, s\<lparr>m_rxbuf := b\<rparr>))"

definition read_cmd :: "byte list \<Rightarrow> byte list list dbl_call" where
  "read_cmd avail =
     bindE (recv_rx avail) (\<lambda>data. bindE (getsE m_ilen) (\<lambda>k.
     bindE (cmd_chars k (length data)) (\<lambda>e1.
     bindE (getsE m_cllen) (\<lambda>n. bindE (put_cmdline n 0) (\<lambda>_.
     if data = [] then
       bindE (put_cmdline n 0) (\<lambda>_. bindE (getsE m_cmdline) (\<lambda>cl.
       bindE (modifyE (\<lambda>s. s\<lparr>m_cllen := 0, m_cmd := -1\<rparr>)) (\<lambda>_.
       returnE (e1 @ [([0x3c, 0x20] @ c_string cl @ [0x20, 0x5b, 0x43, 0x4c, 0x4f, 0x53, 0x45, 0x44, 0x5d, 10])]))))
     else bindE (modifyE (\<lambda>s. s\<lparr>m_ilen := k + length data\<rparr>)) (\<lambda>_. returnE e1))))))"

definition read_con :: "byte list \<Rightarrow> byte list list dbl_call" where
  "read_con avail =
     bindE (recv_rx avail) (\<lambda>data.
     if data = [] then bindE (modifyE (\<lambda>s. s\<lparr>m_con := -1\<rparr>)) (\<lambda>_. returnE [])
     else bindE (modifyE (\<lambda>s. s\<lparr>m_ilen := m_ilen s + length data\<rparr>)) (\<lambda>_. returnE []))"

text \<open>The two entries of the poll table are those of the connections open before the first read; a full buffer
  ends the loop.\<close>

definition poll_cmd :: "dbl_os \<Rightarrow> dbluartsim \<Rightarrow> byte list list dbl_call" where
  "poll_cmd os s0 = (case (if m_cmd s0 \<ge> 0 then rd_cmd os else None) of None \<Rightarrow> returnE [] | Some avail \<Rightarrow> read_cmd avail)"

definition poll_con :: "dbl_os \<Rightarrow> dbluartsim \<Rightarrow> nat \<Rightarrow> byte list list dbl_call" where
  "poll_con os s0 n =
     (if m_cmd s0 \<ge> 0 \<and> rd_cmd os \<noteq> None \<and> n = DBLPIPEBUFLEN then returnE []
      else case (if m_con s0 \<ge> 0 then rd_con os else None) of None \<Rightarrow> returnE [] | Some avail \<Rightarrow> read_con avail)"

definition poll_read :: "dbl_os \<Rightarrow> byte list list dbl_call" where
  "poll_read os =
     bindE (getsE id) (\<lambda>s0.
     if m_cmd s0 < 0 \<and> m_con s0 < 0 \<or> \<not> rd_ready os then returnE []
     else bindE (poll_cmd os s0) (\<lambda>e1. bindE (getsE m_ilen) (\<lambda>n. bindE (poll_con os s0 n) (\<lambda>e2.
          bindE (modifyE (\<lambda>s. s\<lparr>m_rxpos := 0\<rparr>)) (\<lambda>_. returnE (e1 @ e2))))))"

definition flushrx :: "dbl_os \<Rightarrow> dbl_event list dbl_call" where
  "flushrx os s =
     (if m_cmdpos s = 0 then (Inr [], s)
      else
        let buf = take (m_cmdpos s) (m_cmdbuf s);
            snt = (if m_cmd s \<ge> 0 then cmd_send os (m_cmdpos s) else int (m_cmdpos s));
            e1 = (if m_cmd s \<ge> 0 then [ToCmd (take (nat snt) buf)] else []);
            s = (if snt < 0 then s\<lparr>m_cmd := -1\<rparr> else s)
        in bindE (put_cmdbuf (m_cmdpos s) 0) (\<lambda>_. bindE (getsE m_cmdbuf) (\<lambda>cb.
           bindE (modifyE (\<lambda>s. s\<lparr>m_cmdpos := 0\<rparr>)) (\<lambda>_.
           returnE (e1 @ (if m_copy s then [Stdout ([0x3e, 0x20] @ c_string cb)] else []))))) s)"

definition recv_console :: "dbl_os \<Rightarrow> dbl_event list dbl_call" where
  "recv_console os s =
     (if m_con s \<ge> 0 \<and> m_conpos s > 0 then
        (case buf_get (m_conpos s - 1) (m_conbuf s) of
           Inl e \<Rightarrow> (Inl e, s)
         | Inr c \<Rightarrow> (Inr [ToCon (if con_send os \<ge> 1 then [c] else [])],
                     (if con_send os < 0 then s\<lparr>m_con := -1\<rparr> else s)\<lparr>m_conpos := 0\<rparr>))
      else (Inr [], s))"

definition print_console :: "dbl_event list dbl_call" where
  "print_console s =
     (if m_conpos s > 0 then
        (case buf_get (m_conpos s - 1) (m_conbuf s) of
           Inl e \<Rightarrow> (Inl e, s)
         | Inr c \<Rightarrow>
             if c = 10 \<or> m_conpos s \<ge> DBLPIPEBUFLEN - 2 then
               bindE (put_conbuf (m_conpos s) 0) (\<lambda>_. bindE (getsE m_conbuf) (\<lambda>cb.
               bindE (modifyE (\<lambda>s. s\<lparr>m_conpos := 0\<rparr>)) (\<lambda>_. returnE [Stdout (c_string cb)]))) s
             else (Inr [], s))
      else (Inr [], s))"

definition store_char :: "byte \<Rightarrow> unit dbl_call" where
  "store_char ch s =
     (if ch AND 0x80 \<noteq> 0
      then bindE (put_cmdbuf (m_cmdpos s) (ch AND 0x7f)) (\<lambda>_. modifyE (\<lambda>s. s\<lparr>m_cmdpos := m_cmdpos s + 1\<rparr>)) s
      else bindE (put_conbuf (m_conpos s) (ch AND 0x7f)) (\<lambda>_. modifyE (\<lambda>s. s\<lparr>m_conpos := m_conpos s + 1\<rparr>)) s)"

definition cmd_line_end :: "dbl_os \<Rightarrow> dbl_event list dbl_call" where
  "cmd_line_end os s =
     (if m_cmdpos s > 0 then
        (case buf_get (m_cmdpos s - 1) (m_cmdbuf s) of
           Inl e \<Rightarrow> (Inl e, s)
         | Inr c \<Rightarrow> if c = 10 \<or> m_cmdpos s \<ge> DBLPIPEBUFLEN - 2 then flushrx os s else (Inr [], s))
      else (Inr [], s))"

definition received :: "dbl_os \<Rightarrow> byte \<Rightarrow> dbl_event list dbl_call" where
  "received os ch =
     bindE (store_char ch) (\<lambda>_. bindE (cmd_line_end os) (\<lambda>e1.
     bindE (recv_console os) (\<lambda>e2. bindE print_console (\<lambda>e3. returnE (e1 @ e2 @ e3)))))"

text \<open>The next character to send, if any.\<close>

definition next_char :: "dbl_os \<Rightarrow> (byte option \<times> byte list list) dbl_call" where
  "next_char os =
     bindE (getsE m_ilen) (\<lambda>n. bindE (if n = 0 then poll_read os else returnE []) (\<lambda>e. bindE (getsE m_ilen) (\<lambda>n.
     if n = 0 then returnE (None, e)
     else bindE (getsE (\<lambda>s. buf_get (m_rxpos s) (m_rxbuf s))) (\<lambda>r. bindE (liftE r) (\<lambda>c.
          bindE (modifyE (\<lambda>s. s\<lparr>m_rxpos := m_rxpos s + 1, m_ilen := m_ilen s - 1\<rparr>)) (\<lambda>_.
          returnE (Some c, e)))))))"

definition dbl_rx :: "dbl_os \<Rightarrow> bool \<Rightarrow> dbl_event list dbl_call" where
  "dbl_rx os i_tx s =
     (case rx_line i_tx s of (None, s) \<Rightarrow> (Inr [], s) | (Some ch, s) \<Rightarrow> received os ch s)"

definition dbl_tx :: "dbl_os \<Rightarrow> (bool \<times> byte list list) dbl_call" where
  "dbl_tx os s =
     (if m_tx_state s = TXIDLE then
        bindE (next_char os) (\<lambda>(ch, e).
        case ch of None \<Rightarrow> returnE (True, e)
        | Some c \<Rightarrow> bindE (modifyE (tx_load c)) (\<lambda>_. returnE (False, e))) s
      else let (o_rx, s) = tx_shift s in (Inr (o_rx, []), s))"

definition dbl_tick :: "dbl_os \<Rightarrow> bool \<Rightarrow> (bool \<times> dbl_event list) dbl_call" where
  "dbl_tick os i_tx =
     bindE (poll_accept os) (\<lambda>_. bindE (modifyE (rx_edge i_tx)) (\<lambda>_.
     bindE (dbl_rx os i_tx) (\<lambda>e1. bindE (dbl_tx os) (\<lambda>(o_rx, e2). returnE (o_rx, e1 @ map Stdout e2)))))"

definition dbl_tick_setup :: "dbl_os \<Rightarrow> bool \<Rightarrow> busw \<Rightarrow> (bool \<times> dbl_event list) dbl_call" where
  "dbl_tick_setup os i_tx isetup = bindE (modifyE (uart_setup isetup)) (\<lambda>_. dbl_tick os i_tx)"

text \<open>Closing: what the peers still send is read and dropped until they close, too; a peer that never does
  keeps the loop going. \<open>nw\<close> is the result of the write of the final message.\<close>

fun drain :: "int list \<Rightarrow> exn + int list" where
  "drain [] = Inl Hang"
| "drain (nr # rs) = (if nr \<le> 0 then Inr rs else drain rs)"

definition SIM_CLOSED :: "byte list" where
  "SIM_CLOSED = [10, 0x5b, 0x53, 0x49, 0x4d, 0x5d, 0x20, 0x43, 0x6f, 0x6e, 0x6e, 0x65, 0x63, 0x74, 0x69, 0x6f, 0x6e, 0x2d,
     0x43, 0x6c, 0x6f, 0x73, 0x65, 0x64, 10]"

definition dbl_kill :: "int \<Rightarrow> int list \<Rightarrow> int list \<Rightarrow> dbl_event list dbl_call" where
  "dbl_kill nw con_reads cmd_reads =
     bindE (getsE id) (\<lambda>s.
     bindE (if m_con s \<ge> 0 \<and> nw > 0 then liftE (drain con_reads) else returnE []) (\<lambda>_.
     bindE (if m_cmd s \<ge> 0 then liftE (drain cmd_reads) else returnE []) (\<lambda>_.
     bindE (modifyE (\<lambda>s. s\<lparr>m_con := -1, m_skt := -1, m_console := -1, m_cmd := -1\<rparr>)) (\<lambda>_.
     returnE ((if m_con s \<ge> 0 then
                 (if m_conpos s > 0 then [ToCon (take (m_conpos s) (m_conbuf s))] else []) @
                 (if nw > 0 then [ToCon (take (nat nw) SIM_CLOSED)] else [])
               else []) @
              (if m_cmd s \<ge> 0 \<and> m_cmdpos s > 0 then [ToCmd (take (m_cmdpos s) (m_cmdbuf s))] else []))))))"

text \<open>The destructor.\<close>

definition dbl_destroy :: "dbl_os \<Rightarrow> dbl_event list dbl_call" where
  "dbl_destroy os = bindE (flushrx os) (\<lambda>e. returnE (e @ [Stdout [10]]))"

subsection \<open>Buffers\<close>

text \<open>The invariant of the arrays and positions.\<close>

definition dbl_ok :: "dbluartsim \<Rightarrow> bool" where
  "dbl_ok s \<longleftrightarrow> length (m_conbuf s) = 256 \<and> length (m_cmdbuf s) = 256 \<and> length (m_rxbuf s) = 256 \<and> length (m_cmdline s) = 256 \<and>
     m_rxpos s + m_ilen s \<le> 256 \<and> m_cmdpos s \<le> 253 \<and> m_conpos s \<le> 253 \<and> m_cllen s \<le> 63"

lemma wpE_put [simp]:
  "wpE (put_cmdbuf i v) Q s = (i < length (m_cmdbuf s) \<and> Q () (s\<lparr>m_cmdbuf := (m_cmdbuf s)[i := v]\<rparr>))"
  "wpE (put_conbuf i v) Q s = (i < length (m_conbuf s) \<and> Q () (s\<lparr>m_conbuf := (m_conbuf s)[i := v]\<rparr>))"
  "wpE (put_rxbuf i v) Q s = (i < length (m_rxbuf s) \<and> Q () (s\<lparr>m_rxbuf := (m_rxbuf s)[i := v]\<rparr>))"
  "wpE (put_cmdline i v) Q s = (i < length (m_cmdline s) \<and> Q () (s\<lparr>m_cmdline := (m_cmdline s)[i := v]\<rparr>))"
  by (simp_all add: wpE_def put_cmdbuf_def put_conbuf_def put_rxbuf_def put_cmdline_def buf_put_def)

lemma wpE_get [simp]:
  "(case buf_get i b of Inl e \<Rightarrow> False | Inr v \<Rightarrow> P v) = (i < length b \<and> P (b ! i))"
  by (simp add: buf_get_def)

lemma wpE_if: "wpE (if c then m else n) Q s = (if c then wpE m Q s else wpE n Q s)"
  by simp

text \<open>What reading from the command socket does to the buffer.\<close>

definition echoed :: "byte list \<Rightarrow> dbluartsim \<Rightarrow> dbluartsim \<Rightarrow> bool" where
  "echoed rx s t \<longleftrightarrow> (\<exists>cl n. length cl = 256 \<and> n \<le> 63 \<and> t = s\<lparr>m_rxbuf := rx, m_cmdline := cl, m_cllen := n\<rparr>)"

lemma echoedI:
  "length (m_cmdline t) = 256 \<Longrightarrow> m_cllen t \<le> 63 \<Longrightarrow>
   t = s\<lparr>m_rxbuf := rx, m_cmdline := m_cmdline t, m_cllen := m_cllen t\<rparr> \<Longrightarrow> echoed rx s t"
  unfolding echoed_def by blast

lemma echoed_trans: "echoed rx s t \<Longrightarrow> echoed rx' t u \<Longrightarrow> echoed rx' s u"
  by (rule echoedI) (auto simp: echoed_def)

lemma cmd_char_wp:
  assumes "length (m_cmdline s) = 256" "m_cllen s \<le> 63" "k < length (m_rxbuf s)"
  shows "wpE (cmd_char k) (\<lambda>e. echoed ((m_rxbuf s)[k := m_rxbuf s ! k OR 0x80]) s) s"
proof -
  consider "m_rxbuf s ! k = 13" | "m_rxbuf s ! k = 10" | "m_rxbuf s ! k \<noteq> 13" "m_rxbuf s ! k \<noteq> 10" "m_cllen s = 63"
    | "m_rxbuf s ! k \<noteq> 13" "m_rxbuf s ! k \<noteq> 10" "m_cllen s < 63"
    using assms(2) by linarith
  then show ?thesis
    using assms by cases (simp_all add: cmd_char_def echoedI)
qed

lemma cmd_chars_wp:
  assumes "length (m_cmdline s) = 256" "m_cllen s \<le> 63" "k + n \<le> length (m_rxbuf s)"
  shows "wpE (cmd_chars k n) (\<lambda>e. echoed (take k (m_rxbuf s) @ map (\<lambda>b. b OR 0x80) (take n (drop k (m_rxbuf s))) @ drop (k + n) (m_rxbuf s)) s) s"
  using assms
proof (induction n arbitrary: k s)
  case 0
  then show ?case by (simp add: echoedI)
next
  case (Suc n)
  let ?rx = "m_rxbuf s" let ?rx1 = "?rx[k := ?rx ! k OR 0x80]"
  have seg: "take (Suc k) ?rx1 @ map (\<lambda>b. b OR 0x80) (take n (drop (Suc k) ?rx1)) @ drop (Suc k + n) ?rx1 =
    take k ?rx @ map (\<lambda>b. b OR 0x80) (take (Suc n) (drop k ?rx)) @ drop (k + Suc n) ?rx"
    using Suc.prems(3) by (simp add: take_Suc_conv_app_nth Cons_nth_drop_Suc [symmetric])
  have "wpE (cmd_char k) (\<lambda>e. echoed ?rx1 s) s" using Suc.prems by (intro cmd_char_wp) auto
  then show ?case unfolding cmd_chars.simps wpE_simps
  proof (rule wpE_mono)
    fix e t assume t: "echoed ?rx1 s t"
    then have "m_rxbuf t = ?rx1" "length (m_cmdline t) = 256" "m_cllen t \<le> 63" by (auto simp: echoed_def)
    then have "wpE (cmd_chars (Suc k) n) (\<lambda>e. echoed (take k ?rx @ map (\<lambda>b. b OR 0x80) (take (Suc n) (drop k ?rx)) @ drop (k + Suc n) ?rx) t) t"
      using Suc.IH [of t "Suc k"] Suc.prems(3) unfolding \<open>m_rxbuf t = ?rx1\<close> seg by simp
    then show "wpE (cmd_chars (Suc k) n) (\<lambda>v. echoed (take k ?rx @ map (\<lambda>b. b OR 0x80) (take (Suc n) (drop k ?rx)) @ drop (k + Suc n) ?rx) s) t"
      by (elim wpE_mono) (simp add: echoed_trans [OF t])
  qed
qed

lemma recv_rx_wp [simp]:
  "wpE (recv_rx avail) Q s =
     (let data = take (256 - m_ilen s) avail
      in m_ilen s + length data \<le> length (m_rxbuf s) \<and>
         Q data (s\<lparr>m_rxbuf := take (m_ilen s) (m_rxbuf s) @ data @ drop (m_ilen s + length data) (m_rxbuf s)\<rparr>))"
  by (simp add: wpE_def recv_rx_def DBLPIPEBUFLEN_def Let_def store_at_def)

text \<open>What the reading side may change.\<close>

definition input_frame :: "dbluartsim \<Rightarrow> dbluartsim \<Rightarrow> bool" where
  "input_frame s t \<longleftrightarrow>
     t\<lparr>m_rxbuf := [], m_cmdline := [], m_cllen := 0, m_ilen := 0, m_rxpos := 0, m_cmd := 0, m_con := 0\<rparr> =
     s\<lparr>m_rxbuf := [], m_cmdline := [], m_cllen := 0, m_ilen := 0, m_rxpos := 0, m_cmd := 0, m_con := 0\<rparr>"

lemma input_frame_fields:
  assumes "input_frame s t"
  shows "line_of t = line_of s" "m_cmdbuf t = m_cmdbuf s" "m_conbuf t = m_conbuf s" "m_cmdpos t = m_cmdpos s" "m_conpos t = m_conpos s"
    "m_copy t = m_copy s"
  using assms by (cases s; cases t; simp add: input_frame_def uart_line.truncate_def)+

text \<open>Reading from the command socket into the empty buffer.\<close>

lemma read_cmd_wp:
  assumes "dbl_ok s" "m_ilen s = 0" "data = take 256 avail"
  shows "wpE (read_cmd avail) (\<lambda>e t. input_frame s t \<and> dbl_ok (t\<lparr>m_rxpos := 0\<rparr>) \<and> m_con t = m_con s \<and>
     m_cmd t = (if data = [] then -1 else m_cmd s) \<and> m_ilen t = length data \<and>
     take (length data) (m_rxbuf t) = map (\<lambda>b. b OR 0x80) data) s"
proof -
  have len: "length data \<le> 256" using assms(3) by simp
  let ?s = "s\<lparr>m_rxbuf := data @ drop (length data) (m_rxbuf s)\<rparr>"
  let ?rx = "map (\<lambda>b. b OR 0x80) data @ drop (length data) (m_rxbuf s)"
  have "wpE (cmd_chars 0 (length data)) (\<lambda>e. echoed ?rx ?s) ?s"
    using cmd_chars_wp [of ?s 0 "length data"] assms(1) len by (simp add: dbl_ok_def)
  then show ?thesis
    unfolding read_cmd_def wpE_simps recv_rx_wp using assms len
    by (auto simp: echoed_def Let_def dbl_ok_def input_frame_def elim!: wpE_mono)
qed

lemma read_con_wp:
  assumes "length (m_rxbuf s) = 256" "m_ilen s < 256" "data = take (256 - m_ilen s) avail"
  shows "wpE (read_con avail) (\<lambda>e t.
     t = s\<lparr>m_rxbuf := take (m_ilen s) (m_rxbuf s) @ data @ drop (m_ilen s + length data) (m_rxbuf s),
           m_con := (if data = [] then -1 else m_con s), m_ilen := m_ilen s + length data\<rparr>) s"
  using assms by (auto simp: read_con_def Let_def)

text \<open>What a read may do to the connections: one with nothing to read is closed.\<close>

definition input_kept :: "dbl_os \<Rightarrow> dbluartsim \<Rightarrow> dbluartsim \<Rightarrow> bool" where
  "input_kept os s t \<longleftrightarrow> input_frame s t \<and> dbl_ok (t\<lparr>m_rxpos := 0\<rparr>) \<and>
     (rd_cmd os \<noteq> Some [] \<longrightarrow> m_cmd t = m_cmd s) \<and> (rd_con os \<noteq> Some [] \<longrightarrow> m_con t = m_con s)"

lemma poll_cmd_wp:
  assumes "dbl_ok s" "m_ilen s = 0"
  shows "wpE (poll_cmd os s) (\<lambda>e t. input_kept os s t \<and> (m_cmd s < 0 \<or> rd_cmd os = None \<longrightarrow> m_ilen t = 0)) s"
proof (cases "if m_cmd s \<ge> 0 then rd_cmd os else None")
  case None
  then show ?thesis using assms by (auto simp: poll_cmd_def input_kept_def input_frame_def dbl_ok_def)
next
  case (Some a)
  then have "rd_cmd os = Some a" "m_cmd s \<ge> 0" by (auto split: if_splits)
  then show ?thesis unfolding poll_cmd_def Some option.case
    by (intro wpE_mono [OF read_cmd_wp [OF assms refl, of a]]) (auto simp: input_kept_def)
qed

lemma poll_con_wp:
  assumes t: "input_kept os s t" "m_cmd s < 0 \<or> rd_cmd os = None \<longrightarrow> m_ilen t = 0"
  shows "wpE (poll_con os s (m_ilen t)) (\<lambda>e. input_kept os s) t"
proof (cases "m_cmd s \<ge> 0 \<and> rd_cmd os \<noteq> None \<and> m_ilen t = DBLPIPEBUFLEN")
  case True
  then show ?thesis using t(1) by (simp add: poll_con_def)
next
  case False
  then have n: "m_ilen t < 256" "length (m_rxbuf t) = 256" using t by (auto simp: dbl_ok_def input_kept_def DBLPIPEBUFLEN_def)
  show ?thesis
  proof (cases "if m_con s \<ge> 0 then rd_con os else None")
    case None
    then show ?thesis using t(1) by (simp add: poll_con_def)
  next
    case (Some a)
    show ?thesis unfolding poll_con_def if_not_P [OF False] Some option.case
      by (rule wpE_mono [OF read_con_wp [OF n(2,1) refl, of a]])
        (use t(1) n Some in \<open>auto simp: dbl_ok_def input_frame_def input_kept_def split: if_splits\<close>)
  qed
qed

lemma poll_read_wp:
  assumes "dbl_ok s" "m_ilen s = 0"
  shows "wpE (poll_read os) (\<lambda>e t. input_kept os s t \<and> dbl_ok t) s"
proof (cases "m_cmd s < 0 \<and> m_con s < 0 \<or> \<not> rd_ready os")
  case True
  then show ?thesis using assms by (auto simp: poll_read_def input_kept_def input_frame_def dbl_ok_def)
next
  case False
  have "wpE (poll_con os s (m_ilen t)) (\<lambda>e u. input_kept os s (u\<lparr>m_rxpos := 0\<rparr>) \<and> dbl_ok (u\<lparr>m_rxpos := 0\<rparr>)) t"
    if "input_kept os s t \<and> (m_cmd s < 0 \<or> rd_cmd os = None \<longrightarrow> m_ilen t = 0)" for t
    using that by (intro wpE_mono [OF poll_con_wp]) (auto simp: input_kept_def input_frame_def)
  then show ?thesis unfolding poll_read_def wpE_simps id_apply if_not_P [OF False]
    by (intro wpE_mono [OF poll_cmd_wp [OF assms]])
qed

lemma next_char_wp:
  assumes "dbl_ok s"
  shows "wpE (next_char os) (\<lambda>(c, e) t. input_frame s t \<and> dbl_ok t \<and>
     (rd_cmd os \<noteq> Some [] \<longrightarrow> m_cmd t = m_cmd s) \<and> (rd_con os \<noteq> Some [] \<longrightarrow> m_con t = m_con s)) s"
proof -
  have "wpE (if m_ilen s = 0 then poll_read os else returnE []) (\<lambda>e t. input_frame s t \<and> dbl_ok t \<and>
     (rd_cmd os \<noteq> Some [] \<longrightarrow> m_cmd t = m_cmd s) \<and> (rd_con os \<noteq> Some [] \<longrightarrow> m_con t = m_con s)) s"
  proof (cases "m_ilen s = 0")
    case True
    then show ?thesis using poll_read_wp [OF assms True, of os] by (auto simp: input_kept_def elim: wpE_mono)
  next
    case False
    then show ?thesis using assms by (simp add: input_frame_def)
  qed
  then show ?thesis
    unfolding next_char_def wpE_simps by (elim wpE_mono) (auto simp: wpE_if dbl_ok_def input_frame_def)
qed

subsection \<open>Received characters\<close>

definition cmd_out :: "dbl_event list \<Rightarrow> byte list" where
  "cmd_out es = concat (map (\<lambda>e. case e of ToCmd b \<Rightarrow> b | _ \<Rightarrow> []) es)"

definition con_out :: "dbl_event list \<Rightarrow> byte list" where
  "con_out es = concat (map (\<lambda>e. case e of ToCon b \<Rightarrow> b | _ \<Rightarrow> []) es)"

lemma out_simps [simp]:
  "cmd_out [] = []" "cmd_out (ToCmd b # es) = b @ cmd_out es" "cmd_out (ToCon b # es) = cmd_out es"
  "cmd_out (Stdout b # es) = cmd_out es" "cmd_out (es @ es') = cmd_out es @ cmd_out es'"
  "con_out [] = []" "con_out (ToCmd b # es) = con_out es" "con_out (ToCon b # es) = b @ con_out es"
  "con_out (Stdout b # es) = con_out es" "con_out (es @ es') = con_out es @ con_out es'"
  by (simp_all add: cmd_out_def con_out_def)

lemma and_80: "ch AND 0x80 \<noteq> 0 \<longleftrightarrow> bit ch 7" for ch :: byte
  using and_exp_eq_0_iff_not_bit [of ch 7] by simp

lemma store_char_wp:
  "wpE (store_char ch) Q s =
     (if bit ch 7 then m_cmdpos s < length (m_cmdbuf s) \<and> Q () (s\<lparr>m_cmdbuf := (m_cmdbuf s)[m_cmdpos s := ch AND 0x7f], m_cmdpos := m_cmdpos s + 1\<rparr>)
      else m_conpos s < length (m_conbuf s) \<and> Q () (s\<lparr>m_conbuf := (m_conbuf s)[m_conpos s := ch AND 0x7f], m_conpos := m_conpos s + 1\<rparr>))"
  unfolding store_char_def wpE_def and_80
  by (simp add: bindE_def put_cmdbuf_def put_conbuf_def buf_put_def modifyE_def)

definition cmd_sent :: "dbl_os \<Rightarrow> dbluartsim \<Rightarrow> byte list" where
  "cmd_sent os s = (if m_cmd s \<ge> 0 then take (nat (cmd_send os (m_cmdpos s))) (take (m_cmdpos s) (m_cmdbuf s)) else [])"

lemma flushrx_wp:
  assumes "0 < m_cmdpos s" "m_cmdpos s < length (m_cmdbuf s)"
  shows "wpE (flushrx os) (\<lambda>e t. cmd_out e = cmd_sent os s \<and> con_out e = [] \<and>
    t = s\<lparr>m_cmd := (if m_cmd s \<ge> 0 \<and> cmd_send os (m_cmdpos s) < 0 then -1 else m_cmd s),
          m_cmdbuf := (m_cmdbuf s)[m_cmdpos s := 0], m_cmdpos := 0\<rparr>) s"
  using assms
  by (cases "m_cmd s \<ge> 0"; cases "cmd_send os (m_cmdpos s) < 0")
    (simp_all add: wpE_def flushrx_def bindE_def put_cmdbuf_def buf_put_def call_defs cmd_sent_def Let_def)

text \<open>The end of a line of the command stream, or a full buffer.\<close>

definition line_full :: "dbluartsim \<Rightarrow> bool" where
  "line_full s \<longleftrightarrow> m_cmdpos s > 0 \<and> (m_cmdbuf s ! (m_cmdpos s - 1) = 10 \<or> m_cmdpos s \<ge> 254)"

lemma cmd_line_end_wp:
  assumes "m_cmdpos s < length (m_cmdbuf s)"
  shows "wpE (cmd_line_end os) (\<lambda>e t. con_out e = [] \<and>
    (if line_full s then cmd_out e = cmd_sent os s \<and>
       t = s\<lparr>m_cmd := (if m_cmd s \<ge> 0 \<and> cmd_send os (m_cmdpos s) < 0 then -1 else m_cmd s),
             m_cmdbuf := (m_cmdbuf s)[m_cmdpos s := 0], m_cmdpos := 0\<rparr>
     else cmd_out e = [] \<and> t = s)) s"
proof (cases "line_full s")
  case True
  then have "cmd_line_end os s = flushrx os s" "0 < m_cmdpos s"
    using assms by (auto simp: cmd_line_end_def line_full_def buf_get_def DBLPIPEBUFLEN_def)
  then show ?thesis using flushrx_wp [OF _ assms, of os] True by (simp add: wpE_def case_prod_beta split: sum.splits)
next
  case False
  then have "cmd_line_end os s = (Inr [], s)"
    using assms by (auto simp: cmd_line_end_def line_full_def buf_get_def DBLPIPEBUFLEN_def)
  then show ?thesis using False by (simp add: wpE_def)
qed

lemma recv_console_wp:
  assumes "m_conpos s \<le> length (m_conbuf s)"
  shows "wpE (recv_console os) (\<lambda>e t. cmd_out e = [] \<and>
    (if m_con s \<ge> 0 \<and> m_conpos s > 0
     then con_out e = (if con_send os \<ge> 1 then [m_conbuf s ! (m_conpos s - 1)] else []) \<and>
       t = s\<lparr>m_con := (if con_send os < 0 then -1 else m_con s), m_conpos := 0\<rparr>
     else con_out e = [] \<and> t = s)) s"
proof (cases "m_con s \<ge> 0 \<and> m_conpos s > 0")
  case True
  then have "m_conpos s - 1 < length (m_conbuf s)" using assms by linarith
  then show ?thesis using True by (cases "con_send os < 0") (simp_all add: wpE_def recv_console_def buf_get_def)
next
  case False
  have "recv_console os s = (Inr [], s)" unfolding recv_console_def if_not_P [OF False] ..
  then show ?thesis unfolding if_not_P [OF False] wpE_def by simp
qed

lemma console_idle:
  assumes "m_conpos s = 0"
  shows "wpE (recv_console os) Q s = Q [] s" "wpE print_console Q s = Q [] s"
  using assms by (simp_all add: wpE_def recv_console_def print_console_def)

lemma print_console_wp:
  assumes "m_conpos s < length (m_conbuf s)"
  shows "wpE print_console (\<lambda>e t. cmd_out e = [] \<and> con_out e = [] \<and>
    (if m_conpos s > 0 \<and> (m_conbuf s ! (m_conpos s - 1) = 10 \<or> m_conpos s \<ge> 254)
     then t = s\<lparr>m_conbuf := (m_conbuf s)[m_conpos s := 0], m_conpos := 0\<rparr> else t = s)) s"
  using assms
  by (cases "m_conpos s > 0 \<and> (m_conbuf s ! (m_conpos s - 1) = 10 \<or> m_conpos s \<ge> 254)")
    (auto simp: wpE_def print_console_def buf_get_def put_conbuf_def buf_put_def bindE_def call_defs DBLPIPEBUFLEN_def)

text \<open>What a received character may change.\<close>

definition output_frame :: "dbluartsim \<Rightarrow> dbluartsim \<Rightarrow> bool" where
  "output_frame s t \<longleftrightarrow>
     t\<lparr>m_cmdbuf := [], m_conbuf := [], m_cmdpos := 0, m_conpos := 0, m_cmd := 0, m_con := 0\<rparr> =
     s\<lparr>m_cmdbuf := [], m_conbuf := [], m_cmdpos := 0, m_conpos := 0, m_cmd := 0, m_con := 0\<rparr>"

lemma output_frame_fields:
  assumes "output_frame s t"
  shows "line_of t = line_of s" "m_rxbuf t = m_rxbuf s" "m_cmdline t = m_cmdline s" "m_ilen t = m_ilen s" "m_rxpos t = m_rxpos s"
    "m_cllen t = m_cllen s" "m_copy t = m_copy s"
  using assms by (cases s; cases t; simp add: output_frame_def uart_line.truncate_def)+

definition out_ok :: "nat \<Rightarrow> nat \<Rightarrow> dbluartsim \<Rightarrow> bool" where
  "out_ok a b s \<longleftrightarrow> length (m_cmdbuf s) = 256 \<and> length (m_conbuf s) = 256 \<and> m_cmdpos s \<le> a \<and> m_conpos s \<le> b"

lemma received_safe:
  assumes "dbl_ok s"
  shows "wpE (received os ch) (\<lambda>e t. dbl_ok t \<and> output_frame s t) s"
proof -
  have "wpE (store_char ch) (\<lambda>_ t. out_ok 254 254 t \<and> output_frame s t) s"
    using assms by (simp add: store_char_wp out_ok_def output_frame_def dbl_ok_def)
  moreover have "wpE (cmd_line_end os) (\<lambda>_ u. out_ok 253 254 u \<and> output_frame s u) t" if "out_ok 254 254 t" "output_frame s t" for t
    by (rule wpE_mono [OF cmd_line_end_wp]) (use that in \<open>auto simp: out_ok_def output_frame_def line_full_def split: if_splits\<close>)
  moreover have "wpE (recv_console os) (\<lambda>_ u. out_ok 253 254 u \<and> output_frame s u) t" if "out_ok 253 254 t" "output_frame s t" for t
    by (rule wpE_mono [OF recv_console_wp]) (use that in \<open>auto simp: out_ok_def output_frame_def split: if_splits\<close>)
  moreover have "wpE print_console (\<lambda>_ u. out_ok 253 253 u \<and> output_frame s u) t" if "out_ok 253 254 t" "output_frame s t" for t
    by (rule wpE_mono [OF print_console_wp]) (use that in \<open>auto simp: out_ok_def output_frame_def split: if_splits\<close>)
  ultimately have "wpE (received os ch) (\<lambda>e t. out_ok 253 253 t \<and> output_frame s t) s"
    unfolding received_def wpE_simps by (blast intro: wpE_mono)
  then show ?thesis
    by (rule wpE_mono) (use assms output_frame_fields in \<open>auto simp: dbl_ok_def out_ok_def\<close>)
qed

text \<open>With both sockets connected and taking what they are given.\<close>

definition dbl_up :: "dbl_os \<Rightarrow> bool" where
  "dbl_up os \<longleftrightarrow> (\<forall>n. cmd_send os n = int n) \<and> con_send os = 1 \<and> rd_cmd os \<noteq> Some [] \<and> rd_con os \<noteq> Some []"

definition pending_cmd :: "dbluartsim \<Rightarrow> byte list" where
  "pending_cmd s = take (m_cmdpos s) (m_cmdbuf s)"

definition both_up :: "dbluartsim \<Rightarrow> bool" where
  "both_up s \<longleftrightarrow> m_cmd s \<ge> 0 \<and> m_con s \<ge> 0 \<and> m_conpos s = 0 \<and> 10 \<notin> set (pending_cmd s)"

definition demuxed :: "byte list \<Rightarrow> dbluartsim \<Rightarrow> dbl_event list \<Rightarrow> dbluartsim \<Rightarrow> bool" where
  "demuxed bs s e t \<longleftrightarrow> both_up t \<and> cmd_out e @ pending_cmd t = pending_cmd s @ cmd_bytes bs \<and> con_out e = con_bytes bs"

lemma received_cmd:
  assumes "dbl_ok s" "both_up s" "dbl_up os" "bit ch 7"
  shows "wpE (received os ch) (demuxed [ch] s) s"
proof -
  let ?c = "ch AND 0x7f"
  let ?t = "s\<lparr>m_cmdbuf := (m_cmdbuf s)[m_cmdpos s := ?c], m_cmdpos := m_cmdpos s + 1\<rparr>"
  have pos: "m_cmdpos s < 253 + 1" "length (m_cmdbuf s) = 256" using assms(1) by (auto simp: dbl_ok_def)
  have p: "pending_cmd ?t = pending_cmd s @ [?c]"
    using pos by (simp add: pending_cmd_def take_Suc_conv_app_nth)
  have "cmd_send os (m_cmdpos ?t) = int (m_cmdpos ?t)" using assms(3) by (simp only: dbl_up_def)
  moreover have "m_cmd ?t \<ge> 0" using assms(2) by (simp add: both_up_def)
  ultimately have sent: "cmd_sent os ?t = pending_cmd ?t"
    unfolding cmd_sent_def pending_cmd_def by (simp only: if_True nat_int take_take min.idem)
  have "wpE (cmd_line_end os) (\<lambda>e t. con_out e = [] \<and> cmd_out e @ pending_cmd t = pending_cmd ?t \<and> both_up t) ?t"
  proof (rule wpE_mono [OF cmd_line_end_wp])
    show "m_cmdpos ?t < length (m_cmdbuf ?t)" using pos by simp
    fix e t assume *: "con_out e = [] \<and> (if line_full ?t then cmd_out e = cmd_sent os ?t \<and>
       t = ?t\<lparr>m_cmd := (if m_cmd ?t \<ge> 0 \<and> cmd_send os (m_cmdpos ?t) < 0 then -1 else m_cmd ?t),
             m_cmdbuf := (m_cmdbuf ?t)[m_cmdpos ?t := 0], m_cmdpos := 0\<rparr> else cmd_out e = [] \<and> t = ?t)"
    show "con_out e = [] \<and> cmd_out e @ pending_cmd t = pending_cmd ?t \<and> both_up t"
    proof (cases "line_full ?t")
      case True
      then show ?thesis using * sent assms(2,3) by (auto simp: both_up_def dbl_up_def pending_cmd_def)
    next
      case False
      then have "?c \<noteq> 10" using pos by (auto simp: line_full_def)
      then show ?thesis using * False p assms(2) by (auto simp: both_up_def)
    qed
  qed
  then show ?thesis
    unfolding received_def wpE_simps store_char_wp if_P [OF assms(4)] using pos p
    by (auto simp: demuxed_def cmd_bytes_def con_bytes_def assms(4) both_up_def console_idle elim!: wpE_mono)
qed

lemma received_con:
  assumes "dbl_ok s" "both_up s" "dbl_up os" "\<not> bit ch 7"
  shows "wpE (received os ch) (demuxed [ch] s) s"
proof -
  let ?c = "ch AND 0x7f"
  let ?t = "s\<lparr>m_conbuf := (m_conbuf s)[0 := ?c], m_conpos := 1\<rparr>"
  have pos: "m_cmdpos s \<le> 253" "length (m_cmdbuf s) = 256" "length (m_conbuf s) = 256" "m_conpos s = 0"
    using assms(1,2) by (auto simp: dbl_ok_def both_up_def)
  have "m_cmdpos s > 0 \<Longrightarrow> m_cmdbuf s ! (m_cmdpos s - 1) \<in> set (pending_cmd s)"
    using pos by (auto simp: pending_cmd_def in_set_conv_nth intro!: exI [of _ "m_cmdpos s - 1"])
  then have "\<not> line_full ?t" using pos assms(2) by (auto simp: line_full_def both_up_def)
  then have "wpE (cmd_line_end os) (\<lambda>e t. cmd_out e = [] \<and> con_out e = [] \<and> t = ?t) ?t"
    using pos by (intro wpE_mono [OF cmd_line_end_wp]) auto
  moreover have "wpE (recv_console os) (\<lambda>e u. cmd_out e = [] \<and> con_out e = [?c] \<and> u = ?t\<lparr>m_conpos := 0\<rparr>) ?t"
    using assms(2,3) pos by (intro wpE_mono [OF recv_console_wp]) (auto simp: both_up_def dbl_up_def)
  moreover have "demuxed [ch] s e (?t\<lparr>m_conpos := 0\<rparr>)" if "cmd_out e = []" "con_out e = [?c]" for e
    using that assms(2,4) by (simp add: demuxed_def cmd_bytes_def con_bytes_def both_up_def pending_cmd_def)
  ultimately show ?thesis
    unfolding received_def wpE_simps store_char_wp if_not_P [OF assms(4)] using pos
    by (auto simp: console_idle elim!: wpE_mono)
qed

lemma received_demux:
  assumes "dbl_ok s" "both_up s" "dbl_up os"
  shows "wpE (received os ch) (demuxed [ch] s) s"
  using received_cmd received_con assms by blast

lemma silent [simp]: "cmd_out (map Stdout bs) = []" "con_out (map Stdout bs) = []"
  by (simp_all add: cmd_out_def con_out_def comp_def)

subsection \<open>One clock\<close>

lemma poll_accept_wp:
  assumes "\<not> acc_fail os \<or> m_cmd s \<ge> 0 \<and> m_con s \<ge> 0"
  shows "wpE (poll_accept os) (\<lambda>_ t. input_frame s t \<and> (dbl_ok s \<longrightarrow> dbl_ok t) \<and> (m_cmd s \<ge> 0 \<and> m_con s \<ge> 0 \<longrightarrow> t = s)) s"
proof (cases "m_cmd s < 0 \<or> m_con s < 0")
  case True
  then have "\<not> acc_fail os" using assms by auto
  with True show ?thesis
    by (simp add: wpE_def poll_accept_def Let_def input_frame_def dbl_ok_def split: option.split)
next
  case False
  then show ?thesis by (simp add: wpE_def poll_accept_def input_frame_def)
qed

text \<open>The line's operations leave the rest of the object alone, and the rest leaves the line alone.\<close>

lemma line_ops_keep [simp]:
  "dbl_ok (snd (rx_line i s)) = dbl_ok s" "dbl_ok (rx_edge i s) = dbl_ok s" "dbl_ok (snd (tx_shift s)) = dbl_ok s" "dbl_ok (tx_load c s) = dbl_ok s"
  "both_up (snd (rx_line i s)) = both_up s" "both_up (rx_edge i s) = both_up s" "both_up (snd (tx_shift s)) = both_up s" "both_up (tx_load c s) = both_up s"
  "pending_cmd (snd (rx_line i s)) = pending_cmd s" "pending_cmd (rx_edge i s) = pending_cmd s"
  "pending_cmd (snd (tx_shift s)) = pending_cmd s" "pending_cmd (tx_load c s) = pending_cmd s"
  by (simp_all add: dbl_ok_def both_up_def pending_cmd_def rx_line_def rx_edge_def tx_shift_def tx_load_def Let_def)

text \<open>The characters waiting to be sent.\<close>

definition tx_queue :: "dbluartsim \<Rightarrow> byte list" where
  "tx_queue s = take (m_ilen s) (drop (m_rxpos s) (m_rxbuf s))"

lemma queue_frame [simp]:
  "tx_queue (snd (rx_line i s)) = tx_queue s" "tx_queue (rx_edge i s) = tx_queue s" "tx_queue (tx_load c s) = tx_queue s"
  "tx_queue (snd (tx_shift s)) = tx_queue s"
  by (simp_all add: tx_queue_def rx_line_def rx_edge_def tx_load_def tx_shift_def Let_def)

lemma dbl_rx_wp:
  assumes "dbl_ok s"
  shows "wpE (dbl_rx os i) (\<lambda>e t. dbl_ok t \<and> line_of t = snd (rx_line i (line_of s)) \<and> tx_queue t = tx_queue s \<and>
    (both_up s \<and> dbl_up os \<longrightarrow> demuxed (chars_of (fst (rx_line i (line_of s)))) s e t)) s"
proof (cases "rx_line i s")
  case (Pair ch t)
  have t: "t = snd (rx_line i s)" "ch = fst (rx_line i s)" using Pair by auto
  have ok: "dbl_ok t" "both_up s \<longrightarrow> both_up t" "pending_cmd t = pending_cmd s" "tx_queue t = tx_queue s" using assms by (simp_all add: t)
  have lt: "line_of t = snd (rx_line i (line_of s))" "ch = fst (rx_line i (line_of s))" by (simp_all add: t line_of_ops)
  show ?thesis
  proof (cases ch)
    case None
    then have "dbl_rx os i s = (Inr [], t)" using Pair by (simp add: dbl_rx_def)
    then show ?thesis using None ok by (simp add: wpE_def demuxed_def cmd_bytes_def con_bytes_def lt(1) flip: lt(2))
  next
    case (Some c)
    then have r: "dbl_rx os i s = received os c t" using Pair by (simp add: dbl_rx_def)
    have "wpE (received os c) (\<lambda>e u. dbl_ok u \<and> output_frame t u) t" by (rule received_safe [OF ok(1)])
    moreover have "both_up s \<and> dbl_up os \<Longrightarrow> wpE (received os c) (demuxed [c] t) t"
      using received_demux [OF ok(1)] ok(2) by blast
    ultimately have "wpE (received os c) (\<lambda>e u. (dbl_ok u \<and> output_frame t u) \<and> (both_up s \<and> dbl_up os \<longrightarrow> demuxed [c] t e u)) t"
      by (auto simp: wpE_iff)
    then have "wpE (received os c) (\<lambda>e u. dbl_ok u \<and> line_of u = line_of t \<and> tx_queue u = tx_queue s \<and> (both_up s \<and> dbl_up os \<longrightarrow> demuxed [c] s e u)) t"
      by (rule wpE_mono) (use ok(4) in \<open>auto simp: output_frame_fields demuxed_def ok(3) tx_queue_def\<close>)
    then show ?thesis using Some by (simp add: wpE_def r lt(1) flip: lt(2))
  qed
qed

lemma dbl_tx_idle:
  assumes "m_tx_state s = TXIDLE" "wpE (next_char os) (\<lambda>(c, e) t. P c t) s"
    and "\<And>t. P None t \<Longrightarrow> Q True t" "\<And>c t. P (Some c) t \<Longrightarrow> Q False (tx_load c t)"
  shows "wpE (dbl_tx os) (\<lambda>(o_rx, e) t. Q o_rx t) s"
proof -
  have "dbl_tx os s = bindE (next_char os) (\<lambda>(ch, e). case ch of None \<Rightarrow> returnE (True, e)
        | Some c \<Rightarrow> bindE (modifyE (tx_load c)) (\<lambda>_. returnE (False, e))) s"
    using assms(1) by (simp add: dbl_tx_def)
  then have "wpE (dbl_tx os) (\<lambda>(o_rx, e) t. Q o_rx t) s = wpE (next_char os)
     (\<lambda>v. wpE (case v of (ch, e) \<Rightarrow> case ch of None \<Rightarrow> returnE (True, e) | Some c \<Rightarrow> bindE (modifyE (tx_load c)) (\<lambda>_. returnE (False, e)))
        (\<lambda>(o_rx, e) t. Q o_rx t)) s"
    by (simp only: wpE_def [of "dbl_tx os"] wpE_def [symmetric] wpE_simps(1))
  then show ?thesis using assms(2-4) by (auto elim!: wpE_mono split: option.split)
qed

definition kept_up :: "dbl_os \<Rightarrow> dbluartsim \<Rightarrow> dbluartsim \<Rightarrow> bool" where
  "kept_up os s t \<longleftrightarrow> (dbl_up os \<and> both_up s \<longrightarrow> both_up t \<and> pending_cmd t = pending_cmd s)"

lemma dbl_tx_wp:
  assumes "dbl_ok s"
  shows "wpE (dbl_tx os) (\<lambda>(o_rx, e) t. dbl_ok t \<and> (\<exists>b. tx_line b (line_of s) = (o_rx, line_of t)) \<and> kept_up os s t) s"
proof (cases "m_tx_state s = TXIDLE")
  case True
  have "wpE (next_char os) (\<lambda>(c, e) t. input_frame s t \<and> dbl_ok t \<and> kept_up os s t) s"
    by (rule wpE_mono [OF next_char_wp [OF assms, of os]])
      (auto simp: kept_up_def both_up_def dbl_up_def pending_cmd_def input_frame_fields)
  then show ?thesis
  proof (rule dbl_tx_idle [OF True])
    fix t assume "input_frame s t \<and> dbl_ok t \<and> kept_up os s t"
    then show "dbl_ok t \<and> (\<exists>b. tx_line b (line_of s) = (True, line_of t)) \<and> kept_up os s t"
      using True by (auto simp: tx_line_def input_frame_fields intro!: exI [of _ None])
  next
    fix c t assume "input_frame s t \<and> dbl_ok t \<and> kept_up os s t"
    then show "dbl_ok (tx_load c t) \<and> (\<exists>b. tx_line b (line_of s) = (False, line_of (tx_load c t))) \<and> kept_up os s (tx_load c t)"
      using True by (auto simp: tx_line_def kept_up_def line_of_ops input_frame_fields(1) simp flip: line_of_ops(2) intro!: exI [of _ "Some c"])
  qed
next
  case False
  then show ?thesis using assms by (simp add: wpE_def dbl_tx_def tx_line_def kept_up_def line_of_ops case_prod_beta prod_eq_iff)
qed

text \<open>A clock of the simulator is a clock of its line, and passes on the character received.\<close>

lemma dbl_tick_wp:
  assumes "dbl_ok s" "\<not> acc_fail os \<or> m_cmd s \<ge> 0 \<and> m_con s \<ge> 0"
  shows "wpE (dbl_tick os i) (\<lambda>(o_rx, e) t. dbl_ok t \<and>
    (\<exists>b. line_tick b i (line_of s) = ((o_rx, fst (rx_part i (line_of s))), line_of t)) \<and>
    (both_up s \<and> dbl_up os \<longrightarrow> demuxed (chars_of (fst (rx_part i (line_of s)))) s e t)) s"
proof -
  let ?ch = "fst (rx_part i (line_of s))" and ?l = "snd (rx_part i (line_of s))"
  have acc: "wpE (poll_accept os) (\<lambda>_ t. dbl_ok t \<and> line_of t = line_of s \<and> (both_up s \<longrightarrow> t = s)) s"
    by (rule wpE_mono [OF poll_accept_wp [OF assms(2)]]) (use assms(1) in \<open>auto simp: input_frame_fields both_up_def\<close>)
  have rx: "wpE (dbl_rx os i) (\<lambda>e u. dbl_ok u \<and> line_of u = ?l \<and> (both_up s \<and> dbl_up os \<longrightarrow> demuxed (chars_of ?ch) s e u)) (rx_edge i t)"
    if "dbl_ok t \<and> line_of t = line_of s \<and> (both_up s \<longrightarrow> t = s)" for t
    by (rule wpE_mono [OF dbl_rx_wp]) (use that in \<open>auto simp: rx_part_def demuxed_def simp flip: line_of_ops(1)\<close>)
  have tx: "wpE (dbl_tx os) (\<lambda>(o_rx, e2) t. dbl_ok t \<and> (\<exists>b. line_tick b i (line_of s) = ((o_rx, ?ch), line_of t)) \<and>
      (both_up s \<and> dbl_up os \<longrightarrow> demuxed (chars_of ?ch) s (e1 @ map Stdout e2) t)) u"
    if a: "dbl_ok u \<and> line_of u = ?l \<and> (both_up s \<and> dbl_up os \<longrightarrow> demuxed (chars_of ?ch) s e1 u)" for e1 u
  proof (rule wpE_mono [OF dbl_tx_wp])
    show "dbl_ok u" using a by simp
    fix v :: "bool \<times> byte list list" and t
    assume "(\<lambda>(o_rx, e) t. dbl_ok t \<and> (\<exists>b. tx_line b (line_of u) = (o_rx, line_of t)) \<and> kept_up os u t) v t"
    then obtain o_rx e2 b where v: "v = (o_rx, e2)" "dbl_ok t" "tx_line b ?l = (o_rx, line_of t)" "kept_up os u t"
      using a by (cases v) auto
    then have "line_tick b i (line_of s) = ((o_rx, ?ch), line_of t)" by (simp add: line_tick_split)
    moreover have "both_up s \<and> dbl_up os \<longrightarrow> demuxed (chars_of ?ch) s (e1 @ map Stdout e2) t"
      using a v(4) by (auto simp: demuxed_def kept_up_def)
    ultimately show "(\<lambda>(o_rx, e2) t. dbl_ok t \<and> (\<exists>b. line_tick b i (line_of s) = ((o_rx, ?ch), line_of t)) \<and>
      (both_up s \<and> dbl_up os \<longrightarrow> demuxed (chars_of ?ch) s (e1 @ map Stdout e2) t)) v t"
      using v(1,2) by auto
  qed
  show ?thesis unfolding dbl_tick_def wpE_simps
    by (rule wpE_mono [OF acc], rule wpE_mono [OF rx], assumption)
      (auto intro!: wpE_mono [OF tx])
qed

text \<open>The simulation loop.\<close>

fun dbl_run :: "(nat \<Rightarrow> dbl_os) \<Rightarrow> nat \<Rightarrow> bool list \<Rightarrow> (bool \<times> dbl_event list) list dbl_call" where
  "dbl_run os t [] = returnE []"
| "dbl_run os t (i # is) = bindE (dbl_tick (os t) i) (\<lambda>r. bindE (dbl_run os (Suc t) is) (\<lambda>rs. returnE (r # rs)))"

definition dbl_events :: "(bool \<times> dbl_event list) list \<Rightarrow> dbl_event list" where
  "dbl_events rs = concat (map snd rs)"

lemma demuxed_append: "demuxed as s e t \<Longrightarrow> demuxed bs t e' u \<Longrightarrow> demuxed (as @ bs) s (e @ e') u"
  by (auto simp: demuxed_def cmd_bytes_def con_bytes_def)

lemma demuxed_up: "demuxed bs s e t \<Longrightarrow> both_up t"
  by (simp add: demuxed_def)

lemma line_run_cong: "(\<And>k. t \<le> k \<Longrightarrow> f k = g k) \<Longrightarrow> line_run f t is s = line_run g t is s"
proof (induction "is" arbitrary: t s)
  case (Cons i "is")
  have "line_run f (Suc t) is u = line_run g (Suc t) is u" for u by (rule Cons.IH) (simp add: Cons.prems)
  then show ?case using Cons.prems by simp
qed simp

lemma line_run_Cons:
  "line_run f t (i # is) s =
     (fst (line_tick (f t) i s) # fst (line_run f (Suc t) is (snd (line_tick (f t) i s))),
      snd (line_run f (Suc t) is (snd (line_tick (f t) i s))))"
  by (simp add: Let_def case_prod_beta)

text \<open>\<open>follows\<close>: the run is one of the line, for some characters offered to it.\<close>

definition follows :: "nat \<Rightarrow> bool list \<Rightarrow> uart_line \<Rightarrow> (nat \<Rightarrow> byte option) \<Rightarrow> (bool \<times> dbl_event list) list \<Rightarrow> dbluartsim \<Rightarrow> bool" where
  "follows t is l f rs u \<longleftrightarrow> map fst rs = line_wire f t is l \<and> line_of u = snd (line_run f t is l)"

lemma follows_Cons:
  assumes "line_tick b i l = ((o_rx, ch), line_of v)" "follows (Suc t) is (line_of v) f rs u"
  shows "follows t (i # is) l (f(t := b)) ((o_rx, e) # rs) u"
    "line_chars (f(t := b)) t (i # is) l = chars_of ch @ line_chars f (Suc t) is (line_of v)"
proof -
  have "line_run (f(t := b)) (Suc t) is x = line_run f (Suc t) is x" for x by (rule line_run_cong) simp
  then show "follows t (i # is) l (f(t := b)) ((o_rx, e) # rs) u"
    "line_chars (f(t := b)) t (i # is) l = chars_of ch @ line_chars f (Suc t) is (line_of v)"
    using assms by (simp_all add: follows_def line_wire_def line_chars_def line_run_Cons del: line_run.simps)
qed

lemma dbl_run_demux:
  assumes "\<forall>t. dbl_up (os t)" "dbl_ok s" "both_up s"
  shows "wpE (dbl_run os t is) (\<lambda>rs u. dbl_ok u \<and>
    (\<exists>f. follows t is (line_of s) f rs u \<and> demuxed (line_chars f t is (line_of s)) s (dbl_events rs) u)) s"
  using assms(2,3)
proof (induction "is" arbitrary: t s)
  case Nil
  then show ?case
    by (auto simp: follows_def demuxed_def line_wire_def line_chars_def dbl_events_def cmd_bytes_def con_bytes_def)
next
  case (Cons i "is")
  have up: "m_cmd s \<ge> 0 \<and> m_con s \<ge> 0" using Cons.prems(2) by (simp add: both_up_def)
  show ?case unfolding dbl_run.simps wpE_simps
  proof (rule wpE_mono [OF dbl_tick_wp [OF Cons.prems(1)]])
    show "\<not> acc_fail (os t) \<or> m_cmd s \<ge> 0 \<and> m_con s \<ge> 0" using up by simp
    fix r v
    assume "(\<lambda>(o_rx, e) v. dbl_ok v \<and> (\<exists>b. line_tick b i (line_of s) = ((o_rx, fst (rx_part i (line_of s))), line_of v)) \<and>
      (both_up s \<and> dbl_up (os t) \<longrightarrow> demuxed (chars_of (fst (rx_part i (line_of s)))) s e v)) r v"
    then obtain o_rx e b where r: "r = (o_rx, e)" "dbl_ok v" "line_tick b i (line_of s) = ((o_rx, fst (rx_part i (line_of s))), line_of v)"
      "demuxed (chars_of (fst (rx_part i (line_of s)))) s e v"
      using Cons.prems(2) assms(1) by (cases r) auto
    show "wpE (dbl_run os (Suc t) is) (\<lambda>rs u. dbl_ok u \<and> (\<exists>f. follows t (i # is) (line_of s) f (r # rs) u \<and>
      demuxed (line_chars f t (i # is) (line_of s)) s (dbl_events (r # rs)) u)) v"
    proof (rule wpE_mono [OF Cons.IH [OF r(2) demuxed_up [OF r(4)]]])
      fix rs u
      assume "dbl_ok u \<and> (\<exists>f. follows (Suc t) is (line_of v) f rs u \<and> demuxed (line_chars f (Suc t) is (line_of v)) v (dbl_events rs) u)"
      then obtain f where f: "dbl_ok u" "follows (Suc t) is (line_of v) f rs u" "demuxed (line_chars f (Suc t) is (line_of v)) v (dbl_events rs) u"
        by blast
      note c = follows_Cons [OF r(3) f(2)]
      have "demuxed (line_chars (f(t := b)) t (i # is) (line_of s)) s (dbl_events (r # rs)) u"
        using demuxed_append [OF r(4) f(3)] by (simp only: c(2)) (simp add: dbl_events_def r(1))
      then show "dbl_ok u \<and> (\<exists>f. follows t (i # is) (line_of s) f (r # rs) u \<and>
        demuxed (line_chars f t (i # is) (line_of s)) s (dbl_events (r # rs)) u)"
        using f(1) c(1) r(1) by blast
    qed
  qed
qed

subsection \<open>Characters to send\<close>

text \<open>Where the next character comes from: the buffer, or the command socket when it is empty.\<close>

definition fed :: "dbl_os \<Rightarrow> byte list \<Rightarrow> byte option \<Rightarrow> byte list \<Rightarrow> bool" where
  "fed os q c q' \<longleftrightarrow>
     (q \<noteq> [] \<longrightarrow> c = Some (hd q) \<and> q' = tl q) \<and>
     (q = [] \<and> \<not> rd_ready os \<longrightarrow> c = None \<and> q' = []) \<and>
     (\<forall>bs. q = [] \<and> rd_ready os \<and> rd_cmd os = Some bs \<and> bs \<noteq> [] \<and> length bs \<le> 256 \<and> rd_con os = None \<longrightarrow>
        c = Some (hd bs OR 0x80) \<and> q' = map (\<lambda>b. b OR 0x80) (tl bs))"

lemma tx_queue_empty: "dbl_ok s \<Longrightarrow> tx_queue s = [] \<longleftrightarrow> m_ilen s = 0"
  by (auto simp: tx_queue_def dbl_ok_def)

lemma tx_queue_hd:
  assumes "dbl_ok s" "m_ilen s > 0"
  shows "tx_queue s = m_rxbuf s ! m_rxpos s # tx_queue (s\<lparr>m_rxpos := Suc (m_rxpos s), m_ilen := m_ilen s - 1\<rparr>)" "m_rxpos s < length (m_rxbuf s)"
proof -
  show "m_rxpos s < length (m_rxbuf s)" using assms by (simp add: dbl_ok_def)
  then show "tx_queue s = m_rxbuf s ! m_rxpos s # tx_queue (s\<lparr>m_rxpos := Suc (m_rxpos s), m_ilen := m_ilen s - 1\<rparr>)"
    using assms(2) by (cases "m_ilen s") (simp_all add: tx_queue_def flip: Cons_nth_drop_Suc)
qed

text \<open>Taking one character from a buffer that holds some.\<close>

lemma next_char_buffered:
  assumes "dbl_ok s" "m_ilen s > 0"
  shows "wpE (next_char os) (\<lambda>(c, e) t. c = Some (hd (tx_queue s)) \<and> tx_queue t = tl (tx_queue s)) s"
  unfolding next_char_def using assms tx_queue_hd [OF assms] by simp

lemma poll_read_chunk:
  assumes "dbl_ok s" "m_ilen s = 0" "m_cmd s \<ge> 0" "rd_ready os" "rd_cmd os = Some bs" "bs \<noteq> []" "length bs \<le> 256" "rd_con os = None"
  shows "wpE (poll_read os) (\<lambda>e t. dbl_ok t \<and> m_ilen t > 0 \<and> tx_queue t = map (\<lambda>b. b OR 0x80) bs) s"
proof -
  have open1: "\<not> (m_cmd s < 0 \<and> m_con s < 0 \<or> \<not> rd_ready os)" using assms by simp
  have polls: "poll_cmd os s = read_cmd bs" "poll_con os s n = returnE []" for n using assms by (simp_all add: poll_cmd_def poll_con_def)
  have "wpE (read_cmd bs) (\<lambda>e t. dbl_ok (t\<lparr>m_rxpos := 0\<rparr>) \<and> m_ilen (t\<lparr>m_rxpos := 0\<rparr>) > 0 \<and>
      tx_queue (t\<lparr>m_rxpos := 0\<rparr>) = map (\<lambda>b. b OR 0x80) bs) s"
    by (rule wpE_mono [OF read_cmd_wp [OF assms(1,2) refl]]) (use assms in \<open>auto simp: tx_queue_def\<close>)
  then show ?thesis unfolding poll_read_def wpE_simps id_apply if_not_P [OF open1] polls .
qed

lemma next_char_feeds:
  assumes "dbl_ok s" "m_cmd s \<ge> 0"
  shows "wpE (next_char os) (\<lambda>(c, e) t. fed os (tx_queue s) c (tx_queue t)) s"
proof -
  consider "m_ilen s > 0" | "m_ilen s = 0" "\<not> rd_ready os"
    | bs where "m_ilen s = 0" "rd_ready os" "rd_cmd os = Some bs" "bs \<noteq> []" "length bs \<le> 256" "rd_con os = None"
    | "m_ilen s = 0" "rd_ready os" "\<not> (\<exists>bs. rd_cmd os = Some bs \<and> bs \<noteq> [] \<and> length bs \<le> 256 \<and> rd_con os = None)" by blast
  then show ?thesis
  proof cases
    case 1
    then show ?thesis using tx_queue_empty [OF assms(1)]
      by (intro wpE_mono [OF next_char_buffered [OF assms(1)]]) (auto simp: fed_def)
  next
    case 2
    then show ?thesis using assms by (simp add: next_char_def poll_read_def fed_def tx_queue_def)
  next
    case 3
    have q: "tx_queue s = []" using 3(1) by (simp add: tx_queue_def)
    have "wpE (poll_read os) (\<lambda>e t. dbl_ok t \<and> m_ilen t > 0 \<and> tx_queue t = map (\<lambda>b. b OR 0x80) bs) s"
      by (rule poll_read_chunk) (use assms 3 in auto)
    then show ?thesis unfolding next_char_def wpE_simps if_P [OF 3(1)]
      by (rule wpE_mono) (use 3 q tx_queue_hd in \<open>fastforce simp: fed_def hd_map map_tl\<close>)
  next
    case 4
    then show ?thesis
      by (intro wpE_mono [OF next_char_wp [OF assms(1)]]) (auto simp: fed_def tx_queue_empty [OF assms(1)])
  qed
qed

text \<open>A state of the transmitting side, and what a clock does to it.\<close>

definition tx_step :: "dbl_os \<Rightarrow> bool \<Rightarrow> dbluartsim \<Rightarrow> bool \<Rightarrow> dbluartsim \<Rightarrow> bool" where
  "tx_step os i s o_rx t \<longleftrightarrow> dbl_ok t \<and> both_up t \<and>
     (\<exists>c. line_tick c i (line_of s) = ((o_rx, fst (rx_part i (line_of s))), line_of t) \<and>
       (if m_tx_state s = TXIDLE then fed os (tx_queue s) c (tx_queue t) else c = None \<and> tx_queue t = tx_queue s))"

lemma dbl_tx_feeds:
  assumes "dbl_ok s" "both_up s" "dbl_up os"
  shows "wpE (dbl_tx os) (\<lambda>(o_rx, e) t. \<exists>c. tx_line c (line_of s) = (o_rx, line_of t) \<and>
    (if m_tx_state s = TXIDLE then fed os (tx_queue s) c (tx_queue t) else c = None \<and> tx_queue t = tx_queue s)) s"
proof (cases "m_tx_state s = TXIDLE")
  case True
  have "m_cmd s \<ge> 0" using assms(2) by (simp add: both_up_def)
  from next_char_feeds [OF assms(1) this, of os] next_char_wp [OF assms(1), of os]
  have "wpE (next_char os) (\<lambda>(c, e) t. input_frame s t \<and> fed os (tx_queue s) c (tx_queue t)) s"
    by (auto simp: wpE_iff)
  then show ?thesis
  proof (rule dbl_tx_idle [OF True])
    fix t assume "input_frame s t \<and> fed os (tx_queue s) None (tx_queue t)"
    then show "\<exists>c. tx_line c (line_of s) = (True, line_of t) \<and>
      (if m_tx_state s = TXIDLE then fed os (tx_queue s) c (tx_queue t) else c = None \<and> tx_queue t = tx_queue s)"
      using True by (intro exI [of _ None]) (auto simp: tx_line_def input_frame_fields(1))
  next
    fix c t assume "input_frame s t \<and> fed os (tx_queue s) (Some c) (tx_queue t)"
    then show "\<exists>c'. tx_line c' (line_of s) = (False, line_of (tx_load c t)) \<and>
      (if m_tx_state s = TXIDLE then fed os (tx_queue s) c' (tx_queue (tx_load c t)) else c' = None \<and> tx_queue (tx_load c t) = tx_queue s)"
      using True by (intro exI [of _ "Some c"]) (auto simp: tx_line_def input_frame_fields(1) simp flip: line_of_ops(2))
  qed
next
  case False
  then show ?thesis by (simp add: wpE_def dbl_tx_def tx_line_def line_of_ops case_prod_beta prod_eq_iff)
qed

lemma dbl_tick_feeds:
  assumes "dbl_ok s" "both_up s" "dbl_up os"
  shows "wpE (dbl_tick os i) (\<lambda>(o_rx, e) t. tx_step os i s o_rx t) s"
proof -
  let ?l = "snd (rx_part i (line_of s))"
  have up: "m_cmd s \<ge> 0 \<and> m_con s \<ge> 0" using assms(2) by (simp add: both_up_def)
  have acc: "wpE (poll_accept os) (\<lambda>_ t. t = s) s"
    by (rule wpE_mono [OF poll_accept_wp]) (use up in auto)
  have rx: "wpE (dbl_rx os i) (\<lambda>e u. dbl_ok u \<and> both_up u \<and> line_of u = ?l \<and> tx_queue u = tx_queue s) (rx_edge i s)"
    by (rule wpE_mono [OF dbl_rx_wp]) (use assms in \<open>auto simp: rx_part_def demuxed_def simp flip: line_of_ops(1)\<close>)
  have tx: "wpE (dbl_tx os) (\<lambda>(o_rx, e) t. tx_step os i s o_rx t) u"
    if u: "dbl_ok u \<and> both_up u \<and> line_of u = ?l \<and> tx_queue u = tx_queue s" for u
  proof -
    have st: "m_tx_state u = m_tx_state s"
    proof -
      have "m_tx_state u = m_tx_state (line_of u)" by simp
      also have "\<dots> = m_tx_state s" using u by (simp only: rx_part_keeps line_of_select)
      finally show ?thesis .
    qed
    have "wpE (dbl_tx os) (\<lambda>(o_rx, e) t. dbl_ok t \<and> (\<exists>b. tx_line b (line_of u) = (o_rx, line_of t)) \<and> kept_up os u t) u"
      using u by (intro dbl_tx_wp) simp
    then obtain v t where v: "dbl_tx os u = (Inr v, t)" "dbl_ok t" "kept_up os u t" by (auto simp: wpE_iff)
    have "(\<lambda>(o_rx, e) t. \<exists>c. tx_line c (line_of u) = (o_rx, line_of t) \<and>
         (if m_tx_state u = TXIDLE then fed os (tx_queue u) c (tx_queue t) else c = None \<and> tx_queue t = tx_queue u)) v t"
      using dbl_tx_feeds [of u os] u assms(3) v(1) by (simp add: wpE_def)
    then obtain o_rx e c where c: "v = (o_rx, e)" "tx_line c ?l = (o_rx, line_of t)" "dbl_ok t" "both_up t"
      "if m_tx_state s = TXIDLE then fed os (tx_queue s) c (tx_queue t) else c = None \<and> tx_queue t = tx_queue s"
      using u assms(3) st v(2,3) by (cases v) (auto simp: kept_up_def cong: if_cong)
    have "line_tick c i (line_of s) = ((o_rx, fst (rx_part i (line_of s))), line_of t)" using c(2) by (simp add: line_tick_split)
    then have "tx_step os i s o_rx t" using c(3,4,5) unfolding tx_step_def by blast
    then show ?thesis by (simp add: wpE_def v(1) c(1))
  qed
  show ?thesis unfolding dbl_tick_def wpE_simps
    by (rule wpE_mono [OF acc], simp, rule wpE_mono [OF rx]) (auto intro!: wpE_mono [OF tx])
qed

text \<open>The clocks until a frame is over.\<close>

definition tx_left :: "uart_line \<Rightarrow> nat \<Rightarrow> uart_line \<Rightarrow> bool" where
  "tx_left u r l \<longleftrightarrow> tx_cfg u l \<and>
     (\<exists>k c d. tx_sends (Suc k) (int c) d l \<and> int c < m_baud_counts u \<and> r = c + k * nat (m_baud_counts u))"

lemma tx_left_step:
  assumes "tx_left u (Suc r) l"
  shows "tx_left u r (snd (line_tick b i l))"
proof -
  let ?l = "snd (rx_part i l)" let ?B = "nat (m_baud_counts u)"
  obtain k c d where l: "tx_cfg u ?l" "tx_sends (Suc k) (int c) d ?l" "int c < m_baud_counts u" "Suc r = c + k * ?B"
    using assms by (auto simp: tx_left_def)
  show ?thesis
  proof (cases c)
    case (Suc c')
    from tx_hold_tick [OF l(1,2), of b] Suc have "tx_cfg u (snd (tx_line b ?l))" "tx_sends (Suc k) (int c') d (snd (tx_line b ?l))" by simp_all
    then show ?thesis using l(3,4) Suc unfolding tx_left_def line_tick_split
      by (intro conjI exI [of _ k] exI [of _ c'] exI) auto
  next
    case 0
    then obtain k' where k: "k = Suc k'" using l(4) by (cases k) auto
    have B: "int (?B - 1) = m_baud_counts u - 1" "r = (?B - 1) + k' * ?B" using l(3,4) 0 k by auto
    have "tx_sends (Suc (Suc k')) 0 d ?l" using l(2) 0 k by simp
    from tx_shift_tick [OF l(1) this, of b] B
    have "tx_cfg u (snd (tx_line b ?l))" "tx_sends (Suc k') (int (?B - 1)) (drop_bit 1 d) (snd (tx_line b ?l))" by simp_all
    then show ?thesis using l(3) B unfolding tx_left_def line_tick_split by (intro conjI exI [of _ k'] exI [of _ "?B - 1"] exI) auto
  qed
qed

lemma tx_left_busy: "tx_left u r l \<Longrightarrow> m_tx_state l = TXDATA"
  by (auto simp: tx_left_def tx_sends_def)

lemma tx_left_load:
  assumes "tx_cfg u l" "m_tx_state l = TXIDLE" "m_baud_counts u > 0"
  shows "tx_left u (frame_clocks u - 2) (snd (line_tick (Some b) i l))"
proof -
  let ?l = "snd (rx_part i l)" let ?B = "nat (m_baud_counts u)"
  have "tx_cfg u ?l" "m_tx_state ?l = TXIDLE" using assms by simp_all
  from tx_load_tick [OF this refl] have "tx_cfg u (snd (tx_line (Some b) ?l))"
    "tx_sends (Suc (frame_length u)) (int (?B - 1)) (m_tx_data (tx_load b u)) (snd (tx_line (Some b) ?l))"
    using assms(3) by (simp_all add: of_nat_diff)
  moreover have "frame_clocks u - 2 = (?B - 1) + frame_length u * ?B" using assms(3) by (simp add: frame_clocks_def)
  ultimately show ?thesis using assms(3) unfolding tx_left_def line_tick_split
    by (intro conjI exI [of _ "frame_length u"] exI [of _ "?B - 1"] exI) auto
qed

text \<open>While a frame is sent, the buffer waits.\<close>

definition dbl_good :: "dbluartsim \<Rightarrow> bool" where
  "dbl_good s \<longleftrightarrow> dbl_ok s \<and> both_up s"

lemma dbl_busy_run:
  assumes "\<forall>t. dbl_up (os t)" "dbl_good s" "tx_left u r (line_of s)" "length is = Suc r"
  shows "wpE (dbl_run os t is) (\<lambda>rs v. dbl_good v \<and> tx_queue v = tx_queue s \<and> follows t is (line_of s) (\<lambda>_. None) rs v) s"
  using assms(2-4)
proof (induction r arbitrary: s t "is")
  case 0
  then obtain i where i: "is = [i]" by (cases "is") auto
  have "m_tx_state s = TXDATA" using tx_left_busy [OF 0(2)] by simp
  moreover have "wpE (dbl_tick (os t) i) (\<lambda>(o_rx, e) v. tx_step (os t) i s o_rx v) s"
    using 0 assms(1) by (intro dbl_tick_feeds) (auto simp: dbl_good_def)
  ultimately show ?case unfolding i dbl_run.simps wpE_simps
    by (elim wpE_mono) (auto simp: tx_step_def dbl_good_def follows_def line_wire_def)
next
  case (Suc r)
  then obtain i is' where i: "is = i # is'" "length is' = Suc r" by (cases "is") auto
  have busy: "m_tx_state s = TXDATA" using tx_left_busy [OF Suc.prems(2)] by simp
  have tick: "wpE (dbl_tick (os t) i) (\<lambda>(o_rx, e) v. tx_step (os t) i s o_rx v) s"
    using Suc.prems assms(1) by (intro dbl_tick_feeds) (auto simp: dbl_good_def)
  show ?case unfolding i dbl_run.simps wpE_simps
  proof (rule wpE_mono [OF tick])
    fix x :: "bool \<times> dbl_event list" and v assume "(\<lambda>(o_rx, e) v. tx_step (os t) i s o_rx v) x v"
    then obtain o_rx e where x: "x = (o_rx, e)" "dbl_good v" "tx_queue v = tx_queue s"
      "line_tick None i (line_of s) = ((o_rx, fst (rx_part i (line_of s))), line_of v)"
      using busy by (cases x) (auto simp: tx_step_def dbl_good_def)
    have "tx_left u r (line_of v)" using tx_left_step [OF Suc.prems(2), of None i] x(4) by simp
    from Suc.IH [OF x(2) this i(2), of "Suc t"]
    show "wpE (dbl_run os (Suc t) is') (\<lambda>rs w. dbl_good w \<and> tx_queue w = tx_queue s \<and> follows t (i # is') (line_of s) (\<lambda>_. None) (x # rs) w) v"
    proof (rule wpE_mono)
      fix rs w assume "dbl_good w \<and> tx_queue w = tx_queue v \<and> follows (Suc t) is' (line_of v) (\<lambda>_. None) rs w"
      then show "dbl_good w \<and> tx_queue w = tx_queue s \<and> follows t (i # is') (line_of s) (\<lambda>_. None) (x # rs) w"
        using follows_Cons(1) [OF x(4), of t is' "\<lambda>_. None" rs w e] x(1,3) by (simp add: fun_upd_idem)
    qed
  qed
qed

text \<open>A frame of the next character; an idle transmitter with the buffer \<open>q\<close>.\<close>

definition dbl_idle :: "uart_line \<Rightarrow> byte list \<Rightarrow> dbluartsim \<Rightarrow> bool" where
  "dbl_idle u q s \<longleftrightarrow> dbl_good s \<and> tx_cfg u (line_of s) \<and> m_tx_state s = TXIDLE \<and> tx_queue s = q"

definition line_8 :: "nat \<Rightarrow> uart_line \<Rightarrow> bool" where
  "line_8 B u \<longleftrightarrow> uart_wf u \<and> m_nbits u = 8 \<and> m_baud_counts u = int B \<and> B > 0"

lemma dbl_frame:
  assumes "\<forall>t. dbl_up (os t)" "line_8 B u" "dbl_idle u q s" "length is = frame_clocks u"
    and "\<And>c q'. fed (os t) q c q' \<Longrightarrow> c = Some b \<and> q' = p"
  shows "wpE (dbl_run os t is) (\<lambda>rs v. dbl_idle u p v \<and> map fst rs = uart_frame B (frame_bits u b) @ [True]) s"
proof -
  let ?f = "(\<lambda>_. None)(t := Some b)"
  have B: "m_baud_counts u > 0" "uart_wf u" "m_nbits u = 8" "m_baud_counts u = int B" "B > 0" using assms(2) by (auto simp: line_8_def)
  then have "frame_clocks u = Suc (Suc (frame_clocks u - 2))" by (simp add: frame_clocks_def)
  then obtain i is' where i: "is = i # is'" "length is' = Suc (frame_clocks u - 2)" using assms(4) by (cases "is") auto
  have s: "dbl_good s" "tx_cfg u (line_of s)" "m_tx_state s = TXIDLE" "tx_queue s = q" using assms(3) by (auto simp: dbl_idle_def)
  have tick: "wpE (dbl_tick (os t) i) (\<lambda>(o_rx, e) v. tx_step (os t) i s o_rx v) s"
    using s assms(1) by (intro dbl_tick_feeds) (auto simp: dbl_good_def)
  have "wpE (dbl_run os t is) (\<lambda>rs v. dbl_good v \<and> tx_queue v = p \<and> follows t is (line_of s) ?f rs v) s"
    unfolding i dbl_run.simps wpE_simps
  proof (rule wpE_mono [OF tick])
    fix x :: "bool \<times> dbl_event list" and v assume "(\<lambda>(o_rx, e) v. tx_step (os t) i s o_rx v) x v"
    then obtain o_rx e where x: "x = (o_rx, e)" "dbl_good v" "tx_queue v = p"
      "line_tick (Some b) i (line_of s) = ((o_rx, fst (rx_part i (line_of s))), line_of v)"
      using s(3,4) assms(5) by (cases x) (fastforce simp: tx_step_def dbl_good_def)
    have "tx_left u (frame_clocks u - 2) (line_of v)"
      using tx_left_load [OF s(2) _ B(1), of b i] s(3) x(4) by simp
    from dbl_busy_run [OF assms(1) x(2) this i(2), of "Suc t"]
    show "wpE (dbl_run os (Suc t) is') (\<lambda>rs w. dbl_good w \<and> tx_queue w = p \<and> follows t (i # is') (line_of s) ?f (x # rs) w) v"
      by (rule wpE_mono) (use x follows_Cons(1) [OF x(4)] in auto)
  qed
  moreover have "tx_drives ?f t u (\<lambda>s. m_tx_state s = TXIDLE) (uart_frame B (frame_bits u b) @ [True]) (\<lambda>s. m_tx_state s = TXIDLE)"
    by (rule tx_frame) (use B in auto)
  moreover have "length is = length (uart_frame B (frame_bits u b) @ [True])"
    using assms(4) B by (simp add: frame_clocks_def frame_bits_def)
  ultimately show ?thesis
    using s(2,3) by (elim wpE_mono) (simp add: follows_def dbl_idle_def tx_drives_def, metis line_of_select(14))
qed

lemma dbl_run_append:
  "wpE (dbl_run os t (xs @ ys)) Q = wpE (dbl_run os t xs) (\<lambda>rs. wpE (dbl_run os (t + length xs) ys) (\<lambda>rs'. Q (rs @ rs')))"
  by (induction xs arbitrary: t Q) simp_all

text \<open>Hoare triples for the transmitting side: \<open>n\<close> clocks, whatever the design sends, give the levels \<open>ws\<close>.\<close>

definition dbl_sends :: "(nat \<Rightarrow> dbl_os) \<Rightarrow> nat \<Rightarrow> (dbluartsim \<Rightarrow> bool) \<Rightarrow> bool list \<Rightarrow> (dbluartsim \<Rightarrow> bool) \<Rightarrow> bool" where
  "dbl_sends os t P ws Q \<longleftrightarrow> (\<forall>is s. length is = length ws \<longrightarrow> P s \<longrightarrow> wpE (dbl_run os t is) (\<lambda>rs v. map fst rs = ws \<and> Q v) s)"

lemma dbl_sends_append:
  assumes "dbl_sends os t P xs Q" "dbl_sends os (t + length xs) Q ys R"
  shows "dbl_sends os t P (xs @ ys) R"
  unfolding dbl_sends_def
proof (intro allI impI)
  fix "is" :: "bool list" and s assume "length is = length (xs @ ys)" and s: "P s"
  then obtain is1 is2 where i: "is = is1 @ is2" "length is1 = length xs" "length is2 = length ys"
    using that [of "take (length xs) is" "drop (length xs) is"] by simp
  have "wpE (dbl_run os t is1) (\<lambda>rs v. map fst rs = xs \<and> Q v) s" using assms(1) i(2) s by (simp add: dbl_sends_def)
  moreover have "wpE (dbl_run os (t + length is1) is2) (\<lambda>rs w. map fst rs = ys \<and> R w) v" if "Q v" for v
    using assms(2) i(2,3) that by (simp add: dbl_sends_def)
  ultimately show "wpE (dbl_run os t is) (\<lambda>rs v. map fst rs = xs @ ys \<and> R v) s"
    unfolding i(1) dbl_run_append by (elim wpE_mono) (fastforce elim!: wpE_mono)
qed

lemma dbl_sends_Nil: "dbl_sends os t P [] P"
  by (simp add: dbl_sends_def)

lemma dbl_sends_frame:
  assumes "\<forall>t. dbl_up (os t)" "line_8 B u" "\<And>c q'. fed (os t) q c q' \<Longrightarrow> c = Some b \<and> q' = p"
  shows "dbl_sends os t (dbl_idle u q) (uart_frame B (frame_bits u b) @ [True]) (dbl_idle u p)"
proof -
  have "length (uart_frame B (frame_bits u b) @ [True]) = frame_clocks u"
    using assms(2) by (simp add: frame_clocks_def frame_bits_def line_8_def)
  then show ?thesis unfolding dbl_sends_def
    using wpE_mono [OF dbl_frame [OF assms(1,2) _ _ assms(3)]] by auto
qed

lemma uart_stream_Cons: "uart_stream B (sent_frames u (b # bs)) = (uart_frame B (frame_bits u b) @ [True]) @ uart_stream B (sent_frames u bs)"
  by (simp add: uart_stream_def sent_frames_def)

lemma dbl_sends_queue:
  assumes "\<forall>t. dbl_up (os t)" "line_8 B u"
  shows "dbl_sends os t (dbl_idle u q) (uart_stream B (sent_frames u q)) (dbl_idle u [])"
proof (induction q arbitrary: t)
  case Nil
  then show ?case by (simp add: uart_stream_def sent_frames_def dbl_sends_Nil)
next
  case (Cons b q)
  have "dbl_sends os t (dbl_idle u (b # q)) (uart_frame B (frame_bits u b) @ [True]) (dbl_idle u q)"
    by (rule dbl_sends_frame [OF assms]) (simp add: fed_def)
  from dbl_sends_append [OF this Cons.IH] show ?case by (simp only: uart_stream_Cons)
qed

lemma dbl_sends_chunk:
  assumes "\<forall>t. dbl_up (os t)" "line_8 B u"
    and "rd_ready (os t)" "rd_cmd (os t) = Some bs" "bs \<noteq> []" "length bs \<le> 256" "rd_con (os t) = None"
  shows "dbl_sends os t (dbl_idle u []) (uart_stream B (sent_frames u (map (\<lambda>b. b OR 0x80) bs))) (dbl_idle u [])"
proof -
  obtain b q where b: "bs = b # q" using assms(5) by (cases bs) auto
  have "dbl_sends os t (dbl_idle u []) (uart_frame B (frame_bits u (b OR 0x80)) @ [True]) (dbl_idle u (map (\<lambda>b. b OR 0x80) q))"
    by (rule dbl_sends_frame [OF assms(1,2)]) (use assms(3-7) b in \<open>simp add: fed_def\<close>)
  from dbl_sends_append [OF this dbl_sends_queue [OF assms(1,2)]] show ?thesis
    by (simp only: b list.map uart_stream_Cons)
qed

text \<open>The chunks that arrive on the command socket, each read when the one before has been sent.\<close>

fun dbl_feeds :: "(nat \<Rightarrow> dbl_os) \<Rightarrow> nat \<Rightarrow> nat \<Rightarrow> byte list list \<Rightarrow> bool" where
  "dbl_feeds os P t [] \<longleftrightarrow> (\<forall>t' \<ge> t. \<not> rd_ready (os t'))"
| "dbl_feeds os P t (bs # cs) \<longleftrightarrow> rd_ready (os t) \<and> rd_cmd (os t) = Some bs \<and> bs \<noteq> [] \<and> length bs \<le> 256 \<and> rd_con (os t) = None \<and>
     dbl_feeds os P (t + P * length bs) cs"

lemma dbl_sends_idle:
  assumes "\<forall>t. dbl_up (os t)" "\<forall>t' \<ge> t. \<not> rd_ready (os t')"
  shows "dbl_sends os t (dbl_idle u []) (replicate g True) (dbl_idle u [])"
  using assms(2)
proof (induction g arbitrary: t)
  case 0
  then show ?case by (simp add: dbl_sends_Nil)
next
  case (Suc g)
  have "wpE (dbl_tick (os t) i) (\<lambda>r v. fst r \<and> dbl_idle u [] v) s" if "dbl_idle u [] s" for i s
  proof -
    have "wpE (dbl_tick (os t) i) (\<lambda>(o_rx, e) v. tx_step (os t) i s o_rx v) s"
      using that assms(1) by (intro dbl_tick_feeds) (auto simp: dbl_good_def dbl_idle_def)
    moreover have "\<not> rd_ready (os t)" using Suc.prems by simp
    moreover have "tx_cfg u (snd (rx_part i (line_of s)))" "m_tx_state (snd (rx_part i (line_of s))) = TXIDLE"
      using that by (simp_all add: dbl_idle_def)
    note idle = tx_idle_tick [OF this refl]
    have "fst (line_tick None i (line_of s)) = (True, fst (rx_part i (line_of s)))"
      "tx_cfg u (snd (line_tick None i (line_of s)))" "m_tx_state (snd (line_tick None i (line_of s))) = TXIDLE"
      using idle by (simp_all add: line_tick_split)
    ultimately show ?thesis using that
      by (elim wpE_mono) (auto simp: tx_step_def dbl_idle_def dbl_good_def fed_def)
  qed
  then have "dbl_sends os t (dbl_idle u []) [True] (dbl_idle u [])"
    by (auto simp: dbl_sends_def length_Suc_conv case_prod_beta)
  from dbl_sends_append [OF this Suc.IH] show ?case using Suc.prems by simp
qed

lemma dbl_sends_chunks:
  assumes "\<forall>t. dbl_up (os t)" "line_8 B u"
  shows "dbl_feeds os (frame_clocks u) t cs \<Longrightarrow>
    dbl_sends os t (dbl_idle u []) (uart_stream B (sent_frames u (map (\<lambda>b. b OR 0x80) (concat cs))) @ replicate g True) (dbl_idle u [])"
proof (induction cs arbitrary: t)
  case Nil
  then show ?case using dbl_sends_idle [OF assms(1), of t u g] by (simp add: uart_stream_def sent_frames_def)
next
  case (Cons bs cs)
  have "length (uart_stream B (sent_frames u (map (\<lambda>b. b OR 0x80) bs))) = frame_clocks u * length bs"
    using assms(2) by (subst length_sent_frames) (simp_all add: line_8_def)
  then show ?case
    using dbl_sends_append [OF dbl_sends_chunk [OF assms, of t bs] Cons.IH] Cons.prems
    by (simp add: uart_stream_def sent_frames_def)
qed

subsection \<open>Properties\<close>

text \<open>The buffers stay inside their arrays over every run: the positions are invariants of a clock.\<close>

lemma dbl_tick_ok: "dbl_ok s \<Longrightarrow> dbl_ok (snd (dbl_tick os i s)) \<and> fst (dbl_tick os i s) \<noteq> Inl OutOfBounds"
proof (cases "\<not> acc_fail os \<or> m_cmd s \<ge> 0 \<and> m_con s \<ge> 0")
  case True
  assume "dbl_ok s"
  from dbl_tick_wp [OF this True, of i] show ?thesis by (auto simp: wpE_iff)
next
  case False
  assume "dbl_ok s"
  then show ?thesis using False by (auto simp: dbl_tick_def bindE_def poll_accept_def)
qed

definition dbl_zero :: dbluartsim where
  "dbl_zero = \<lparr>m_setup = 0, m_nparity = 0, m_fixdp = False, m_evenp = 0,
     m_nbits = 0, m_nstop = 0, m_baud_counts = 0, m_rx_baudcounter = 0, m_rx_state = RXIDLE, m_rx_busy = 0,
     m_rx_changectr = 0, m_last_tx = True, m_tx_baudcounter = 0, m_tx_state = TXIDLE, m_tx_busy = 0,
     m_rx_data = 0, m_tx_data = 0, m_skt = 0, m_console = 0, m_cmd = 0, m_con = 0,
     m_conbuf = replicate 256 0, m_cmdbuf = replicate 256 0, m_rxbuf = replicate 256 0, m_cmdline = replicate 256 0,
     m_ilen = 0, m_rxpos = 0, m_cmdpos = 0, m_conpos = 0, m_cllen = 0, m_started_flag = False, m_copy = False\<rparr>"

lemma DBLUARTSIM_ok:
  "length (m_conbuf junk) = 256 \<Longrightarrow> length (m_cmdbuf junk) = 256 \<Longrightarrow> length (m_rxbuf junk) = 256 \<Longrightarrow> length (m_cmdline junk) = 256 \<Longrightarrow>
   dbl_ok (DBLUARTSIM copy skt console junk)"
  by (simp add: dbl_ok_def DBLUARTSIM_def uart_setup_def Let_def)

interpretation dbl: clocked "\<lambda>(os, i) s. snd (dbl_tick os i s)" dbl_ok "DBLUARTSIM True 3 4 dbl_zero"
  by unfold_locales (simp add: DBLUARTSIM_ok dbl_zero_def, auto simp: dbl_tick_ok)

text \<open>An object with both connections, set to three clocks a bit and no parity.\<close>

definition dbl_example :: dbluartsim where
  "dbl_example = uart_setup 3 (DBLUARTSIM True 3 4 dbl_zero)\<lparr>m_cmd := 5, m_con := 6\<rparr>"

definition dbl_os_example :: "byte list \<Rightarrow> nat \<Rightarrow> dbl_os" where
  "dbl_os_example bs t = \<lparr>acc_fail = False, acc_cmd = None, acc_con = None, rd_ready = (t = 0 \<and> bs \<noteq> []),
     rd_cmd = (if bs = [] then None else Some bs), rd_con = None, cmd_send = int, con_send = 1\<rparr>"

lemma dbl_example_simps [simp]:
  "dbl_ok dbl_example" "both_up dbl_example" "m_cmdpos dbl_example = 0" "uart_wf dbl_example" "m_nbits dbl_example = 8"
  "m_baud_counts dbl_example = 3" "m_rx_state dbl_example = RXIDLE" "m_tx_state dbl_example = TXIDLE" "m_last_tx dbl_example = True"
  "frame_length dbl_example = 9" "m_ilen dbl_example = 0"
  by (simp_all add: dbl_example_def dbl_zero_def DBLUARTSIM_def uart_setup_def frame_length_def uart_wf_def both_up_def
      pending_cmd_def dbl_ok_def Let_def)

lemma dbl_os_example_up [simp]: "dbl_up (dbl_os_example bs t)"
  by (simp add: dbl_os_example_def dbl_up_def)

text \<open>C9: the shared serial port never writes or reads outside its four buffers. From its construction on, whatever the
  operating system answers and whatever the design sends, after any number of clocks a further clock does not end in an
  access out of range.\<close>

theorem dbl_never_overruns:
  assumes "length (m_conbuf junk) = 256" "length (m_cmdbuf junk) = 256" "length (m_rxbuf junk) = 256" "length (m_cmdline junk) = 256"
  shows "fst (dbl_tick os i (fold (\<lambda>(os, i) s. snd (dbl_tick os i s)) xs (DBLUARTSIM copy skt console junk))) \<noteq> Inl OutOfBounds"
  using dbl_tick_ok [OF dbl.inv_run_from [OF DBLUARTSIM_ok [OF assms], of xs]] by blast

theorem dbl_never_overruns_witness:
  "fst (dbl_tick (dbl_os_example [] 1) False (fold (\<lambda>(os, i) s. snd (dbl_tick os i s))
     [(dbl_os_example [0x41] 0, True), (dbl_os_example [] 1, False)] (DBLUARTSIM True 3 4 dbl_zero))) \<noteq> Inl OutOfBounds"
  by (rule dbl_never_overruns) (simp_all add: dbl_zero_def)

text \<open>C10: what the design sends is taken apart by its top bit. Fed any sequence of frames of the configured length, back to back
  or not, at three clocks a bit or more, with both connections open and taking what is sent to them, the simulator sends to the
  console socket exactly the characters whose top bit is clear and to the command socket exactly those whose
  top bit is set, without that bit and in order, up to the last line that is not yet complete, which is still in its buffer.\<close>

theorem dbl_demultiplexes:
  assumes "\<forall>t. dbl_up (os t)" "dbl_ok s" "both_up s" "m_cmdpos s = 0"
    and "uart_wf s" "m_baud_counts s = int B" "B \<ge> 3" "m_rx_state s = RXIDLE" "m_last_tx s"
    and "\<forall>(fs, g) \<in> set xs. frame_ok (frame_length s) fs" "g > B div 2"
  shows "\<exists>rs u. dbl_run os t (uart_stream B xs @ replicate g True) s = (Inr rs, u) \<and>
    con_out (dbl_events rs) = con_bytes (map (frame_byte \<circ> fst) xs) \<and>
    cmd_out (dbl_events rs) @ pending_cmd u = cmd_bytes (map (frame_byte \<circ> fst) xs) \<and> 10 \<notin> set (pending_cmd u)"
proof -
  let ?is = "uart_stream B xs @ replicate g True"
  have n: "0 < frame_length s" "frame_length s \<le> 32" using assms(5) by (auto simp: uart_wf_def frame_length_def)
  have "rx_ready (int B) (frame_length s) None (line_of s)"
    using assms(6,8,9) by (simp add: rx_ready_def uart_cfg_def low_for_def)
  then have chars: "line_chars f t ?is (line_of s) = map (frame_byte \<circ> fst) xs" for f
    using rx_stream_out [OF assms(7) n assms(10,11)] by (simp add: rx_drives_def)
  have "pending_cmd s = []" using assms(4) by (simp add: pending_cmd_def)
  then show ?thesis
    using dbl_run_demux [OF assms(1-3), of t ?is] unfolding chars
    by (auto simp: wpE_iff demuxed_def both_up_def)
qed

theorem dbl_demultiplexes_witness:
  "\<exists>rs u. dbl_run (dbl_os_example []) 0
      (uart_stream 3 [(map (bit (0xd2 :: byte)) [0..<8] @ [True], 0), (map (bit (0x41 :: byte)) [0..<8] @ [True], 2), (map (bit (0x8a :: byte)) [0..<8] @ [True], 0)]
        @ replicate 2 True) dbl_example = (Inr rs, u) \<and>
    con_out (dbl_events rs) = [0x41] \<and> cmd_out (dbl_events rs) @ pending_cmd u = [0x52, 10]"
proof -
  let ?b = "\<lambda>b :: byte. map (bit b) [0..<8] @ [True]"
  let ?xs = "[(?b 0xd2, 0), (?b 0x41, 2), (?b 0x8a, 0)] :: (bool list \<times> nat) list"
  have fb: "frame_byte (?b b) = b" for b
    by (auto simp: frame_byte_def bit_horner_sum_bit_word_iff intro!: bit_word_eqI)
  have "map (frame_byte \<circ> fst) ?xs = [0xd2, 0x41, 0x8a]" by (simp only: list.map comp_apply fst_conv fb)
  moreover have "con_bytes [0xd2, 0x41, 0x8a] = [0x41]" "cmd_bytes [0xd2, 0x41, 0x8a] = [0x52, 10]" by code_simp+
  ultimately have "con_bytes (map (frame_byte \<circ> fst) ?xs) = [0x41]" "cmd_bytes (map (frame_byte \<circ> fst) ?xs) = [0x52, 10]"
    by (simp_all only:)
  moreover have "\<forall>(fs, g) \<in> set ?xs. frame_ok (frame_length dbl_example) fs" by (simp add: frame_ok_def)
  then have "\<exists>rs u. dbl_run (dbl_os_example []) 0 (uart_stream 3 ?xs @ replicate 2 True) dbl_example = (Inr rs, u) \<and>
    con_out (dbl_events rs) = con_bytes (map (frame_byte \<circ> fst) ?xs) \<and>
    cmd_out (dbl_events rs) @ pending_cmd u = cmd_bytes (map (frame_byte \<circ> fst) ?xs) \<and> 10 \<notin> set (pending_cmd u)"
    by (intro dbl_demultiplexes) simp_all
  ultimately show ?thesis by (simp only:) blast
qed

text \<open>C11: what the command socket receives goes to the design with the top bit set. With eight data bits, an idle transmitter and an
  empty buffer, the chunks that arrive on the command socket, each of at most 256 bytes and read
  when the one before has been sent, appear on the design's receive wire as one frame per byte, in order and one clock apart, each byte
  with its top bit set, and then the wire stays high. What the design sends meanwhile does not matter.\<close>

theorem dbl_multiplexes:
  assumes "\<forall>t. dbl_up (os t)" "dbl_ok s" "both_up s" "m_ilen s = 0" "m_tx_state s = TXIDLE"
    and "uart_wf s" "m_nbits s = 8" "m_baud_counts s = int B" "B > 0"
    and "dbl_feeds os (frame_clocks s) t cs" "length is = frame_clocks s * length (concat cs) + g"
  shows "\<exists>rs u. dbl_run os t is s = (Inr rs, u) \<and>
    map fst rs = uart_stream B (sent_frames s (map (\<lambda>b. b OR 0x80) (concat cs))) @ replicate g True"
proof -
  let ?u = "line_of s"
  have "line_8 B ?u" using assms(6-9) by (simp add: line_8_def)
  moreover have "dbl_idle ?u [] s"
    using assms(2-5) by (simp add: dbl_idle_def dbl_good_def tx_cfg_def tx_queue_def)
  ultimately have "wpE (dbl_run os t is) (\<lambda>rs v. map fst rs =
      uart_stream B (sent_frames s (map (\<lambda>b. b OR 0x80) (concat cs))) @ replicate g True \<and> dbl_idle ?u [] v) s"
    using dbl_sends_chunks [OF assms(1), of B ?u t cs g] assms(8,10,11) by (simp add: dbl_sends_def length_sent_frames)
  then show ?thesis by (auto simp: wpE_iff)
qed

theorem dbl_multiplexes_witness:
  "\<exists>rs u. dbl_run (dbl_os_example [0x41, 0x0a]) 0 (replicate 72 False) dbl_example = (Inr rs, u) \<and>
     map fst rs = uart_stream 3 (sent_frames dbl_example [0xc1, 0x8a]) @ replicate 10 True"
proof -
  have "dbl_feeds (dbl_os_example [0x41, 0x0a]) (frame_clocks dbl_example) 0 [[0x41, 0x0a]]"
    by (simp add: dbl_os_example_def frame_clocks_def)
  then show ?thesis
    using dbl_multiplexes [of "dbl_os_example [0x41, 0x0a]" dbl_example 3 0 "[[0x41, 0x0a]]" "replicate 72 False" 10]
    by (auto simp: frame_clocks_def)
qed

end
