(* ===== verification/NetUart.thy ===== *)
theory NetUart
  imports Prelude
begin

text \<open>
  The bridge between the board's serial port and the network (\<open>src/sw/host/netuart.cpp\<close>). One serial
  line is shared by two sockets: characters of the command socket go out with their top bit set, those
  of the console socket as they are; what comes in is taken apart by the top bit. Both
  directions are echoed, a line at a time, to the standard output.

  Opening and configuring the terminal and the listening sockets is left out: the descriptor of the terminal
  is an argument. What \<open>poll\<close>, \<open>read\<close> and \<open>accept\<close> give in one round of the main loop is the argument
  \<open>nu_poll\<close>, one round per element of the list of a run. What the calls of \<open>write\<close> return is a list of answers
  in the state, used up in order; when it is empty the call never returns. What is
  written is collected in the state, and so is what is printed.
\<close>

subsection \<open>Definitions\<close>

record linbufs =
  m_iline :: "byte list"
  m_oline :: "byte list"
  m_buf :: "byte list"
  m_ilen :: nat
  m_olen :: nat
  m_fd :: int
  m_connected :: bool

datatype wans = Wrote nat | Again | WFail

record netuart =
  lbcmd :: linbufs
  lbcon :: linbufs
  answers :: "wans list"
  outs :: "(int \<times> byte list) list"
  printed :: "byte list list"

type_synonym 'a nu_call = "(netuart, 'a) call"

text \<open>The constructor, with the arrays before construction.\<close>

definition LINBUFS :: "byte list \<times> byte list \<times> byte list \<Rightarrow> linbufs" where
  "LINBUFS junk = \<lparr>m_iline = fst junk, m_oline = fst (snd junk), m_buf = snd (snd junk), m_ilen = 0, m_olen = 0,
     m_fd = -1, m_connected = False\<rparr>"

definition lb_close :: "linbufs \<Rightarrow> linbufs" where
  "lb_close lb =
     (if \<not> m_connected lb then lb\<lparr>m_fd := -1\<rparr>
      else if m_fd lb < 0 then lb\<lparr>m_connected := False\<rparr>
      else lb\<lparr>m_fd := -1, m_connected := False\<rparr>)"

text \<open>\<open>read\<close>: at most as many bytes as the call asks for are stored from the start of the buffer, and one stored
  behind its end is the error \<open>OutOfBounds\<close>; \<open>None\<close> is an error of the system call.\<close>

definition lb_read :: "byte list option \<Rightarrow> linbufs \<Rightarrow> exn + int \<times> linbufs" where
  "lb_read r lb =
     (case r of None \<Rightarrow> Inr (-1, lb)
      | Some bs \<Rightarrow> let d = take 256 bs in
          bindS (store_at 0 d (m_buf lb)) (\<lambda>buf. Inr (int (length d), lb\<lparr>m_buf := buf\<rparr>)))"

text \<open>The loops over the first \<open>ln\<close> characters of \<open>m_buf\<close> read them one by one.\<close>

definition lb_chars :: "nat \<Rightarrow> linbufs \<Rightarrow> exn + byte list" where
  "lb_chars ln lb = (if ln \<le> length (m_buf lb) then Inr (take ln (m_buf lb)) else Inl OutOfBounds)"

definition lb_accept :: "int \<Rightarrow> linbufs \<Rightarrow> exn + linbufs" where
  "lb_accept fd lb = (if fd < 0 then Inl (ExitWith 1) else Inr (lb\<lparr>m_fd := fd, m_connected := True\<rparr>))"

text \<open>The loop of \<open>write\<close> over the bytes not yet written: the outcome, the bytes written and the answers left.\<close>

fun write_loop :: "byte list \<Rightarrow> wans list \<Rightarrow> (exn + unit) \<times> byte list \<times> wans list" where
  "write_loop bs [] = (Inl Hang, [], [])"
| "write_loop bs (WFail # as) = (Inl (ExitWith 1), [], as)"
| "write_loop bs (Again # as) = (if bs = [] then (Inr (), [], as) else write_loop bs as)"
| "write_loop bs (Wrote n # as) =
     (let k = min n (length bs) in
      if k = 0 then (Inl (ExitWith 0), [], as)
      else if k < length bs then (case write_loop (drop k bs) as of (r, out, as') \<Rightarrow> (r, take k bs @ out, as'))
      else (Inr (), bs, as))"

text \<open>\<open>write\<close>, with the buffer it leaves and the number of bytes written.\<close>

definition lb_write :: "int \<Rightarrow> nat \<Rightarrow> byte \<Rightarrow> linbufs \<Rightarrow> (nat \<times> linbufs) nu_call" where
  "lb_write fd ln msk lb s =
     (if ln \<le> length (m_buf lb) then
        let buf = (if msk \<noteq> 0 then map (\<lambda>b. b OR msk) (take ln (m_buf lb)) @ drop ln (m_buf lb) else m_buf lb)
        in case write_loop (take ln buf) (answers s) of
             (r, out, as) \<Rightarrow>
               (case r of Inl e \<Rightarrow> Inl e | Inr _ \<Rightarrow> Inr (length out, lb\<lparr>m_buf := buf\<rparr>),
                s\<lparr>answers := as, outs := outs s @ [(fd, out)]\<rparr>)
      else (Inl OutOfBounds, s))"

text \<open>A character of an echoed line: the line, its length, and the text when the line is complete.\<close>

definition line_put :: "byte \<Rightarrow> byte list \<times> nat \<Rightarrow> exn + byte list \<times> nat \<times> byte list option" where
  "line_put c l =
     (let (line, len) = l in
      bindS (buf_put len c line) (\<lambda>line.
        let len = len + 1; full = (len \<ge> length line - 1) in
        if c = 10 \<or> c = 13 \<or> full
        then bindS (buf_put (if full then len else len - 1) 0 line) (\<lambda>line.
               Inr (line, 0, if len > 1 then Some (c_string line) else None))
        else Inr (line, len, None)))"

fun line_puts :: "byte list \<Rightarrow> byte list \<times> nat \<Rightarrow> exn + byte list \<times> nat \<times> byte list list" where
  "line_puts [] l = Inr (fst l, snd l, [])"
| "line_puts (c # cs) l =
     bindS (line_put c l) (\<lambda>(line, len, t).
     bindS (line_puts cs (line, len)) (\<lambda>(line, len, ts).
       Inr (line, len, (case t of None \<Rightarrow> ts | Some x \<Rightarrow> x # ts))))"

definition print_lines :: "byte list \<Rightarrow> byte list list \<Rightarrow> netuart \<Rightarrow> netuart" where
  "print_lines prefix ts s = s\<lparr>printed := printed s @ map (\<lambda>t. prefix @ t @ [10]) ts\<rparr>"

definition print_in :: "nat \<Rightarrow> byte list \<Rightarrow> linbufs \<Rightarrow> linbufs nu_call" where
  "print_in ln prefix lb =
     bindE (assertE (ln > 0)) (\<lambda>_.
     bindE (liftE (lb_chars ln lb)) (\<lambda>cs. bindE (liftE (line_puts cs (m_iline lb, m_ilen lb))) (\<lambda>(line, len, ts).
     bindE (modifyE (print_lines prefix ts)) (\<lambda>_. returnE (lb\<lparr>m_iline := line, m_ilen := len\<rparr>)))))"

text \<open>The echo of what is sent stops at the first null character: the loop asserts there is none.\<close>

definition print_out :: "nat \<Rightarrow> byte list \<Rightarrow> linbufs \<Rightarrow> linbufs nu_call" where
  "print_out ln prefix lb =
     bindE (liftE (lb_chars ln lb)) (\<lambda>cs.
     bindE (liftE (line_puts (map (\<lambda>b. b AND 0x7f) (takeWhile (\<lambda>b. b \<noteq> 0) cs)) (m_oline lb, m_olen lb))) (\<lambda>(line, len, ts).
     bindE (modifyE (print_lines prefix ts)) (\<lambda>_.
     bindE (assertE (0 \<notin> set cs)) (\<lambda>_. returnE (lb\<lparr>m_oline := line, m_olen := len\<rparr>)))))"

definition flush_out :: "byte list \<Rightarrow> linbufs \<Rightarrow> linbufs nu_call" where
  "flush_out prefix lb =
     (if m_olen lb > 0
      then bindE (liftE (buf_put (m_olen lb) 0 (m_oline lb))) (\<lambda>line.
           bindE (modifyE (print_lines prefix [c_string line])) (\<lambda>_. returnE (lb\<lparr>m_oline := line, m_olen := 0\<rparr>)))
      else returnE lb)"

subsection \<open>The main loop\<close>

text \<open>What one round finds: an error of \<open>poll\<close>, the events of the three descriptors, what the reads of the terminal return
  (\<open>None\<close> an error, and so after the end of the list), and what \<open>accept\<close> or \<open>read\<close> return for the two
  sockets.\<close>

record nu_poll =
  poll_fails :: bool
  tty_in :: bool
  tty_other :: bool
  tty_rd :: "byte list option list"
  cmd_in :: bool
  cmd_accept :: int
  cmd_rd :: "byte list option"
  con_in :: bool
  con_accept :: int
  con_rd :: "byte list option"

text \<open>Taking apart what came from the terminal, into the buffers of the two objects.\<close>

fun split_raw :: "byte list \<Rightarrow> nat \<times> byte list \<Rightarrow> nat \<times> byte list \<Rightarrow> exn + (nat \<times> byte list) \<times> (nat \<times> byte list)" where
  "split_raw [] cmd con = Inr (cmd, con)"
| "split_raw (b # bs) cmd con =
     (if b AND 0x80 \<noteq> 0
      then bindS (buf_put (fst cmd) (b AND 0x7f) (snd cmd)) (\<lambda>buf. split_raw bs (fst cmd + 1, buf) con)
      else bindS (buf_put (fst con) b (snd con)) (\<lambda>buf. split_raw bs cmd (fst con + 1, buf)))"

text \<open>Sending what was taken apart on to a socket, when it is connected.\<close>

definition pass_on :: "nat \<Rightarrow> linbufs \<Rightarrow> linbufs nu_call" where
  "pass_on n lb =
     (if m_fd lb \<ge> 0 \<and> n > 0
      then bindE (lb_write (m_fd lb) n 0 lb) (\<lambda>(nw, lb). returnE (if nw \<noteq> n then lb_close lb else lb))
      else returnE lb)"

definition put_cmd :: "linbufs \<Rightarrow> unit nu_call" where "put_cmd lb = modifyE (\<lambda>s. s\<lparr>lbcmd := lb\<rparr>)"
definition put_con :: "linbufs \<Rightarrow> unit nu_call" where "put_con lb = modifyE (\<lambda>s. s\<lparr>lbcon := lb\<rparr>)"

definition tty_chunk :: "byte list \<Rightarrow> unit nu_call" where
  "tty_chunk rawbuf =
     bindE (getsE (\<lambda>s. split_raw rawbuf (0, m_buf (lbcmd s)) (0, m_buf (lbcon s)))) (\<lambda>r. bindE (liftE r) (\<lambda>((ncmd, bcmd), (ncon, bcon)).
     bindE (modifyE (\<lambda>s. s\<lparr>lbcmd := (lbcmd s)\<lparr>m_buf := bcmd\<rparr>, lbcon := (lbcon s)\<lparr>m_buf := bcon\<rparr>\<rparr>)) (\<lambda>_.
     bindE (getsE lbcmd) (\<lambda>lb. bindE (pass_on ncmd lb) (\<lambda>lb. bindE (put_cmd lb) (\<lambda>_.
     bindE (getsE lbcon) (\<lambda>lb. bindE (pass_on ncon lb) (\<lambda>lb. bindE (put_con lb) (\<lambda>_.
     bindE (whenE (ncmd > 0) (bindE (getsE lbcmd) (\<lambda>lb.
              bindE (print_in ncmd (if m_fd lb \<ge> 0 then [0x3e, 0x20] else [0x23, 0x20]) lb) put_cmd))) (\<lambda>_.
     whenE (ncon > 0) (bindE (getsE lbcon) (\<lambda>lb. bindE (print_in ncon [] lb) put_con))))))))))))"

text \<open>The read of the terminal, into the local array of 256 characters, of which only those read are used.\<close>

definition tty_read :: "byte list \<Rightarrow> exn + byte list" where
  "tty_read bs = (let d = take 256 bs in bindS (store_at 0 d (replicate 256 0)) (\<lambda>rawbuf. Inr (take (length d) rawbuf)))"

lemma tty_read_eq [simp]: "tty_read bs = Inr (take 256 bs)"
  by (auto simp: tty_read_def store_at_def min_def)

fun tty_chunks :: "byte list option list \<Rightarrow> unit nu_call" where
  "tty_chunks [] = returnE ()"
| "tty_chunks (None # rs) = returnE ()"
| "tty_chunks (Some bs # rs) = (if bs = [] then returnE () else bindE (liftE (tty_read bs)) (\<lambda>rawbuf. bindE (tty_chunk rawbuf) (\<lambda>_. tty_chunks rs)))"

definition tty_event :: "nu_poll \<Rightarrow> unit nu_call" where
  "tty_event p =
     (if tty_in p then
        (case tty_rd p of
           Some [] # _ \<Rightarrow> throwE (ExitWith 0)
         | Some (b # bs) # _ \<Rightarrow> tty_chunks (tty_rd p)
         | _ \<Rightarrow> throwE (ExitWith 1))
      else if tty_other p then throwE (ExitWith 1) else returnE ())"

text \<open>An event of a socket that was connected when the poll table was made, for the command and the console socket.\<close>

definition skt_event :: "int \<Rightarrow> byte \<Rightarrow> byte list \<Rightarrow> byte list option \<Rightarrow> linbufs \<Rightarrow> linbufs nu_call" where
  "skt_event tty msk prefix r lb =
     bindE (liftE (lb_read r lb)) (\<lambda>(nr, lb).
        if nr = 0 then bindE (flush_out prefix lb) (\<lambda>lb. returnE (lb_close lb))
        else if nr > 0 then bindE (lb_write tty (nat nr) msk lb) (\<lambda>(_, lb). print_out (nat nr) prefix lb)
        else returnE lb)"

definition cmd_event :: "int \<Rightarrow> bool \<Rightarrow> nu_poll \<Rightarrow> unit nu_call" where
  "cmd_event tty connected p =
     whenE (cmd_in p) (bindE (getsE lbcmd) (\<lambda>lb.
       bindE (if \<not> connected then liftE (lb_accept (cmd_accept p) lb) else skt_event tty 0x80 [0x3c, 0x20] (cmd_rd p) lb) put_cmd))"

definition con_event :: "int \<Rightarrow> bool \<Rightarrow> nu_poll \<Rightarrow> unit nu_call" where
  "con_event tty connected p =
     whenE (con_in p) (bindE (getsE lbcon) (\<lambda>lb.
       bindE (if \<not> connected
              then bindE (liftE (lb_accept (con_accept p) lb)) (\<lambda>lb.
                   bindE (modifyE (\<lambda>s. s\<lparr>printed := printed s @ [map (of_nat \<circ> of_char) ''Accepted a console connection'' @ [10]]\<rparr>)) (\<lambda>_.
                   returnE lb))
              else skt_event tty 0 [] (con_rd p) lb) put_con))"

definition nu_round :: "int \<Rightarrow> nu_poll \<Rightarrow> unit nu_call" where
  "nu_round tty p =
     bindE (getsE (\<lambda>s. (m_connected (lbcmd s), m_connected (lbcon s)))) (\<lambda>(ccmd, ccon).
     if poll_fails p then throwE (ExitWith (-1))
     else bindE (tty_event p) (\<lambda>_. bindE (cmd_event tty ccmd p) (\<lambda>_. con_event tty ccon p)))"

fun nu_run :: "int \<Rightarrow> nu_poll list \<Rightarrow> unit nu_call" where
  "nu_run tty [] = returnE ()"
| "nu_run tty (p # ps) = bindE (nu_round tty p) (\<lambda>_. nu_run tty ps)"

definition nu_start :: "byte list \<times> byte list \<times> byte list \<Rightarrow> byte list \<times> byte list \<times> byte list \<Rightarrow> wans list \<Rightarrow> netuart" where
  "nu_start j1 j2 as = \<lparr>lbcmd = LINBUFS j1, lbcon = LINBUFS j2, answers = as, outs = [], printed = []\<rparr>"

subsection \<open>Buffers\<close>

definition lb_ok :: "linbufs \<Rightarrow> bool" where
  "lb_ok lb \<longleftrightarrow> length (m_iline lb) = 512 \<and> length (m_oline lb) = 512 \<and> length (m_buf lb) = 256 \<and> m_ilen lb < 511 \<and> m_olen lb < 511"

definition nu_ok :: "netuart \<Rightarrow> bool" where
  "nu_ok s \<longleftrightarrow> lb_ok (lbcmd s) \<and> lb_ok (lbcon s)"

lemma line_put_ok:
  assumes "length line = 512" "len < 511"
  shows "\<exists>line' len' t. line_put c (line, len) = Inr (line', len', t) \<and> length line' = 512 \<and> len' < 511"
  using assms by (auto simp: line_put_def buf_put_def Let_def)

lemma line_puts_ok:
  assumes "length line = 512" "len < 511"
  shows "\<exists>line' len' ts. line_puts cs (line, len) = Inr (line', len', ts) \<and> length line' = 512 \<and> len' < 511"
  using assms
proof (induction cs arbitrary: line len)
  case (Cons c cs)
  obtain line' len' t where t: "line_put c (line, len) = Inr (line', len', t)" "length line' = 512" "len' < 511"
    using line_put_ok [OF Cons.prems] by blast
  obtain line'' len'' ts where "line_puts cs (line', len') = Inr (line'', len'', ts)" "length line'' = 512" "len'' < 511"
    using Cons.IH [OF t(2,3)] by blast
  then show ?case using t(1) by simp
qed simp

lemma and_0x80: "(b AND 0x80 \<noteq> 0) = bit b 7" for b :: byte
  using and_exp_eq_0_iff_not_bit [of b 7] by simp

lemma and_0x7f: "\<not> bit b 7 \<Longrightarrow> b AND 0x7f = b" for b :: byte
proof (rule bit_word_eqI)
  fix n assume b: "\<not> bit b 7" and n: "n < LENGTH(8)"
  have "(0x7f :: byte) = mask 7" by (simp add: mask_eq_exp_minus_1)
  then have "bit (0x7f :: byte) n \<longleftrightarrow> n < 7" using n by (simp only: bit_mask_iff) simp
  then show "bit (b AND 0x7f) n = bit b n" using b n by (cases "n = 7") (simp_all add: bit_and_iff)
qed

text \<open>Writing a character after those already in the buffer.\<close>

lemma buf_put_next:
  assumes "n + length (x # xs) \<le> length buf"
  shows "buf_put n x buf = Inr (take n buf @ x # drop (Suc n) buf)"
  using assms by (simp add: buf_put_def upd_conv_take_nth_drop)

lemma split_raw_eq:
  assumes "n + length (cmd_bytes bs) \<le> length b" "m + length (con_bytes bs) \<le> length c"
  shows "split_raw bs (n, b) (m, c) =
    Inr ((n + length (cmd_bytes bs), take n b @ cmd_bytes bs @ drop (n + length (cmd_bytes bs)) b),
         (m + length (con_bytes bs), take m c @ con_bytes bs @ drop (m + length (con_bytes bs)) c))"
  using assms
proof (induction bs arbitrary: n b m c)
  case (Cons x bs)
  show ?case
  proof (cases "bit x 7")
    case True
    then have "cmd_bytes (x # bs) = (x AND 0x7f) # cmd_bytes bs" "con_bytes (x # bs) = con_bytes bs"
      by (simp_all add: cmd_bytes_def con_bytes_def)
    then show ?thesis using True Cons.prems Cons.IH [of "n + 1" "take n b @ (x AND 0x7f) # drop (Suc n) b" m c]
      by (simp add: and_0x80 buf_put_next [of _ _ "cmd_bytes bs"] min_def ac_simps)
  next
    case False
    then have "cmd_bytes (x # bs) = cmd_bytes bs" "con_bytes (x # bs) = x # con_bytes bs"
      by (simp_all add: cmd_bytes_def con_bytes_def and_0x7f)
    then show ?thesis using False Cons.prems Cons.IH [of n b "m + 1" "take m c @ x # drop (Suc m) c"]
      using and_0x80 [of x] by (simp add: buf_put_next [of _ _ "con_bytes bs"] min_def ac_simps)
  qed
qed (simp_all add: cmd_bytes_def con_bytes_def)

lemma length_parts: "length (cmd_bytes bs) + length (con_bytes bs) = length bs"
  using sum_length_filter_compl [of "\<lambda>b. bit b 7" bs] by (simp add: cmd_bytes_def con_bytes_def)

subsection \<open>Writing\<close>

text \<open>A write that returns has written everything: the answers short of that end in another write or in the end of the program.\<close>

lemma write_loop_complete: "write_loop bs as = (Inr (), out, as') \<Longrightarrow> out = bs"
  by (induction bs "as" arbitrary: out rule: write_loop.induct) (auto simp: Let_def split: if_splits prod.splits)

lemma lb_write_complete: "lb_write fd ln msk lb s = (Inr (nw, lb'), t) \<Longrightarrow> nw = ln"
  by (auto simp: lb_write_def Let_def split: if_splits prod.splits sum.splits dest!: write_loop_complete)

text \<open>A stock of answers for \<open>n\<close> more bytes: none an error or the end, and enough that accept a byte.\<close>

definition wcount :: "wans list \<Rightarrow> nat" where
  "wcount as = length (filter (\<lambda>a. a \<noteq> Again) as)"

definition stocked :: "nat \<Rightarrow> netuart \<Rightarrow> bool" where
  "stocked n s \<longleftrightarrow> list_all (\<lambda>a. a \<noteq> WFail \<and> a \<noteq> Wrote 0) (answers s) \<and> n \<le> wcount (answers s)"

lemma write_loop_supply:
  assumes "list_all (\<lambda>a. a \<noteq> WFail \<and> a \<noteq> Wrote 0) as" "length bs \<le> wcount as" "bs \<noteq> []"
  shows "\<exists>as'. write_loop bs as = (Inr (), bs, as') \<and> list_all (\<lambda>a. a \<noteq> WFail \<and> a \<noteq> Wrote 0) as' \<and>
    wcount as \<le> wcount as' + length bs"
  using assms
proof (induction bs "as" rule: write_loop.induct)
  case (4 bs n "as")
  show ?case
  proof (cases "n < length bs")
    case True
    have n: "0 < n" "min n (length bs) = n" using "4.prems"(1) True by auto
    have "length (drop n bs) \<le> wcount as" "drop n bs \<noteq> []" "list_all (\<lambda>a. a \<noteq> WFail \<and> a \<noteq> Wrote 0) as"
      using "4.prems" True n by (auto simp: wcount_def)
    then obtain as' where "write_loop (drop n bs) as = (Inr (), drop n bs, as')"
      "list_all (\<lambda>a. a \<noteq> WFail \<and> a \<noteq> Wrote 0) as'" "wcount as \<le> wcount as' + length (drop n bs)"
      using "4.IH" [of n] n True by auto
    then show ?thesis using True n by (auto simp: wcount_def Let_def)
  next
    case False
    then show ?thesis using "4.prems" by (cases bs) (auto simp: wcount_def Let_def min_def)
  qed
qed (auto simp: wcount_def)

definition sent_to :: "int \<Rightarrow> netuart \<Rightarrow> byte list" where
  "sent_to fd s = concat (map snd (filter (\<lambda>x. fst x = fd) (outs s)))"

definition masked :: "byte \<Rightarrow> byte list \<Rightarrow> byte list" where
  "masked msk bs = (if msk \<noteq> 0 then map (\<lambda>b. b OR msk) bs else bs)"

lemma length_masked [simp]: "length (masked msk bs) = length bs"
  by (simp add: masked_def)

text \<open>What a write changes.\<close>

definition wrote :: "int \<Rightarrow> byte list \<Rightarrow> netuart \<Rightarrow> netuart \<Rightarrow> bool" where
  "wrote fd bs s t \<longleftrightarrow> lbcmd t = lbcmd s \<and> lbcon t = lbcon s \<and> (\<forall>f. sent_to f t = sent_to f s @ (if f = fd then bs else []))"

lemma lb_write_supply:
  assumes "stocked (ln + n) s" "0 < ln" "ln \<le> length (m_buf lb)"
  shows "wpE (lb_write fd ln msk lb) (\<lambda>(nw, lb') t. nw = ln \<and>
    lb' = lb\<lparr>m_buf := masked msk (take ln (m_buf lb)) @ drop ln (m_buf lb)\<rparr> \<and>
    wrote fd (masked msk (take ln (m_buf lb))) s t \<and> stocked n t) s"
proof -
  let ?buf = "if msk \<noteq> 0 then map (\<lambda>b. b OR msk) (take ln (m_buf lb)) @ drop ln (m_buf lb) else m_buf lb"
  let ?bs = "masked msk (take ln (m_buf lb))"
  have buf: "?buf = masked msk (take ln (m_buf lb)) @ drop ln (m_buf lb)" by (simp add: masked_def)
  have take: "take ln ?buf = masked msk (take ln (m_buf lb))" unfolding buf using assms(3) by simp
  have len: "length ?bs = ln" using assms(3) by simp
  then have "?bs \<noteq> []" using assms(2) by (metis list.size(3) less_irrefl)
  obtain as' where "write_loop ?bs (answers s) = (Inr (), ?bs, as')"
    "list_all (\<lambda>a. a \<noteq> WFail \<and> a \<noteq> Wrote 0) as'" "wcount (answers s) \<le> wcount as' + ln"
    using write_loop_supply [of "answers s" ?bs] len \<open>?bs \<noteq> []\<close> assms(1) by (auto simp: stocked_def)
  then show ?thesis using assms unfolding wpE_def lb_write_def Let_def take buf
    by (simp add: stocked_def wrote_def sent_to_def)
qed

text \<open>What the parts of a round keep: the arrays, the descriptors and the connections.\<close>

definition linked :: "linbufs \<Rightarrow> linbufs \<Rightarrow> bool" where
  "linked lb lb' \<longleftrightarrow> lb_ok lb' \<and> m_fd lb' = m_fd lb \<and> m_connected lb' = m_connected lb"

definition carried :: "(int \<Rightarrow> byte list) \<Rightarrow> netuart \<Rightarrow> netuart \<Rightarrow> bool" where
  "carried g s t \<longleftrightarrow> linked (lbcmd s) (lbcmd t) \<and> linked (lbcon s) (lbcon t) \<and> (\<forall>f. sent_to f t = sent_to f s @ g f)"

lemma carried_trans: "carried g s t \<Longrightarrow> carried h t u \<Longrightarrow> carried (\<lambda>f. g f @ h f) s u"
  by (auto simp: carried_def linked_def)

lemma carried_nothing: "nu_ok s \<Longrightarrow> carried (\<lambda>_. []) s s"
  by (simp add: carried_def linked_def nu_ok_def)

lemma pass_on_stocked:
  assumes "stocked (n + k) s" "n \<le> length (m_buf lb)" "0 \<le> m_fd lb"
  shows "wpE (pass_on n lb) (\<lambda>lb' t. lb' = lb \<and> wrote (m_fd lb) (take n (m_buf lb)) s t \<and> stocked k t) s"
proof (cases "n = 0")
  case True
  then show ?thesis using assms by (simp add: pass_on_def wrote_def)
next
  case False
  then have "wpE (lb_write (m_fd lb) n 0 lb) (\<lambda>(nw, lb') t. nw = n \<and> lb' = lb \<and> wrote (m_fd lb) (take n (m_buf lb)) s t \<and> stocked k t) s"
    using lb_write_supply [OF assms(1) _ assms(2), of "m_fd lb" 0] by (simp add: masked_def)
  then show ?thesis using False assms(3) by (auto simp: pass_on_def elim!: wpE_mono)
qed

lemma print_in_keeps:
  assumes "lb_ok lb" "0 < ln" "ln \<le> 256" "stocked k s"
  shows "wpE (print_in ln pre lb) (\<lambda>lb' t. linked lb lb' \<and> m_buf lb' = m_buf lb \<and> wrote f [] s t \<and> stocked k t) s"
proof -
  obtain line len ts where "line_puts (take ln (m_buf lb)) (m_iline lb, m_ilen lb) = Inr (line, len, ts)" "length line = 512" "len < 511"
    using line_puts_ok [of "m_iline lb" "m_ilen lb" "take ln (m_buf lb)"] assms(1) by (auto simp: lb_ok_def)
  then show ?thesis using assms
    by (simp add: print_in_def lb_chars_def wpE_def bindE_def call_defs linked_def lb_ok_def wrote_def sent_to_def stocked_def print_lines_def)
qed

lemma print_out_keeps:
  assumes "lb_ok lb" "ln \<le> 256" "0 \<notin> set (take ln (m_buf lb))" "stocked k s"
  shows "wpE (print_out ln pre lb) (\<lambda>lb' t. linked lb lb' \<and> wrote f [] s t \<and> stocked k t) s"
proof -
  let ?bs = "map (\<lambda>b. b AND 0x7f) (takeWhile (\<lambda>b. b \<noteq> 0) (take ln (m_buf lb)))"
  obtain line len ts where "line_puts ?bs (m_oline lb, m_olen lb) = Inr (line, len, ts)" "length line = 512" "len < 511"
    using line_puts_ok [of "m_oline lb" "m_olen lb" ?bs] assms(1) by (auto simp: lb_ok_def)
  then show ?thesis using assms
    by (simp add: print_out_def lb_chars_def wpE_def bindE_def call_defs linked_def lb_ok_def wrote_def sent_to_def stocked_def print_lines_def)
qed

lemma echo_cmd:
  assumes "lb_ok (lbcmd u)" "stocked k u" "n \<le> 256"
  shows "wpE (whenE (n > 0) (bindE (getsE lbcmd) (\<lambda>lb. bindE (print_in n (if m_fd lb \<ge> 0 then [0x3e, 0x20] else [0x23, 0x20]) lb) put_cmd)))
    (\<lambda>_ v. linked (lbcmd u) (lbcmd v) \<and> lbcon v = lbcon u \<and> (\<forall>f. sent_to f v = sent_to f u) \<and> stocked k v) u"
proof (cases "n > 0")
  case True
  show ?thesis unfolding whenE_def if_P [OF True]
    by (simp only: wpE_simps, rule wpE_mono [OF print_in_keeps [OF assms(1) True assms(3,2)]])
      (auto simp: put_cmd_def linked_def wrote_def sent_to_def stocked_def)
qed (use assms in \<open>simp add: linked_def\<close>)

lemma echo_con:
  assumes "lb_ok (lbcon u)" "stocked k u" "n \<le> 256"
  shows "wpE (whenE (n > 0) (bindE (getsE lbcon) (\<lambda>lb. bindE (print_in n [] lb) put_con)))
    (\<lambda>_ v. linked (lbcon u) (lbcon v) \<and> lbcmd v = lbcmd u \<and> (\<forall>f. sent_to f v = sent_to f u) \<and> stocked k v) u"
proof (cases "n > 0")
  case True
  show ?thesis unfolding whenE_def if_P [OF True]
    by (simp only: wpE_simps, rule wpE_mono [OF print_in_keeps [OF assms(1) True assms(3,2)]])
      (auto simp: put_con_def linked_def wrote_def sent_to_def stocked_def)
qed (use assms in \<open>simp add: linked_def\<close>)

definition to_both :: "int \<Rightarrow> int \<Rightarrow> byte list \<Rightarrow> int \<Rightarrow> byte list" where
  "to_both c d bs f = (if f = c then cmd_bytes bs else []) @ (if f = d then con_bytes bs else [])"

lemma wpE_put_lb [simp]: "wpE (put_cmd lb) Q s = Q () (s\<lparr>lbcmd := lb\<rparr>)" "wpE (put_con lb) Q s = Q () (s\<lparr>lbcon := lb\<rparr>)"
  by (simp_all add: put_cmd_def put_con_def)

lemma tty_chunk_carries:
  assumes "nu_ok s" "length bs \<le> 256" "stocked (length bs + k) s" "0 \<le> m_fd (lbcmd s)" "0 \<le> m_fd (lbcon s)"
  shows "wpE (tty_chunk bs) (\<lambda>_ t. carried (to_both (m_fd (lbcmd s)) (m_fd (lbcon s)) bs) s t \<and> stocked k t) s"
proof -
  let ?c = "cmd_bytes bs" and ?d = "con_bytes bs" and ?fc = "m_fd (lbcmd s)" and ?fd = "m_fd (lbcon s)"
  define u where "u = s\<lparr>lbcmd := (lbcmd s)\<lparr>m_buf := ?c @ drop (length ?c) (m_buf (lbcmd s))\<rparr>,
                        lbcon := (lbcon s)\<lparr>m_buf := ?d @ drop (length ?d) (m_buf (lbcon s))\<rparr>\<rparr>"
  have len: "length ?c \<le> 256" "length ?d \<le> 256" "length bs = length ?c + length ?d"
    using length_parts [of bs] assms(2) by auto
  have u: "linked (lbcmd s) (lbcmd u)" "linked (lbcon s) (lbcon u)" "take (length ?c) (m_buf (lbcmd u)) = ?c"
      "take (length ?d) (m_buf (lbcon u)) = ?d" "sent_to f u = sent_to f s" "stocked (length ?c + (length ?d + k)) u" for f
    using assms(1,3) len by (auto simp: u_def nu_ok_def lb_ok_def linked_def sent_to_def stocked_def)
  have split: "split_raw bs (0, m_buf (lbcmd s)) (0, m_buf (lbcon s)) =
      Inr ((length ?c, m_buf (lbcmd u)), (length ?d, m_buf (lbcon u)))"
    using split_raw_eq [of 0 bs "m_buf (lbcmd s)" 0 "m_buf (lbcon s)"] assms(1) len by (simp add: u_def nu_ok_def lb_ok_def)
  have step: "s\<lparr>lbcmd := (lbcmd s)\<lparr>m_buf := m_buf (lbcmd u)\<rparr>, lbcon := (lbcon s)\<lparr>m_buf := m_buf (lbcon u)\<rparr>\<rparr> = u" by (simp add: u_def)
  have 1: "wpE (pass_on (length ?c) (lbcmd u)) (\<lambda>lb t. lb = lbcmd u \<and> wrote ?fc ?c u t \<and> stocked (length ?d + k) t) u"
    using pass_on_stocked [OF u(6), of "lbcmd u"] u(1,3) assms(4) len by (simp add: linked_def lb_ok_def)
  have 2: "wpE (pass_on (length ?d) (lbcon u)) (\<lambda>lb v. lb = lbcon u \<and> wrote ?fd ?d t v \<and> stocked k v) t"
    if "stocked (length ?d + k) t" for t
    using pass_on_stocked [OF that, of "lbcon u"] u(2,4) assms(5) len by (simp add: linked_def lb_ok_def)
  let ?E1 = "whenE (length ?c > 0) (bindE (getsE lbcmd) (\<lambda>lb. bindE (print_in (length ?c) (if m_fd lb \<ge> 0 then [0x3e, 0x20] else [0x23, 0x20]) lb) put_cmd))"
  let ?E2 = "whenE (length ?d > 0) (bindE (getsE lbcon) (\<lambda>lb. bindE (print_in (length ?d) [] lb) put_con))"
  let ?Q = "\<lambda>_ t. carried (to_both ?fc ?fd bs) s t \<and> stocked k t"
  have echo: "wpE (bindE ?E1 (\<lambda>_. ?E2)) ?Q v"
    if v: "lbcmd v = lbcmd u" "lbcon v = lbcon u" "\<forall>f. sent_to f v = sent_to f s @ to_both ?fc ?fd bs f" "stocked k v" for v
  proof -
    have "wpE ?E2 ?Q w" if w: "linked (lbcmd v) (lbcmd w)" "lbcon w = lbcon v" "\<forall>f. sent_to f w = sent_to f v" "stocked k w" for w
      by (rule wpE_mono [OF echo_con [of w k "length ?d"]]) (use u v w len in \<open>auto simp: carried_def linked_def\<close>)
    then show ?thesis unfolding wpE_simps(1) by (intro wpE_mono [OF echo_cmd [of v k "length ?c"]]) (use u v len in \<open>auto simp: linked_def\<close>)
  qed
  have con: "wpE (bindE (getsE lbcon) (\<lambda>lb. bindE (pass_on (length ?d) lb) (\<lambda>lb. bindE (put_con lb) (\<lambda>_. bindE ?E1 (\<lambda>_. ?E2))))) ?Q t"
    if t: "lbcmd t = lbcmd u" "lbcon t = lbcon u" "\<forall>f. sent_to f t = sent_to f u @ (if f = ?fc then ?c else [])" "stocked (length ?d + k) t" for t
    unfolding wpE_simps t(2)
  proof (rule wpE_mono [OF 2 [OF t(4)]])
    fix lb v assume v: "lb = lbcon u \<and> wrote ?fd ?d t v \<and> stocked k v"
    then have "v\<lparr>lbcon := lb\<rparr> = v" using t(2) by (auto simp: wrote_def)
    moreover have "wpE (bindE ?E1 (\<lambda>_. ?E2)) ?Q v" using v t u(5) by (intro echo) (auto simp: wrote_def to_both_def)
    ultimately show "wpE (put_con lb) (\<lambda>_. wpE ?E1 (\<lambda>_. wpE ?E2 ?Q)) v" by (simp only: wpE_put_lb wpE_simps)
  qed
  have "wpE (bindE (getsE lbcmd) (\<lambda>lb. bindE (pass_on (length ?c) lb) (\<lambda>lb. bindE (put_cmd lb) (\<lambda>_.
      bindE (getsE lbcon) (\<lambda>lb. bindE (pass_on (length ?d) lb) (\<lambda>lb. bindE (put_con lb) (\<lambda>_. bindE ?E1 (\<lambda>_. ?E2)))))))) ?Q u"
    unfolding wpE_simps(1,4)
  proof (rule wpE_mono [OF 1])
    fix lb t assume t: "lb = lbcmd u \<and> wrote ?fc ?c u t \<and> stocked (length ?d + k) t"
    then have "t\<lparr>lbcmd := lb\<rparr> = t" by (auto simp: wrote_def)
    moreover have "wpE (bindE (getsE lbcon) (\<lambda>lb. bindE (pass_on (length ?d) lb) (\<lambda>lb. bindE (put_con lb) (\<lambda>_. bindE ?E1 (\<lambda>_. ?E2))))) ?Q t"
      using t by (intro con) (auto simp: wrote_def)
    ultimately show "wpE (put_cmd lb) (\<lambda>_ s. wpE (pass_on (length ?d) (lbcon s)) (\<lambda>v. wpE (put_con v) (\<lambda>_. wpE ?E1 (\<lambda>_. wpE ?E2 ?Q))) s) t"
      by (simp only: wpE_put_lb wpE_simps)
  qed
  then show ?thesis unfolding tty_chunk_def by (simp only: wpE_simps split sum.case prod.case step)
qed

text \<open>What the reads of a round of the terminal give.\<close>

fun tty_bytes :: "byte list option list \<Rightarrow> byte list" where
  "tty_bytes (Some bs # rs) = (if bs = [] then [] else take 256 bs @ tty_bytes rs)"
| "tty_bytes rs = []"

lemma to_both_append: "c \<noteq> d \<Longrightarrow> to_both c d (xs @ ys) = (\<lambda>f. to_both c d xs f @ to_both c d ys f)"
  by (simp add: fun_eq_iff to_both_def cmd_bytes_def con_bytes_def)

lemma to_both_Nil [simp]: "to_both c d [] = (\<lambda>_. [])"
  by (simp add: to_both_def cmd_bytes_def con_bytes_def fun_eq_iff)

text \<open>Both sockets are connected, to different peers.\<close>

definition both_linked :: "netuart \<Rightarrow> bool" where
  "both_linked s \<longleftrightarrow> nu_ok s \<and> m_connected (lbcmd s) \<and> m_connected (lbcon s) \<and>
     0 \<le> m_fd (lbcmd s) \<and> 0 \<le> m_fd (lbcon s) \<and> m_fd (lbcmd s) \<noteq> m_fd (lbcon s)"

lemma carried_linked:
  "carried g s t \<Longrightarrow> both_linked s \<Longrightarrow> both_linked t \<and> m_fd (lbcmd t) = m_fd (lbcmd s) \<and> m_fd (lbcon t) = m_fd (lbcon s)"
  by (simp add: carried_def linked_def both_linked_def nu_ok_def)

lemma tty_chunks_carries:
  assumes "both_linked s" "stocked (length (tty_bytes rs) + k) s"
  shows "wpE (tty_chunks rs) (\<lambda>_ t. carried (to_both (m_fd (lbcmd s)) (m_fd (lbcon s)) (tty_bytes rs)) s t \<and> stocked k t) s"
  using assms
proof (induction rs arbitrary: s rule: tty_bytes.induct)
  case (1 bs rs)
  let ?c = "m_fd (lbcmd s)" and ?d = "m_fd (lbcon s)"
  show ?case
  proof (cases "bs = []")
    case True
    then show ?thesis using "1.prems" by (simp add: carried_nothing both_linked_def)
  next
    case False
    have "wpE (tty_chunk (take 256 bs)) (\<lambda>_ t. carried (to_both ?c ?d (take 256 bs)) s t \<and> stocked (length (tty_bytes rs) + k) t) s"
      using "1.prems" False by (intro tty_chunk_carries) (auto simp: both_linked_def add.assoc)
    moreover have "wpE (tty_chunks rs) (\<lambda>_ u. carried (to_both ?c ?d (tty_bytes (Some bs # rs))) s u \<and> stocked k u) t"
      if t: "carried (to_both ?c ?d (take 256 bs)) s t" "stocked (length (tty_bytes rs) + k) t" for t
    proof -
      have l: "both_linked t" "m_fd (lbcmd t) = ?c" "m_fd (lbcon t) = ?d" using carried_linked [OF t(1) "1.prems"(1)] by simp_all
      then have "wpE (tty_chunks rs) (\<lambda>_ u. carried (to_both ?c ?d (tty_bytes rs)) t u \<and> stocked k u) t"
        using "1.IH" [OF False l(1) t(2)] by simp
      moreover have "carried (to_both ?c ?d (tty_bytes (Some bs # rs))) s u" if "carried (to_both ?c ?d (tty_bytes rs)) t u" for u
        using carried_trans [OF t(1) that] False "1.prems"(1) by (simp add: both_linked_def to_both_append)
      ultimately show ?thesis by (auto elim: wpE_mono)
    qed
    ultimately show ?thesis using False by (auto elim: wpE_mono)
  qed
qed (simp_all add: carried_nothing both_linked_def)

definition rd_out :: "byte \<Rightarrow> byte list option \<Rightarrow> byte list" where
  "rd_out msk r = (case r of None \<Rightarrow> [] | Some bs \<Rightarrow> masked msk (take 256 bs))"

lemma skt_event_carries:
  assumes "lb_ok lb" "r \<noteq> Some []" "0 \<notin> set (rd_out msk r)" "stocked (length (rd_out msk r) + k) s"
  shows "wpE (skt_event tty msk pre r lb) (\<lambda>lb' t. linked lb lb' \<and> wrote tty (rd_out msk r) s t \<and> stocked k t) s"
proof (cases r)
  case None
  then show ?thesis using assms by (simp add: skt_event_def lb_read_def linked_def wrote_def rd_out_def)
next
  case (Some bs)
  define d where "d = take 256 bs"
  have d: "length d \<le> 256" by (simp add: d_def)
  let ?out = "rd_out msk r"
  let ?lb = "lb\<lparr>m_buf := d @ drop (length d) (m_buf lb)\<rparr>"
  let ?lb' = "lb\<lparr>m_buf := masked msk d @ drop (length d) (m_buf lb)\<rparr>"
  have r: "lb_read r lb = Inr (int (length d), ?lb)" "0 < length d"
    using Some assms(1,2) by (auto simp: d_def lb_read_def Let_def store_at_def lb_ok_def)
  have out: "?out = masked msk d" "length d = length ?out" using Some by (simp_all add: d_def rd_out_def)
  have ok: "lb_ok ?lb'" "length d \<le> length (m_buf ?lb)" "take (length d) (m_buf ?lb') = ?out"
    using assms(1) d by (auto simp: lb_ok_def out(1))
  have "wpE (lb_write tty (length d) msk ?lb) (\<lambda>(nw, lb') t. lb' = ?lb' \<and> wrote tty ?out s t \<and> stocked k t) s"
    by (rule wpE_mono [OF lb_write_supply [of "length d" k s ?lb tty msk]]) (use assms(4) r(2) ok(2) out(1) in auto)
  moreover have "wpE (print_out (length d) pre ?lb') (\<lambda>lb' u. linked lb lb' \<and> wrote tty ?out s u \<and> stocked k u) t"
    if "wrote tty ?out s t" "stocked k t" for t
    using print_out_keeps [OF ok(1) d, of k t pre] assms(3) that ok(3)
    by (auto simp: wrote_def linked_def elim!: wpE_mono)
  ultimately show ?thesis using r by (auto simp: skt_event_def elim!: wpE_mono)
qed

text \<open>A round without errors and without a peer that closes; the console must not send a null character, on
  which the echo asserts.\<close>

definition good_poll :: "nu_poll \<Rightarrow> bool" where
  "good_poll p \<longleftrightarrow> \<not> poll_fails p \<and> (if tty_in p then tty_bytes (tty_rd p) \<noteq> [] else \<not> tty_other p) \<and>
     (cmd_in p \<longrightarrow> cmd_rd p \<noteq> Some []) \<and> (con_in p \<longrightarrow> con_rd p \<noteq> Some [] \<and> 0 \<notin> set (rd_out 0 (con_rd p)))"

definition down :: "nu_poll \<Rightarrow> byte list" where
  "down p = (if tty_in p then tty_bytes (tty_rd p) else [])"

definition up_cmd :: "nu_poll \<Rightarrow> byte list" where
  "up_cmd p = (if cmd_in p then rd_out 0x80 (cmd_rd p) else [])"

definition up_con :: "nu_poll \<Rightarrow> byte list" where
  "up_con p = (if con_in p then rd_out 0 (con_rd p) else [])"

lemma or_0x80: "b OR 0x80 \<noteq> 0" for b :: byte
proof -
  have "bit (b OR 0x80) 7" using and_0x80 [of "0x80"] by (simp add: bit_or_iff)
  then show ?thesis by auto
qed

lemma cmd_not_null: "0 \<notin> set (rd_out 0x80 r)"
  using or_0x80 by (auto simp: rd_out_def masked_def split: option.splits)

lemma tty_event_carries:
  assumes "good_poll p" "both_linked s" "stocked (length (down p) + k) s"
  shows "wpE (tty_event p) (\<lambda>_ t. carried (to_both (m_fd (lbcmd s)) (m_fd (lbcon s)) (down p)) s t \<and> stocked k t) s"
proof (cases "tty_in p")
  case True
  then obtain b bs rs where "tty_rd p = Some (b # bs) # rs"
    using assms(1) by (cases "tty_rd p" rule: tty_bytes.cases) (auto simp: good_poll_def neq_Nil_conv split: if_splits)
  then show ?thesis using tty_chunks_carries [OF assms(2), of "tty_rd p" k] assms(3) True by (simp add: tty_event_def down_def)
next
  case False
  then show ?thesis using assms by (simp add: tty_event_def down_def good_poll_def carried_nothing both_linked_def)
qed

definition only_to :: "int \<Rightarrow> byte list \<Rightarrow> int \<Rightarrow> byte list" where
  "only_to tty bs f = (if f = tty then bs else [])"

lemma cmd_event_carries:
  assumes "good_poll p" "both_linked s" "stocked (length (up_cmd p) + k) s"
  shows "wpE (cmd_event tty True p) (\<lambda>_ t. carried (only_to tty (up_cmd p)) s t \<and> stocked k t) s"
proof (cases "cmd_in p")
  case True
  have "wpE (skt_event tty 0x80 [0x3c, 0x20] (cmd_rd p) (lbcmd s)) (\<lambda>lb' t. linked (lbcmd s) lb' \<and> wrote tty (up_cmd p) s t \<and> stocked k t) s"
    using skt_event_carries [of "lbcmd s" "cmd_rd p" "0x80" k s] assms True cmd_not_null
    by (simp add: good_poll_def both_linked_def nu_ok_def up_cmd_def)
  then show ?thesis using True assms(2)
    by (auto simp: cmd_event_def carried_def linked_def wrote_def both_linked_def nu_ok_def sent_to_def stocked_def only_to_def elim!: wpE_mono)
next
  case False
  then show ?thesis using assms by (simp add: cmd_event_def up_cmd_def only_to_def carried_def linked_def both_linked_def nu_ok_def)
qed

lemma con_event_carries:
  assumes "good_poll p" "both_linked s" "stocked (length (up_con p) + k) s"
  shows "wpE (con_event tty True p) (\<lambda>_ t. carried (only_to tty (up_con p)) s t \<and> stocked k t) s"
proof (cases "con_in p")
  case True
  have "wpE (skt_event tty 0 [] (con_rd p) (lbcon s)) (\<lambda>lb' t. linked (lbcon s) lb' \<and> wrote tty (up_con p) s t \<and> stocked k t) s"
    using skt_event_carries [of "lbcon s" "con_rd p" 0 k s] assms True
    by (simp add: good_poll_def both_linked_def nu_ok_def up_con_def)
  then show ?thesis using True assms(2)
    by (auto simp: con_event_def carried_def linked_def wrote_def both_linked_def nu_ok_def sent_to_def stocked_def only_to_def elim!: wpE_mono)
next
  case False
  then show ?thesis using assms by (simp add: con_event_def up_con_def only_to_def carried_def linked_def both_linked_def nu_ok_def)
qed

text \<open>The bytes a round writes, by descriptor.\<close>

definition round_out :: "int \<Rightarrow> int \<Rightarrow> int \<Rightarrow> nu_poll \<Rightarrow> int \<Rightarrow> byte list" where
  "round_out tty c d p f = to_both c d (down p) f @ only_to tty (up_cmd p @ up_con p) f"

definition round_size :: "nu_poll \<Rightarrow> nat" where
  "round_size p = length (down p) + length (up_cmd p) + length (up_con p)"

lemma nu_round_carries:
  assumes "good_poll p" "both_linked s" "stocked (round_size p + k) s"
  shows "wpE (nu_round tty p) (\<lambda>_ t. carried (round_out tty (m_fd (lbcmd s)) (m_fd (lbcon s)) p) s t \<and> stocked k t) s"
proof -
  let ?B = "to_both (m_fd (lbcmd s)) (m_fd (lbcon s)) (down p)"
  have conn: "m_connected (lbcmd s)" "m_connected (lbcon s)" "\<not> poll_fails p" using assms(1,2) by (simp_all add: both_linked_def good_poll_def)
  have out: "round_out tty (m_fd (lbcmd s)) (m_fd (lbcon s)) p = (\<lambda>f. (?B f @ only_to tty (up_cmd p) f) @ only_to tty (up_con p) f)"
    by (simp add: fun_eq_iff round_out_def only_to_def)
  have 3: "wpE (con_event tty True p) (\<lambda>_ v. carried (round_out tty (m_fd (lbcmd s)) (m_fd (lbcon s)) p) s v \<and> stocked k v) u"
    if u: "carried (\<lambda>f. ?B f @ only_to tty (up_cmd p) f) s u" "stocked (length (up_con p) + k) u" for u
  proof (rule wpE_mono [OF con_event_carries [OF assms(1) _ u(2)]])
    show "both_linked u" using carried_linked [OF u(1) assms(2)] by simp
    fix x v assume v: "carried (only_to tty (up_con p)) u v \<and> stocked k v"
    show "carried (round_out tty (m_fd (lbcmd s)) (m_fd (lbcon s)) p) s v \<and> stocked k v"
      using carried_trans [OF u(1), of "only_to tty (up_con p)" v] v out by simp
  qed
  have 2: "wpE (bindE (cmd_event tty True p) (\<lambda>_. con_event tty True p))
      (\<lambda>_ v. carried (round_out tty (m_fd (lbcmd s)) (m_fd (lbcon s)) p) s v \<and> stocked k v) t"
    if t: "carried ?B s t" "stocked (length (up_cmd p) + (length (up_con p) + k)) t" for t
    unfolding wpE_simps
  proof (rule wpE_mono [OF cmd_event_carries [OF assms(1) _ t(2)]])
    show "both_linked t" using carried_linked [OF t(1) assms(2)] by simp
  qed (use carried_trans [OF t(1)] 3 in blast)
  have "wpE (bindE (tty_event p) (\<lambda>_. bindE (cmd_event tty True p) (\<lambda>_. con_event tty True p)))
      (\<lambda>_ v. carried (round_out tty (m_fd (lbcmd s)) (m_fd (lbcon s)) p) s v \<and> stocked k v) s"
    unfolding wpE_simps(1)
    by (rule wpE_mono [OF tty_event_carries [OF assms(1,2), of "length (up_cmd p) + (length (up_con p) + k)"]])
      (use assms(3) 2 [unfolded wpE_simps] in \<open>auto simp: round_size_def add.assoc\<close>)
  then show ?thesis unfolding nu_round_def wpE_simps using conn by simp
qed

lemma nu_run_carries:
  assumes "list_all good_poll ps" "both_linked s" "stocked (sum_list (map round_size ps)) s"
  shows "wpE (nu_run tty ps) (\<lambda>_ t. carried (\<lambda>f. concat (map (\<lambda>p. round_out tty (m_fd (lbcmd s)) (m_fd (lbcon s)) p f) ps)) s t) s"
  using assms
proof (induction ps arbitrary: s)
  case Nil
  then show ?case by (simp add: carried_nothing both_linked_def)
next
  case (Cons p ps)
  let ?o = "round_out tty (m_fd (lbcmd s)) (m_fd (lbcon s))"
  have "wpE (nu_round tty p) (\<lambda>_ t. carried (?o p) s t \<and> stocked (sum_list (map round_size ps)) t) s"
    using Cons.prems by (intro nu_round_carries) simp_all
  moreover have "wpE (nu_run tty ps) (\<lambda>_ u. carried (\<lambda>f. concat (map (\<lambda>p. ?o p f) (p # ps))) s u) t"
    if t: "carried (?o p) s t" "stocked (sum_list (map round_size ps)) t" for t
  proof -
    note l = carried_linked [OF t(1) Cons.prems(2)]
    have "wpE (nu_run tty ps) (\<lambda>_ u. carried (\<lambda>f. concat (map (\<lambda>p. ?o p f) ps)) t u) t"
      using Cons.IH [of t] l t(2) Cons.prems(1) by simp
    then show ?thesis using carried_trans [OF t(1)] by (auto elim!: wpE_mono)
  qed
  ultimately show ?case by (auto elim!: wpE_mono)
qed

lemma concat_parts:
  "concat (map (\<lambda>p. cmd_bytes (f p)) ps) = cmd_bytes (concat (map f ps))"
  "concat (map (\<lambda>p. con_bytes (f p)) ps) = con_bytes (concat (map f ps))"
  by (induction ps) (simp_all add: cmd_bytes_def con_bytes_def)

subsection \<open>Memory safety\<close>

lemma write_loop_safe: "write_loop bs as = (Inl e, out, as') \<Longrightarrow> e \<noteq> OutOfBounds"
  by (induction bs "as" arbitrary: out rule: write_loop.induct) (auto simp: Let_def split: if_splits prod.splits)

lemma lb_write_safe:
  assumes "lb_ok lb" "ln \<le> 256" "nu_ok s"
  shows "safeE (lb_write fd ln msk lb) (\<lambda>(nw, lb') t. lb_ok lb' \<and> nu_ok t) s"
  using assms by (auto simp: safeE_def lb_write_def Let_def lb_ok_def nu_ok_def split: prod.splits sum.splits dest: write_loop_safe)

lemma print_in_safe:
  assumes "lb_ok lb" "ln \<le> 256" "nu_ok s"
  shows "safeE (print_in ln pre lb) (\<lambda>lb' t. lb_ok lb' \<and> nu_ok t) s"
proof -
  obtain line len ts where "line_puts (take ln (m_buf lb)) (m_iline lb, m_ilen lb) = Inr (line, len, ts)" "length line = 512" "len < 511"
    using line_puts_ok [of "m_iline lb" "m_ilen lb" "take ln (m_buf lb)"] assms(1) by (auto simp: lb_ok_def)
  then show ?thesis using assms by (simp add: print_in_def lb_chars_def lb_ok_def nu_ok_def print_lines_def)
qed

lemma print_out_safe:
  assumes "lb_ok lb" "ln \<le> 256" "nu_ok s"
  shows "safeE (print_out ln pre lb) (\<lambda>lb' t. lb_ok lb' \<and> nu_ok t) s"
proof -
  let ?bs = "map (\<lambda>b. b AND 0x7f) (takeWhile (\<lambda>b. b \<noteq> 0) (take ln (m_buf lb)))"
  obtain line len ts where "line_puts ?bs (m_oline lb, m_olen lb) = Inr (line, len, ts)" "length line = 512" "len < 511"
    using line_puts_ok [of "m_oline lb" "m_olen lb" ?bs] assms(1) by (auto simp: lb_ok_def)
  then show ?thesis using assms by (simp add: print_out_def lb_chars_def lb_ok_def nu_ok_def print_lines_def)
qed

lemma lb_close_ok [simp]: "lb_ok (lb_close lb) = lb_ok lb"
  by (simp add: lb_close_def lb_ok_def)

lemma pass_on_safe:
  assumes "lb_ok lb" "n \<le> 256" "nu_ok s"
  shows "safeE (pass_on n lb) (\<lambda>lb' t. lb_ok lb' \<and> nu_ok t) s"
  using assms by (auto simp: pass_on_def intro!: safeE_mono [OF lb_write_safe])

lemma safeE_put [simp]: "safeE (put_cmd lb) Q s = Q () (s\<lparr>lbcmd := lb\<rparr>)" "safeE (put_con lb) Q s = Q () (s\<lparr>lbcon := lb\<rparr>)"
  by (simp_all add: put_cmd_def put_con_def)

lemma nu_ok_put [simp]: "nu_ok s \<Longrightarrow> lb_ok lb \<Longrightarrow> nu_ok (s\<lparr>lbcmd := lb\<rparr>)" "nu_ok s \<Longrightarrow> lb_ok lb \<Longrightarrow> nu_ok (s\<lparr>lbcon := lb\<rparr>)"
  by (simp_all add: nu_ok_def)

lemma nu_okD [simp]: "nu_ok s \<Longrightarrow> lb_ok (lbcmd s)" "nu_ok s \<Longrightarrow> lb_ok (lbcon s)"
  by (simp_all add: nu_ok_def)

lemma lb_ok_buf [simp]: "lb_ok lb \<Longrightarrow> length b = 256 \<Longrightarrow> lb_ok (lb\<lparr>m_buf := b\<rparr>)"
  by (simp add: lb_ok_def)

lemma tty_chunk_safe:
  assumes "nu_ok s" "length bs \<le> 256"
  shows "safeE (tty_chunk bs) (\<lambda>_. nu_ok) s"
proof -
  have len: "length (cmd_bytes bs) \<le> 256" "length (con_bytes bs) \<le> 256" using length_parts [of bs] assms(2) by auto
  obtain n b m c where "split_raw bs (0, m_buf (lbcmd s)) (0, m_buf (lbcon s)) = Inr ((n, b), (m, c))"
      "n \<le> 256" "m \<le> 256" "length b = 256" "length c = 256"
    using split_raw_eq [of 0 bs "m_buf (lbcmd s)" 0 "m_buf (lbcon s)"] assms(1) len by (simp add: nu_ok_def lb_ok_def)
  then show ?thesis unfolding tty_chunk_def using assms(1)
    by (auto simp: whenE_def intro!: safeE_mono [OF pass_on_safe] safeE_mono [OF print_in_safe])
qed

lemma tty_event_safe: "nu_ok s \<Longrightarrow> safeE (tty_event p) (\<lambda>_. nu_ok) s"
proof -
  have "nu_ok s \<Longrightarrow> safeE (tty_chunks rs) (\<lambda>_. nu_ok) s" for rs s
    by (induction rs arbitrary: s rule: tty_chunks.induct) (auto intro!: safeE_mono [OF tty_chunk_safe])
  then show "nu_ok s \<Longrightarrow> safeE (tty_event p) (\<lambda>_. nu_ok) s"
    by (auto simp: tty_event_def split: list.splits option.splits)
qed

lemma flush_out_safe: "lb_ok lb \<Longrightarrow> nu_ok s \<Longrightarrow> safeE (flush_out pre lb) (\<lambda>lb' t. lb_ok lb' \<and> nu_ok t) s"
  by (auto simp: flush_out_def buf_put_def lb_ok_def nu_ok_def print_lines_def)

lemma skt_event_safe:
  assumes "lb_ok lb" "nu_ok s"
  shows "safeE (skt_event tty msk pre r lb) (\<lambda>lb' t. lb_ok lb' \<and> nu_ok t) s"
proof -
  obtain nr lb' where lb': "lb_read r lb = Inr (nr, lb')" "lb_ok lb'" "nat nr \<le> 256"
    using assms(1) by (cases r) (auto simp: lb_read_def lb_ok_def Let_def store_at_def)
  then show ?thesis using assms
    by (auto simp: skt_event_def intro!: safeE_mono [OF flush_out_safe] safeE_mono [OF lb_write_safe] print_out_safe)
qed

lemma nu_round_safe: "nu_ok s \<Longrightarrow> safeE (nu_round tty p) (\<lambda>_. nu_ok) s"
  by (auto simp: nu_round_def cmd_event_def con_event_def whenE_def lb_accept_def lb_ok_def nu_ok_def
      intro!: safeE_mono [OF tty_event_safe] safeE_mono [OF skt_event_safe])

lemma nu_run_safe: "nu_ok s \<Longrightarrow> safeE (nu_run tty ps) (\<lambda>_. nu_ok) s"
  by (induction ps arbitrary: s) (auto intro!: safeE_mono [OF nu_round_safe])

lemma nu_start_ok:
  "list_all (\<lambda>(i, out, b). length i = 512 \<and> length out = 512 \<and> length b = 256) [j1, j2] \<Longrightarrow> nu_ok (nu_start j1 j2 as)"
  by (auto simp: nu_start_def LINBUFS_def nu_ok_def lb_ok_def)

lemma nu_run_sends:
  assumes "list_all good_poll ps" "both_linked s" "tty \<noteq> m_fd (lbcmd s)" "tty \<noteq> m_fd (lbcon s)"
    and "list_all (\<lambda>a. a \<noteq> WFail \<and> a \<noteq> Wrote 0) (answers s)" "sum_list (map round_size ps) \<le> length (filter (\<lambda>a. a \<noteq> Again) (answers s))"
  shows "\<exists>t. nu_run tty ps s = (Inr (), t) \<and>
    sent_to tty t = sent_to tty s @ concat (map (\<lambda>p. up_cmd p @ up_con p) ps) \<and>
    sent_to (m_fd (lbcmd s)) t = sent_to (m_fd (lbcmd s)) s @ cmd_bytes (concat (map down ps)) \<and>
    sent_to (m_fd (lbcon s)) t = sent_to (m_fd (lbcon s)) s @ con_bytes (concat (map down ps))"
proof -
  have "stocked (sum_list (map round_size ps)) s" using assms(5,6) by (simp add: stocked_def wcount_def)
  then obtain t where "nu_run tty ps s = (Inr (), t)"
    "carried (\<lambda>f. concat (map (\<lambda>p. round_out tty (m_fd (lbcmd s)) (m_fd (lbcon s)) p f) ps)) s t"
    using nu_run_carries [OF assms(1,2), of tty] by (auto simp: wpE_iff)
  then show ?thesis using assms(2-4) concat_parts [of down ps]
    by (simp add: carried_def round_out_def to_both_def only_to_def both_linked_def)
qed

subsection \<open>Properties\<close>

definition nu_junk :: "byte list \<times> byte list \<times> byte list" where
  "nu_junk = (replicate 512 0, replicate 512 0, replicate 256 0)"

definition nu_example :: "wans list \<Rightarrow> netuart" where
  "nu_example as = (nu_start nu_junk nu_junk as)\<lparr>lbcmd := (LINBUFS nu_junk)\<lparr>m_fd := 5, m_connected := True\<rparr>,
     lbcon := (LINBUFS nu_junk)\<lparr>m_fd := 6, m_connected := True\<rparr>\<rparr>"

definition quiet_poll :: nu_poll where
  "quiet_poll = \<lparr>poll_fails = False, tty_in = False, tty_other = False, tty_rd = [], cmd_in = False, cmd_accept = 0, cmd_rd = None,
     con_in = False, con_accept = 0, con_rd = None\<rparr>"

lemma nu_example_linked [simp]:
  "both_linked (nu_example as)" "m_fd (lbcmd (nu_example as)) = 5" "m_fd (lbcon (nu_example as)) = 6" "answers (nu_example as) = as"
  "sent_to f (nu_example as) = []"
  by (simp_all add: both_linked_def nu_example_def nu_start_def LINBUFS_def nu_junk_def nu_ok_def lb_ok_def sent_to_def)

text \<open>C12: the bridge carries both directions complete and in order. With both sockets connected and staying so, any number of rounds in which
  nothing fails, with writes that may be interrupted or partial but in the end accept what there is, return; the terminal
  has then received, round after round, the characters of the command socket with their top bit set and those
  of the console as they are, and each socket has received exactly the characters from the terminal that belong to it,
  without their top bit.\<close>

theorem netuart_bridges:
  assumes "list_all good_poll ps" "both_linked s" "tty \<noteq> m_fd (lbcmd s)" "tty \<noteq> m_fd (lbcon s)"
    and "list_all (\<lambda>a. a \<noteq> WFail \<and> a \<noteq> Wrote 0) (answers s)" "sum_list (map round_size ps) \<le> length (filter (\<lambda>a. a \<noteq> Again) (answers s))"
  shows "\<exists>t. nu_run tty ps s = (Inr (), t) \<and>
    sent_to tty t = sent_to tty s @ concat (map (\<lambda>p. up_cmd p @ up_con p) ps) \<and>
    sent_to (m_fd (lbcmd s)) t = sent_to (m_fd (lbcmd s)) s @ cmd_bytes (concat (map down ps)) \<and>
    sent_to (m_fd (lbcon s)) t = sent_to (m_fd (lbcon s)) s @ con_bytes (concat (map down ps))"
  by (rule nu_run_sends [OF assms])

theorem netuart_bridges_witness:
  "\<exists>t. nu_run 4 [quiet_poll\<lparr>cmd_in := True, cmd_rd := Some [0x41, 0x0a], con_in := True, con_rd := Some [0x62]\<rparr>,
        quiet_poll\<lparr>tty_in := True, tty_rd := [Some [0xd2, 0x33, 0x8a]]\<rparr>] (nu_example [Again, Wrote 1, Wrote 9, Wrote 1, Wrote 5, Wrote 1, Wrote 1]) = (Inr (), t) \<and>
     sent_to 4 t = [0xc1, 0x8a, 0x62] \<and> sent_to 5 t = [0x52, 0x0a] \<and> sent_to 6 t = [0x33]"
proof -
  let ?ps = "[quiet_poll\<lparr>cmd_in := True, cmd_rd := Some [0x41, 0x0a], con_in := True, con_rd := Some [0x62]\<rparr>,
        quiet_poll\<lparr>tty_in := True, tty_rd := [Some [0xd2, 0x33, 0x8a]]\<rparr>]"
  have "cmd_bytes [0xd2, 0x33, 0x8a] = [0x52, 0x0a]" "con_bytes [0xd2, 0x33, 0x8a] = [0x33]" by code_simp+
  moreover have "list_all good_poll ?ps" by (simp add: good_poll_def quiet_poll_def rd_out_def masked_def)
  ultimately show ?thesis
    using netuart_bridges [of ?ps "nu_example [Again, Wrote 1, Wrote 9, Wrote 1, Wrote 5, Wrote 1, Wrote 1]" 4]
    by (simp add: round_size_def down_def up_cmd_def up_con_def rd_out_def masked_def quiet_poll_def)
qed

text \<open>C13: the bridge never accesses its buffers out of range: from its start, with arrays of the declared sizes, no number of rounds ends in
  such an access, whatever the peers send, in whatever amounts, and whatever the system calls return.\<close>

theorem netuart_never_overruns:
  assumes "list_all (\<lambda>(i, out, b). length i = 512 \<and> length out = 512 \<and> length b = 256) [j1, j2]"
  shows "fst (nu_run tty ps (nu_start j1 j2 as)) \<noteq> Inl OutOfBounds"
  using nu_run_safe [OF nu_start_ok [OF assms], of tty ps "as"] by (auto simp: safeE_def split: prod.splits sum.splits)

theorem netuart_never_overruns_witness:
  "fst (nu_run 4 [quiet_poll\<lparr>cmd_in := True, cmd_accept := 5\<rparr>, quiet_poll\<lparr>cmd_in := True, cmd_rd := Some (replicate 1000 0x41)\<rparr>]
     (nu_start nu_junk nu_junk [Wrote 300])) \<noteq> Inl OutOfBounds"
  by (rule netuart_never_overruns) (simp add: nu_junk_def)

end
