(* ===== verification/RvConsole.thy ===== *)
theory RvConsole
  imports Prelude
begin

text \<open>
  The console and the heap of the RISC-V programs: the output functions of \<open>src/sw/rv32/txfns.c\<close> and the
  system calls of \<open>src/sw/rv32/syscalls.c\<close> that the C library uses.

  The serial port's registers are sequences: what the next reads of \<open>u_fifo\<close>, \<open>u_rx\<close> and \<open>u_tx\<close> return, and what has been
  written to \<open>u_tx\<close>. A loop that waits for a register never ends when no more values come; reads of \<open>u_rx\<close> after the end of its
  sequence find no character. The static variables are members of the state. \<open>char\<close> is unsigned on
  this machine. The system calls that only return an error are not modelled one by one.
\<close>

subsection \<open>Definitions\<close>

record rvsys =
  u_fifo :: "busw list"
  u_rx :: "busw list"
  u_tx_rd :: "busw list"
  u_tx :: "busw list"
  gpio :: "busw list"
  tx_last_was_cr :: bool
  in_last_was_cr :: bool
  heap :: busw
  errno :: int

type_synonym 'a rv_call = "(rvsys, 'a) call"

fun wait_for :: "(busw \<Rightarrow> bool) \<Rightarrow> busw list \<Rightarrow> exn + busw list" where
  "wait_for p [] = Inl Hang"
| "wait_for p (v # vs) = (if p v then Inr vs else wait_for p vs)"

definition UARTTX_READY :: "busw \<Rightarrow> bool" where "UARTTX_READY v \<longleftrightarrow> v AND 0x010000 \<noteq> 0"

definition tx_wait :: "unit rv_call" where
  "tx_wait s = (case wait_for UARTTX_READY (u_fifo s) of Inl e \<Rightarrow> (Inl e, s\<lparr>u_fifo := []\<rparr>) | Inr vs \<Rightarrow> (Inr (), s\<lparr>u_fifo := vs\<rparr>))"

definition tx_put :: "byte \<Rightarrow> unit rv_call" where
  "tx_put c = modifyE (\<lambda>s. s\<lparr>u_tx := u_tx s @ [ucast c]\<rparr>)"

definition txchr :: "byte \<Rightarrow> unit rv_call" where
  "txchr val =
     bindE (getsE tx_last_was_cr) (\<lambda>cr.
     bindE (whenE (\<not> cr \<and> val = 10) (bindE tx_wait (\<lambda>_. tx_put 13))) (\<lambda>_.
     bindE tx_wait (\<lambda>_. bindE (tx_put val) (\<lambda>_. modifyE (\<lambda>s. s\<lparr>tx_last_was_cr := (val = 13)\<rparr>)))))"

text \<open>The characters of a string, up to its null character; without one the loop leaves the array.\<close>

fun txstr :: "byte list \<Rightarrow> unit rv_call" where
  "txstr [] = throwE OutOfBounds"
| "txstr (c # cs) = (if c = 0 then returnE () else bindE (txchr c) (\<lambda>_. txstr cs))"

definition hex_char :: "busw \<Rightarrow> nat \<Rightarrow> byte" where
  "hex_char val i =
     (let ch = (drop_bit i val AND 0x0f) + 0x30;
          ch = (if ch > 0x39 then ch - 0x30 + 0x41 - 10 else ch)
      in ucast ch)"

fun txchrs :: "byte list \<Rightarrow> unit rv_call" where
  "txchrs [] = returnE ()"
| "txchrs (c # cs) = bindE (txchr c) (\<lambda>_. txchrs cs)"

definition txhex :: "busw \<Rightarrow> unit rv_call" where
  "txhex val = txchrs (map (hex_char val) [28, 24, 20, 16, 12, 8, 4, 0])"

text \<open>The digits, last one first, in the array \<open>tmp\<close>.\<close>

function dec_loop :: "busw \<Rightarrow> nat \<Rightarrow> byte list \<Rightarrow> exn + nat \<times> byte list" where
  "dec_loop uval nc tmp =
     (if 0 <s uval
      then let dval = uval div 10; digit = uval - dval * 10
           in case buf_put nc (ucast (digit + 0x30)) tmp of Inl e \<Rightarrow> Inl e | Inr tmp \<Rightarrow> dec_loop dval (nc + 1) tmp
      else Inr (nc, tmp))"
  by pat_completeness auto
termination
proof (relation "measure (\<lambda>(u, _, _). unat u)", goal_cases)
  case (2 u nc tmp)
  then have "u \<noteq> 0" by (auto simp: word_sless_alt)
  then show ?case using 2 by (simp add: unat_div unat_gt_0)
qed simp

declare dec_loop.simps [simp del]

text \<open>\<open>tmp\<close> has sixteen elements, with any content at first. \<open>-val\<close> wraps for the most negative number.\<close>

definition txdecimal :: "byte list \<Rightarrow> busw \<Rightarrow> unit rv_call" where
  "txdecimal tmp val =
     bindE (if val <s 0 then bindE (txchr 0x2d) (\<lambda>_. returnE (- val)) else bindE (txchr 0x20) (\<lambda>_. returnE val)) (\<lambda>uval.
     bindE (liftE (if uval = 0 then (case buf_put 0 0x30 tmp of Inl e \<Rightarrow> Inl e | Inr tmp \<Rightarrow> Inr (1, tmp)) else dec_loop uval 0 tmp)) (\<lambda>(nc, tmp).
     txchrs (rev (take nc tmp))))"

subsection \<open>System calls\<close>

definition outbyte :: "byte \<Rightarrow> unit rv_call" where
  "outbyte v =
     bindE (whenE (v = 10) (bindE tx_wait (\<lambda>_. tx_put 13))) (\<lambda>_. bindE tx_wait (\<lambda>_. tx_put v))"

definition rx_get :: "busw rv_call" where
  "rx_get s = (case u_rx s of [] \<Rightarrow> (Inr 0x100, s) | v # vs \<Rightarrow> (Inr v, s\<lparr>u_rx := vs\<rparr>))"

definition inbyte :: "busw rv_call" where
  "inbyte =
     bindE rx_get (\<lambda>rv. bindE (getsE in_last_was_cr) (\<lambda>cr.
     bindE (if rv AND 0x100 \<noteq> 0 then returnE (- 1)
            else if rv = 13 then bindE (modifyE (\<lambda>s. s\<lparr>in_last_was_cr := True\<rparr>)) (\<lambda>_. returnE 10)
            else if rv = 10 then (if cr then bindE (modifyE (\<lambda>s. s\<lparr>in_last_was_cr := False\<rparr>)) (\<lambda>_. returnE (- 1)) else returnE rv)
            else bindE (modifyE (\<lambda>s. s\<lparr>in_last_was_cr := False\<rparr>)) (\<lambda>_. returnE rv)) (\<lambda>rv.
     bindE (whenE (rv \<noteq> - 1) (outbyte (ucast rv))) (\<lambda>_. returnE rv))))"

text \<open>\<open>_read_r\<close> from the standard input: the first loop waits for a character, the second takes what is left. The result
  is what is stored in the caller's array of \<open>len\<close> bytes; the first character is stored without a look at \<open>len\<close>.\<close>

primrec read_first :: "nat \<Rightarrow> busw rv_call" where
  "read_first 0 = throwE Hang"
| "read_first (Suc n) = bindE inbyte (\<lambda>rv. if rv AND 0x100 \<noteq> 0 then read_first n else returnE rv)"

primrec read_more :: "nat \<Rightarrow> byte list rv_call" where
  "read_more 0 = returnE []"
| "read_more (Suc n) = bindE inbyte (\<lambda>rv.
     if rv AND 0x100 \<noteq> 0 then returnE [] else bindE (read_more n) (\<lambda>bs. returnE (ucast rv # bs)))"

definition read_r :: "int \<Rightarrow> nat \<Rightarrow> (int \<times> byte list) rv_call" where
  "read_r file len =
     (if file = 0 then
        bindE (getsE (length \<circ> u_rx)) (\<lambda>n. bindE (read_first n) (\<lambda>rv.
        if len = 0 then throwE OutOfBounds
        else bindE (read_more (len - 1)) (\<lambda>bs. returnE (int (length bs + 1), ucast rv # bs))))
      else bindE (modifyE (\<lambda>s. s\<lparr>errno := 88\<rparr>)) (\<lambda>_. returnE (- 1, [])))"

fun outbytes :: "byte list \<Rightarrow> unit rv_call" where
  "outbytes [] = returnE ()"
| "outbytes (c # cs) = bindE (outbyte c) (\<lambda>_. outbytes cs)"

definition write_r :: "int \<Rightarrow> byte list \<Rightarrow> nat \<Rightarrow> int rv_call" where
  "write_r fd cbuf nbytes =
     (if fd = 1 \<or> fd = 2
      then bindE (outbytes (take nbytes cbuf)) (\<lambda>_. if nbytes \<le> length cbuf then returnE (int nbytes) else throwE OutOfBounds)
      else bindE (modifyE (\<lambda>s. s\<lparr>errno := 9\<rparr>)) (\<lambda>_. returnE (- 1)))"

definition isatty_r :: "int \<Rightarrow> int" where "isatty_r file = (if file = 0 \<or> file = 1 \<or> file = 2 then 1 else 0)"

text \<open>\<open>_sbrk_r\<close>, with the linker's \<open>_end_of_heap\<close>; addresses of \<open>int\<close>s, so that one more is four bytes more.\<close>

definition oom_message :: "byte list" where
  "oom_message = map (of_nat \<circ> of_char) ''SBRK: OUT-OF-MEMORY!!'' @ [10, 0]"

definition sbrk_r :: "busw \<Rightarrow> busw \<Rightarrow> busw rv_call" where
  "sbrk_r end_of_heap sz =
     bindE (getsE heap) (\<lambda>prev.
     let new = prev + 4 * ((sz + 4 - 1) div 4) in
     if end_of_heap \<noteq> 0 \<and> new > end_of_heap then bindE (txstr oom_message) (\<lambda>_. returnE 0)
     else bindE (modifyE (\<lambda>s. s\<lparr>heap := new\<rparr>)) (\<lambda>_. returnE prev))"

text \<open>\<open>_exit\<close>: two blanks, then wait until the transmitter is idle, then tell the simulation to halt; it does not return.\<close>

definition exit_r :: "unit rv_call" where
  "exit_r =
     bindE (outbyte 0x20) (\<lambda>_. bindE (outbyte 0x20) (\<lambda>_.
     bindE (getsE u_tx_rd) (\<lambda>vs. bindE (liftE (wait_for (\<lambda>v. v AND 0x100 = 0) vs)) (\<lambda>vs.
     bindE (modifyE (\<lambda>s. s\<lparr>u_tx_rd := vs, gpio := gpio s @ [0x00080008]\<rparr>)) (\<lambda>_. throwE Hang)))))"

subsection \<open>Sending\<close>

text \<open>The next \<open>n\<close> characters find room: among the values of \<open>u_fifo\<close> to come are as many that say so.\<close>

definition room :: "nat \<Rightarrow> rvsys \<Rightarrow> bool" where
  "room n s \<longleftrightarrow> n \<le> length (filter UARTTX_READY (u_fifo s))"

text \<open>What sending changes: the characters written, the values used up, and the static variable.\<close>

definition sent :: "byte list \<Rightarrow> rvsys \<Rightarrow> rvsys \<Rightarrow> bool" where
  "sent bs s t \<longleftrightarrow> u_tx t = u_tx s @ map ucast bs \<and> u_rx t = u_rx s \<and> u_tx_rd t = u_tx_rd s \<and> gpio t = gpio s \<and>
     in_last_was_cr t = in_last_was_cr s \<and> heap t = heap s \<and> errno t = errno s"

lemma sent_trans: "sent bs s t \<Longrightarrow> sent cs t u \<Longrightarrow> sent (bs @ cs) s u"
  by (auto simp: sent_def)

lemma sent_nothing [simp]: "sent [] s s"
  by (simp add: sent_def)

lemma wait_for_room: "0 < length (filter p vs) \<Longrightarrow> \<exists>vs'. wait_for p vs = Inr vs' \<and> length (filter p vs') = length (filter p vs) - 1"
  by (induction vs) auto

lemma tx_put_room:
  assumes "room (Suc n) s"
  shows "wpE (bindE tx_wait (\<lambda>_. tx_put c)) (\<lambda>_ t. sent [c] s t \<and> tx_last_was_cr t = tx_last_was_cr s \<and> room n t) s"
proof -
  have "0 < length (filter UARTTX_READY (u_fifo s))" using assms unfolding room_def by linarith
  then obtain vs where "wait_for UARTTX_READY (u_fifo s) = Inr vs" "length (filter UARTTX_READY vs) = length (filter UARTTX_READY (u_fifo s)) - 1"
    using wait_for_room [of UARTTX_READY "u_fifo s"] by blast
  then show ?thesis using assms by (auto simp: wpE_def bindE_def tx_wait_def tx_put_def modifyE_def room_def sent_def)
qed

text \<open>The translation of line ends: a carriage return goes before every newline that does not follow one.\<close>

fun crlf :: "bool \<Rightarrow> byte list \<Rightarrow> byte list" where
  "crlf cr [] = []"
| "crlf cr (c # cs) = (if \<not> cr \<and> c = 10 then [13, 10] else [c]) @ crlf (c = 13) cs"

lemma wpE_whenE: "wpE (whenE b m) Q s \<longleftrightarrow> (if b then wpE m Q s else Q () s)"
  by (simp add: whenE_def)

lemma txchr_room:
  assumes "room (length (crlf cr [c]) + n) s" "tx_last_was_cr s = cr"
  shows "wpE (txchr c) (\<lambda>_ t. sent (crlf cr [c]) s t \<and> tx_last_was_cr t = (c = 13) \<and> room n t) s"
proof -
  let ?M = "bindE tx_wait (\<lambda>_. bindE (tx_put c) (\<lambda>_. modifyE (\<lambda>s. s\<lparr>tx_last_was_cr := (c = 13)\<rparr>)))"
  have one: "wpE ?M (\<lambda>_ u. sent [c] t u \<and> tx_last_was_cr u = (c = 13) \<and> room n u) t" if "room (Suc n) t" for t
  proof -
    have "wpE (bindE (bindE tx_wait (\<lambda>_. tx_put c)) (\<lambda>_. modifyE (\<lambda>s. s\<lparr>tx_last_was_cr := (c = 13)\<rparr>)))
      (\<lambda>_ u. sent [c] t u \<and> tx_last_was_cr u = (c = 13) \<and> room n u) t"
      unfolding wpE_simps(1) [of "bindE tx_wait (\<lambda>_. tx_put c)"]
      by (rule wpE_mono [OF tx_put_room [OF that, of c]]) (auto simp: sent_def room_def)
    then show ?thesis by (simp only: bindE_assoc)
  qed
  show ?thesis
  proof (cases "\<not> cr \<and> c = 10")
    case True
    then have "room (Suc (Suc n)) s" using assms(1) by simp
    then have "wpE (bindE tx_wait (\<lambda>_. tx_put 13)) (\<lambda>_ t. sent [13] s t \<and> room (Suc n) t) s"
      by (rule wpE_mono [OF tx_put_room]) simp
    moreover have "wpE ?M (\<lambda>_ u. sent (crlf cr [c]) s u \<and> tx_last_was_cr u = (c = 13) \<and> room n u) t" if "sent [13] s t \<and> room (Suc n) t" for t
      using that True sent_trans [of "[13]" s t "[c]"] by (intro wpE_mono [OF one]) auto
    ultimately have "wpE (bindE (bindE tx_wait (\<lambda>_. tx_put 13)) (\<lambda>_. ?M)) (\<lambda>_ u. sent (crlf cr [c]) s u \<and> tx_last_was_cr u = (c = 13) \<and> room n u) s"
      unfolding wpE_simps(1) [of "bindE tx_wait (\<lambda>_. tx_put 13)"] by (rule wpE_mono)
    then show ?thesis using True assms(2) by (simp add: txchr_def whenE_def)
  next
    case False
    then have "room (Suc n) s" "crlf cr [c] = [c]" using assms(1) by auto
    then show ?thesis using False assms(2) one [of s] by (auto simp: txchr_def whenE_def)
  qed
qed

lemma txchrs_room:
  assumes "room (length (crlf cr cs) + n) s" "tx_last_was_cr s = cr"
  shows "wpE (txchrs cs) (\<lambda>_ t. sent (crlf cr cs) s t \<and> room n t) s"
  using assms
proof (induction cs arbitrary: cr s)
  case (Cons c cs)
  have "wpE (txchr c) (\<lambda>_ t. sent (crlf cr [c]) s t \<and> tx_last_was_cr t = (c = 13) \<and> room (length (crlf (c = 13) cs) + n) t) s"
    using Cons.prems by (intro txchr_room) (auto simp: add.assoc)
  moreover have "wpE (txchrs cs) (\<lambda>_ u. sent (crlf cr (c # cs)) s u \<and> room n u) t"
    if "sent (crlf cr [c]) s t \<and> tx_last_was_cr t = (c = 13) \<and> room (length (crlf (c = 13) cs) + n) t" for t
  proof (rule wpE_mono [OF Cons.IH])
    fix x u assume "sent (crlf (c = 13) cs) t u \<and> room n u"
    then show "sent (crlf cr (c # cs)) s u \<and> room n u" using that sent_trans [of "crlf cr [c]" s t "crlf (c = 13) cs" u] by simp
  qed (use that in auto)
  ultimately show ?case unfolding txchrs.simps wpE_simps by (rule wpE_mono)
qed simp

lemma txstr_txchrs: "0 \<notin> set cs \<Longrightarrow> txstr (cs @ 0 # rest) = txchrs cs"
  by (induction cs) auto

lemma crlf_plain: "10 \<notin> set cs \<Longrightarrow> crlf cr cs = cs"
  by (induction cs arbitrary: cr) auto

subsection \<open>Numbers\<close>

text \<open>Reading the digits again.\<close>

definition hex_value :: "byte list \<Rightarrow> nat" where
  "hex_value = foldl (\<lambda>a c. 16 * a + (if unat c < 0x40 then unat c - 0x30 else unat c - 0x37)) 0"

definition dec_value :: "byte list \<Rightarrow> nat" where
  "dec_value = foldl (\<lambda>a c. 10 * a + (unat c - 0x30)) 0"

definition hex_digit :: "byte \<Rightarrow> bool" where
  "hex_digit c \<longleftrightarrow> 0x30 \<le> c \<and> c \<le> 0x39 \<or> 0x41 \<le> c \<and> c \<le> 0x46"

definition dec_digit :: "byte \<Rightarrow> bool" where
  "dec_digit c \<longleftrightarrow> 0x30 \<le> c \<and> c \<le> 0x39"

lemma hex_char_nibble:
  "unat (hex_char val i) = (let d = unat val div 2 ^ i mod 16 in if d < 10 then d + 0x30 else d + 0x37)"
proof -
  define d where "d = unat val div 2 ^ i mod 16"
  have "drop_bit i val AND 0x0f = of_nat (unat (drop_bit i val AND 0x0f))" by simp
  then have d: "d < 16" "drop_bit i val AND 0x0f = of_nat d" unfolding nibble by (simp_all add: d_def)
  then have "d \<in> set [0..<16]" by simp
  then have "unat (hex_char val i) = (if d < 10 then d + 0x30 else d + 0x37)"
    unfolding hex_char_def d(2) Let_def by (auto simp: upt_conv_Cons)
  then show ?thesis by (simp add: d_def)
qed

lemma hex_char_digit: "hex_digit (hex_char val i)"
proof -
  define d where "d = unat val div 2 ^ i mod 16"
  have "d < 16" by (simp add: d_def)
  then show ?thesis using hex_char_nibble [of val i] by (auto simp: hex_digit_def word_le_nat_alt d_def [symmetric] Let_def)
qed

lemma hex_digit_value:
  "(if unat (hex_char val i) < 0x40 then unat (hex_char val i) - 0x30 else unat (hex_char val i) - 0x37) = unat val div 2 ^ i mod 16"
  unfolding hex_char_nibble Let_def by (auto simp: not_less)

lemma hex_value_chars: "hex_value (map (hex_char val) [28, 24, 20, 16, 12, 8, 4, 0]) = unat val"
  using nibbles_value [of val] unfolding hex_value_def foldl_map hex_digit_value .

text \<open>The decimal digits.\<close>

lemma sless_pos:
  fixes u :: busw
  assumes "0 <s u"
  shows "0 < unat u" "unat u < 2 ^ 31"
proof -
  have "0 < sint u" using assms by (simp add: word_sless_alt)
  then have "\<not> bit u 31" using bit_last_iff [of u] by simp
  then have "\<not> bit (unat u) 31" by (simp add: bit_unsigned_iff)
  then have "even (unat u div 2 ^ 31)" unfolding bit_iff_odd by simp
  moreover have "unat u div 2 ^ 31 < 2" using unat_lt32 [of u] by (simp add: div_less_iff_less_mult)
  moreover have "even n \<Longrightarrow> n < 2 \<Longrightarrow> n = 0" for n :: nat by presburger
  ultimately have "unat u div 2 ^ 31 = 0" by blast
  then show "unat u < 2 ^ 31" by (simp add: div_eq_0_iff)
  show "0 < unat u" using \<open>0 < sint u\<close> by (auto simp: unat_gt_0)
qed

lemma sless_posI:
  fixes u :: busw
  assumes "u \<noteq> 0" "unat u < 2 ^ 31"
  shows "0 <s u"
proof -
  have "\<not> bit u 31" using not_bit_small [OF assms(2), of 31] by (simp add: bit_unsigned_iff)
  then have "\<not> sint u < 0" using bit_last_iff [of u] by simp
  moreover have "sint u \<noteq> 0" using assms(1) by (simp add: signed_eq_0_iff)
  ultimately show ?thesis by (simp add: word_sless_alt)
qed

lemma dec_step:
  fixes u :: busw
  shows "unat (ucast (u - u div 10 * 10 + 0x30) :: byte) = unat u mod 10 + 0x30" "unat (u div 10) = unat u div 10"
proof -
  have "u - u div 10 * 10 = u mod 10" by (simp add: minus_div_mult_eq_mod)
  moreover have "unat (u mod 10 + 0x30) = unat u mod 10 + 0x30"
    by (simp add: unat_word_ariths(1) unat_mod)
  ultimately show "unat (ucast (u - u div 10 * 10 + 0x30) :: byte) = unat u mod 10 + 0x30"
    by (simp add: unsigned_ucast_eq take_bit_nat_eq_self)
qed (simp add: unat_div)

text \<open>Enough of the array is left for the digits of \<open>u\<close>, which is below \<open>10 ^ k\<close>; they are stored least significant first.\<close>

lemma dec_loop_digits:
  assumes "unat u < 10 ^ k" "unat u < 2 ^ 31" "nc + k \<le> length tmp"
  shows "\<exists>ds. dec_loop u nc tmp = Inr (nc + length ds, take nc tmp @ ds @ drop (nc + length ds) tmp) \<and> length ds \<le> k \<and>
    list_all dec_digit ds \<and> dec_value (rev ds) = unat u \<and> (ds \<noteq> [] \<longrightarrow> last ds \<noteq> 0x30)"
  using assms
proof (induction k arbitrary: u nc tmp)
  case 0
  then show ?case by (intro exI [of _ "[]"]) (simp add: dec_loop.simps dec_value_def word_sless_alt unat_eq_0)
next
  case (Suc k)
  show ?case
  proof (cases "u = 0")
    case True
    then show ?thesis by (intro exI [of _ "[]"]) (simp add: dec_loop.simps dec_value_def word_sless_alt)
  next
    case False
    let ?c = "ucast (u - u div 10 * 10 + 0x30) :: byte"
    have pos: "0 <s u" using False Suc.prems(2) by (rule sless_posI)
    have "unat (u div 10) < 10 ^ k" "unat (u div 10) < 2 ^ 31" "Suc nc + k \<le> length (take nc tmp @ ?c # drop (Suc nc) tmp)"
      using Suc.prems by (simp_all add: dec_step(2) div_less_iff_less_mult mult.commute)
    from Suc.IH [OF this] obtain ds where
      ds: "dec_loop (u div 10) (Suc nc) (take nc tmp @ ?c # drop (Suc nc) tmp) =
          Inr (Suc nc + length ds, take (Suc nc) (take nc tmp @ ?c # drop (Suc nc) tmp) @ ds @ drop (Suc nc + length ds) (take nc tmp @ ?c # drop (Suc nc) tmp))"
        "length ds \<le> k" "list_all dec_digit ds" "dec_value (rev ds) = unat (u div 10)" "ds \<noteq> [] \<longrightarrow> last ds \<noteq> 0x30"
      by blast
    have put: "buf_put nc ?c tmp = Inr (take nc tmp @ ?c # drop (Suc nc) tmp)"
      using Suc.prems(3) by (simp add: buf_put_def upd_conv_take_nth_drop)
    have c: "unat ?c = unat u mod 10 + 0x30" by (rule dec_step)
    have "dec_digit ?c" using c by (simp add: dec_digit_def word_le_nat_alt del: unat_add_lem)
    moreover have "dec_value (rev (?c # ds)) = unat u"
    proof -
      have "dec_value (rev (?c # ds)) = 10 * dec_value (rev ds) + (unat ?c - 0x30)" by (simp add: dec_value_def)
      then show ?thesis unfolding ds(4) c dec_step(2) by simp
    qed
    moreover have "last (?c # ds) \<noteq> 0x30"
    proof (cases "ds = []")
      case True
      then have "unat u mod 10 \<noteq> 0" using ds(4) dec_step(2) [of u] False by (auto simp: dec_value_def div_eq_0_iff unat_eq_0)
      then have "unat ?c \<noteq> unat (0x30 :: byte)" unfolding c by simp
      then show ?thesis using True by auto
    qed (use ds(5) in simp)
    ultimately have "dec_digit ?c" "dec_value (rev (?c # ds)) = unat u" "?c # ds \<noteq> [] \<longrightarrow> last (?c # ds) \<noteq> 0x30" by blast+
    then show ?thesis using ds put pos Suc.prems(3)
      by (intro exI [of _ "?c # ds"]) (simp add: dec_loop.simps [of u] Let_def min_def add.commute)
  qed
qed

lemma plain_digits: "list_all dec_digit ds \<Longrightarrow> 10 \<notin> set ds" "list_all hex_digit hs \<Longrightarrow> 10 \<notin> set hs"
  by (auto simp: list_all_iff dec_digit_def hex_digit_def)

lemma txchrs_plain:
  assumes "10 \<notin> set cs" "room (length cs + n) s"
  shows "wpE (txchrs cs) (\<lambda>_ t. sent cs s t \<and> room n t) s"
  using txchrs_room [of "tx_last_was_cr s" cs n s] assms by (simp add: crlf_plain)

lemma txchr_plain:
  assumes "c \<noteq> 10" "room (Suc n) s"
  shows "wpE (txchr c) (\<lambda>_ t. sent [c] s t \<and> room n t) s"
  using txchrs_plain [of "[c]" n s] assms by simp

text \<open>The absolute value of the argument of \<open>txdecimal\<close>.\<close>

definition magnitude :: "busw \<Rightarrow> nat" where
  "magnitude val = nat \<bar>sint val\<bar>"

lemma magnitude_cases:
  fixes val :: busw
  shows "unat (if val <s 0 then - val else val) = magnitude val"
    and "val \<noteq> 0x80000000 \<Longrightarrow> magnitude val < 2 ^ 31"
proof -
  show "unat (if val <s 0 then - val else val) = magnitude val" by (simp only: unat_abs magnitude_def)
  assume v: "val \<noteq> 0x80000000"
  have "sint val \<noteq> - (2 ^ 31)"
  proof
    assume "sint val = - (2 ^ 31)"
    moreover have "val = of_int (sint val)" by simp
    ultimately show False using v by simp
  qed
  then show "magnitude val < 2 ^ 31" using sint_ge [of val] sint_lt [of val] by (simp add: magnitude_def)
qed

lemma txdecimal_digits:
  assumes "val \<noteq> 0x80000000" "length tmp = 16" "room (12 + n) s"
  shows "wpE (txdecimal tmp val) (\<lambda>_ t. \<exists>ds. sent ((if val <s 0 then 0x2d else 0x20) # ds) s t \<and> list_all dec_digit ds \<and>
    dec_value ds = magnitude val \<and> ds \<noteq> [] \<and> (hd ds = 0x30 \<longrightarrow> ds = [0x30])) s"
proof -
  let ?c = "if val <s 0 then 0x2d else 0x20 :: byte"
  let ?u = "if val <s 0 then - val else val"
  have u: "unat ?u = magnitude val" "magnitude val < 2 ^ 31" using magnitude_cases [of val] assms(1) by blast+
  obtain ds where ds: "(if ?u = 0 then (case buf_put 0 0x30 tmp of Inl e \<Rightarrow> Inl e | Inr tmp \<Rightarrow> Inr (1, tmp)) else dec_loop ?u 0 tmp) =
      Inr (length ds, ds @ drop (length ds) tmp)" "length ds \<le> 10" "list_all dec_digit ds" "dec_value (rev ds) = unat ?u"
      "ds \<noteq> []" "last ds = 0x30 \<longrightarrow> ds = [0x30]"
  proof (cases "?u = 0")
    case True
    then have "unat ?u = 0" by simp
    moreover have "buf_put 0 0x30 tmp = Inr ([0x30] @ drop 1 tmp)" using assms(2) by (cases tmp) (simp_all add: buf_put_def)
    ultimately show ?thesis using True by (intro that [of "[0x30]"]) (simp_all add: dec_digit_def dec_value_def)
  next
    case False
    obtain ds where "dec_loop ?u 0 tmp = Inr (length ds, ds @ drop (length ds) tmp)" "length ds \<le> 10" "list_all dec_digit ds"
      "dec_value (rev ds) = unat ?u" "ds \<noteq> [] \<longrightarrow> last ds \<noteq> 0x30"
      using dec_loop_digits [of ?u 10 0 tmp] u assms(2) by auto
    moreover from this have "ds \<noteq> []" using False by (auto simp: dec_value_def unat_eq_0)
    ultimately show ?thesis using False by (intro that [of ds]) simp_all
  qed
  have 2: "wpE (txchrs (rev ds)) (\<lambda>_ u. sent (?c # rev ds) s u) t" if "sent [?c] s t" "room (11 + n) t" for t
    using txchrs_plain [of "rev ds" 0 t] plain_digits(1) [OF ds(3)] ds(2) that sent_trans [of "[?c]" s t "rev ds"]
    by (auto simp: room_def elim!: wpE_mono)
  have "wpE (txchr ?c) (\<lambda>_ t. sent [?c] s t \<and> room (11 + n) t) s"
    using txchr_plain [of ?c "11 + n" s] assms(3) by simp
  then have w: "wpE (bindE (txchr ?c) (\<lambda>_. txchrs (rev ds))) (\<lambda>_ u. sent (?c # rev ds) s u) s"
    using 2 unfolding wpE_simps by (blast intro: wpE_mono)
  have e: "txdecimal tmp val = bindE (txchr ?c) (\<lambda>_. txchrs (rev ds))"
  proof -
    have lift: "bindE (liftE (Inr x)) f = f x" for x :: "nat \<times> byte list" and f :: "nat \<times> byte list \<Rightarrow> unit rv_call"
      by (simp add: fun_eq_iff bindE_def liftE_def)
    have "txdecimal tmp val = bindE (bindE (txchr ?c) (\<lambda>_. returnE ?u)) (\<lambda>uval.
        bindE (liftE (if uval = 0 then (case buf_put 0 0x30 tmp of Inl e \<Rightarrow> Inl e | Inr tmp \<Rightarrow> Inr (1, tmp)) else dec_loop uval 0 tmp)) (\<lambda>(nc, tmp).
        txchrs (rev (take nc tmp))))"
      by (simp add: txdecimal_def)
    then show ?thesis unfolding bindE_assoc returnE_bind ds(1) lift by simp
  qed
  have "hd (rev ds) = 0x30 \<longrightarrow> rev ds = [0x30]" using ds(5,6) by (auto simp: hd_rev)
  moreover have "list_all dec_digit (rev ds)" "dec_value (rev ds) = magnitude val" "rev ds \<noteq> []" using ds(3,4,5) u(1) by simp_all
  ultimately have post: "sent (?c # rev ds) s t \<Longrightarrow> \<exists>ds. sent (?c # ds) s t \<and> list_all dec_digit ds \<and> dec_value ds = magnitude val \<and>
      ds \<noteq> [] \<and> (hd ds = 0x30 \<longrightarrow> ds = [0x30])"
    for t by blast
  then show ?thesis using w unfolding e by (rule wpE_mono [rotated])
qed

subsection \<open>The standard input\<close>

text \<open>The line ends of the input: a carriage return becomes a newline, and a newline that follows one is dropped.\<close>

fun newlines :: "bool \<Rightarrow> byte list \<Rightarrow> byte list" where
  "newlines cr [] = []"
| "newlines cr (c # cs) =
     (if c = 13 then 10 # newlines True cs else if c = 10 \<and> cr then newlines False cs else c # newlines False cs)"

text \<open>The characters among the values of \<open>u_rx\<close>: the others have the bit of the empty receiver set.\<close>

definition rx_ok :: "busw list \<Rightarrow> bool" where
  "rx_ok vs \<longleftrightarrow> list_all (\<lambda>v. v AND 0x100 \<noteq> 0 \<or> v < 0x100) vs"

definition rx_chars :: "busw list \<Rightarrow> byte list" where
  "rx_chars vs = map ucast (filter (\<lambda>v. v AND 0x100 = 0) vs)"

definition echo :: "byte list \<Rightarrow> byte list" where
  "echo bs = concat (map (\<lambda>c. if c = 10 then [13, 10] else [c]) bs)"

lemma echo_append: "echo (xs @ ys) = echo xs @ echo ys"
  by (simp add: echo_def)

text \<open>Between two states the program has received \<open>bs\<close> and echoed it, and no character was lost.\<close>

definition fed :: "byte list \<Rightarrow> rvsys \<Rightarrow> rvsys \<Rightarrow> bool" where
  "fed bs s t \<longleftrightarrow> newlines (in_last_was_cr s) (rx_chars (u_rx s)) = bs @ newlines (in_last_was_cr t) (rx_chars (u_rx t)) \<and>
     u_tx t = u_tx s @ map ucast (echo bs) \<and> rx_ok (u_rx t) \<and> length (u_rx t) \<le> length (u_rx s)"

lemma fed_trans: "fed bs s t \<Longrightarrow> fed cs t u \<Longrightarrow> fed (bs @ cs) s u"
  by (auto simp: fed_def echo_append)

lemma fed_nothing: "rx_ok (u_rx s) \<Longrightarrow> fed [] s s"
  by (simp add: fed_def echo_def)

lemma outbyte_room:
  assumes "room (Suc (Suc n)) s"
  shows "wpE (outbyte c) (\<lambda>_ t. sent (echo [c]) s t \<and> room n t) s"
proof (cases "c = 10")
  case True
  have "wpE (bindE tx_wait (\<lambda>_. tx_put 13)) (\<lambda>_ t. sent [13] s t \<and> room (Suc n) t) s"
    by (rule wpE_mono [OF tx_put_room [OF assms]]) simp
  moreover have "wpE (bindE tx_wait (\<lambda>_. tx_put c)) (\<lambda>_ u. sent (echo [c]) s u \<and> room n u) t" if "sent [13] s t \<and> room (Suc n) t" for t
    using that True sent_trans [of "[13]" s t "[c]"] by (intro wpE_mono [OF tx_put_room]) (auto simp: echo_def)
  ultimately have "wpE (bindE (bindE tx_wait (\<lambda>_. tx_put 13)) (\<lambda>_. bindE tx_wait (\<lambda>_. tx_put c))) (\<lambda>_ u. sent (echo [c]) s u \<and> room n u) s"
    unfolding wpE_simps(1) [of "bindE tx_wait (\<lambda>_. tx_put 13)"] by (rule wpE_mono)
  then show ?thesis using True by (simp add: outbyte_def)
next
  case False
  have "room (Suc n) s" using assms by (simp add: room_def)
  then have "wpE (bindE tx_wait (\<lambda>_. tx_put c)) (\<lambda>_ t. sent (echo [c]) s t \<and> room n t) s"
    by (rule wpE_mono [OF tx_put_room]) (simp add: echo_def False)
  then show ?thesis using False by (simp add: outbyte_def)
qed

lemma bit8: "v < 0x100 \<Longrightarrow> v AND 0x100 = 0" for v :: busw
proof -
  assume "v < 0x100"
  then have "unat v < 2 ^ 8" by (simp add: word_less_nat_alt)
  then have "\<not> bit v 8" using not_bit_small [of "unat v" 8 8] by (simp add: bit_unsigned_iff)
  then show ?thesis using and_exp_eq_0_iff_not_bit [of v 8] by simp
qed

lemma inbyte_fed:
  assumes "rx_ok (u_rx s)" "room (2 * length (u_rx s)) s"
  shows "wpE inbyte (\<lambda>rv t. room (2 * length (u_rx t)) t \<and>
    (if rv AND 0x100 \<noteq> 0 then fed [] s t \<and> (u_rx s = [] \<or> length (u_rx t) < length (u_rx s)) else fed [ucast rv] s t)) s"
proof (cases "u_rx s")
  case Nil
  then show ?thesis using fed_nothing [OF assms(1)] assms(2) by (simp add: inbyte_def rx_get_def wpE_def bindE_def call_defs)
next
  case (Cons v vs)
  have ok: "rx_ok vs" "v AND 0x100 \<noteq> 0 \<or> v < 0x100" using assms(1) Cons by (auto simp: rx_ok_def)
  have get: "rx_get s = (Inr v, s\<lparr>u_rx := vs\<rparr>)" using Cons by (simp add: rx_get_def)
  have emit: "wpE inbyte (\<lambda>rv t. room (2 * length (u_rx t)) t \<and>
      (if rv AND 0x100 \<noteq> 0 then fed [] s t \<and> (u_rx s = [] \<or> length (u_rx t) < length (u_rx s)) else fed [ucast rv] s t)) s"
    if "inbyte s = bindE (outbyte (ucast w)) (\<lambda>_. returnE w) u" "w AND 0x100 = 0" "u_rx u = vs" "u_fifo u = u_fifo s"
      "\<And>t. sent (echo [ucast w]) u t \<Longrightarrow> fed [ucast w] s t" for u w
  proof -
    have "room (Suc (Suc (2 * length vs))) u" using assms(2) Cons that(4) by (simp add: room_def)
    then have "wpE (bindE (outbyte (ucast w)) (\<lambda>_. returnE w)) (\<lambda>rv t. rv = w \<and> sent (echo [ucast w]) u t \<and> room (2 * length vs) t) u"
      using outbyte_room by simp
    then have "wpE inbyte (\<lambda>rv t. rv = w \<and> sent (echo [ucast w]) u t \<and> room (2 * length vs) t) s" by (simp only: wpE_def that(1))
    then show ?thesis using that(2,3,5) by (auto simp: sent_def elim!: wpE_mono)
  qed
  consider (empty) "v AND 0x100 \<noteq> 0" | (cr) "v = 13" | (drop) "v = 10" "in_last_was_cr s" | (char) "v < 0x100" "v \<noteq> 13" "\<not> (v = 10 \<and> in_last_was_cr s)"
    using ok(2) by blast
  then show ?thesis
  proof cases
    case empty
    then have "inbyte s = (Inr (- 1), s\<lparr>u_rx := vs\<rparr>)" using get by (simp add: inbyte_def bindE_def call_defs whenE_def)
    then show ?thesis using empty Cons ok(1) assms(2) by (simp add: wpE_def fed_def rx_chars_def room_def echo_def)
  next
    case cr
    then have "inbyte s = bindE (outbyte 10) (\<lambda>_. returnE 10) (s\<lparr>u_rx := vs, in_last_was_cr := True\<rparr>)"
      using get by (simp add: inbyte_def bindE_def call_defs whenE_def)
    moreover have "fed [10] s t" if "sent (echo [10]) (s\<lparr>u_rx := vs, in_last_was_cr := True\<rparr>) t" for t
      using that cr Cons ok(1) by (simp add: sent_def fed_def rx_chars_def)
    ultimately show ?thesis using emit [of 10 "s\<lparr>u_rx := vs, in_last_was_cr := True\<rparr>"] by simp
  next
    case drop
    then have "inbyte s = (Inr (- 1), s\<lparr>u_rx := vs, in_last_was_cr := False\<rparr>)"
      using get by (simp add: inbyte_def bindE_def call_defs whenE_def)
    then show ?thesis using drop Cons ok(1) assms(2) by (simp add: wpE_def fed_def rx_chars_def room_def echo_def)
  next
    case char
    have v: "v AND 0x100 = 0" "v \<noteq> - 1" using bit8 [OF char(1)] char(1) by (auto simp: word_less_nat_alt)
    have same: "\<not> in_last_was_cr s \<Longrightarrow> s\<lparr>u_rx := vs, in_last_was_cr := False\<rparr> = s\<lparr>u_rx := vs\<rparr>" by (cases s) simp
    have small_eq: "(ucast v = (13 :: byte)) = (v = 13)" "(ucast v = (10 :: byte)) = (v = 10)"
      using char(1) by (auto simp: word_unat_eq_iff word_less_nat_alt unsigned_ucast_eq take_bit_nat_eq_self)
    have "inbyte s = bindE (outbyte (ucast v)) (\<lambda>_. returnE v) (s\<lparr>u_rx := vs, in_last_was_cr := False\<rparr>)"
    proof (cases "v = 10")
      case True
      then have "\<not> in_last_was_cr s" using char(3) by simp
      then show ?thesis unfolding same [OF \<open>\<not> in_last_was_cr s\<close>] using get True by (simp add: inbyte_def bindE_def call_defs whenE_def)
    qed (use get v char in \<open>simp add: inbyte_def bindE_def call_defs whenE_def\<close>)
    moreover have "fed [ucast v] s t" if "sent (echo [ucast v]) (s\<lparr>u_rx := vs, in_last_was_cr := False\<rparr>) t" for t
      using that char v Cons ok(1) by (simp add: sent_def fed_def rx_chars_def small_eq)
    ultimately show ?thesis using emit [of v "s\<lparr>u_rx := vs, in_last_was_cr := False\<rparr>"] v by simp
  qed
qed

lemma read_first_fed:
  assumes "rx_ok (u_rx s)" "room (2 * length (u_rx s)) s" "newlines (in_last_was_cr s) (rx_chars (u_rx s)) \<noteq> []" "length (u_rx s) \<le> n"
  shows "wpE (read_first n) (\<lambda>rv t. fed [ucast rv] s t \<and> room (2 * length (u_rx t)) t) s"
  using assms
proof (induction n arbitrary: s)
  case 0
  then show ?case by (simp add: rx_chars_def)
next
  case (Suc n)
  have ne: "u_rx s \<noteq> []" using Suc.prems(3) by (auto simp: rx_chars_def)
  have "wpE (read_first n) (\<lambda>rv t. fed [ucast rv] s t \<and> room (2 * length (u_rx t)) t) t"
    if "room (2 * length (u_rx t)) t" "fed [] s t" "length (u_rx t) < length (u_rx s)" for t
  proof (rule wpE_mono [OF Suc.IH])
    show "rx_ok (u_rx t)" "newlines (in_last_was_cr t) (rx_chars (u_rx t)) \<noteq> []" using that(2) Suc.prems(3) by (simp_all add: fed_def)
  qed (use that fed_trans [OF that(2)] Suc.prems(4) in auto)
  then show ?case unfolding read_first.simps wpE_simps
    by (intro wpE_mono [OF inbyte_fed [OF Suc.prems(1,2)]]) (use ne in \<open>auto split: if_splits\<close>)
qed

lemma read_more_fed:
  assumes "rx_ok (u_rx s)" "room (2 * length (u_rx s)) s"
  shows "wpE (read_more n) (\<lambda>bs t. fed bs s t \<and> length bs \<le> n) s"
  using assms
proof (induction n arbitrary: s)
  case 0
  then show ?case by (simp add: fed_nothing)
next
  case (Suc n)
  have "wpE (bindE (read_more n) (\<lambda>bs. returnE (ucast rv # bs))) (\<lambda>bs t. fed bs s t \<and> length bs \<le> Suc n) t"
    if "room (2 * length (u_rx t)) t" "fed [ucast rv] s t" for rv t
    unfolding wpE_simps
    by (rule wpE_mono [OF Suc.IH]) (use that fed_trans [OF that(2)] in \<open>auto simp: fed_def\<close>)
  then show ?case unfolding read_more.simps wpE_simps
    by (intro wpE_mono [OF inbyte_fed [OF Suc.prems(1,2)]]) (auto split: if_splits)
qed

text \<open>The standard output: every byte is sent, newlines with a carriage return before them.\<close>

lemma write_r_sends:
  assumes "fd = 1 \<or> fd = 2" "nbytes \<le> length cbuf" "room (2 * nbytes) s"
  shows "wpE (write_r fd cbuf nbytes) (\<lambda>r t. r = int nbytes \<and> sent (echo (take nbytes cbuf)) s t) s"
proof -
  have "wpE (outbytes cs) (\<lambda>_ t. sent (echo cs) s t) s" if "room (2 * length cs) s" for cs s
    using that
  proof (induction cs arbitrary: s)
    case (Cons c cs)
    have "wpE (outbytes cs) (\<lambda>_ u. sent (echo (c # cs)) s u) t" if "sent (echo [c]) s t \<and> room (2 * length cs) t" for t
      by (rule wpE_mono [OF Cons.IH]) (use that sent_trans [of "echo [c]" s t "echo cs"] in \<open>auto simp: echo_def\<close>)
    then show ?case unfolding outbytes.simps wpE_simps by (intro wpE_mono [OF outbyte_room]) (use Cons.prems in auto)
  qed (simp add: echo_def)
  from this [of "take nbytes cbuf" s] show ?thesis using assms by (auto simp: write_r_def elim!: wpE_mono)
qed

text \<open>Of the most negative number only the sign is printed: its negation is itself.\<close>

lemma txdecimal_most_negative:
  assumes "room 1 s"
  shows "wpE (txdecimal tmp 0x80000000) (\<lambda>_ t. sent [0x2d] s t) s"
proof -
  have neg: "(0x80000000 :: busw) <s 0" "\<not> 0 <s (0x80000000 :: busw)" by (simp_all add: word_sless_alt)
  have "- (0x80000000 :: busw) = 0x80000000" by simp
  then have "dec_loop (- 0x80000000) 0 tmp = Inr (0, tmp)" using neg(2) by (simp only: dec_loop.simps) simp
  moreover have "wpE (txchr 0x2d) (\<lambda>_ t. sent [0x2d] s t) s" using txchr_plain [of "0x2d" 0 s] assms by (auto elim!: wpE_mono)
  ultimately show ?thesis using neg(1) by (simp add: txdecimal_def)
qed

subsection \<open>The heap\<close>

text \<open>Requests one after the other; the pointers returned.\<close>

fun sbrks :: "busw \<Rightarrow> busw list \<Rightarrow> busw list rv_call" where
  "sbrks e [] = returnE []"
| "sbrks e (sz # szs) = bindE (sbrk_r e sz) (\<lambda>p. bindE (sbrks e szs) (\<lambda>ps. returnE (p # ps)))"

text \<open>The blocks handed out, with their sizes; a null pointer is a refusal.\<close>

definition blocks :: "busw list \<Rightarrow> busw list \<Rightarrow> (nat \<times> nat) list" where
  "blocks ps szs = map (\<lambda>(p, sz). (unat p, unat sz)) (filter (\<lambda>(p, sz). p \<noteq> 0) (zip ps szs))"

text \<open>Blocks inside \<open>[lo, hi]\<close>, each after the one before.\<close>

fun laid_out :: "nat \<Rightarrow> nat \<Rightarrow> (nat \<times> nat) list \<Rightarrow> bool" where
  "laid_out lo hi [] \<longleftrightarrow> lo \<le> hi"
| "laid_out lo hi ((p, n) # bs) \<longleftrightarrow> lo \<le> p \<and> laid_out (p + n) hi bs"

lemma laid_out_le: "laid_out lo hi bs \<Longrightarrow> k \<le> lo \<Longrightarrow> laid_out k hi bs"
  by (cases bs) auto

lemma rounded:
  fixes sz :: busw
  assumes "unat sz < 2 ^ 31"
  shows "unat sz \<le> unat (4 * ((sz + 4 - 1) div 4))" "unat (4 * ((sz + 4 - 1) div 4)) \<le> 2 ^ 31"
proof -
  have "unat (sz + 4 - 1) = unat sz + 3"
    using assms by (simp add: unat_word_ariths(1))
  then have "unat (4 * ((sz + 4 - 1) div 4)) = 4 * ((unat sz + 3) div 4)"
    using assms by (simp add: unat_word_ariths(2) unat_div)
  then show "unat sz \<le> unat (4 * ((sz + 4 - 1) div 4))" "unat (4 * ((sz + 4 - 1) div 4)) \<le> 2 ^ 31"
    using assms by simp_all
qed

lemma sbrk_r_keeps:
  assumes "unat sz < 2 ^ 31" "e \<noteq> 0" "unat e < 2 ^ 31" "0 < unat (heap s)" "unat (heap s) \<le> unat e" "room (24 + n) s"
  shows "wpE (sbrk_r e sz) (\<lambda>p t. room n t \<and> unat (heap s) \<le> unat (heap t) \<and> unat (heap t) \<le> unat e \<and>
    (p \<noteq> 0 \<longrightarrow> p = heap s \<and> unat p + unat sz \<le> unat (heap t))) s"
proof -
  let ?new = "heap s + 4 * ((sz + 4 - 1) div 4)"
  have new: "unat ?new = unat (heap s) + unat (4 * ((sz + 4 - 1) div 4))"
    using rounded(2) [OF assms(1)] assms(1,3,5) by (simp add: unat_word_ariths(1))
  show ?thesis
  proof (cases "?new > e")
    case True
    have m: "txstr oom_message = txchrs (butlast oom_message)" "length (crlf cr (butlast oom_message)) \<le> 24" for cr
      using txstr_txchrs [of "butlast oom_message" "[]"] by (simp_all add: oom_message_def)
    have "wpE (txstr oom_message) (\<lambda>_ t. sent (crlf (tx_last_was_cr s) (butlast oom_message)) s t \<and> room n t) s"
      unfolding m(1) using m(2) [of "tx_last_was_cr s"] assms(6) by (intro txchrs_room) (auto simp: room_def)
    then show ?thesis using True assms(2,5) by (auto simp: sbrk_r_def Let_def sent_def elim!: wpE_mono)
  next
    case False
    then have "unat ?new \<le> unat e" by (simp add: word_less_nat_alt)
    then show ?thesis using False new rounded(1) [OF assms(1)] assms(6) by (simp add: sbrk_r_def Let_def room_def)
  qed
qed

lemma sbrks_laid_out:
  assumes "list_all (\<lambda>sz. unat sz < 2 ^ 31) szs" "e \<noteq> 0" "unat e < 2 ^ 31" "0 < unat (heap s)" "unat (heap s) \<le> unat e" "room (24 * length szs) s"
  shows "wpE (sbrks e szs) (\<lambda>ps t. length ps = length szs \<and> laid_out (unat (heap s)) (unat e) (blocks ps szs)) s"
  using assms
proof (induction szs arbitrary: s)
  case Nil
  then show ?case by (simp add: blocks_def)
next
  case (Cons sz szs)
  have "wpE (bindE (sbrks e szs) (\<lambda>ps. returnE (p # ps))) (\<lambda>ps t. length ps = length (sz # szs) \<and> laid_out (unat (heap s)) (unat e) (blocks ps (sz # szs))) t"
    if t: "room (24 * length szs) t \<and> unat (heap s) \<le> unat (heap t) \<and> unat (heap t) \<le> unat e \<and> (p \<noteq> 0 \<longrightarrow> p = heap s \<and> unat p + unat sz \<le> unat (heap t))" for p t
    unfolding wpE_simps
  proof (rule wpE_mono [OF Cons.IH])
    fix ps u assume "length ps = length szs \<and> laid_out (unat (heap t)) (unat e) (blocks ps szs)"
    then show "length (p # ps) = length (sz # szs) \<and> laid_out (unat (heap s)) (unat e) (blocks (p # ps) (sz # szs))"
      using t by (auto simp: blocks_def elim: laid_out_le)
  qed (use t Cons.prems in auto)
  then show ?case unfolding sbrks.simps wpE_simps(1)
    by (intro wpE_mono [OF sbrk_r_keeps [where n = "24 * length szs"]]) (use Cons.prems in \<open>auto simp del: wpE_simps simp: wpE_simps(1) [symmetric]\<close>)
qed

subsection \<open>Properties\<close>

definition rv_example :: "busw list \<Rightarrow> rvsys" where
  "rv_example rx = \<lparr>u_fifo = concat (replicate 400 [0, 0x10000]), u_rx = rx, u_tx_rd = [], u_tx = [], gpio = [], tx_last_was_cr = False,
     in_last_was_cr = False, heap = 0x00a01000, errno = 0\<rparr>"

lemma rv_example_room [simp]: "n \<le> 400 \<Longrightarrow> room n (rv_example rx)"
proof -
  have "length (filter UARTTX_READY (concat (replicate k [0, 0x10000]))) = k" for k
    by (induction k) (simp_all add: UARTTX_READY_def)
  then show "n \<le> 400 \<Longrightarrow> room n (rv_example rx)" by (simp add: room_def rv_example_def)
qed

text \<open>The console of the RISC-V programs sends a string with its line ends translated. While the transmitter keeps finding room, \<open>txstr\<close> returns
  and has sent the characters of the string in order, with a carriage return before every newline that does not follow one.\<close>

lemma txstr_sends:
  assumes "0 \<notin> set cs" "length (crlf (tx_last_was_cr s) cs) \<le> length (filter UARTTX_READY (u_fifo s))"
  shows "\<exists>t. txstr (cs @ 0 # rest) s = (Inr (), t) \<and> u_tx t = u_tx s @ map ucast (crlf (tx_last_was_cr s) cs)"
  using txchrs_room [of "tx_last_was_cr s" cs 0 s] assms by (auto simp: txstr_txchrs room_def wpE_iff sent_def)

lemma txstr_sends_witness:
  "\<exists>t. txstr ([0x41, 10] @ 0 # []) (rv_example []) = (Inr (), t) \<and> u_tx t = [0x41, 13, 10]"
proof -
  have "length (crlf False [0x41, 10]) \<le> length (filter UARTTX_READY (u_fifo (rv_example [])))" using rv_example_room [of 3 "[]"] by (simp add: room_def)
  then show ?thesis using txstr_sends [of "[0x41, 10]" "rv_example []" "[]"] by (simp add: rv_example_def)
qed

text \<open>C33: numbers printed by \<open>txhex\<close> and \<open>txdecimal\<close> read back as the number: eight hexadecimal digits, and a sign or blank with the decimal digits of the
  absolute value without leading zeros; the sixteen characters of the buffer are enough. The most negative number is
  excepted.\<close>

theorem printed_numbers_read_back:
  assumes "length tmp = 16" "val \<noteq> 0x80000000" "room 20 s"
  shows "(\<exists>hs t. txhex val s = (Inr (), t) \<and> u_tx t = u_tx s @ map ucast hs \<and> length hs = 8 \<and> list_all hex_digit hs \<and> hex_value hs = unat val) \<and>
    (\<exists>ds t. txdecimal tmp val s = (Inr (), t) \<and> u_tx t = u_tx s @ map ucast ((if val <s 0 then 0x2d else 0x20) # ds) \<and>
      list_all dec_digit ds \<and> int (dec_value ds) = \<bar>sint val\<bar> \<and> ds \<noteq> [] \<and> (hd ds = 0x30 \<longrightarrow> ds = [0x30]))"
proof
  let ?hs = "map (hex_char val) [28, 24, 20, 16, 12, 8, 4, 0]"
  have hs: "list_all hex_digit ?hs" "length ?hs = 8" by (simp_all add: hex_char_digit)
  have "wpE (txhex val) (\<lambda>_ t. sent ?hs s t) s"
    using txchrs_plain [OF plain_digits(2) [OF hs(1)], of 0 s] assms(3) hs(2) by (auto simp: txhex_def room_def simp del: list.map elim!: wpE_mono)
  then show "\<exists>hs t. txhex val s = (Inr (), t) \<and> u_tx t = u_tx s @ map ucast hs \<and> length hs = 8 \<and> list_all hex_digit hs \<and> hex_value hs = unat val"
    using hs hex_value_chars [of val] by (intro exI [of _ ?hs]) (auto simp: wpE_iff sent_def simp del: list.map)
next
  have "room (12 + 8) s" using assms(3) by simp
  from txdecimal_digits [OF assms(2,1) this] obtain v t ds where
    v: "txdecimal tmp val s = (Inr v, t)" and "sent ((if val <s 0 then 0x2d else 0x20) # ds) s t" "list_all dec_digit ds"
    "dec_value ds = magnitude val" "ds \<noteq> []" "hd ds = 0x30 \<longrightarrow> ds = [0x30]"
    unfolding wpE_iff by blast
  then show "\<exists>ds t. txdecimal tmp val s = (Inr (), t) \<and> u_tx t = u_tx s @ map ucast ((if val <s 0 then 0x2d else 0x20) # ds) \<and>
      list_all dec_digit ds \<and> int (dec_value ds) = \<bar>sint val\<bar> \<and> ds \<noteq> [] \<and> (hd ds = 0x30 \<longrightarrow> ds = [0x30])"
    by (intro exI [of _ ds] exI [of _ t]) (use v in \<open>simp add: sent_def magnitude_def\<close>)
qed

theorem printed_numbers_read_back_witness:
  "(\<exists>hs t. txhex 0xffffff85 (rv_example []) = (Inr (), t) \<and> u_tx t = map ucast hs \<and> length hs = 8 \<and> hex_value hs = 0xffffff85) \<and>
   (\<exists>ds t. txdecimal (replicate 16 0) 0xffffff85 (rv_example []) = (Inr (), t) \<and> u_tx t = map ucast (0x2d # ds) \<and> dec_value ds = 123)"
proof -
  have val: "(0xffffff85 :: busw) <s 0" "\<bar>sint (0xffffff85 :: busw)\<bar> = 123" "(0xffffff85 :: busw) \<noteq> 0x80000000" "unat (0xffffff85 :: busw) = 0xffffff85"
    by (simp_all add: word_sless_alt)
  have tx: "u_tx (rv_example []) = []" by (simp add: rv_example_def)
  have "int (dec_value ds) = 123 \<Longrightarrow> dec_value ds = 123" for ds by simp
  then show ?thesis
    using printed_numbers_read_back [OF length_replicate val(3) rv_example_room [of 20 "[]"], of 0] tx val by auto
qed

text \<open>C15: reading the standard input loses no character. With characters waiting that give at least one after the translation of line ends (a carriage return is a
  newline, a newline after one is dropped), a read of one byte or more returns, with between one and the requested number of
  characters; they are the next ones of the translated input, what is left for the next read is the rest of it, and exactly the characters returned
  have been echoed.\<close>

theorem read_r_loses_nothing:
  assumes "rx_ok (u_rx s)" "2 * length (u_rx s) \<le> length (filter UARTTX_READY (u_fifo s))"
    and "newlines (in_last_was_cr s) (rx_chars (u_rx s)) \<noteq> []" "0 < len"
  shows "\<exists>bs t. read_r 0 len s = (Inr (int (length bs), bs), t) \<and> 0 < length bs \<and> length bs \<le> len \<and>
    newlines (in_last_was_cr s) (rx_chars (u_rx s)) = bs @ newlines (in_last_was_cr t) (rx_chars (u_rx t)) \<and>
    u_tx t = u_tx s @ map ucast (echo bs)"
proof -
  have room: "room (2 * length (u_rx s)) s" using assms(2) by (simp add: room_def)
  have "wpE (bindE (read_more (len - 1)) (\<lambda>bs. returnE (int (length bs + 1), ucast rv # bs)))
      (\<lambda>r u. \<exists>bs. r = (int (length bs), bs) \<and> bs \<noteq> [] \<and> length bs \<le> len \<and> fed bs s u) t"
    if "fed [ucast rv] s t \<and> room (2 * length (u_rx t)) t" for rv t
    unfolding wpE_simps
    by (rule wpE_mono [OF read_more_fed]) (use that fed_trans [of "[ucast rv]" s t] assms(4) in \<open>auto simp: fed_def\<close>)
  then have "wpE (read_r 0 len) (\<lambda>r u. \<exists>bs. r = (int (length bs), bs) \<and> bs \<noteq> [] \<and> length bs \<le> len \<and> fed bs s u) s"
    using assms(4) read_first_fed [OF assms(1) room assms(3) order_refl] unfolding read_r_def
    by (auto simp del: wpE_simps(1) simp: wpE_simps(1) [of "getsE f" for f] wpE_simps(1) [of "read_first n" for n] elim!: wpE_mono)
  then show ?thesis by (auto simp: wpE_iff fed_def)
qed

theorem read_r_loses_nothing_witness:
  "\<exists>bs t. read_r 0 8 (rv_example [0x100, 0x61, 0x0d, 0x0a, 0x62]) = (Inr (int (length bs), bs), t) \<and> 0 < length bs \<and> length bs \<le> 8 \<and>
    [0x61, 0x0a, 0x62] = bs @ newlines (in_last_was_cr t) (rx_chars (u_rx t)) \<and> u_tx t = map ucast (echo bs)"
proof -
  let ?s = "rv_example [0x100, 0x61, 0x0d, 0x0a, 0x62]"
  have s: "u_rx ?s = [0x100, 0x61, 0x0d, 0x0a, 0x62]" "in_last_was_cr ?s = False" "u_tx ?s = []" by (simp_all add: rv_example_def)
  have "2 * length (u_rx ?s) \<le> length (filter UARTTX_READY (u_fifo ?s))"
    using rv_example_room [of 10 "[0x100, 0x61, 0x0d, 0x0a, 0x62]"] by (simp add: room_def s)
  moreover have "rx_ok (u_rx ?s)" "rx_chars (u_rx ?s) = [0x61, 0x0d, 0x0a, 0x62]" unfolding s by (code_simp, code_simp)
  ultimately show ?thesis using read_r_loses_nothing [of ?s 8] s by simp
qed

text \<open>C34: the blocks the heap hands out do not overlap. For any sequence of requests of non-negative sizes, with the heap below
  the end the linker gives and that in the lower half of the address space, the calls return, and the blocks of the requests that were
  not refused lie between the start and the end of the heap, each after the one before.\<close>

theorem heap_blocks_disjoint:
  assumes "list_all (\<lambda>sz. unat sz < 2 ^ 31) szs" "e \<noteq> 0" "unat e < 2 ^ 31" "0 < unat (heap s)" "unat (heap s) \<le> unat e"
    and "24 * length szs \<le> length (filter UARTTX_READY (u_fifo s))"
  shows "\<exists>ps t. sbrks e szs s = (Inr ps, t) \<and> length ps = length szs \<and> laid_out (unat (heap s)) (unat e) (blocks ps szs)"
  using sbrks_laid_out [OF assms(1-5)] assms(6) by (auto simp: room_def wpE_iff)

theorem heap_blocks_disjoint_witness:
  "\<exists>ps t. sbrks 0x00a02000 [100, 5, 5000] (rv_example []) = (Inr ps, t) \<and> length ps = 3 \<and>
     laid_out 0x00a01000 0x00a02000 (blocks ps [100, 5, 5000])"
proof -
  have "24 * length [100, 5, 5000 :: busw] \<le> length (filter UARTTX_READY (u_fifo (rv_example [])))"
    using rv_example_room [of 72 "[]"] by (simp add: room_def)
  moreover have "heap (rv_example []) = 0x00a01000" by (simp add: rv_example_def)
  ultimately show ?thesis using heap_blocks_disjoint [of "[100, 5, 5000]" "0x00a02000" "rv_example []"] by (simp add: numeral_3_eq_3 del: sbrks.simps)
qed

end
