(* ===== verification/Bootloader.thy ===== *)
theory Bootloader
  imports Prelude
begin

text \<open>
  The boot loader of the RISC-V programs (\<open>src/sw/rv32/bootloader.c\<close>; the version without DMA in \<open>src/sw/zlib/crt0.c\<close> has the
  same text): it copies the image from flash to the block RAM and the main memory and clears the rest.

  The pointers are pointers to \<open>int\<close>: an address counts words here, and a null pointer is the address 0. The symbols the linker
  defines are the record \<open>linker\<close>. The memory is a function; every access goes to it, so that a copy that
  overwrites its own source is visible.
\<close>

subsection \<open>Definitions\<close>

type_synonym memory = "nat \<Rightarrow> busw"

record linker =
  rom :: nat
  kram :: nat
  ram :: nat
  kram_start :: nat
  kram_end :: nat
  ram_image_end :: nat
  bss_image_end :: nat

text \<open>\<open>*wrp++ = *rdp++\<close> and \<open>*wrp++ = 0\<close>, a number of times.\<close>

fun copy_words :: "nat \<Rightarrow> nat \<times> nat \<times> memory \<Rightarrow> nat \<times> nat \<times> memory" where
  "copy_words 0 s = s"
| "copy_words (Suc n) (wrp, rdp, m) = copy_words n (wrp + 1, rdp + 1, m(wrp := m rdp))"

fun clear_words :: "nat \<Rightarrow> nat \<Rightarrow> memory \<Rightarrow> memory" where
  "clear_words 0 wrp m = m"
| "clear_words (Suc n) wrp m = clear_words n (wrp + 1) (m(wrp := 0))"

text \<open>A loop \<open>while (wrp < e)\<close> and one over \<open>i < e - b\<close> run the truncated difference of times.\<close>

definition bootloader :: "linker \<Rightarrow> memory \<Rightarrow> memory" where
  "bootloader l m =
     (if rom l = 0 then clear_words (ram_image_end l - ram_image_end l) (ram_image_end l) m
      else
        let wrp = (if kram l \<noteq> 0 then kram l else ram l); rdp = kram_start l;
            (wrp, rdp, m) = (if kram_end l \<noteq> kram_start l then copy_words (kram_end l - wrp) (wrp, rdp, m) else (wrp, rdp, m));
            wrp = (if ram l \<noteq> 0 then ram l else wrp);
            (wrp, rdp, m) = copy_words (ram_image_end l - ram l) (wrp, rdp, m)
        in clear_words (bss_image_end l - ram_image_end l) wrp m)"

subsection \<open>Copying\<close>

text \<open>A copy whose source and destination do not overlap.\<close>

lemma copy_words_eq:
  assumes "rdp + n \<le> wrp \<or> wrp + n \<le> rdp"
  shows "copy_words n (wrp, rdp, m) = (wrp + n, rdp + n, (\<lambda>a. if wrp \<le> a \<and> a < wrp + n then m (rdp + (a - wrp)) else m a))"
  using assms
proof (induction n arbitrary: wrp rdp m)
  case (Suc n)
  have "rdp + 1 + n \<le> wrp + 1 \<or> wrp + 1 + n \<le> rdp + 1" using Suc.prems by linarith
  note ih = Suc.IH [OF this, of "m(wrp := m rdp)"]
  have "(if wrp + 1 \<le> a \<and> a < wrp + 1 + n then (m(wrp := m rdp)) (rdp + 1 + (a - (wrp + 1))) else (m(wrp := m rdp)) a) =
      (if wrp \<le> a \<and> a < wrp + Suc n then m (rdp + (a - wrp)) else m a)" for a
  proof (cases "wrp + 1 \<le> a \<and> a < wrp + 1 + n")
    case True
    then have "rdp + 1 + (a - (wrp + 1)) = rdp + (a - wrp)" by linarith
    moreover have "rdp + (a - wrp) \<noteq> wrp" using True Suc.prems by linarith
    ultimately show ?thesis using True by simp
  qed auto
  then show ?case unfolding copy_words.simps ih by (simp add: fun_eq_iff)
qed (auto simp: fun_eq_iff)

lemma clear_words_eq: "clear_words n wrp m = (\<lambda>a. if wrp \<le> a \<and> a < wrp + n then 0 else m a)"
proof (induction n wrp m rule: clear_words.induct)
  case (2 n wrp m)
  show ?case unfolding clear_words.simps "2.IH" by (auto simp: fun_eq_iff)
qed (auto simp: fun_eq_iff)

text \<open>The linker's layout: the image in flash, block RAM and main memory are apart; without block RAM there is no image for it.\<close>

definition klen :: "linker \<Rightarrow> nat" where
  "klen l = (if kram_end l \<noteq> kram_start l then kram_end l - kram l else 0)"

definition apart :: "nat \<Rightarrow> nat \<Rightarrow> nat \<Rightarrow> nat \<Rightarrow> bool" where
  "apart a n b k \<longleftrightarrow> a + n \<le> b \<or> b + k \<le> a"

definition layout :: "linker \<Rightarrow> bool" where
  "layout l \<longleftrightarrow> rom l \<noteq> 0 \<and> ram l \<noteq> 0 \<and> ram l \<le> ram_image_end l \<and> ram_image_end l \<le> bss_image_end l \<and>
     (kram_end l \<noteq> kram_start l \<longrightarrow> kram l \<noteq> 0 \<and> kram l \<le> kram_end l) \<and>
     apart (kram_start l) (klen l + (ram_image_end l - ram l)) (ram l) (bss_image_end l - ram l) \<and>
     apart (kram_start l) (klen l + (ram_image_end l - ram l)) (kram l) (klen l) \<and>
     apart (kram l) (klen l) (ram l) (bss_image_end l - ram l)"

text \<open>C16: the boot loader loads the program. With a layout in which the regions do not overlap, the block RAM and the main memory end up with the
  consecutive parts of the image that starts at \<open>_kram_start\<close> in flash, the words from the end of the image to the end of the
  uninitialised data are zero, and no other word of memory has changed.\<close>

theorem bootloader_loads:
  assumes "layout l"
  shows "bootloader l m a =
    (if ram_image_end l \<le> a \<and> a < bss_image_end l then 0
     else if ram l \<le> a \<and> a < ram_image_end l then m (kram_start l + klen l + (a - ram l))
     else if kram l \<le> a \<and> a < kram l + klen l then m (kram_start l + (a - kram l))
     else m a)"
proof -
  have l: "rom l \<noteq> 0" "ram l \<noteq> 0" "ram l \<le> ram_image_end l" "ram_image_end l \<le> bss_image_end l"
    and far: "apart (kram_start l) (klen l + (ram_image_end l - ram l)) (ram l) (bss_image_end l - ram l)"
      "apart (kram_start l) (klen l + (ram_image_end l - ram l)) (kram l) (klen l)"
      "apart (kram l) (klen l) (ram l) (bss_image_end l - ram l)"
    using assms by (auto simp: layout_def)
  let ?k = "if kram l \<noteq> 0 then kram l else ram l"
  let ?m = "\<lambda>a. if kram l \<le> a \<and> a < kram l + klen l then m (kram_start l + (a - kram l)) else m a"
  have 1: "(if kram_end l \<noteq> kram_start l then copy_words (kram_end l - ?k) (?k, kram_start l, m) else (?k, kram_start l, m)) =
      (?k + klen l, kram_start l + klen l, ?m)"
  proof (cases "kram_end l = kram_start l")
    case False
    then have "kram l \<noteq> 0" "klen l = kram_end l - kram l" using assms by (auto simp: layout_def klen_def)
    then show ?thesis using False far(2) copy_words_eq [of "kram_start l" "klen l" "kram l" m] by (auto simp: apart_def)
  qed (auto simp: klen_def fun_eq_iff)
  let ?n = "ram_image_end l - ram l"
  have 2: "copy_words ?n (ram l, kram_start l + klen l, ?m) =
      (ram l + ?n, kram_start l + klen l + ?n, (\<lambda>a. if ram l \<le> a \<and> a < ram l + ?n then ?m (kram_start l + klen l + (a - ram l)) else ?m a))"
    using far(1) l by (intro copy_words_eq) (auto simp: apart_def)
  have "?m (kram_start l + klen l + (a - ram l)) = m (kram_start l + klen l + (a - ram l))" if "ram l \<le> a" "a < ram_image_end l"
    using far(2) that by (auto simp: apart_def)
  moreover have "bootloader l m = clear_words (bss_image_end l - ram_image_end l) (ram l + ?n)
      (\<lambda>a. if ram l \<le> a \<and> a < ram l + ?n then ?m (kram_start l + klen l + (a - ram l)) else ?m a)"
    unfolding bootloader_def Let_def 1 using l 2 by simp
  ultimately show ?thesis using l unfolding clear_words_eq by auto
qed

definition linker_example :: linker where
  "linker_example = \<lparr>rom = 1000, kram = 100, ram = 200, kram_start = 1010, kram_end = 103, ram_image_end = 204, bss_image_end = 206\<rparr>"

theorem bootloader_loads_witness:
  "map (bootloader linker_example of_nat) [100, 102, 103, 200, 203, 204, 205, 206] = [1010, 1012, 103, 1013, 1016, 0, 0, 206]"
proof -
  have "layout linker_example" by (simp add: layout_def linker_example_def klen_def apart_def)
  then show ?thesis using bootloader_loads [of linker_example of_nat] by (simp add: linker_example_def klen_def)
qed

end
