(* ===== verification/CFormat.thy ===== *)
theory CFormat
  imports Prelude
begin

text \<open>
  What the programs use of the standard library: the numbers \<open>printf\<close> writes, and comparisons of strings. The text of a line is a \<open>string\<close>.
\<close>

definition digit :: "nat \<Rightarrow> char" where
  "digit d = char_of (if d < 10 then 48 + d else 87 + d)"

fun decimal :: "nat \<Rightarrow> string" where
  "decimal n = (if n < 10 then [digit n] else decimal (n div 10) @ [digit (n mod 10)])"

declare decimal.simps [simp del]

definition fmt_int :: "int \<Rightarrow> string" where
  "fmt_int i = (if i < 0 then ''-'' @ decimal (nat (- i)) else decimal (nat i))"

definition fmt_d :: "busw \<Rightarrow> string" where
  "fmt_d v = fmt_int (sint v)"

definition fmt_ld :: "u64 \<Rightarrow> string" where
  "fmt_ld v = fmt_int (sint v)"

text \<open>A minimal width: the number is moved to the right.\<close>

definition pad_left :: "nat \<Rightarrow> string \<Rightarrow> string" where
  "pad_left n s = replicate (n - length s) (CHR '' '') @ s"

definition fmt_08x :: "busw \<Rightarrow> string" where
  "fmt_08x v = map (\<lambda>i. digit (unat (drop_bit i v AND 0xf))) [28, 24, 20, 16, 12, 8, 4, 0]"

text \<open>Comparisons that do not tell upper from lower case.\<close>

definition to_upper :: "char \<Rightarrow> char" where
  "to_upper c = (let n = of_char c :: nat in if 97 \<le> n \<and> n \<le> 122 then char_of (n - 32) else c)"

definition casecmp :: "string \<Rightarrow> string \<Rightarrow> bool" where
  "casecmp s t \<longleftrightarrow> map to_upper s = map to_upper t"

definition char_at :: "string \<Rightarrow> nat \<Rightarrow> char" where
  "char_at s i = (if i < length s then s ! i else CHR 0x00)"

lemma decimal_length: "n < 10 ^ Suc k \<Longrightarrow> length (decimal n) \<le> Suc k"
proof (induction k arbitrary: n)
  case (Suc k)
  then have "n div 10 < 10 ^ Suc k" by (simp add: less_mult_imp_div_less)
  then show ?case using Suc.IH [of "n div 10"] by (subst decimal.simps) simp
qed (simp add: decimal.simps)

lemma fmt_d_length: "length (fmt_d v) \<le> 11"
proof -
  have "\<bar>sint v\<bar> \<le> 2 ^ 31" using sint_range_size [of v] by (auto simp: word_size)
  then have "nat \<bar>sint v\<bar> < 10 ^ Suc 9" by simp
  from decimal_length [OF this] show ?thesis by (auto simp: fmt_d_def fmt_int_def abs_if split: if_splits)
qed

lemma fmt_08x_length [simp]: "length (fmt_08x v) = 8"
  by (simp add: fmt_08x_def)

end
