(* ===== verification/ZOpcodes.thy ===== *)
theory ZOpcodes
  imports Twoc CFormat
begin

text \<open>
  The disassembler of the ZipCPU (\<open>src/sw/host/zopcodes.cpp\<close>, \<open>zopcodes.h\<close>) that the debugger shows its
  instructions with: two tables of opcodes, each with a mask, a value and the places of its operands in the instruction, and
  the printing of the first opcode that matches.

  A \<open>char\<close> array that holds a string is a \<open>string\<close>. The code prints some lines onto themselves
  (\<open>sprintf(line, "%-11s", line)\<close>); the model has the result that is meant, and that a library which formats
  from left to right gives.
\<close>

subsection \<open>Fields of an instruction\<close>

definition ZIP_OPUNUSED :: busw where
  "ZIP_OPUNUSED = 0xffffffff"

definition ZIP_BITFIELD :: "busw \<Rightarrow> busw \<Rightarrow> busw" where
  "ZIP_BITFIELD ln mn = push_bit 8 (ln AND 0xff) + (mn AND 0xff)"

definition ZIP_REGFIELD :: "busw \<Rightarrow> busw" where
  "ZIP_REGFIELD mn = 0x400 + (mn AND 0xff)"

definition ZIP_URGFIELD :: "busw \<Rightarrow> busw" where
  "ZIP_URGFIELD mn = 0x100400 + (mn AND 0xff)"

definition ZIP_IMMFIELD :: "busw \<Rightarrow> busw \<Rightarrow> busw" where
  "ZIP_IMMFIELD ln mn = 0x40000000 + (push_bit 8 (ln AND 0xff) + (mn AND 0xff))"

definition ZIP_SP :: busw where
  "ZIP_SP = 0xd0000"

record zopcode =
  s_opstr :: string
  s_mask :: busw
  s_val :: busw
  s_result :: busw
  s_ra :: busw
  s_rb :: busw
  s_i :: busw
  s_cf :: busw

definition ZOP :: "string \<Rightarrow> busw \<Rightarrow> busw \<Rightarrow> busw \<Rightarrow> busw \<Rightarrow> busw \<Rightarrow> busw \<Rightarrow> busw \<Rightarrow> zopcode" where
  "ZOP opstr m v res ra rb i cf =
     \<lparr>s_opstr = opstr, s_mask = m, s_val = v, s_result = res, s_ra = ra, s_rb = rb, s_i = i, s_cf = cf\<rparr>"

subsection \<open>The tables\<close>

definition zip_regstr :: "string list" where
  "zip_regstr = [
    ''R0'', ''R1'', ''R2'', ''R3'', ''R4'', ''R5'', ''R6'', ''R7'', ''R8'', ''R9'', ''R10'', ''R11'', ''R12'', ''SP'', ''CC'', ''PC'',
    ''uR0'', ''uR1'', ''uR2'', ''uR3'', ''uR4'', ''uR5'', ''uR6'', ''uR7'', ''uR8'', ''uR9'', ''uR10'', ''uR11'', ''uR12'', ''uSP'', ''uCC'', ''uPC'',
    ''sR0'', ''sR1'', ''sR2'', ''sR3'', ''sR4'', ''sR5'', ''sR6'', ''sR7'', ''sR8'', ''sR9'', ''sR10'', ''sR11'', ''sR12'', ''sSP'', ''sCC'', ''sPC'', ''rILL'']"

definition zip_ccstr :: "string list" where
  "zip_ccstr = ['''', ''.Z'', ''.LT'', ''.C'', ''.V'', ''.NZ'', ''.GE'', ''.NC'']"

definition oplist_special :: "zopcode list" where
  "oplist_special = [
    ZOP ''BUSY'' 0xffc7ffff 0x7883ffff ZIP_OPUNUSED ZIP_OPUNUSED ZIP_OPUNUSED ZIP_OPUNUSED (ZIP_BITFIELD 3 19),
    ZOP ''BZ'' 0xfffc0000 0x78880000 ZIP_OPUNUSED ZIP_OPUNUSED ZIP_OPUNUSED (ZIP_IMMFIELD 18 0) ZIP_OPUNUSED,
    ZOP ''BLT'' 0xfffc0000 0x78900000 ZIP_OPUNUSED ZIP_OPUNUSED ZIP_OPUNUSED (ZIP_IMMFIELD 18 0) ZIP_OPUNUSED,
    ZOP ''BC'' 0xfffc0000 0x78980000 ZIP_OPUNUSED ZIP_OPUNUSED ZIP_OPUNUSED (ZIP_IMMFIELD 18 0) ZIP_OPUNUSED,
    ZOP ''BV'' 0xfffc0000 0x78a00000 ZIP_OPUNUSED ZIP_OPUNUSED ZIP_OPUNUSED (ZIP_IMMFIELD 18 0) ZIP_OPUNUSED,
    ZOP ''BNZ'' 0xfffc0000 0x78a80000 ZIP_OPUNUSED ZIP_OPUNUSED ZIP_OPUNUSED (ZIP_IMMFIELD 18 0) ZIP_OPUNUSED,
    ZOP ''BGE'' 0xfffc0000 0x78b00000 ZIP_OPUNUSED ZIP_OPUNUSED ZIP_OPUNUSED (ZIP_IMMFIELD 18 0) ZIP_OPUNUSED,
    ZOP ''BNC'' 0xfffc0000 0x78b80000 ZIP_OPUNUSED ZIP_OPUNUSED ZIP_OPUNUSED (ZIP_IMMFIELD 18 0) ZIP_OPUNUSED,
    ZOP ''BRA'' 0xffc40000 0x78800000 ZIP_OPUNUSED ZIP_OPUNUSED ZIP_OPUNUSED (ZIP_IMMFIELD 18 0) (ZIP_BITFIELD 3 19),
    ZOP ''TRAP'' 0xfffffff0 0x76000000 ZIP_OPUNUSED ZIP_OPUNUSED ZIP_OPUNUSED ZIP_OPUNUSED ZIP_OPUNUSED,
    ZOP ''TRAP'' 0xff800000 0x76000000 ZIP_OPUNUSED ZIP_OPUNUSED ZIP_OPUNUSED ZIP_OPUNUSED ZIP_OPUNUSED,
    ZOP ''TRAP'' 0xffc7ffff 0x72000000 ZIP_OPUNUSED ZIP_OPUNUSED ZIP_OPUNUSED (ZIP_IMMFIELD 18 0) (ZIP_BITFIELD 3 19),
    ZOP ''TRAP'' 0xffc4ffff 0x72400000 ZIP_OPUNUSED ZIP_OPUNUSED ZIP_OPUNUSED ZIP_OPUNUSED (ZIP_BITFIELD 3 19),
    ZOP ''TRAP'' 0xffc40000 0x72400000 ZIP_OPUNUSED ZIP_OPUNUSED ZIP_OPUNUSED (ZIP_IMMFIELD 18 0) (ZIP_BITFIELD 3 19),
    ZOP ''CLR'' 0x87ffffff 0x06000000 (ZIP_REGFIELD 27) ZIP_OPUNUSED ZIP_OPUNUSED ZIP_OPUNUSED ZIP_OPUNUSED,
    ZOP ''CLR'' 0x87c7ffff 0x02000000 (ZIP_REGFIELD 27) (ZIP_REGFIELD 27) ZIP_OPUNUSED (ZIP_IMMFIELD 18 0) (ZIP_BITFIELD 3 19),
    ZOP ''HALT'' 0xffc7ffff 0x70c00010 ZIP_OPUNUSED ZIP_OPUNUSED ZIP_OPUNUSED ZIP_OPUNUSED (ZIP_BITFIELD 3 19),
    ZOP ''WAIT'' 0xffc7ffff 0x70c00030 ZIP_OPUNUSED ZIP_OPUNUSED ZIP_OPUNUSED ZIP_OPUNUSED (ZIP_BITFIELD 3 19),
    ZOP ''RTU'' 0xffc7ffff 0x70c00020 ZIP_OPUNUSED ZIP_OPUNUSED ZIP_OPUNUSED ZIP_OPUNUSED (ZIP_BITFIELD 3 19),
    ZOP ''RTN'' 0xffc7ffff 0x7b400000 ZIP_OPUNUSED ZIP_OPUNUSED ZIP_OPUNUSED ZIP_OPUNUSED (ZIP_BITFIELD 3 19),
    ZOP ''JMP'' 0xffc40000 0x7b400000 ZIP_OPUNUSED ZIP_OPUNUSED (ZIP_REGFIELD 14) (ZIP_IMMFIELD 13 0) (ZIP_BITFIELD 3 19),
    ZOP ''JMPI'' 0xff800000 0x7e000000 (ZIP_REGFIELD 27) ZIP_OPUNUSED ZIP_OPUNUSED (ZIP_IMMFIELD 23 0) ZIP_OPUNUSED,
    ZOP ''LJMP'' 0xffffffff 0x7c87c000 ZIP_OPUNUSED ZIP_OPUNUSED ZIP_OPUNUSED ZIP_OPUNUSED ZIP_OPUNUSED]"

definition oplist_general :: "zopcode list" where
  "oplist_general = [
    ZOP ''SUB'' 0x87c40000 0x00000000 (ZIP_REGFIELD 27) (ZIP_REGFIELD 27) ZIP_OPUNUSED (ZIP_IMMFIELD 18 0) (ZIP_BITFIELD 3 19),
    ZOP ''SUB'' 0x87c40000 0x00040000 (ZIP_REGFIELD 27) (ZIP_REGFIELD 27) (ZIP_REGFIELD 14) (ZIP_IMMFIELD 14 0) (ZIP_BITFIELD 3 19),
    ZOP ''AND'' 0x87c40000 0x00400000 (ZIP_REGFIELD 27) (ZIP_REGFIELD 27) ZIP_OPUNUSED (ZIP_IMMFIELD 18 0) (ZIP_BITFIELD 3 19),
    ZOP ''AND'' 0x87c40000 0x00440000 (ZIP_REGFIELD 27) (ZIP_REGFIELD 27) (ZIP_REGFIELD 14) (ZIP_IMMFIELD 14 0) (ZIP_BITFIELD 3 19),
    ZOP ''ADD'' 0x87c40000 0x00800000 (ZIP_REGFIELD 27) (ZIP_REGFIELD 27) ZIP_OPUNUSED (ZIP_IMMFIELD 18 0) (ZIP_BITFIELD 3 19),
    ZOP ''ADD'' 0x87c40000 0x00840000 (ZIP_REGFIELD 27) (ZIP_REGFIELD 27) (ZIP_REGFIELD 14) (ZIP_IMMFIELD 14 0) (ZIP_BITFIELD 3 19),
    ZOP ''OR'' 0x87c40000 0x00c00000 (ZIP_REGFIELD 27) (ZIP_REGFIELD 27) ZIP_OPUNUSED (ZIP_IMMFIELD 18 0) (ZIP_BITFIELD 3 19),
    ZOP ''OR'' 0x87c40000 0x00c40000 (ZIP_REGFIELD 27) (ZIP_REGFIELD 27) (ZIP_REGFIELD 14) (ZIP_IMMFIELD 14 0) (ZIP_BITFIELD 3 19),
    ZOP ''XOR'' 0x87c40000 0x01000000 (ZIP_REGFIELD 27) (ZIP_REGFIELD 27) ZIP_OPUNUSED (ZIP_IMMFIELD 18 0) (ZIP_BITFIELD 3 19),
    ZOP ''XOR'' 0x87c40000 0x01040000 (ZIP_REGFIELD 27) (ZIP_REGFIELD 27) (ZIP_REGFIELD 14) (ZIP_IMMFIELD 14 0) (ZIP_BITFIELD 3 19),
    ZOP ''LSR'' 0x87c40000 0x01400000 (ZIP_REGFIELD 27) (ZIP_REGFIELD 27) ZIP_OPUNUSED (ZIP_IMMFIELD 18 0) (ZIP_BITFIELD 3 19),
    ZOP ''LSR'' 0x87c40000 0x01440000 (ZIP_REGFIELD 27) (ZIP_REGFIELD 27) (ZIP_REGFIELD 14) (ZIP_IMMFIELD 14 0) (ZIP_BITFIELD 3 19),
    ZOP ''LSL'' 0x87c40000 0x01800000 (ZIP_REGFIELD 27) (ZIP_REGFIELD 27) ZIP_OPUNUSED (ZIP_IMMFIELD 18 0) (ZIP_BITFIELD 3 19),
    ZOP ''LSL'' 0x87c40000 0x01840000 (ZIP_REGFIELD 27) (ZIP_REGFIELD 27) (ZIP_REGFIELD 14) (ZIP_IMMFIELD 14 0) (ZIP_BITFIELD 3 19),
    ZOP ''ASR'' 0x87c40000 0x01c00000 (ZIP_REGFIELD 27) (ZIP_REGFIELD 27) ZIP_OPUNUSED (ZIP_IMMFIELD 18 0) (ZIP_BITFIELD 3 19),
    ZOP ''ASR'' 0x87c40000 0x01c40000 (ZIP_REGFIELD 27) (ZIP_REGFIELD 27) (ZIP_REGFIELD 14) (ZIP_IMMFIELD 14 0) (ZIP_BITFIELD 3 19),
    ZOP ''BREV'' 0x87c40000 0x02000000 (ZIP_REGFIELD 27) (ZIP_REGFIELD 27) ZIP_OPUNUSED (ZIP_IMMFIELD 18 0) (ZIP_BITFIELD 3 19),
    ZOP ''BREV'' 0x87c40000 0x02040000 (ZIP_REGFIELD 27) (ZIP_REGFIELD 27) (ZIP_REGFIELD 14) (ZIP_IMMFIELD 14 0) (ZIP_BITFIELD 3 19),
    ZOP ''LDILO'' 0x87c40000 0x02400000 (ZIP_REGFIELD 27) (ZIP_REGFIELD 27) ZIP_OPUNUSED (ZIP_IMMFIELD 18 0) (ZIP_BITFIELD 3 19),
    ZOP ''LDILO'' 0x87c40000 0x02440000 (ZIP_REGFIELD 27) (ZIP_REGFIELD 27) (ZIP_REGFIELD 14) (ZIP_IMMFIELD 14 0) (ZIP_BITFIELD 3 19),
    ZOP ''MPYUHI'' 0x87c40000 0x02800000 (ZIP_REGFIELD 27) (ZIP_REGFIELD 27) ZIP_OPUNUSED (ZIP_IMMFIELD 18 0) (ZIP_BITFIELD 3 19),
    ZOP ''MPYUHI'' 0x87c40000 0x02840000 (ZIP_REGFIELD 27) (ZIP_REGFIELD 27) (ZIP_REGFIELD 14) (ZIP_IMMFIELD 14 0) (ZIP_BITFIELD 3 19),
    ZOP ''MPYSHI'' 0x87c40000 0x02c00000 (ZIP_REGFIELD 27) (ZIP_REGFIELD 27) ZIP_OPUNUSED (ZIP_IMMFIELD 18 0) (ZIP_BITFIELD 3 19),
    ZOP ''MPYSHI'' 0x87c40000 0x02c40000 (ZIP_REGFIELD 27) (ZIP_REGFIELD 27) (ZIP_REGFIELD 14) (ZIP_IMMFIELD 14 0) (ZIP_BITFIELD 3 19),
    ZOP ''MPY'' 0x87c40000 0x03000000 (ZIP_REGFIELD 27) (ZIP_REGFIELD 27) ZIP_OPUNUSED (ZIP_IMMFIELD 18 0) (ZIP_BITFIELD 3 19),
    ZOP ''MPY'' 0x87c40000 0x03040000 (ZIP_REGFIELD 27) (ZIP_REGFIELD 27) (ZIP_REGFIELD 14) (ZIP_IMMFIELD 14 0) (ZIP_BITFIELD 3 19),
    ZOP ''MOV'' 0x87c42000 0x03400000 (ZIP_REGFIELD 27) ZIP_OPUNUSED (ZIP_REGFIELD 14) (ZIP_IMMFIELD 13 0) (ZIP_BITFIELD 3 19),
    ZOP ''MOV'' 0x87c42000 0x03440000 (ZIP_URGFIELD 27) ZIP_OPUNUSED (ZIP_REGFIELD 14) (ZIP_IMMFIELD 13 0) (ZIP_BITFIELD 3 19),
    ZOP ''MOV'' 0x87c42000 0x03402000 (ZIP_REGFIELD 27) ZIP_OPUNUSED (ZIP_URGFIELD 14) (ZIP_IMMFIELD 13 0) (ZIP_BITFIELD 3 19),
    ZOP ''MOV'' 0x87c42000 0x03442000 (ZIP_URGFIELD 27) ZIP_OPUNUSED (ZIP_URGFIELD 14) (ZIP_IMMFIELD 13 0) (ZIP_BITFIELD 3 19),
    ZOP ''DIVU'' 0x87c40000 0x03800000 (ZIP_REGFIELD 27) (ZIP_REGFIELD 27) ZIP_OPUNUSED (ZIP_IMMFIELD 18 0) (ZIP_BITFIELD 3 19),
    ZOP ''DIVU'' 0x87c40000 0x03840000 (ZIP_REGFIELD 27) (ZIP_REGFIELD 27) (ZIP_REGFIELD 14) (ZIP_IMMFIELD 14 0) (ZIP_BITFIELD 3 19),
    ZOP ''DIVS'' 0x87c40000 0x03c00000 (ZIP_REGFIELD 27) (ZIP_REGFIELD 27) ZIP_OPUNUSED (ZIP_IMMFIELD 18 0) (ZIP_BITFIELD 3 19),
    ZOP ''DIVS'' 0x87c40000 0x03c40000 (ZIP_REGFIELD 27) (ZIP_REGFIELD 27) (ZIP_REGFIELD 14) (ZIP_IMMFIELD 14 0) (ZIP_BITFIELD 3 19),
    ZOP ''CMP'' 0x87c40000 0x04000000 ZIP_OPUNUSED (ZIP_REGFIELD 27) ZIP_OPUNUSED (ZIP_IMMFIELD 18 0) (ZIP_BITFIELD 3 19),
    ZOP ''CMP'' 0x87c40000 0x04040000 ZIP_OPUNUSED (ZIP_REGFIELD 27) (ZIP_REGFIELD 14) (ZIP_IMMFIELD 14 0) (ZIP_BITFIELD 3 19),
    ZOP ''TST'' 0x87c40000 0x04400000 ZIP_OPUNUSED (ZIP_REGFIELD 27) ZIP_OPUNUSED (ZIP_IMMFIELD 18 0) (ZIP_BITFIELD 3 19),
    ZOP ''TST'' 0x87c40000 0x04440000 ZIP_OPUNUSED (ZIP_REGFIELD 27) (ZIP_REGFIELD 14) (ZIP_IMMFIELD 14 0) (ZIP_BITFIELD 3 19),
    ZOP ''LW'' 0x87c40000 0x04800000 (ZIP_REGFIELD 27) ZIP_OPUNUSED ZIP_OPUNUSED (ZIP_IMMFIELD 18 0) (ZIP_BITFIELD 3 19),
    ZOP ''LW'' 0x87c40000 0x04840000 (ZIP_REGFIELD 27) ZIP_OPUNUSED (ZIP_REGFIELD 14) (ZIP_IMMFIELD 14 0) (ZIP_BITFIELD 3 19),
    ZOP ''SW'' 0x87c40000 0x04c00000 ZIP_OPUNUSED (ZIP_REGFIELD 27) ZIP_OPUNUSED (ZIP_IMMFIELD 18 0) (ZIP_BITFIELD 3 19),
    ZOP ''SW'' 0x87c40000 0x04c40000 ZIP_OPUNUSED (ZIP_REGFIELD 27) (ZIP_REGFIELD 14) (ZIP_IMMFIELD 14 0) (ZIP_BITFIELD 3 19),
    ZOP ''LH'' 0x87c40000 0x05000000 (ZIP_REGFIELD 27) ZIP_OPUNUSED ZIP_OPUNUSED (ZIP_IMMFIELD 18 0) (ZIP_BITFIELD 3 19),
    ZOP ''LH'' 0x87c40000 0x05040000 (ZIP_REGFIELD 27) ZIP_OPUNUSED (ZIP_REGFIELD 14) (ZIP_IMMFIELD 14 0) (ZIP_BITFIELD 3 19),
    ZOP ''SH'' 0x87c40000 0x05400000 ZIP_OPUNUSED (ZIP_REGFIELD 27) ZIP_OPUNUSED (ZIP_IMMFIELD 18 0) (ZIP_BITFIELD 3 19),
    ZOP ''SH'' 0x87c40000 0x05440000 ZIP_OPUNUSED (ZIP_REGFIELD 27) (ZIP_REGFIELD 14) (ZIP_IMMFIELD 14 0) (ZIP_BITFIELD 3 19),
    ZOP ''LB'' 0x87c40000 0x05800000 (ZIP_REGFIELD 27) ZIP_OPUNUSED ZIP_OPUNUSED (ZIP_IMMFIELD 18 0) (ZIP_BITFIELD 3 19),
    ZOP ''LB'' 0x87c40000 0x05840000 (ZIP_REGFIELD 27) ZIP_OPUNUSED (ZIP_REGFIELD 14) (ZIP_IMMFIELD 14 0) (ZIP_BITFIELD 3 19),
    ZOP ''SB'' 0x87c40000 0x05c00000 ZIP_OPUNUSED (ZIP_REGFIELD 27) ZIP_OPUNUSED (ZIP_IMMFIELD 18 0) (ZIP_BITFIELD 3 19),
    ZOP ''SB'' 0x87c40000 0x05c40000 ZIP_OPUNUSED (ZIP_REGFIELD 27) (ZIP_REGFIELD 14) (ZIP_IMMFIELD 14 0) (ZIP_BITFIELD 3 19),
    ZOP ''LDI'' 0x87800000 0x06000000 (ZIP_REGFIELD 27) ZIP_OPUNUSED ZIP_OPUNUSED (ZIP_IMMFIELD 23 0) ZIP_OPUNUSED,
    ZOP ''BRK'' 0xf7ffffff 0x77000000 ZIP_OPUNUSED ZIP_OPUNUSED ZIP_OPUNUSED ZIP_OPUNUSED ZIP_OPUNUSED,
    ZOP ''BRK'' 0xf7c00000 0x77000000 ZIP_OPUNUSED ZIP_OPUNUSED ZIP_OPUNUSED (ZIP_IMMFIELD 22 0) ZIP_OPUNUSED,
    ZOP ''LOCK'' 0xf7ffffff 0x77400000 ZIP_OPUNUSED ZIP_OPUNUSED ZIP_OPUNUSED ZIP_OPUNUSED ZIP_OPUNUSED,
    ZOP ''LOCK'' 0xf7c00000 0x77400000 ZIP_OPUNUSED ZIP_OPUNUSED ZIP_OPUNUSED (ZIP_IMMFIELD 22 0) ZIP_OPUNUSED,
    ZOP ''SIM'' 0xf7ffffff 0x77800000 ZIP_OPUNUSED ZIP_OPUNUSED ZIP_OPUNUSED ZIP_OPUNUSED ZIP_OPUNUSED,
    ZOP ''SEXIT'' 0xf7ffffff 0x77800100 ZIP_OPUNUSED ZIP_OPUNUSED ZIP_OPUNUSED ZIP_OPUNUSED ZIP_OPUNUSED,
    ZOP ''SEXIT'' 0xf7fffff0 0x77800310 ZIP_OPUNUSED (ZIP_URGFIELD 0) ZIP_OPUNUSED ZIP_OPUNUSED ZIP_OPUNUSED,
    ZOP ''SEXIT'' 0xf7ffffe0 0x77800300 ZIP_OPUNUSED (ZIP_REGFIELD 0) ZIP_OPUNUSED ZIP_OPUNUSED ZIP_OPUNUSED,
    ZOP ''SEXIT'' 0xf7ffff00 0x77800100 ZIP_OPUNUSED ZIP_OPUNUSED ZIP_OPUNUSED (ZIP_IMMFIELD 8 0) ZIP_OPUNUSED,
    ZOP ''SDUMP'' 0xf7ffffff 0x778002ff ZIP_OPUNUSED ZIP_OPUNUSED ZIP_OPUNUSED ZIP_OPUNUSED ZIP_OPUNUSED,
    ZOP ''SDUMP'' 0xf7fffff0 0x77800200 ZIP_OPUNUSED (ZIP_REGFIELD 0) ZIP_OPUNUSED ZIP_OPUNUSED ZIP_OPUNUSED,
    ZOP ''SDUMP'' 0xf7fffff0 0x77800210 ZIP_OPUNUSED (ZIP_URGFIELD 0) ZIP_OPUNUSED ZIP_OPUNUSED ZIP_OPUNUSED,
    ZOP ''SOUT'' 0xf7fffff0 0x77800230 ZIP_OPUNUSED (ZIP_URGFIELD 0) ZIP_OPUNUSED ZIP_OPUNUSED ZIP_OPUNUSED,
    ZOP ''SOUT'' 0xf7ffffe0 0x77800220 ZIP_OPUNUSED (ZIP_REGFIELD 0) ZIP_OPUNUSED ZIP_OPUNUSED ZIP_OPUNUSED,
    ZOP ''SOUT'' 0xf7ffff00 0x77800400 ZIP_OPUNUSED ZIP_OPUNUSED ZIP_OPUNUSED (ZIP_IMMFIELD 8 0) ZIP_OPUNUSED,
    ZOP ''SDUMP'' 0xf7ffff00 0x77800200 ZIP_OPUNUSED ZIP_OPUNUSED ZIP_OPUNUSED (ZIP_IMMFIELD 8 0) ZIP_OPUNUSED,
    ZOP ''SIM'' 0xf7c00000 0x77800000 ZIP_OPUNUSED ZIP_OPUNUSED ZIP_OPUNUSED (ZIP_IMMFIELD 22 0) ZIP_OPUNUSED,
    ZOP ''NOOP'' 0xf7ffffff 0x77c00000 ZIP_OPUNUSED ZIP_OPUNUSED ZIP_OPUNUSED ZIP_OPUNUSED ZIP_OPUNUSED,
    ZOP ''NEXIT'' 0xf7ffffff 0x77c00100 ZIP_OPUNUSED ZIP_OPUNUSED ZIP_OPUNUSED ZIP_OPUNUSED ZIP_OPUNUSED,
    ZOP ''NEXIT'' 0xf7ffff00 0x77c00100 ZIP_OPUNUSED ZIP_OPUNUSED ZIP_OPUNUSED (ZIP_IMMFIELD 8 0) ZIP_OPUNUSED,
    ZOP ''NEXIT'' 0xf7fffff0 0x77c00310 ZIP_OPUNUSED (ZIP_URGFIELD 0) ZIP_OPUNUSED ZIP_OPUNUSED ZIP_OPUNUSED,
    ZOP ''NEXIT'' 0xf7ffffe0 0x77c00300 ZIP_OPUNUSED (ZIP_REGFIELD 0) ZIP_OPUNUSED ZIP_OPUNUSED ZIP_OPUNUSED,
    ZOP ''NDUMP'' 0xf7ffffff 0x77c002ff ZIP_OPUNUSED ZIP_OPUNUSED ZIP_OPUNUSED ZIP_OPUNUSED ZIP_OPUNUSED,
    ZOP ''NDUMP'' 0xf7fffff0 0x77c00200 ZIP_OPUNUSED (ZIP_REGFIELD 0) ZIP_OPUNUSED ZIP_OPUNUSED ZIP_OPUNUSED,
    ZOP ''NDUMP'' 0xf7fffff0 0x77c00210 ZIP_OPUNUSED (ZIP_URGFIELD 0) ZIP_OPUNUSED ZIP_OPUNUSED ZIP_OPUNUSED,
    ZOP ''NOUT'' 0xf7fffff0 0x77c00230 ZIP_OPUNUSED (ZIP_URGFIELD 0) ZIP_OPUNUSED ZIP_OPUNUSED ZIP_OPUNUSED,
    ZOP ''NOUT'' 0xf7ffffe0 0x77c00220 ZIP_OPUNUSED (ZIP_REGFIELD 0) ZIP_OPUNUSED ZIP_OPUNUSED ZIP_OPUNUSED,
    ZOP ''NOUT'' 0xf7ffff00 0x77c00400 ZIP_OPUNUSED ZIP_OPUNUSED ZIP_OPUNUSED (ZIP_IMMFIELD 8 0) ZIP_OPUNUSED,
    ZOP ''NDUMP'' 0xf7ffff00 0x77c00200 ZIP_OPUNUSED ZIP_OPUNUSED ZIP_OPUNUSED ZIP_OPUNUSED ZIP_OPUNUSED,
    ZOP ''NSIM'' 0xf7c00000 0x77c00000 ZIP_OPUNUSED ZIP_OPUNUSED ZIP_OPUNUSED (ZIP_IMMFIELD 22 0) ZIP_OPUNUSED,
    ZOP ''FPADD'' 0x87c43fff 0x06840000 (ZIP_REGFIELD 27) (ZIP_REGFIELD 27) (ZIP_REGFIELD 14) ZIP_OPUNUSED (ZIP_BITFIELD 3 19),
    ZOP ''FPSUB'' 0x87c43fff 0x06c40000 (ZIP_REGFIELD 27) (ZIP_REGFIELD 27) (ZIP_REGFIELD 14) ZIP_OPUNUSED (ZIP_BITFIELD 3 19),
    ZOP ''FPMPY'' 0x87c43fff 0x07040000 (ZIP_REGFIELD 27) (ZIP_REGFIELD 27) (ZIP_REGFIELD 14) ZIP_OPUNUSED (ZIP_BITFIELD 3 19),
    ZOP ''FPDIV'' 0x87c43fff 0x07440000 (ZIP_REGFIELD 27) (ZIP_REGFIELD 27) (ZIP_REGFIELD 14) ZIP_OPUNUSED (ZIP_BITFIELD 3 19),
    ZOP ''FPI2F'' 0x87c40000 0x07800000 (ZIP_REGFIELD 27) ZIP_OPUNUSED ZIP_OPUNUSED (ZIP_IMMFIELD 18 0) (ZIP_BITFIELD 3 19),
    ZOP ''FPI2F'' 0x87c40000 0x07840000 (ZIP_REGFIELD 27) ZIP_OPUNUSED (ZIP_REGFIELD 14) (ZIP_IMMFIELD 14 0) (ZIP_BITFIELD 3 19),
    ZOP ''FPF2I'' 0x87c40000 0x07c40000 (ZIP_REGFIELD 27) ZIP_OPUNUSED (ZIP_REGFIELD 14) (ZIP_IMMFIELD 14 0) (ZIP_BITFIELD 3 19)]"

definition oplist_cis :: "zopcode list" where
  "oplist_cis = [
    ZOP ''BRA'' 0xff800000 0xf9000000 ZIP_OPUNUSED ZIP_OPUNUSED ZIP_OPUNUSED (ZIP_IMMFIELD 7 16) ZIP_OPUNUSED,
    ZOP ''CLR'' 0x87ff0000 0x86000000 (ZIP_REGFIELD 27) ZIP_OPUNUSED ZIP_OPUNUSED ZIP_OPUNUSED ZIP_OPUNUSED,
    ZOP ''RTN'' 0xffff0000 0xff800000 ZIP_OPUNUSED ZIP_OPUNUSED ZIP_OPUNUSED ZIP_OPUNUSED ZIP_OPUNUSED,
    ZOP ''JMP'' 0xff800000 0xff000000 (ZIP_REGFIELD 27) ZIP_OPUNUSED (ZIP_REGFIELD 19) (ZIP_IMMFIELD 3 16) ZIP_OPUNUSED,
    ZOP ''SUB'' 0x87800000 0x80000000 (ZIP_REGFIELD 27) (ZIP_REGFIELD 27) ZIP_OPUNUSED (ZIP_IMMFIELD 7 16) ZIP_OPUNUSED,
    ZOP ''SUB'' 0x87800000 0x80800000 (ZIP_REGFIELD 27) (ZIP_REGFIELD 27) (ZIP_REGFIELD 19) (ZIP_IMMFIELD 3 16) ZIP_OPUNUSED,
    ZOP ''AND'' 0x87800000 0x81000000 (ZIP_REGFIELD 27) (ZIP_REGFIELD 27) ZIP_OPUNUSED (ZIP_IMMFIELD 7 16) ZIP_OPUNUSED,
    ZOP ''AND'' 0x87800000 0x81800000 (ZIP_REGFIELD 27) (ZIP_REGFIELD 27) (ZIP_REGFIELD 19) (ZIP_IMMFIELD 3 16) ZIP_OPUNUSED,
    ZOP ''ADD'' 0x87800000 0x82000000 (ZIP_REGFIELD 27) (ZIP_REGFIELD 27) ZIP_OPUNUSED (ZIP_IMMFIELD 7 16) ZIP_OPUNUSED,
    ZOP ''ADD'' 0x87800000 0x82800000 (ZIP_REGFIELD 27) (ZIP_REGFIELD 27) (ZIP_REGFIELD 19) (ZIP_IMMFIELD 3 16) ZIP_OPUNUSED,
    ZOP ''CMP'' 0x87800000 0x83000000 (ZIP_REGFIELD 27) ZIP_OPUNUSED (ZIP_REGFIELD 19) (ZIP_IMMFIELD 7 16) ZIP_OPUNUSED,
    ZOP ''CMP'' 0x87800000 0x83800000 (ZIP_REGFIELD 27) ZIP_OPUNUSED (ZIP_REGFIELD 19) (ZIP_IMMFIELD 3 16) ZIP_OPUNUSED,
    ZOP ''LW'' 0x87800000 0x84000000 (ZIP_REGFIELD 27) ZIP_OPUNUSED ZIP_SP (ZIP_IMMFIELD 7 16) ZIP_OPUNUSED,
    ZOP ''LW'' 0x87800000 0x84800000 (ZIP_REGFIELD 27) ZIP_OPUNUSED (ZIP_REGFIELD 19) (ZIP_IMMFIELD 3 16) ZIP_OPUNUSED,
    ZOP ''SW'' 0x87000000 0x85000000 ZIP_OPUNUSED (ZIP_REGFIELD 27) ZIP_SP (ZIP_IMMFIELD 7 16) ZIP_OPUNUSED,
    ZOP ''SW'' 0x87800000 0x85800000 ZIP_OPUNUSED (ZIP_REGFIELD 27) (ZIP_REGFIELD 19) (ZIP_IMMFIELD 3 16) ZIP_OPUNUSED,
    ZOP ''LDI'' 0x87000000 0x86000000 (ZIP_REGFIELD 27) ZIP_OPUNUSED ZIP_OPUNUSED (ZIP_IMMFIELD 8 16) ZIP_OPUNUSED,
    ZOP ''MOV'' 0x87800000 0x87800000 ZIP_OPUNUSED (ZIP_REGFIELD 27) (ZIP_REGFIELD 19) (ZIP_IMMFIELD 3 16) ZIP_OPUNUSED,
    ZOP ''ILLV'' 0x80000000 0x80000000 ZIP_OPUNUSED ZIP_OPUNUSED ZIP_OPUNUSED (ZIP_IMMFIELD 32 16) ZIP_OPUNUSED,
    ZOP ''ILL'' 0x00000000 0x00000000 ZIP_OPUNUSED ZIP_OPUNUSED ZIP_OPUNUSED (ZIP_IMMFIELD 32 0) ZIP_OPUNUSED]"

definition zip_oplist :: "zopcode list" where
  "zip_oplist = oplist_special @ oplist_general @ oplist_cis"

definition zip_opbottomlist :: "zopcode list" where
  "zip_opbottomlist = [
    ZOP ''BRA'' 0x80007f80 0x80007900 ZIP_OPUNUSED ZIP_OPUNUSED ZIP_OPUNUSED (ZIP_IMMFIELD 7 0) ZIP_OPUNUSED,
    ZOP ''CLR'' 0x800007ff 0x80000600 (ZIP_REGFIELD 11) ZIP_OPUNUSED ZIP_OPUNUSED ZIP_OPUNUSED ZIP_OPUNUSED,
    ZOP ''RTN'' 0x80007fff 0x80007f80 ZIP_OPUNUSED ZIP_OPUNUSED ZIP_OPUNUSED ZIP_OPUNUSED ZIP_OPUNUSED,
    ZOP ''JMP'' 0x80007f80 0x80007f00 (ZIP_REGFIELD 11) ZIP_OPUNUSED (ZIP_REGFIELD 3) (ZIP_IMMFIELD 3 0) ZIP_OPUNUSED,
    ZOP ''LJMP'' 0x80007fff 0x80007cf8 (ZIP_REGFIELD 11) ZIP_OPUNUSED (ZIP_REGFIELD 3) (ZIP_IMMFIELD 3 0) ZIP_OPUNUSED,
    ZOP ''SUB'' 0x80000780 0x80000000 (ZIP_REGFIELD 11) (ZIP_REGFIELD 11) ZIP_OPUNUSED (ZIP_IMMFIELD 7 0) ZIP_OPUNUSED,
    ZOP ''SUB'' 0x80000780 0x80000080 (ZIP_REGFIELD 11) (ZIP_REGFIELD 11) (ZIP_REGFIELD 3) (ZIP_IMMFIELD 3 0) ZIP_OPUNUSED,
    ZOP ''AND'' 0x80000780 0x80000100 (ZIP_REGFIELD 11) (ZIP_REGFIELD 11) ZIP_OPUNUSED (ZIP_IMMFIELD 7 0) ZIP_OPUNUSED,
    ZOP ''AND'' 0x80000780 0x80000180 (ZIP_REGFIELD 11) (ZIP_REGFIELD 11) (ZIP_REGFIELD 3) (ZIP_IMMFIELD 3 0) ZIP_OPUNUSED,
    ZOP ''ADD'' 0x80000780 0x80000200 (ZIP_REGFIELD 11) (ZIP_REGFIELD 11) ZIP_OPUNUSED (ZIP_IMMFIELD 7 0) ZIP_OPUNUSED,
    ZOP ''ADD'' 0x80000780 0x80000280 (ZIP_REGFIELD 11) (ZIP_REGFIELD 11) (ZIP_REGFIELD 3) (ZIP_IMMFIELD 3 0) ZIP_OPUNUSED,
    ZOP ''CMP'' 0x80000780 0x80000300 (ZIP_REGFIELD 11) ZIP_OPUNUSED ZIP_OPUNUSED (ZIP_IMMFIELD 7 0) ZIP_OPUNUSED,
    ZOP ''CMP'' 0x80000780 0x80000380 (ZIP_REGFIELD 11) ZIP_OPUNUSED (ZIP_REGFIELD 3) (ZIP_IMMFIELD 3 0) ZIP_OPUNUSED,
    ZOP ''LW'' 0x80000780 0x80000400 (ZIP_REGFIELD 11) ZIP_OPUNUSED ZIP_SP (ZIP_IMMFIELD 7 0) ZIP_OPUNUSED,
    ZOP ''LW'' 0x80000780 0x80000480 (ZIP_REGFIELD 11) ZIP_OPUNUSED (ZIP_REGFIELD 3) (ZIP_IMMFIELD 3 0) ZIP_OPUNUSED,
    ZOP ''SW'' 0x80000780 0x80000500 ZIP_OPUNUSED (ZIP_REGFIELD 11) ZIP_SP (ZIP_IMMFIELD 7 0) ZIP_OPUNUSED,
    ZOP ''SW'' 0x80000780 0x80000580 ZIP_OPUNUSED (ZIP_REGFIELD 11) (ZIP_REGFIELD 3) (ZIP_IMMFIELD 3 0) ZIP_OPUNUSED,
    ZOP ''LDI'' 0x80000700 0x80000600 (ZIP_REGFIELD 11) ZIP_OPUNUSED ZIP_OPUNUSED (ZIP_IMMFIELD 8 0) ZIP_OPUNUSED,
    ZOP ''MOV'' 0x80000780 0x80000780 (ZIP_REGFIELD 11) ZIP_OPUNUSED (ZIP_REGFIELD 3) (ZIP_IMMFIELD 3 0) ZIP_OPUNUSED,
    ZOP ''ILLV'' 0x80000000 0x80000000 ZIP_OPUNUSED ZIP_OPUNUSED ZIP_OPUNUSED (ZIP_IMMFIELD 15 0) ZIP_OPUNUSED,
    ZOP ''ILL'' 0x00000000 0x00000000 ZIP_OPUNUSED ZIP_OPUNUSED ZIP_OPUNUSED (ZIP_IMMFIELD 15 0) ZIP_OPUNUSED]"

subsection \<open>Long constants and jumps\<close>

definition TWOWORD_LOAD :: "busw \<Rightarrow> busw \<Rightarrow> bool" where
  "TWOWORD_LOAD one two \<longleftrightarrow>
     one AND 0x87c40000 = 0x02000000 \<and> two AND 0x87c40000 = 0x02400000 \<and> (one XOR two) AND 0xf8380000 = 0"

definition OFFSET_PC_MOV :: "busw \<Rightarrow> bool" where
  "OFFSET_PC_MOV ins \<longleftrightarrow> ins AND 0x87c7e000 = 0x0343c000"

definition TWOWORD_LJMP :: "busw \<Rightarrow> bool" where
  "TWOWORD_LJMP iword \<longleftrightarrow> iword = 0x7c87c000 \<or> iword AND 0x80007fff = 0x80007cf8"

definition TWOWORD_JSR :: "busw \<Rightarrow> busw \<Rightarrow> bool" where
  "TWOWORD_JSR iword nxtword \<longleftrightarrow> iword = 0x0343c001 \<and> nxtword AND 0xffc40000 = 0x78800000"

definition THREEWORD_LJSR :: "busw \<Rightarrow> busw \<Rightarrow> bool" where
  "THREEWORD_LJSR iword nxtword \<longleftrightarrow> iword = 0x0343c002 \<and> nxtword = 0x7c87c000"

definition CIS_JSR :: "busw \<Rightarrow> bool" where
  "CIS_JSR iword \<longleftrightarrow> iword = 0x87f9fcf8"

definition POSSIBLE_TWOWORD_BEGINNING :: "busw \<Rightarrow> bool" where
  "POSSIBLE_TWOWORD_BEGINNING iword \<longleftrightarrow>
     TWOWORD_LJMP iword \<or> iword = 0x0343c001 \<or> iword = 0x0343c002 \<or> CIS_JSR iword \<or> iword AND 0x87c40000 = 0x02000000"

text \<open>\<open>b\<close> counts the iterations that are left.\<close>

fun bitreverse_loop :: "nat \<Rightarrow> busw \<Rightarrow> busw \<Rightarrow> busw" where
  "bitreverse_loop 0 v r = r"
| "bitreverse_loop (Suc b) v r = bitreverse_loop b (drop_bit 1 v) (push_bit 1 r OR (v AND 1))"

definition zip_bitreverse :: "busw \<Rightarrow> busw" where
  "zip_bitreverse v = bitreverse_loop 32 v 0"

definition TWOWORD_VALUE :: "busw \<Rightarrow> busw \<Rightarrow> busw" where
  "TWOWORD_VALUE one two = (two AND 0xffff) OR zip_bitreverse (one AND 0xffff)"

subsection \<open>Operands\<close>

text \<open>A shift by a negative amount or by the width of the type is an error.\<close>

definition zip_sbits :: "u64 \<Rightarrow> nat \<Rightarrow> exn + u64" where
  "zip_sbits val bits =
     (if bits = 0 \<or> 64 \<le> bits then Inl BadShift
      else let r = val AND (push_bit bits 1 - 1)
           in Inr (if r AND push_bit (bits - 1) 1 \<noteq> 0 then r OR push_bit bits (-1) else r))"

definition zip_ubits :: "u64 \<Rightarrow> nat \<Rightarrow> u64" where
  "zip_ubits val bits = val AND (push_bit bits 1 - 1)"

definition zip_getbits :: "busw \<Rightarrow> busw \<Rightarrow> exn + busw" where
  "zip_getbits ins which =
     (let sh = unat (which AND 0x3f); bits = unat (drop_bit 8 which AND 0x3f)
      in if 32 \<le> sh then Inl BadShift
         else if which AND 0x40000000 \<noteq> 0 then bindS (zip_sbits (ucast (drop_bit sh ins)) bits) (\<lambda>r. Inr (ucast r))
         else Inr (ucast (zip_ubits (ucast (drop_bit sh ins)) bits + ucast (drop_bit 16 which AND 0xff))))"

definition name_of :: "string list \<Rightarrow> busw \<Rightarrow> exn + string" where
  "name_of names i = (if unat i < length names then Inr (names ! unat i) else Inl OutOfBounds)"

definition pad11 :: "string \<Rightarrow> string" where
  "pad11 s = s @ replicate (11 - length s) (CHR '' '')"

definition ncasecmp :: "string \<Rightarrow> string \<Rightarrow> nat \<Rightarrow> bool" where
  "ncasecmp s t n \<longleftrightarrow> casecmp (take n s) (take n t)"

subsection \<open>A line\<close>

definition pc_mov_line :: "busw \<Rightarrow> busw \<Rightarrow> exn + string" where
  "pc_mov_line addr ins =
     bindS (zip_getbits ins (ZIP_BITFIELD 3 19)) (\<lambda>cv.
     bindS (zip_getbits ins (ZIP_REGFIELD 27)) (\<lambda>dv.
     bindS (zip_sbits (ucast ins) 13) (\<lambda>iv.
     bindS (name_of zip_ccstr cv) (\<lambda>cc.
     bindS (name_of zip_regstr dv) (\<lambda>reg.
       Inr (pad11 (''MOV'' @ cc) @ ''0x'' @ fmt_08x (push_bit 2 (ucast iv) + addr + 4) @ '','' @ reg))))))"

text \<open>The value of a field, or \<open>dflt\<close> when the opcode does not have it.\<close>

definition field_value :: "busw \<Rightarrow> busw \<Rightarrow> busw \<Rightarrow> exn + busw" where
  "field_value ins which dflt = (if which \<noteq> ZIP_OPUNUSED then zip_getbits ins which else Inr dflt)"

definition is_store :: "zopcode \<Rightarrow> bool" where
  "is_store e \<longleftrightarrow> ncasecmp ''SW'' (s_opstr e) 2 \<or> ncasecmp ''SH'' (s_opstr e) 2 \<or> ncasecmp ''SB'' (s_opstr e) 2"

definition is_branch :: "zopcode \<Rightarrow> bool" where
  "is_branch e \<longleftrightarrow> char_at (s_opstr e) 0 = CHR ''B'' \<and>
     \<not> casecmp (s_opstr e) ''BUSY'' \<and> \<not> casecmp (s_opstr e) ''BREV'' \<and> \<not> casecmp (s_opstr e) ''BRK''"

definition is_memop :: "zopcode \<Rightarrow> bool" where
  "is_memop e \<longleftrightarrow> CHR ''L'' = to_upper (char_at (s_opstr e) 0) \<and>
     to_upper (char_at (s_opstr e) 1) \<in> {CHR ''W'', CHR ''H'', CHR ''B''} \<and> char_at (s_opstr e) 2 = CHR 0x00"

definition store_operands :: "zopcode \<Rightarrow> busw \<Rightarrow> busw \<Rightarrow> busw \<Rightarrow> exn + string" where
  "store_operands e ra rb imv =
     bindS (name_of zip_regstr ra) (\<lambda>a.
     let off = (if s_i e \<noteq> ZIP_OPUNUSED
                then (if s_rb e = ZIP_OPUNUSED then ''($'' @ fmt_d imv @ '')'' else if imv \<noteq> 0 then ''$'' @ fmt_d imv else [])
                else [])
     in if s_rb e \<noteq> ZIP_OPUNUSED then bindS (name_of zip_regstr rb) (\<lambda>b. Inr (a @ '','' @ off @ ''('' @ b @ '')''))
        else Inr (a @ '','' @ off))"

definition branch_operand :: "busw \<Rightarrow> busw \<Rightarrow> zopcode \<Rightarrow> exn + string" where
  "branch_operand addr ins e =
     bindS (zip_getbits ins (s_i e)) (\<lambda>v. let target = addr + (v + 4) in Inr (''@0x'' @ fmt_08x target))"

definition imm_operand :: "zopcode \<Rightarrow> busw \<Rightarrow> string" where
  "imm_operand e imv =
     (if s_i e \<noteq> ZIP_OPUNUSED
      then (if is_memop e \<and> s_rb e = ZIP_OPUNUSED then ''($'' @ fmt_d imv @ '')''
            else if is_memop e \<and> imv \<noteq> 0 then fmt_d imv
            else if \<not> is_memop e \<and> (imv \<noteq> 0 \<or> s_rb e = ZIP_OPUNUSED)
                 then ''$'' @ fmt_d imv @ (if s_rb e \<noteq> ZIP_OPUNUSED then ''+'' else [])
            else [])
      else [])"

definition other_operands :: "zopcode \<Rightarrow> busw \<Rightarrow> busw \<Rightarrow> busw \<Rightarrow> busw \<Rightarrow> exn + string" where
  "other_operands e rr ra rb imv =
     bindS (if s_rb e \<noteq> ZIP_OPUNUSED
            then bindS (name_of zip_regstr rb) (\<lambda>b. Inr (if is_memop e then ''('' @ b @ '')'' else b))
            else Inr []) (\<lambda>b.
     let comma = (if (s_i e \<noteq> ZIP_OPUNUSED \<or> s_rb e \<noteq> ZIP_OPUNUSED) \<and> (s_ra e \<noteq> ZIP_OPUNUSED \<or> s_result e \<noteq> ZIP_OPUNUSED)
                  then '','' else [])
     in bindS (if s_ra e \<noteq> ZIP_OPUNUSED then name_of zip_regstr ra
               else if s_result e \<noteq> ZIP_OPUNUSED then name_of zip_regstr rr
               else Inr []) (\<lambda>r.
        Inr (imm_operand e imv @ b @ comma @ r)))"

definition cond_name :: "busw \<Rightarrow> zopcode \<Rightarrow> exn + string" where
  "cond_name ins e = (if s_cf e \<noteq> ZIP_OPUNUSED then bindS (zip_getbits ins (s_cf e)) (name_of zip_ccstr) else Inr [])"

definition opcode_line :: "busw \<Rightarrow> busw \<Rightarrow> zopcode \<Rightarrow> exn + string" where
  "opcode_line addr ins e =
     bindS (cond_name ins e) (\<lambda>cc.
     bindS (field_value ins (s_result e) (-1)) (\<lambda>rr.
     bindS (field_value ins (s_ra e) (-1)) (\<lambda>ra.
     bindS (field_value ins (s_rb e) (-1)) (\<lambda>rb.
     bindS (field_value ins (s_i e) 0) (\<lambda>imv.
     let imv = (if s_rb e \<noteq> ZIP_OPUNUSED \<and> rb = 15 then push_bit 2 imv else imv)
     in bindS (if is_store e then store_operands e ra rb imv
               else if ncasecmp ''LJMP'' (s_opstr e) 3 then Inr []
               else if is_branch e \<and> addr \<noteq> 0 then branch_operand addr ins e
               else other_operands e rr ra rb imv) (\<lambda>ops.
        Inr (pad11 (s_opstr e @ cc) @ ops)))))))"

fun first_match :: "zopcode list \<Rightarrow> busw \<Rightarrow> zopcode option" where
  "first_match [] ins = None"
| "first_match (e # es) ins =
     (if s_mask e = 0 then None else if ins AND s_mask e = s_val e then Some e else first_match es ins)"

definition zipi_to_halfstring :: "busw \<Rightarrow> busw \<Rightarrow> zopcode list \<Rightarrow> exn + string" where
  "zipi_to_halfstring addr ins listp =
     (if OFFSET_PC_MOV ins then pc_mov_line addr ins
      else if list_ex (\<lambda>e. (NOT (s_mask e)) AND s_val e \<noteq> 0) zip_oplist then Inl AssertFail
      else bindS (case first_match listp ins of None \<Rightarrow> Inr [] | Some e \<Rightarrow> opcode_line addr ins e) (\<lambda>line.
        Inr (if line = [] then ''ILL '' @ fmt_08x ins else line)))"

text \<open>\<open>second\<close> says whether the caller gave a second line.\<close>

definition zipi_to_double_string :: "busw \<Rightarrow> busw \<Rightarrow> bool \<Rightarrow> exn + string \<times> string" where
  "zipi_to_double_string addr ins second =
     bindS (zipi_to_halfstring addr ins zip_oplist) (\<lambda>la.
     bindS (if second \<and> ins AND 0x80000000 \<noteq> 0 then zipi_to_halfstring addr ins zip_opbottomlist else Inr []) (\<lambda>lb.
       Inr (la, lb)))"

definition zop_early_branch :: "busw \<Rightarrow> busw \<Rightarrow> busw" where
  "zop_early_branch pc insn =
     (if insn AND 0xf8000000 \<noteq> 0x78000000 then pc + 4
      else if insn AND 0xffc60000 = 0x78800000 then pc + 4 + push_bit 2 (insn AND 0x3ffff)
      else if insn AND 0xffc60000 = 0x78820000 then pc + 4 + push_bit 2 (0x40000 - (insn AND 0x3ffff))
      else pc + 4)"

subsection \<open>The tables are well-formed\<close>

definition unsigned_field :: "nat \<Rightarrow> busw \<Rightarrow> bool" where
  "unsigned_field k w \<longleftrightarrow> w AND 0x40000000 = 0 \<and> unat (w AND 0x3f) < 32 \<and>
     2 ^ unat (drop_bit 8 w AND 0x3f) + unat (drop_bit 16 w AND 0xff) \<le> k"

definition signed_field :: "busw \<Rightarrow> bool" where
  "signed_field w \<longleftrightarrow> w AND 0x40000000 \<noteq> 0 \<and> unat (w AND 0x3f) < 32 \<and> 0 < unat (drop_bit 8 w AND 0x3f)"

definition entry_ok :: "zopcode \<Rightarrow> bool" where
  "entry_ok e \<longleftrightarrow> length (s_opstr e) \<le> 7 \<and> s_opstr e \<noteq> [] \<and> (NOT (s_mask e)) AND s_val e = 0 \<and>
     list_all (\<lambda>w. w = ZIP_OPUNUSED \<or> unsigned_field 49 w) [s_result e, s_ra e, s_rb e] \<and>
     (s_cf e = ZIP_OPUNUSED \<or> unsigned_field 8 (s_cf e)) \<and> (s_i e = ZIP_OPUNUSED \<or> signed_field (s_i e)) \<and>
     (is_store e \<longrightarrow> s_ra e \<noteq> ZIP_OPUNUSED) \<and> (is_branch e \<longrightarrow> s_i e \<noteq> ZIP_OPUNUSED)"

lemmas field_defs = ZIP_OPUNUSED_def ZIP_REGFIELD_def ZIP_URGFIELD_def ZIP_SP_def ZIP_IMMFIELD_def ZIP_BITFIELD_def

lemma cc_fields: "unsigned_field 8 (ZIP_BITFIELD 3 19)" "ZIP_BITFIELD 3 19 \<noteq> ZIP_OPUNUSED"
  by (simp_all add: unsigned_field_def field_defs)

lemma reg_fields:
  "list_all (\<lambda>n. unsigned_field 49 (ZIP_REGFIELD n) \<and> ZIP_REGFIELD n \<noteq> ZIP_OPUNUSED) [27, 19, 14, 11, 3, 0]"
  "list_all (\<lambda>n. unsigned_field 49 (ZIP_URGFIELD n) \<and> ZIP_URGFIELD n \<noteq> ZIP_OPUNUSED) [27, 14, 0]"
  "unsigned_field 49 ZIP_SP" "ZIP_SP \<noteq> ZIP_OPUNUSED"
  by (simp_all add: unsigned_field_def field_defs)

lemma imm_fields:
  "list_all (\<lambda>n. signed_field (ZIP_IMMFIELD n 0) \<and> ZIP_IMMFIELD n 0 \<noteq> ZIP_OPUNUSED) [3, 7, 8, 13, 14, 15, 18, 22, 23, 32]"
  "list_all (\<lambda>n. signed_field (ZIP_IMMFIELD n 16) \<and> ZIP_IMMFIELD n 16 \<noteq> ZIP_OPUNUSED) [3, 7, 8, 32]"
  by (simp_all add: signed_field_def field_defs)

lemmas fields_ok = cc_fields reg_fields [simplified] imm_fields [simplified]

lemmas opcode_kinds = is_store_def is_branch_def is_memop_def ncasecmp_def casecmp_def to_upper_def char_at_def

lemma tables_ok:
  "list_all entry_ok oplist_special" "list_all entry_ok oplist_general" "list_all entry_ok oplist_cis" "list_all entry_ok zip_opbottomlist"
  by (simp_all add: oplist_special_def oplist_general_def oplist_cis_def zip_opbottomlist_def ZOP_def entry_ok_def opcode_kinds fields_ok)

lemma zip_oplist_ok: "list_all entry_ok zip_oplist"
  by (simp add: zip_oplist_def tables_ok)

subsection \<open>Every instruction has a line\<close>

lemma getbits_unsigned:
  assumes "unsigned_field k w" "k \<le> 2 ^ 32"
  shows "wpS (zip_getbits ins w) (\<lambda>v. unat v < k)"
proof -
  define sh bits off where d: "sh = unat (w AND 0x3f)" "bits = unat (drop_bit 8 w AND 0x3f)" "off = unat (drop_bit 16 w AND 0xff)"
  have k: "2 ^ bits + off \<le> k" "sh < 32" "w AND 0x40000000 = 0" using assms by (simp_all add: unsigned_field_def d)
  then have b: "bits \<le> 32" using assms(2) power_increasing_iff [of "2 :: nat" bits 32] by linarith
  let ?v = "zip_ubits (ucast (drop_bit sh ins)) bits"
  have "?v = take_bit bits (ucast (drop_bit sh ins))" by (simp only: zip_ubits_def push_mask take_bit_eq_mask)
  then have "unat ?v < 2 ^ bits" by (simp add: unsigned_take_bit_eq)
  then have "unat ?v + off < k" using k by linarith
  moreover from this have "unat (?v + ucast (drop_bit 16 w AND 0xff)) = unat ?v + off"
    using assms(2) by (subst unat_add_lem [THEN iffD1]) (simp_all add: d(3) unat_ucast64)
  ultimately have "unat (ucast (?v + ucast (drop_bit 16 w AND 0xff)) :: busw) < k"
    using assms(2) by (simp add: unat_ucast32)
  then show ?thesis using k by (simp add: zip_getbits_def Let_def d)
qed

lemma getbits_signed:
  assumes "signed_field w"
  shows "wpS (zip_getbits ins w) (\<lambda>v. True)"
proof -
  have "drop_bit 8 w AND 0x3f \<le> 0x3f" by (rule word_and_le1)
  then have "unat (drop_bit 8 w AND 0x3f) < 64" by (simp add: word_le_nat_alt)
  then show ?thesis using assms by (simp add: signed_field_def zip_getbits_def zip_sbits_def Let_def)
qed

lemma regstr_name: "unat i < 49 \<Longrightarrow> wpS (name_of zip_regstr i) (\<lambda>s. length s \<le> 4)"
proof -
  have "length zip_regstr = 49" "list_all (\<lambda>s. length s \<le> 4) zip_regstr" by (simp_all add: zip_regstr_def)
  then show "unat i < 49 \<Longrightarrow> ?thesis" by (simp add: name_of_def list_all_length)
qed

lemma ccstr_name: "unat i < 8 \<Longrightarrow> wpS (name_of zip_ccstr i) (\<lambda>s. length s \<le> 3)"
proof -
  have "length zip_ccstr = 8" "list_all (\<lambda>s. length s \<le> 3) zip_ccstr" by (simp_all add: zip_ccstr_def)
  then show "unat i < 8 \<Longrightarrow> ?thesis" by (simp add: name_of_def list_all_length)
qed

lemma field_unsigned:
  "w = ZIP_OPUNUSED \<or> unsigned_field k w \<Longrightarrow> k \<le> 2 ^ 32 \<Longrightarrow> wpS (field_value ins w d) (\<lambda>v. w \<noteq> ZIP_OPUNUSED \<longrightarrow> unat v < k)"
  by (auto simp: field_value_def intro: wpS_mono [OF getbits_unsigned])

lemma store_operands_short:
  assumes "unat ra < 49" "s_rb e \<noteq> ZIP_OPUNUSED \<longrightarrow> unat rb < 49"
  shows "wpS (store_operands e ra rb imv) (\<lambda>s. length s \<le> 25)"
  using fmt_d_length [of imv] assms(2)
  by (auto simp: store_operands_def intro!: wpS_mono [OF regstr_name] assms(1))

lemma other_operands_short:
  assumes "s_result e \<noteq> ZIP_OPUNUSED \<longrightarrow> unat rr < 49" "s_ra e \<noteq> ZIP_OPUNUSED \<longrightarrow> unat ra < 49" "s_rb e \<noteq> ZIP_OPUNUSED \<longrightarrow> unat rb < 49"
  shows "wpS (other_operands e rr ra rb imv) (\<lambda>s. length s \<le> 25)"
proof -
  have "length (imm_operand e imv) \<le> 14" using fmt_d_length [of imv] by (simp add: imm_operand_def)
  then show ?thesis using assms by (auto simp: other_operands_def intro!: wpS_mono [OF regstr_name])
qed

lemma branch_operand_short: "signed_field (s_i e) \<Longrightarrow> wpS (branch_operand addr ins e) (\<lambda>s. length s \<le> 25)"
  by (auto simp: branch_operand_def intro: wpS_mono [OF getbits_signed])

lemma opcode_line_ok:
  assumes "entry_ok e"
  shows "wpS (opcode_line addr ins e) (\<lambda>s. s \<noteq> [] \<and> length s \<le> 36)"
proof -
  note ok = assms [unfolded entry_ok_def, simplified]
  have cc: "wpS (cond_name ins e) (\<lambda>s. length s \<le> 3)"
    using ok by (auto simp: cond_name_def intro!: wpS_mono [OF getbits_unsigned] ccstr_name)
  have imm: "wpS (field_value ins (s_i e) 0) (\<lambda>v. True)"
    using ok by (auto simp: field_value_def getbits_signed)
  show ?thesis
    unfolding opcode_line_def wpS_simps Let_def
    apply (rule wpS_mono [OF cc], rule wpS_mono [OF field_unsigned [of _ 49]])
    subgoal using ok by simp
    subgoal by simp
    apply (rule wpS_mono [OF field_unsigned [of _ 49]])
    subgoal using ok by simp
    subgoal by simp
    apply (rule wpS_mono [OF field_unsigned [of _ 49]])
    subgoal using ok by simp
    subgoal by simp
    apply (rule wpS_mono [OF imm])
    subgoal for cc rr ra rb imv
      using ok 
      by (auto simp: pad11_def intro!: wpS_mono [OF store_operands_short] wpS_mono [OF branch_operand_short] wpS_mono [OF other_operands_short])
    done
qed

lemma pc_mov_line_ok: "wpS (pc_mov_line addr ins) (\<lambda>s. s \<noteq> [] \<and> length s \<le> 36)"
proof -
  have "wpS (zip_sbits (ucast ins) 13) (\<lambda>v. True)" by (simp add: zip_sbits_def)
  moreover have "wpS (zip_getbits ins (ZIP_REGFIELD 27)) (\<lambda>v. unat v < 49)" "wpS (zip_getbits ins (ZIP_BITFIELD 3 19)) (\<lambda>v. unat v < 8)"
    by (rule getbits_unsigned; simp add: fields_ok)+
  ultimately show ?thesis
    by (auto simp: pc_mov_line_def pad11_def intro!: wpS_mono [OF regstr_name] wpS_mono [OF ccstr_name] elim!: wpS_mono)
qed

lemma first_match_in: "first_match es ins = Some e \<Longrightarrow> e \<in> set es"
  by (induction es) (auto split: if_splits)

lemma halfstring_ok:
  assumes "list_all entry_ok listp"
  shows "wpS (zipi_to_halfstring addr ins listp) (\<lambda>s. s \<noteq> [] \<and> length s \<le> 36)"
proof -
  have "\<not> list_ex (\<lambda>e. (NOT (s_mask e)) AND s_val e \<noteq> 0) zip_oplist"
    using zip_oplist_ok by (auto simp: list_ex_iff list_all_iff entry_ok_def)
  moreover have "wpS (case first_match listp ins of None \<Rightarrow> Inr [] | Some e \<Rightarrow> opcode_line addr ins e) (\<lambda>s. length s \<le> 36)"
    using assms by (auto simp: list_all_iff dest!: first_match_in intro!: wpS_mono [OF opcode_line_ok] split: option.split)
  ultimately show ?thesis using pc_mov_line_ok by (auto simp: zipi_to_halfstring_def elim!: wpS_mono)
qed

text \<open>C17: The disassembler has a line for every instruction at every address: its tables pass its own check, no name is looked up
  outside the tables of names, no shift is out of range, and a line with its final null character fits the 80 characters
  the debugger (\<open>zipdbg.cpp\<close>) gives it. A second line is written exactly for a pair of 16-bit instructions.\<close>

theorem disassembly_safe:
  "\<exists>la lb. zipi_to_double_string addr ins second = Inr (la, lb) \<and> la \<noteq> [] \<and> length la < 80 \<and> length lb < 80 \<and>
     (lb \<noteq> [] \<longleftrightarrow> second \<and> bit ins 31)"
proof -
  have "ins AND 0x80000000 \<noteq> 0 \<longleftrightarrow> bit ins 31"
    using and_exp_eq_0_iff_not_bit [of ins 31] by simp
  then have "wpS (zipi_to_double_string addr ins second)
      (\<lambda>(la, lb). la \<noteq> [] \<and> length la < 80 \<and> length lb < 80 \<and> (lb \<noteq> [] \<longleftrightarrow> second \<and> bit ins 31))"
    by (auto simp: zipi_to_double_string_def intro!: wpS_mono [OF halfstring_ok] zip_oplist_ok tables_ok)
  then show ?thesis by (auto simp: wpS_def split: sum.splits)
qed


subsection \<open>The two halves of a word\<close>

text \<open>An entry of the first table that is the one of the second table with mask and value moved to the upper half.\<close>

definition mask_high :: "zopcode \<Rightarrow> zopcode \<Rightarrow> bool" where
  "mask_high e1 e2 \<longleftrightarrow>
     s_mask e1 = 0x80000000 OR push_bit 16 (s_mask e2 AND 0x7fff) \<and> s_mask e2 = 0x80000000 OR (s_mask e2 AND 0x7fff) \<and>
     s_val e1 = 0x80000000 OR push_bit 16 (s_val e2 AND 0x7fff) \<and> s_val e2 = 0x80000000 OR (s_val e2 AND 0x7fff)"

lemma bit_half: "bit (0x80000000 :: busw) n \<longleftrightarrow> n = 31" "bit (0x7fff :: busw) n \<longleftrightarrow> n < 15"
proof -
  have "(0x80000000 :: busw) = push_bit 31 1" "(0x7fff :: busw) = mask 15" by (simp_all add: mask_eq_exp_minus_1)
  then show "bit (0x80000000 :: busw) n \<longleftrightarrow> n = 31" "bit (0x7fff :: busw) n \<longleftrightarrow> n < 15"
    by (auto simp only: bit_push_bit_iff bit_1_iff bit_mask_iff) auto
qed

lemma match_low:
  fixes ins m v :: busw
  assumes "bit ins 31"
  shows "ins AND (0x80000000 OR (m AND 0x7fff)) = 0x80000000 OR (v AND 0x7fff) \<longleftrightarrow> (ins AND 0x7fff) AND m = v AND 0x7fff"
  (is "?l \<longleftrightarrow> ?r")
proof
  assume l: ?l
  show ?r
  proof (rule bit_word_eqI)
    fix n assume "n < LENGTH(32)"
    show "bit ((ins AND 0x7fff) AND m) n = bit (v AND 0x7fff) n"
      using l [THEN arg_cong, of "\<lambda>w. bit w n"] unfolding bit_and_iff bit_or_iff bit_half by auto
  qed
next
  assume r: ?r
  show ?l
  proof (rule bit_word_eqI)
    fix n assume "n < LENGTH(32)"
    then show "bit (ins AND (0x80000000 OR (m AND 0x7fff))) n = bit (0x80000000 OR (v AND 0x7fff)) n"
      using r [THEN arg_cong, of "\<lambda>w. bit w n"] assms unfolding bit_and_iff bit_or_iff bit_half by auto
  qed
qed

lemma match_high:
  fixes ins m v :: busw
  assumes "bit ins 31"
  shows "ins AND (0x80000000 OR push_bit 16 (m AND 0x7fff)) = 0x80000000 OR push_bit 16 (v AND 0x7fff) \<longleftrightarrow>
    (drop_bit 16 ins AND 0x7fff) AND m = v AND 0x7fff"
    (is "?l \<longleftrightarrow> ?r")
proof
  assume l: ?l
  show ?r
  proof (rule bit_word_eqI)
    fix n assume "n < LENGTH(32)"
    show "bit ((drop_bit 16 ins AND 0x7fff) AND m) n = bit (v AND 0x7fff) n"
      using l [THEN arg_cong, of "\<lambda>w. bit w (n + 16)"]
      unfolding bit_and_iff bit_or_iff bit_push_bit_iff bit_drop_bit_eq bit_half by (cases "n < 15") (auto simp: add.commute)
  qed
next
  assume r: ?r
  show ?l
  proof (rule bit_word_eqI)
    fix n assume "n < LENGTH(32)"
    then show "bit (ins AND (0x80000000 OR push_bit 16 (m AND 0x7fff))) n = bit (0x80000000 OR push_bit 16 (v AND 0x7fff)) n"
      using r [THEN arg_cong, of "\<lambda>w. bit w (n - 16)"] assms
      unfolding bit_and_iff bit_or_iff bit_push_bit_iff bit_drop_bit_eq bit_half by (cases "16 \<le> n") auto
  qed
qed

lemma mask_high_match:
  assumes "bit ins1 31" "bit ins2 31" "drop_bit 16 ins1 AND 0x7fff = ins2 AND 0x7fff" "mask_high e1 e2"
  shows "ins1 AND s_mask e1 = s_val e1 \<longleftrightarrow> ins2 AND s_mask e2 = s_val e2"
  using assms(4) match_high [OF assms(1), of "s_mask e2" "s_val e2"] match_low [OF assms(2), of "s_mask e2" "s_val e2"]
  unfolding mask_high_def assms(3) by metis

text \<open>Two entries that print the two instructions alike.\<close>

definition same_line :: "busw \<Rightarrow> busw \<Rightarrow> busw \<Rightarrow> zopcode \<Rightarrow> zopcode \<Rightarrow> bool" where
  "same_line addr ins1 ins2 e1 e2 \<longleftrightarrow> (s_mask e1 = 0 \<longleftrightarrow> s_mask e2 = 0) \<and>
     (ins1 AND s_mask e1 = s_val e1 \<longleftrightarrow> ins2 AND s_mask e2 = s_val e2) \<and>
     (ins1 AND s_mask e1 = s_val e1 \<longrightarrow> opcode_line addr ins1 e1 = opcode_line addr ins2 e2)"

definition table_line :: "busw \<Rightarrow> busw \<Rightarrow> zopcode list \<Rightarrow> exn + string" where
  "table_line addr ins listp = (case first_match listp ins of None \<Rightarrow> Inr [] | Some e \<Rightarrow> opcode_line addr ins e)"

lemma table_line_simps [simp]:
  "table_line addr ins [] = Inr []"
  "table_line addr ins (e # es) = (if s_mask e = 0 then Inr [] else if ins AND s_mask e = s_val e then opcode_line addr ins e else table_line addr ins es)"
  by (simp_all add: table_line_def)

lemma table_line_drop:
  "\<not> ins AND s_mask e = s_val e \<Longrightarrow> s_mask e \<noteq> 0 \<Longrightarrow> table_line addr ins (es @ e # fs) = table_line addr ins (es @ fs)"
  by (induction es) auto

lemma same_table:
  "list_all2 (same_line addr ins1 ins2) es fs \<Longrightarrow> list_ex (\<lambda>e. s_mask e \<noteq> 0 \<and> ins2 AND s_mask e = s_val e) fs \<Longrightarrow>
   table_line addr ins1 (es @ es') = table_line addr ins2 (fs @ fs')"
  by (induction rule: list_all2_induct) (auto simp: same_line_def)

lemma getbits_high:
  assumes "drop_bit 16 ins1 AND 0x7fff = ins2 AND 0x7fff"
  shows "zip_getbits ins1 (ZIP_REGFIELD 27) = zip_getbits ins2 (ZIP_REGFIELD 11)" "zip_getbits ins1 (ZIP_REGFIELD 19) = zip_getbits ins2 (ZIP_REGFIELD 3)"
    "zip_getbits ins1 (ZIP_IMMFIELD 7 16) = zip_getbits ins2 (ZIP_IMMFIELD 7 0)" "zip_getbits ins1 (ZIP_IMMFIELD 3 16) = zip_getbits ins2 (ZIP_IMMFIELD 3 0)"
    "zip_getbits ins1 (ZIP_IMMFIELD 8 16) = zip_getbits ins2 (ZIP_IMMFIELD 8 0)"
    "zip_getbits ins1 ZIP_SP = zip_getbits ins2 ZIP_SP"
proof -
  have b: "(bit ins1 (n + 16) \<longleftrightarrow> bit ins2 n)" if "n < 15" for n
    using assms [THEN arg_cong, of "\<lambda>w. bit w n"] that
    unfolding bit_and_iff bit_drop_bit_eq bit_half by (simp add: add.commute)
  have t: "take_bit k (drop_bit (sh + 16) ins1) = take_bit k (drop_bit sh ins2)" if "k + sh \<le> 15" for k sh
  proof (rule bit_word_eqI)
    fix n show "bit (take_bit k (drop_bit (sh + 16) ins1)) n = bit (take_bit k (drop_bit sh ins2)) n"
      using b [of "n + sh"] that by (auto simp: bit_simps ac_simps)
  qed
  have u: "take_bit k (ucast (drop_bit (sh + 16) ins1) :: u64) = take_bit k (ucast (drop_bit sh ins2))" if "k + sh \<le> 15" for k sh
    using t [OF that, THEN arg_cong, of "ucast :: _ \<Rightarrow> u64"] by (simp add: unsigned_take_bit_eq) 
  show "zip_getbits ins1 (ZIP_REGFIELD 27) = zip_getbits ins2 (ZIP_REGFIELD 11)" "zip_getbits ins1 (ZIP_REGFIELD 19) = zip_getbits ins2 (ZIP_REGFIELD 3)"
    "zip_getbits ins1 (ZIP_IMMFIELD 7 16) = zip_getbits ins2 (ZIP_IMMFIELD 7 0)" "zip_getbits ins1 (ZIP_IMMFIELD 3 16) = zip_getbits ins2 (ZIP_IMMFIELD 3 0)"
    "zip_getbits ins1 (ZIP_IMMFIELD 8 16) = zip_getbits ins2 (ZIP_IMMFIELD 8 0)"
    using u [of 4 11] u [of 4 3] u [of 7 0] u [of 3 0] u [of 8 0]
    by (simp_all add: zip_getbits_def zip_sbits_def zip_ubits_def field_defs take_bit_eq_mask mask_eq_exp_minus_1 numeral_3_eq_3 [symmetric])
  show "zip_getbits ins1 ZIP_SP = zip_getbits ins2 ZIP_SP"
    by (simp add: zip_getbits_def zip_ubits_def field_defs)
qed

lemma high_starts_in_cis:
  assumes "bit ins 31"
  shows "table_line addr ins zip_oplist = table_line addr ins oplist_cis"
proof -
  have skip: "table_line addr ins (es @ fs) = table_line addr ins fs"
    if "list_all (\<lambda>e. bit (s_mask e) 31 \<and> \<not> bit (s_val e) 31) es" for es fs
    using that
  proof (induction es)
    case (Cons e es)
    have "ins AND s_mask e \<noteq> s_val e"
    proof
      assume "ins AND s_mask e = s_val e"
      from arg_cong [OF this, of "\<lambda>w. bit w 31"] show False using Cons.prems assms by (simp add: bit_and_iff)
    qed
    then show ?case using Cons by auto
  qed simp
  have "list_all (\<lambda>e. bit (s_mask e) 31 \<and> \<not> bit (s_val e) 31) oplist_special" "list_all (\<lambda>e. bit (s_mask e) 31 \<and> \<not> bit (s_val e) 31) oplist_general"
    by (simp_all add: oplist_special_def oplist_general_def ZOP_def)
  then show ?thesis by (simp add: zip_oplist_def skip)
qed

lemma mask_high_nonzero:
  assumes "mask_high e1 e2"
  shows "s_mask e1 \<noteq> 0" "s_mask e2 \<noteq> 0"
proof -
  have "bit (s_mask e1) 31" "bit (s_mask e2) 31" using assms unfolding mask_high_def by (metis bit_half(1) bit_or_iff)+
  then show "s_mask e1 \<noteq> 0" "s_mask e2 \<noteq> 0" by auto
qed

lemma same_lineI:
  assumes "bit ins1 31" "bit ins2 31" "drop_bit 16 ins1 AND 0x7fff = ins2 AND 0x7fff" "mask_high e1 e2"
    and "opcode_line addr ins1 e1 = opcode_line addr ins2 e2"
  shows "same_line addr ins1 ins2 e1 e2"
proof -
  show ?thesis using mask_high_nonzero [OF assms(4)] assms(5) mask_high_match [OF assms(1-4)] by (simp add: same_line_def)
qed

lemmas line_defs = opcode_line_def cond_name_def field_value_def store_operands_def branch_operand_def other_operands_def imm_operand_def

text \<open>The entries that print an instruction, in the two tables; the long jump of the second is left out.\<close>

definition high_entries :: "zopcode list" where
  "high_entries = take 18 oplist_cis"

definition low_entries :: "zopcode list" where
  "low_entries = take 4 zip_opbottomlist @ take 14 (drop 5 zip_opbottomlist)"

text \<open>The four bits that tell the 16-bit instructions apart.\<close>

lemma cis_op_cases:
  fixes h :: busw
  shows "list_ex (\<lambda>v. h AND 0x780 = v) [0, 0x80, 0x100, 0x180, 0x200, 0x280, 0x300, 0x380, 0x400, 0x480, 0x500, 0x580, 0x600, 0x680, 0x700, 0x780]"
proof -
  define k where "k = unat (take_bit 4 (drop_bit 7 h))"
  have k: "k < 2 ^ 4" unfolding k_def unsigned_take_bit_eq by (rule take_bit_nat_less_exp)
  have "(0x780 :: busw) = push_bit 7 (mask 4)" by (simp add: mask_eq_exp_minus_1)
  moreover have "h AND push_bit 7 (mask 4) = push_bit 7 (take_bit 4 (drop_bit 7 h))"
    by (intro bit_word_eqI) (auto simp: bit_simps)
  ultimately have "h AND 0x780 = push_bit 7 (of_nat k)" by (simp add: k_def)
  then show ?thesis using k by (simp only: list_ex_iff) (auto simp: numeral_eq_Suc less_Suc_eq)
qed

lemma same_entries:
  assumes "bit ins1 31" "bit ins2 31" "drop_bit 16 ins1 AND 0x7fff = ins2 AND 0x7fff"
    and "ins2 AND 0x780 \<noteq> 0x300" "ins2 AND 0x780 \<noteq> 0x580"
  shows "list_all2 (same_line addr ins1 ins2) high_entries low_entries"
proof -
  have low: "(ins2 AND 0x7fff) AND 0x780 = ins2 AND 0x780" by (simp add: and.assoc)
  have none: "same_line addr ins1 ins2 e1 e2" if "mask_high e1 e2" "(ins2 AND 0x7fff) AND s_mask e2 \<noteq> s_val e2 AND 0x7fff" for e1 e2
  proof -
    have "s_val e2 AND 0x7fff \<noteq> (ins2 AND s_mask e2) AND 0x7fff" using that(2) by (metis and.assoc and.commute)
    then have "ins2 AND s_mask e2 \<noteq> s_val e2" by metis
    then show ?thesis using mask_high_match [OF assms(1-3) that(1)] mask_high_nonzero [OF that(1)] by (simp add: same_line_def)
  qed
  have "same_line addr ins1 ins2 (oplist_cis ! 10) (zip_opbottomlist ! 11)" "same_line addr ins1 ins2 (oplist_cis ! 15) (zip_opbottomlist ! 16)"
    using assms(4,5) by (intro none; simp add: oplist_cis_def zip_opbottomlist_def ZOP_def mask_high_def and.assoc)+
  moreover have "same_line addr ins1 ins2 (oplist_cis ! 14) (zip_opbottomlist ! 15)"
  proof -
    have h: "ins2 AND 0x700 = (ins2 AND 0x780) AND 0x700" "(ins2 AND 0x7fff) AND 0x700 = ins2 AND 0x700" by (simp_all add: and.assoc)
    have "ins1 AND 0x87000000 = 0x85000000 \<longleftrightarrow> ins2 AND 0x700 = 0x500"
      using match_high [OF assms(1), of "0x700" "0x500"] unfolding assms(3) h(2) by simp
    also have "\<dots> \<longleftrightarrow> ins2 AND 0x780 = 0x500" using cis_op_cases [of ins2] assms(5) unfolding h(1) by auto
    also have "\<dots> \<longleftrightarrow> ins2 AND 0x80000780 = 0x80000500" using match_low [OF assms(2), of "0x780" "0x500"] unfolding low by simp
    finally show ?thesis
      by (simp add: same_line_def oplist_cis_def zip_opbottomlist_def ZOP_def line_defs opcode_kinds fields_ok getbits_high [OF assms(3)] cong: if_cong)
  qed
  ultimately show ?thesis
    apply (simp add: high_entries_def low_entries_def oplist_cis_def zip_opbottomlist_def)
    apply (intro conjI same_lineI assms(1-3))
                        apply (simp_all add: ZOP_def mask_high_def line_defs opcode_kinds fields_ok getbits_high [OF assms(3)] cong: if_cong)
    done
qed

lemma entries_cover:
  assumes "bit ins 31" "ins AND 0x780 = 0x700 \<longrightarrow> ins AND 0x7800 = 0x7800"
  shows "list_ex (\<lambda>e. s_mask e \<noteq> 0 \<and> ins AND s_mask e = s_val e) low_entries"
proof -
  have low: "(ins AND 0x7fff) AND 0x780 = ins AND 0x780" "(ins AND 0x7fff) AND 0x700 = (ins AND 0x780) AND 0x700" by (simp_all add: and.assoc)
  have m: "ins AND 0x80000780 = 0x80000000 OR (v AND 0x7fff) \<longleftrightarrow> ins AND 0x780 = v AND 0x7fff"
    "ins AND 0x80000700 = 0x80000000 OR (v AND 0x7fff) \<longleftrightarrow> (ins AND 0x780) AND 0x700 = v AND 0x7fff" for v
    using match_low [OF assms(1), of "0x780" v] match_low [OF assms(1), of "0x700" v] unfolding low by simp_all
  have "ins AND 0x80007f80 = 0x80007f00" if "ins AND 0x780 = 0x700"
  proof -
    have "(ins AND 0x7fff) AND 0x7f80 = (ins AND 0x780) OR (ins AND 0x7800)" by (simp add: bit.conj_disj_distrib [symmetric] and.assoc)
    then show ?thesis using that assms(2) match_low [OF assms(1), of "0x7f80" "0x7f00"] by simp
  qed
  then show ?thesis using cis_op_cases [of ins] 
    m(1) [of 0] m(1) [of "0x80"] m(1) [of "0x100"] m(1) [of "0x180"] m(1) [of "0x200"] m(1) [of "0x280"] m(1) [of "0x300"] m(1) [of "0x380"]
    m(1) [of "0x400"] m(1) [of "0x480"] m(1) [of "0x500"] m(1) [of "0x580"] m(2) [of "0x600"] m(1) [of "0x780"]
    by (simp add: low_entries_def zip_opbottomlist_def ZOP_def) auto
qed

lemma first_match_exists:
  "list_ex (\<lambda>e. ins AND s_mask e = s_val e) (takeWhile (\<lambda>e. s_mask e \<noteq> 0) es) \<Longrightarrow> \<exists>e. first_match es ins = Some e"
  by (induction es) (auto split: if_splits)

lemma bottom_line_exists:
  assumes "bit ins 31"
  obtains e where "first_match zip_opbottomlist ins = Some e"
proof -
  have "ins AND 0x80000000 = 0x80000000" using match_low [OF assms, of 0 0] by simp
  then have "list_ex (\<lambda>e. ins AND s_mask e = s_val e) (takeWhile (\<lambda>e. s_mask e \<noteq> 0) zip_opbottomlist)"
    by (simp add: zip_opbottomlist_def ZOP_def)
  then show ?thesis using that first_match_exists by blast
qed

text \<open>C19: A 16-bit instruction has the same line in the upper and in the lower half of a word, whatever the other half holds.
  The exceptions are the immediate comparison and the store relative to a register, whose entries in the first table are wrong,
  the long jump, which only the second table has, and words that are no instruction.\<close>

theorem halves_agree:
  assumes "bit ins1 31" "bit ins2 31" "drop_bit 16 ins1 AND 0x7fff = ins2 AND 0x7fff"
    and "ins2 AND 0x780 \<noteq> 0x300" "ins2 AND 0x780 \<noteq> 0x580" "ins2 AND 0x7fff \<noteq> 0x7cf8"
    and "ins2 AND 0x780 = 0x700 \<longrightarrow> ins2 AND 0x7800 = 0x7800"
  shows "zipi_to_halfstring addr ins1 zip_oplist = zipi_to_halfstring addr ins2 zip_opbottomlist"
proof -
  have pc: "\<not> OFFSET_PC_MOV ins" if "bit ins 31" for ins
  proof
    assume "OFFSET_PC_MOV ins"
    from this [unfolded OFFSET_PC_MOV_def, THEN arg_cong, of "\<lambda>w. bit w 31"] show False using that by (simp add: bit_and_iff)
  qed
  have ljmp: "\<not> ins2 AND s_mask (zip_opbottomlist ! 4) = s_val (zip_opbottomlist ! 4)"
    using match_low [OF assms(2), of "0x7fff" "0x7cf8"] assms(6) by (simp add: zip_opbottomlist_def ZOP_def)
  have "table_line addr ins1 oplist_cis = table_line addr ins1 (high_entries @ drop 18 oplist_cis)" by (simp add: high_entries_def)
  also have "\<dots> = table_line addr ins2 (low_entries @ drop 19 zip_opbottomlist)"
    by (rule same_table [OF same_entries [OF assms(1-5)] entries_cover [OF assms(2,7)]])
  also have "\<dots> = table_line addr ins2 (take 4 zip_opbottomlist @ drop 5 zip_opbottomlist)"
    by (simp add: low_entries_def zip_opbottomlist_def)
  also have "\<dots> = table_line addr ins2 (take 4 zip_opbottomlist @ zip_opbottomlist ! 4 # drop 5 zip_opbottomlist)"
    by (rule table_line_drop [OF ljmp, symmetric]) (simp add: zip_opbottomlist_def ZOP_def)
  also have "take 4 zip_opbottomlist @ zip_opbottomlist ! 4 # drop 5 zip_opbottomlist = zip_opbottomlist" by (simp add: zip_opbottomlist_def)
  finally have "table_line addr ins1 zip_oplist = table_line addr ins2 zip_opbottomlist" using high_starts_in_cis [OF assms(1)] by simp
  moreover obtain e where e: "first_match zip_opbottomlist ins2 = Some e" using bottom_line_exists [OF assms(2)] .
  moreover have "wpS (opcode_line addr ins2 e) (\<lambda>s. s \<noteq> [] \<and> length s \<le> 36)"
    using first_match_in [OF e] tables_ok(4) by (intro opcode_line_ok) (simp add: list_all_iff)
  ultimately show ?thesis using pc [OF assms(1)] pc [OF assms(2)]
    by (cases "opcode_line addr ins2 e") (simp_all add: zipi_to_halfstring_def table_line_def)
qed

theorem halves_agree_witness:
  "bit (0x82070000 :: busw) 31 \<and> zipi_to_halfstring 0x1000 0x82070000 zip_oplist = zipi_to_halfstring 0x1000 0x87f98207 zip_opbottomlist"
  using halves_agree [of "0x82070000" "0x87f98207" "0x1000"] by simp


subsection \<open>Long constants\<close>

lemma bitreverse_loop_bit:
  "b \<le> 32 \<Longrightarrow> i < 32 \<Longrightarrow> bit (bitreverse_loop b v r) i \<longleftrightarrow> (if i < b then bit v (b - 1 - i) else bit r (i - b))"
proof (induction b arbitrary: v r)
  case (Suc b)
  have "bit (push_bit 1 r OR (v AND 1)) (i - b) = (if i = b then bit v 0 else bit r (i - Suc b))" if "b \<le> i"
    using that Suc.prems unfolding bit_or_iff bit_and_iff bit_push_bit_iff bit_1_iff by (cases "i = b") auto
  moreover have "bit (drop_bit 1 v) (b - 1 - i) = bit v (b - i)" if "i < b" using that by (simp add: bit_drop_bit_eq Suc_diff_Suc)
  ultimately show ?case using Suc by (auto simp: less_Suc_eq)
qed simp

lemma bit_bitreverse: "i < 32 \<Longrightarrow> bit (zip_bitreverse v) i \<longleftrightarrow> bit v (31 - i)"
  by (simp add: zip_bitreverse_def bitreverse_loop_bit)

lemma bitreverse_involution: "zip_bitreverse (zip_bitreverse v) = v"
  by (rule bit_word_eqI) (simp add: bit_bitreverse)

text \<open>C36: The pair of instructions that loads a 32-bit constant, \<open>BREV\<close> with the reversed upper half and \<open>LDILO\<close> with the lower
  half into the same register under the same condition, is recognised as a pair, its first word as the possible beginning of one, and the
  value the disassembler computes for it is the constant.\<close>

theorem long_constant_read_back:
  fixes v reg cond :: busw
  assumes "reg < 16" "cond < 8"
  defines "operands \<equiv> push_bit 27 reg OR push_bit 19 cond"
  defines "one \<equiv> 0x02000000 OR operands OR (zip_bitreverse v AND 0xffff)"
    and "two \<equiv> 0x02400000 OR operands OR (v AND 0xffff)"
  shows "TWOWORD_VALUE one two = v \<and> TWOWORD_LOAD one two \<and> POSSIBLE_TWOWORD_BEGINNING one"
proof -
  have reg: "bit reg n \<Longrightarrow> n < 4" and cond: "bit cond n \<Longrightarrow> n < 3" for n
    using assms(1,2) not_bit_small [of "unat reg" 4 n] not_bit_small [of "unat cond" 3 n]
    by (force simp: word_less_nat_alt bit_unsigned_iff not_less [symmetric])+
  have c: "(0xffff :: busw) = mask 16" "(0x02000000 :: busw) = push_bit 25 1" "(0x02400000 :: busw) = push_bit 25 1 OR push_bit 22 1"
    "(0x87c40000 :: busw) = push_bit 31 1 OR push_bit 22 (mask 5) OR push_bit 18 1" "(0xf8380000 :: busw) = push_bit 27 (mask 5) OR push_bit 19 (mask 3)"
    by (simp_all add: mask_eq_exp_minus_1)
  note b = bit_or_iff bit_and_iff bit_xor_iff bit_push_bit_iff bit_1_iff bit_mask_iff
  have zero: "push_bit 27 reg AND 0xffff = 0" "push_bit 19 cond AND 0xffff = 0" "push_bit 27 reg AND 0x87c40000 = 0" "push_bit 19 cond AND 0x87c40000 = 0"
    by (rule bit_word_eqI; unfold c b; use reg cond in fastforce)+
  have dist: "(x OR y) AND m = (x AND m) OR (y AND m)" for x y m :: busw by (rule bit.conj_disj_distrib2)
  have one: "one AND 0xffff = zip_bitreverse v AND 0xffff" "one AND 0x87c40000 = 0x02000000"
   and two: "two AND 0xffff = v AND 0xffff" "two AND 0x87c40000 = 0x02400000"
    unfolding one_def two_def operands_def dist zero by (simp_all add: and.assoc)
  have "one AND 0xf8380000 = operands AND 0xf8380000" "two AND 0xf8380000 = operands AND 0xf8380000"
    unfolding one_def two_def operands_def dist by (simp_all add: and.assoc)
  then have same: "(one XOR two) AND 0xf8380000 = 0" by (simp add: bit.conj_xor_distrib2)
  have "TWOWORD_VALUE one two = v"
    unfolding TWOWORD_VALUE_def one two
  proof (rule bit_word_eqI)
    fix n assume "n < LENGTH(32)"
    then show "bit ((v AND 0xffff) OR zip_bitreverse (zip_bitreverse v AND 0xffff)) n = bit v n"
      unfolding c b by (auto simp: bit_bitreverse b)
  qed
  then show ?thesis using one two same by (simp add: TWOWORD_LOAD_def POSSIBLE_TWOWORD_BEGINNING_def)
qed

theorem long_constant_read_back_witness:
  "(3 :: busw) < 16 \<and> TWOWORD_VALUE (0x02000000 OR (push_bit 27 3 OR push_bit 19 5) OR (zip_bitreverse 0xdeadbeef AND 0xffff))
     (0x02400000 OR (push_bit 27 3 OR push_bit 19 5) OR (0xdeadbeef AND 0xffff)) = 0xdeadbeef"
  using long_constant_read_back [of 3 5 "0xdeadbeef"] by simp

subsection \<open>Where the tables and the debugger are wrong\<close>

text \<open>The entry of the store relative to a register in the upper half is never reached: the one before it matches whenever it does,
  and prints the register as the stack pointer.\<close>

lemma store_register_shadowed:
  "ins AND s_mask (oplist_cis ! 15) = s_val (oplist_cis ! 15) \<Longrightarrow> ins AND s_mask (oplist_cis ! 14) = s_val (oplist_cis ! 14)"
proof -
  have "ins AND 0x87000000 = (ins AND 0x87800000) AND 0x87000000" by (simp add: and.assoc)
  then show "ins AND s_mask (oplist_cis ! 15) = s_val (oplist_cis ! 15) \<Longrightarrow> ?thesis"
    by (simp add: oplist_cis_def ZOP_def)
qed

text \<open>\<open>zop_early_branch\<close> multiplies the offset of a branch, which counts bytes, by four, and takes the offset of a backward branch for a
  forward one; the lines show the targets the processor goes to.\<close>

lemma early_branch_wrong:
  "zop_early_branch 0x1000 0x78800010 = 0x1044" "zipi_to_halfstring 0x1000 0x78800010 zip_oplist = Inr ''BRA        @0x00001014''"
  "zop_early_branch 0x1000 0x7883fff8 = 0x1024" "zipi_to_halfstring 0x1000 0x7883fff8 zip_oplist = Inr ''BRA        @0x00000ffc''"
  by code_simp+

end
