(* ===== verification/ScopeCls.thy ===== *)
theory ScopeCls
  imports DevBus CFormat
begin

text \<open>
  The logic analyzers of the design as the host reads them, class \<open>SCOPE\<close> of \<open>src/sw/host/scopecls.cpp\<close> and \<open>scopecls.h\<close>: the
  control register, the samples, and the two outputs made of them, a listing and a VCD file.

  The bus is the record of theory \<open>DevBus\<close>. A file or the standard output is the list of the strings that are printed to it, one for
  each call of \<open>printf\<close>. What a class derived from \<open>SCOPE\<close> defines (\<open>decode\<close>, \<open>define_traces\<close>) is an argument, and so are the
  text of the current time and the conversions from clocks to nanoseconds, which are computed in floating point.
\<close>

subsection \<open>State\<close>

record traceinfo =
  m_name :: string
  m_key :: string
  m_nbits :: busw
  m_nshift :: busw

record 'd scope =
  m_fpga :: 'd
  m_addr :: busw
  m_compressed :: bool
  m_vector_read :: bool
  m_scoplen :: busw
  m_holdoff :: busw
  m_data :: "busw list option"
  m_clkfreq_hz :: busw
  m_traces :: "traceinfo list"
  stdout :: "string list"

text \<open>The constructor leaves \<open>m_holdoff\<close> as it is.\<close>

definition SCOPE :: "'d \<Rightarrow> busw \<Rightarrow> bool \<Rightarrow> bool \<Rightarrow> busw \<Rightarrow> 'd scope" where
  "SCOPE fpga addr compressed vecread junk =
     \<lparr>m_fpga = fpga, m_addr = addr, m_compressed = compressed, m_vector_read = vecread, m_scoplen = 0, m_holdoff = junk,
      m_data = None, m_clkfreq_hz = 100000000, m_traces = [], stdout = []\<rparr>"

definition set_clkfreq_hz :: "busw \<Rightarrow> 'd scope \<Rightarrow> 'd scope" where
  "set_clkfreq_hz clkfreq_hz s = s\<lparr>m_clkfreq_hz := clkfreq_hz\<rparr>"

definition get_clkfreq_hz :: "'d scope \<Rightarrow> busw" where
  "get_clkfreq_hz s = m_clkfreq_hz s"

text \<open>A call of the bus, made by the scope.\<close>

definition on_bus :: "('d, 'a) call \<Rightarrow> ('d scope, 'a) call" where
  "on_bus m s = (case m (m_fpga s) of (r, d) \<Rightarrow> (r, s\<lparr>m_fpga := d\<rparr>))"

definition printf :: "string list \<Rightarrow> ('d scope, unit) call" where
  "printf ls = modifyE (\<lambda>s. s\<lparr>stdout := stdout s @ ls\<rparr>)"

abbreviation (input) tab :: string where "tab \<equiv> [CHR 0x09]"
abbreviation (input) nl :: string where "nl \<equiv> [CHR 0x0a]"

subsection \<open>The control register\<close>

definition ready :: "'d devbus \<Rightarrow> ('d scope, bool) call" where
  "ready bus s =
     bindE (on_bus (bus_readio bus (m_addr s))) (\<lambda>v.
     bindE (modifyE (\<lambda>s. if m_scoplen s = 0
                         then s\<lparr>m_scoplen := push_bit (unat (drop_bit 20 v AND 0x1f)) 1, m_holdoff := v AND 0xfffff\<rparr> else s)) (\<lambda>_.
     returnE (drop_bit 28 v AND 6 = 6))) s"

definition flag_line :: "string \<Rightarrow> busw \<Rightarrow> string \<Rightarrow> string \<Rightarrow> string" where
  "flag_line name v yes no = tab @ name @ tab @ (if v \<noteq> 0 then yes else no) @ nl"

definition control_lines :: "busw \<Rightarrow> busw \<Rightarrow> string list" where
  "control_lines v scopelen =
    [tab @ ''CNTRL-REG:'' @ tab @ ''0x'' @ fmt_08x v @ nl,
     flag_line ''31. RESET:'' (v AND 0x80000000) ''Ongoing'' ''Complete'',
     flag_line ''30. STOPPED:'' (v AND 0x40000000) ''Yes'' ''No'',
     flag_line ''29. TRIGGERED:'' (v AND 0x20000000) ''Yes'' ''No'',
     flag_line ''28. PRIMED:'' (v AND 0x10000000) ''Yes'' ''No'',
     flag_line ''27. MANUAL:'' (v AND 0x08000000) ''Yes'' ''No'',
     flag_line ''26. DISABLED:'' (v AND 0x04000000) ''Yes'' ''No'',
     flag_line ''25. ZERO:'' (v AND 0x02000000) ''Yes'' ''No'',
     tab @ ''SCOPLEN:'' @ tab @ fmt_08x scopelen @ '' ('' @ fmt_d scopelen @ '')'' @ nl,
     tab @ ''HOLDOFF:'' @ tab @ fmt_08x (v AND 0xfffff) @ nl,
     tab @ ''TRIGLOC:'' @ tab @ fmt_d (scopelen - (v AND 0xfffff)) @ nl]"

definition decode_control :: "'d devbus \<Rightarrow> ('d scope, unit) call" where
  "decode_control bus s =
     bindE (on_bus (bus_readio bus (m_addr s))) (\<lambda>v. printf (control_lines v (m_scoplen s))) s"

definition scoplen :: "'d devbus \<Rightarrow> ('d scope, busw) call" where
  "scoplen bus s =
     bindE (if m_scoplen s = 0
            then bindE (on_bus (bus_readio bus (m_addr s))) (\<lambda>v.
                 modifyE (\<lambda>s. let lgln = drop_bit 20 v AND 0x1f; s = s\<lparr>m_holdoff := v AND 0xfffff\<rparr>
                              in if lgln \<noteq> 0 then s\<lparr>m_scoplen := push_bit (unat lgln) 1\<rparr> else s))
            else returnE ()) (\<lambda>_. getsE m_scoplen) s"

subsection \<open>The samples\<close>

text \<open>A store of words at \<open>m_data[i]\<close>: \<open>m_data\<close> may be null, and a store past the end of the array is an error.\<close>

definition put_data :: "nat \<Rightarrow> busw list \<Rightarrow> ('d scope, unit) call" where
  "put_data i vs s = (case m_data s of None \<Rightarrow> (Inl BadPointer, s)
     | Some d \<Rightarrow> (case store_at i vs d of Inl e \<Rightarrow> (Inl e, s) | Inr d \<Rightarrow> (Inr (), s\<lparr>m_data := Some d\<rparr>)))"

text \<open>The loop of single reads: \<open>n\<close> words are left, the next goes to \<open>m_data[i]\<close>.\<close>

fun read_each :: "'d devbus \<Rightarrow> nat \<Rightarrow> nat \<Rightarrow> ('d scope, unit) call" where
  "read_each bus i 0 s = (Inr (), s)"
| "read_each bus i (Suc n) s =
     bindE (on_bus (bus_readio bus (m_addr s + 4))) (\<lambda>v.
     bindE (put_data i [v]) (\<lambda>_. read_each bus (Suc i) n)) s"

text \<open>\<open>readz\<close> stores the words it returns from \<open>m_data[0]\<close> on. \<open>junk\<close> is what the memory allocated for the samples holds.\<close>

definition rawread :: "(nat \<Rightarrow> busw) \<Rightarrow> 'd devbus \<Rightarrow> ('d scope, unit) call" where
  "rawread junk bus s =
     (if m_data s \<noteq> None then (Inr (), s)
      else bindE (scoplen bus) (\<lambda>n.
        if sint n \<le> 4 then printf [''ERR: Scope has less than a minimum length.  Is it truly a scope?'' @ nl]
        else bindE (modifyE (\<lambda>s. s\<lparr>m_data := Some (map junk [0..<unat n])\<rparr>)) (\<lambda>_.
             if m_vector_read s
             then bindE (on_bus (bus_readz bus (m_addr s + 4) (sint n))) (put_data 0)
             else read_each bus 0 (unat n))) s)"

text \<open>\<open>operator[]\<close>\<close>

definition word_of :: "busw \<Rightarrow> 'd scope \<Rightarrow> exn + busw" where
  "word_of addr s = (case m_data s of
     Some d \<Rightarrow>
       if 0 < m_scoplen s
       then (let i = unat (addr AND (m_scoplen s - 1)) in if i < length d then Inr (d ! i) else Inl OutOfBounds)
       else Inr 0
   | None \<Rightarrow> Inr 0)"

text \<open>The elements \<open>m_data[i]\<close> of a loop from zero to \<open>(int) m_scoplen\<close>.\<close>

definition samples :: "'d scope \<Rightarrow> exn + busw list" where
  "samples s =
     (if sint (m_scoplen s) \<le> 0 then Inr []
      else case m_data s of None \<Rightarrow> Inl BadPointer
        | Some d \<Rightarrow> if unat (m_scoplen s) \<le> length d then Inr (take (unat (m_scoplen s)) d) else Inl OutOfBounds)"

fun add_runs :: "nat \<Rightarrow> busw list \<Rightarrow> busw \<Rightarrow> busw" where
  "add_runs i [] alen = alen"
| "add_runs i (w # ws) alen =
     add_runs (Suc i) ws (if w AND 0x80000000 \<noteq> 0 \<and> i \<noteq> 0 then alen + (w AND 0x7fffffff) else alen)"

definition getaddresslen :: "'d scope \<Rightarrow> exn + busw" where
  "getaddresslen s =
     (if m_compressed s then bindS (samples s) (\<lambda>ws. Inr (add_runs 0 ws (m_scoplen s))) else Inr (m_scoplen s))"

subsection \<open>The listing\<close>

definition trigger_mark :: "bool \<Rightarrow> string list" where
  "trigger_mark b = (if b then ['' <--- TRIGGER''] else [])"

fun print_compressed :: "(busw \<Rightarrow> string list) \<Rightarrow> busw \<Rightarrow> busw list \<Rightarrow> u64 \<Rightarrow> string list" where
  "print_compressed decode offset [] addrv = []"
| "print_compressed decode offset (w # ws) addrv =
     (if drop_bit 31 w AND 1 \<noteq> 0
      then ['' ** (+0x'' @ fmt_08x (w AND 0x7fffffff) @ '' = '' @ pad_left 8 (fmt_d (w AND 0x7fffffff)) @ '')'' @ nl] @
           print_compressed decode offset ws (addrv + ucast ((w AND 0x7fffffff) + 1))
      else [pad_left 10 (fmt_ld addrv) @ '' '' @ fmt_08x w @ '': ''] @ decode w @
           trigger_mark (ucast (addrv + 1) = offset) @ [nl] @ print_compressed decode offset ws (addrv + 1))"

definition print_sample :: "(busw \<Rightarrow> string list) \<Rightarrow> busw \<Rightarrow> busw list \<Rightarrow> nat \<Rightarrow> string list" where
  "print_sample decode offset ws i =
     (if 0 < i \<and> ws ! i = ws ! (i - 1) \<and> i < length ws - 1
      then (if 2 < i \<and> ws ! i \<noteq> ws ! (i - 2) then ['' **** ****'' @ nl] else [])
      else [pad_left 9 (fmt_d (of_nat i)) @ '' '' @ fmt_08x (ws ! i) @ '': ''] @ decode (ws ! i) @
           trigger_mark (of_nat i = offset) @ [nl])"

definition print_scope :: "(nat \<Rightarrow> busw) \<Rightarrow> 'd devbus \<Rightarrow> (busw \<Rightarrow> string list) \<Rightarrow> ('d scope, unit) call" where
  "print_scope junk bus decode =
     bindE (rawread junk bus) (\<lambda>_ s.
     bindE (liftE (getaddresslen s)) (\<lambda>alen.
     let offset = alen - m_holdoff s - 1
     in bindE (liftE (samples s)) (\<lambda>ws.
        printf (if m_compressed s then print_compressed decode offset ws 0
                else concat (map (print_sample decode offset ws) [0..<length ws])))) s)"

subsection \<open>The VCD file\<close>

text \<open>The conversions of the code from clocks to nanoseconds: the time before the trigger, of a sample of a compressed scope, and of the
  two edges of the clock in a sample of an uncompressed one. The first argument is \<open>m_clkfreq_hz\<close>.\<close>

record float_ns =
  zero_ns :: "busw \<Rightarrow> busw \<Rightarrow> u64"
  addr_ns :: "busw \<Rightarrow> u64 \<Rightarrow> u64"
  rise_ns :: "busw \<Rightarrow> nat \<Rightarrow> busw"
  fall_ns :: "busw \<Rightarrow> nat \<Rightarrow> busw"

definition c_str :: "string \<Rightarrow> string" where
  "c_str s = takeWhile (\<lambda>c. c \<noteq> CHR 0x00) s"

definition write_trace_timescale :: "string list" where
  "write_trace_timescale = [''$timescale 1ns $end'' @ nl @ nl]"

definition write_trace_timezero :: "float_ns \<Rightarrow> busw \<Rightarrow> busw \<Rightarrow> string list" where
  "write_trace_timezero fl clk offset = [''$timezero '' @ fmt_ld (- zero_ns fl clk offset) @ '' $end'' @ nl @ nl]"

definition var_line :: "traceinfo \<Rightarrow> string list" where
  "var_line info =
     [''  $var wire '' @ pad_left 2 (fmt_d (m_nbits info)) @ '' '' @ c_str (m_key info) @ '' '' @ m_name info,
      if 0 < m_nbits info \<and> CHR ''['' \<notin> set (m_name info) then ''['' @ fmt_d (m_nbits info - 1) @ '':0] $end'' @ nl
      else '' $end'' @ nl]"

definition write_trace_header :: "float_ns \<Rightarrow> string \<Rightarrow> busw \<Rightarrow> 'd scope \<Rightarrow> string list" where
  "write_trace_header fl now offset s =
     [''$version Generated by WBScope $end'' @ nl, ''$date '' @ now @ nl @ '' $end'' @ nl] @ write_trace_timescale @
     (if offset \<noteq> 0 then write_trace_timezero fl (m_clkfreq_hz s) offset else []) @
     ['' $scope module WBSCOPE $end'' @ nl] @
     (if m_compressed s then [''  $var wire 31 '' @ [CHR 0x27] @ ''R _raw_data [30:0] $end'' @ nl]
      else [''  $var wire  1 '' @ [CHR 0x27] @ ''C clk $end'' @ nl, ''  $var wire 32 '' @ [CHR 0x27] @ ''R _raw_data [31:0] $end'' @ nl]) @
     [''  $var wire  1 '' @ [CHR 0x27] @ ''T _trigger $end'' @ nl] @
     concat (map var_line (m_traces s)) @
     ['' $upscope $end'' @ nl, ''$enddefinitions $end'' @ nl]"

text \<open>\<open>nbits\<close> is a signed number; a shift by 32 or more is an error.\<close>

definition write_binary_trace :: "busw \<Rightarrow> busw \<Rightarrow> string \<Rightarrow> exn + string" where
  "write_binary_trace nbits val str =
     (if sint nbits \<le> 1 then Inr (fmt_d (val AND 1) @ str @ nl)
      else if 32 < nbits then Inl BadShift
      else let val = (if nbits < 32 then val AND NOT (push_bit (unat nbits) (-1)) else val)
           in Inr (''b'' @ concat (map (\<lambda>i. fmt_d (drop_bit (unat nbits - 1 - i) val AND 1)) [0..<unat nbits]) @ '' '' @ str @ nl))"

definition write_trace_value :: "traceinfo \<Rightarrow> busw \<Rightarrow> exn + string" where
  "write_trace_value info value =
     (if 32 \<le> m_nshift info then Inl BadShift
      else write_binary_trace (m_nbits info) (drop_bit (unat (m_nshift info)) value) (c_str (m_key info)))"

definition trace_key :: "nat \<Rightarrow> string" where
  "trace_key nkey =
     [CHR ''v'', char_of (if nkey < 26 then 97 + nkey else if nkey < 52 then 65 + nkey - 26 else 48 + nkey - 52), CHR 0x00, CHR 0x00]"

definition register_trace :: "string \<Rightarrow> busw \<Rightarrow> busw \<Rightarrow> 'd scope \<Rightarrow> 'd scope" where
  "register_trace name nbits shift s =
     s\<lparr>m_traces := m_traces s @ [\<lparr>m_name = name, m_key = trace_key (length (m_traces s)), m_nbits = nbits, m_nshift = shift\<rparr>]\<rparr>"

definition trigger_line :: "bool \<Rightarrow> string" where
  "trigger_line b = (if b then ''1'' else ''0'') @ [CHR 0x27] @ ''T'' @ nl"

definition raw_key :: string where
  "raw_key = [CHR 0x27] @ ''R'' @ nl"

text \<open>The loop over the words of a compressed scope, from the \<open>i\<close>th word on.\<close>

fun vcd_compressed :: "float_ns \<Rightarrow> 'd scope \<Rightarrow> busw \<Rightarrow> busw \<Rightarrow> nat \<Rightarrow> busw list \<Rightarrow> u64 \<Rightarrow> bool \<Rightarrow> exn + string list" where
  "vcd_compressed fl s alen offset i [] addrv last_trigger = Inr []"
| "vcd_compressed fl s alen offset i (w # ws) addrv last_trigger =
     (if drop_bit 31 w AND 1 \<noteq> 0
      then (if i \<noteq> 0
            then bindS (vcd_compressed fl s alen offset (Suc i) ws (addrv + ucast ((w AND 0x7fffffff) + 1)) last_trigger) (\<lambda>ls.
                 Inr ((if last_trigger then [''#'' @ fmt_ld (addr_ns fl (m_clkfreq_hz s) (addrv + 1)) @ nl, trigger_line False] else []) @ ls))
            else vcd_compressed fl s alen offset (Suc i) ws addrv last_trigger)
      else let hit = (ucast (addrv - ucast alen) = offset)
           in bindS (write_binary_trace 31 w raw_key) (\<lambda>r.
              bindS (mapS (\<lambda>info. write_trace_value info w) (m_traces s)) (\<lambda>vs.
              bindS (vcd_compressed fl s alen offset (Suc i) ws (addrv + 1) (last_trigger \<or> hit)) (\<lambda>ls.
                Inr ([''#'' @ fmt_ld (addr_ns fl (m_clkfreq_hz s) addrv) @ nl] @
                     (if hit then [trigger_line True] else if last_trigger then [trigger_line False] else []) @ [r] @ vs @ ls)))))"

definition vcd_sample :: "float_ns \<Rightarrow> 'd scope \<Rightarrow> busw \<Rightarrow> nat \<Rightarrow> busw \<Rightarrow> exn + string list" where
  "vcd_sample fl s offset i w =
     bindS (write_binary_trace (if m_compressed s then 31 else 32) w raw_key) (\<lambda>r.
     bindS (mapS (\<lambda>info. write_trace_value info w) (m_traces s)) (\<lambda>vs.
       Inr ([''#'' @ fmt_d (rise_ns fl (m_clkfreq_hz s) i) @ nl, ''1'' @ [CHR 0x27] @ ''C'' @ nl, r, trigger_line (of_nat i = offset)] @ vs @
            [''#'' @ fmt_d (fall_ns fl (m_clkfreq_hz s) i) @ nl, ''0'' @ [CHR 0x27] @ ''C'' @ nl])))"

text \<open>The result is what is written to the file.\<close>

definition writevcd :: "(nat \<Rightarrow> busw) \<Rightarrow> float_ns \<Rightarrow> string \<Rightarrow> 'd devbus \<Rightarrow> ('d scope \<Rightarrow> 'd scope) \<Rightarrow> ('d scope, string list) call" where
  "writevcd junk fl now bus define_traces =
     bindE (\<lambda>s. if m_data s = None then rawread junk bus s else (Inr (), s)) (\<lambda>_.
     bindE (modifyE (\<lambda>s. if m_traces s = [] then define_traces s else s)) (\<lambda>_ s.
     bindE (liftE (getaddresslen s)) (\<lambda>alen.
     let offset = alen - m_holdoff s - 1
     in bindE (liftE (samples s)) (\<lambda>ws.
        bindE (liftE (if m_compressed s then vcd_compressed fl s alen offset 0 ws 0 True
                      else bindS (mapS (\<lambda>(i, w). vcd_sample fl s offset i w) (enumerate 0 ws)) (\<lambda>lss. Inr (concat lss)))) (\<lambda>ls.
        returnE (write_trace_header fl now offset s @ ls)))) s))"

text \<open>The other \<open>writevcd\<close>: \<open>opened\<close> says whether the file could be opened; the messages to the standard error stream are not kept.\<close>

definition writevcd_named :: "(nat \<Rightarrow> busw) \<Rightarrow> bool \<Rightarrow> float_ns \<Rightarrow> string \<Rightarrow> 'd devbus \<Rightarrow> ('d scope \<Rightarrow> 'd scope) \<Rightarrow> ('d scope, string list option) call" where
  "writevcd_named junk opened fl now bus define_traces =
     (if opened then bindE (writevcd junk fl now bus define_traces) (\<lambda>ls. returnE (Some ls)) else returnE None)"


subsection \<open>The samples and the length belong together\<close>

definition scope_inv :: "'d scope \<Rightarrow> bool" where
  "scope_inv s \<longleftrightarrow> (\<forall>d. m_data s = Some d \<longrightarrow> length d = unat (m_scoplen s) \<and> 4 < sint (m_scoplen s)) \<and>
     map m_key (m_traces s) = map trace_key [0..<length (m_traces s)]"

lemma scope_inv_fpga [simp]: "scope_inv (s\<lparr>m_fpga := d\<rparr>) = scope_inv s" "scope_inv (s\<lparr>stdout := ls\<rparr>) = scope_inv s"
  "scope_inv (s\<lparr>m_holdoff := v\<rparr>) = scope_inv s" "scope_inv (s\<lparr>m_clkfreq_hz := v\<rparr>) = scope_inv s"
  by (simp_all add: scope_inv_def)

lemma scope_inv_length: "m_scoplen s = 0 \<Longrightarrow> scope_inv s \<Longrightarrow> m_data s = None"
  by (cases "m_data s") (auto simp: scope_inv_def)

lemma inv_set_scoplen: "m_scoplen s = 0 \<Longrightarrow> scope_inv s \<Longrightarrow> scope_inv (s\<lparr>m_scoplen := v\<rparr>)"
  by (auto dest: scope_inv_length simp: scope_inv_def)

lemma inv_bindE:
  "scope_inv (snd (m s)) \<Longrightarrow> (\<And>x t. scope_inv t \<Longrightarrow> m s = (Inr x, t) \<Longrightarrow> scope_inv (snd (f x t))) \<Longrightarrow> scope_inv (snd (bindE m f s))"
  by (cases "m s"; cases "fst (m s)") (auto simp: bindE_def)

lemma inv_basic [simp]: "scope_inv (snd (on_bus m s)) = scope_inv s" "scope_inv (snd (printf ls s)) = scope_inv s"
  "scope_inv (snd (liftE r s)) = scope_inv s" "scope_inv (snd (getsE h s)) = scope_inv s" "scope_inv (snd (returnE x s)) = scope_inv s"
  "scope_inv (snd (modifyE g s)) = scope_inv (g s)"
  by (simp_all add: on_bus_def printf_def call_defs split: prod.splits)

lemma ready_inv: "scope_inv s \<Longrightarrow> scope_inv (snd (ready bus s))"
  unfolding ready_def by (intro inv_bindE) (auto intro: inv_set_scoplen)

lemma decode_control_inv: "scope_inv s \<Longrightarrow> scope_inv (snd (decode_control bus s))"
  unfolding decode_control_def by (intro inv_bindE) simp_all

lemma scoplen_inv: "scope_inv s \<Longrightarrow> scope_inv (snd (scoplen bus s))"
  by (auto simp: scoplen_def Let_def bindE_def on_bus_def call_defs intro: inv_set_scoplen split: prod.splits sum.splits)

lemma scoplen_result:
  "scoplen bus s = (Inr n, t) \<Longrightarrow> n = m_scoplen t \<and> m_data t = m_data s \<and> m_vector_read t = m_vector_read s \<and> m_addr t = m_addr s"
  by (auto simp: scoplen_def bindE_eq_Inr_iff call_defs on_bus_def Let_def split: prod.splits if_splits)

text \<open>The errors that a read over the bus may end in. They are all that the operations below may end in, but for the use of \<open>m_data\<close> when
  it is null, which it is after \<open>rawread\<close> when the scope says it has at most four words, and for a trace outside the word.\<close>

definition bus_errors :: "'d devbus \<Rightarrow> exn set" where
  "bus_errors bus = {e. \<exists>a d. fst (bus_readio bus a d) = Inl e \<or> (\<exists>n. fst (bus_readz bus a n d) = Inl e)}"

definition null_data :: "'d scope \<Rightarrow> bool" where
  "null_data s \<longleftrightarrow> m_data s = None \<and> 0 < sint (m_scoplen s) \<and> sint (m_scoplen s) \<le> 4"

definition bad_trace :: "traceinfo \<Rightarrow> bool" where
  "bad_trace info \<longleftrightarrow> 32 \<le> m_nshift info \<or> 32 < m_nbits info"

lemma on_bus_readio:
  "(\<And>e d. e \<in> bus_errors bus \<Longrightarrow> P e (s\<lparr>m_fpga := d\<rparr>)) \<Longrightarrow> (\<And>v d. Q v (s\<lparr>m_fpga := d\<rparr>)) \<Longrightarrow>
   outcomeE (on_bus (bus_readio bus a)) P Q s"
  by (cases "bus_readio bus a (m_fpga s)"; cases "fst (bus_readio bus a (m_fpga s))")
    (auto simp: outcomeE_def on_bus_def bus_errors_def, metis fst_conv)

lemma on_bus_readz:
  fixes n :: busw
  assumes "reads_as_asked bus" "0 \<le> sint n" "\<And>e d. e \<in> bus_errors bus \<Longrightarrow> P e (s\<lparr>m_fpga := d\<rparr>)"
    and "\<And>vs d. length vs = unat n \<Longrightarrow> Q vs (s\<lparr>m_fpga := d\<rparr>)"
  shows "outcomeE (on_bus (bus_readz bus a (sint n))) P Q s"
proof -
  obtain r d where r: "bus_readz bus a (sint n) (m_fpga s) = (r, d)" by fastforce
  show ?thesis
  proof (cases r)
    case (Inl e)
    then have "e \<in> bus_errors bus" using r by (auto simp: bus_errors_def) (metis fst_conv)
    then show ?thesis using r Inl assms(3) by (simp add: outcomeE_def on_bus_def)
  next
    case (Inr vs)
    then have "length vs = unat n" using r assms(1) unfolding sint_nonneg [OF assms(2)] reads_as_asked_def by blast
    then show ?thesis using r Inr assms(4) by (simp add: outcomeE_def on_bus_def)
  qed
qed

lemma put_data_outcome:
  assumes "m_data s = Some d" "i + length vs \<le> length d"
    "\<And>d'. length d' = length d \<Longrightarrow> Q () (s\<lparr>m_data := Some d'\<rparr>)"
  shows "outcomeE (put_data i vs) P Q s"
  using assms by (simp add: outcomeE_def put_data_def store_at_def)

lemma inv_put_data: "scope_inv s \<Longrightarrow> m_data s = Some d \<Longrightarrow> length d' = length d \<Longrightarrow> scope_inv (s\<lparr>m_fpga := x, m_data := Some d'\<rparr>)"
  by (simp add: scope_inv_def)

text \<open>The loop of single reads stays inside an array with room for the words it still has to read.\<close>

lemma read_each_outcome:
  assumes "scope_inv s" "m_data s = Some d" "i + n \<le> length d"
  shows "outcomeE (read_each bus i n) (\<lambda>e t. scope_inv t \<and> e \<in> bus_errors bus) (\<lambda>_ t. scope_inv t \<and> m_data t \<noteq> None) s"
  using assms
proof (induction n arbitrary: i s d)
  case 0
  then show ?case by (simp add: outcomeE_def)
next
  case (Suc n)
  let ?P = "\<lambda>e t. scope_inv t \<and> e \<in> bus_errors bus" let ?Q = "\<lambda>_ t. scope_inv t \<and> m_data t \<noteq> None"
  have step: "outcomeE (read_each bus (Suc i) n) ?P ?Q (s\<lparr>m_fpga := x, m_data := Some d'\<rparr>)" if "length d' = length d" for x d'
    using Suc.prems that by (intro Suc.IH [of _ d'] inv_put_data) auto
  have "outcomeE (bindE (on_bus (bus_readio bus (m_addr s + 4))) (\<lambda>v. bindE (put_data i [v]) (\<lambda>_. read_each bus (Suc i) n))) ?P ?Q s"
    unfolding outcomeE_simps
    by (rule on_bus_readio, use Suc.prems in simp, rule put_data_outcome [of _ d]) (use Suc.prems step in simp_all)
  then show ?case by (simp only: outcomeE_def read_each.simps)
qed

lemma scoplen_outcome:
  assumes "scope_inv s"
  shows "outcomeE (scoplen bus) (\<lambda>e t. scope_inv t \<and> e \<in> bus_errors bus)
    (\<lambda>n t. scope_inv t \<and> n = m_scoplen t \<and> m_data t = m_data s) s"
proof (cases "m_scoplen s = 0")
  case True
  have "outcomeE (on_bus (bus_readio bus (m_addr s))) (\<lambda>e t. scope_inv t \<and> e \<in> bus_errors bus)
     (\<lambda>v t. scope_inv t \<and> m_scoplen t = 0 \<and> m_data t = m_data s) s"
    by (rule on_bus_readio) (use assms True in simp_all)
  then have "outcomeE (\<lambda>s'. scoplen bus s) (\<lambda>e t. scope_inv t \<and> e \<in> bus_errors bus)
    (\<lambda>n t. scope_inv t \<and> n = m_scoplen t \<and> m_data t = m_data s) s"
    using True unfolding scoplen_def if_P [OF True]
    by (simp add: outcomeE_def bindE_def call_defs Let_def inv_set_scoplen split: prod.splits sum.splits)
  then show ?thesis by (simp add: outcomeE_def)
next
  case False
  then show ?thesis using assms by (simp add: outcomeE_def scoplen_def getsE_def)
qed

lemma rawread_outcome:
  assumes "scope_inv s" "reads_as_asked bus"
  shows "outcomeE (rawread junk bus) (\<lambda>e t. scope_inv t \<and> e \<in> bus_errors bus)
    (\<lambda>_ t. scope_inv t \<and> (m_data t = None \<longrightarrow> sint (m_scoplen t) \<le> 4)) s"
proof (cases "m_data s")
  case None
  let ?P = "\<lambda>e t. scope_inv t \<and> e \<in> bus_errors bus" let ?Q = "\<lambda>_ t. scope_inv t \<and> (m_data t = None \<longrightarrow> sint (m_scoplen t) \<le> 4)"
  let ?m = "\<lambda>n. if sint n \<le> 4 then printf [''ERR: Scope has less than a minimum length.  Is it truly a scope?'' @ nl]
        else bindE (modifyE (\<lambda>s. s\<lparr>m_data := Some (map junk [0..<unat n])\<rparr>)) (\<lambda>_.
             if m_vector_read s then bindE (on_bus (bus_readz bus (m_addr s + 4) (sint n))) (put_data 0)
             else read_each bus 0 (unat n))"
  have "outcomeE (?m n) ?P ?Q t" if t: "scope_inv t" "n = m_scoplen t" for n t
  proof (cases "sint n \<le> 4")
    case True
    then show ?thesis using that by (simp add: printf_def)
  next
    case False
    let ?d = "map junk [0..<unat n]" let ?t = "t\<lparr>m_data := Some ?d\<rparr>"
    have inv: "scope_inv ?t" "m_data ?t = Some ?d" using t False by (simp_all add: scope_inv_def)
    have "outcomeE (on_bus (bus_readz bus (m_addr s + 4) (sint n))) ?P (\<lambda>vs. outcomeE (put_data 0 vs) ?P ?Q) ?t"
      by (rule on_bus_readz [OF assms(2)], use False in simp, use inv in simp, rule put_data_outcome [of _ ?d])
        (use inv in \<open>auto simp: scope_inv_def\<close>)
    moreover have "outcomeE (read_each bus 0 (unat n)) ?P ?Q ?t"
      by (rule outcomeE_mono [OF read_each_outcome [OF inv]]) auto
    ultimately show ?thesis using False by simp
  qed
  then have "outcomeE (bindE (scoplen bus) ?m) ?P ?Q s"
    unfolding outcomeE_simps by (intro outcomeE_mono [OF scoplen_outcome [OF assms(1)]]) auto
  moreover have "rawread junk bus s = bindE (scoplen bus) ?m s" by (simp only: rawread_def None simp_thms if_False)
  ultimately show ?thesis by (simp only: outcomeE_def)
qed (use assms in \<open>simp add: outcomeE_def rawread_def\<close>)

text \<open>After \<open>rawread\<close> the loops over the samples stay inside the array, if there is one.\<close>

lemma samples_error: "scope_inv s \<Longrightarrow> m_data s = None \<longrightarrow> sint (m_scoplen s) \<le> 4 \<Longrightarrow> samples s = Inl e \<Longrightarrow> e = BadPointer \<and> null_data s"
  by (cases "m_data s") (auto simp: samples_def scope_inv_def null_data_def split: if_splits)

lemma getaddresslen_error:
  "scope_inv s \<Longrightarrow> m_data s = None \<longrightarrow> sint (m_scoplen s) \<le> 4 \<Longrightarrow> getaddresslen s = Inl e \<Longrightarrow> e = BadPointer \<and> null_data s"
  by (cases "samples s") (auto simp: getaddresslen_def dest: samples_error split: if_splits)

lemma print_scope_outcome:
  assumes "scope_inv s" "reads_as_asked bus"
  shows "outcomeE (print_scope junk bus decode) (\<lambda>e t. scope_inv t \<and> (e \<in> bus_errors bus \<or> e = BadPointer \<and> null_data t)) (\<lambda>_. scope_inv) s"
  unfolding print_scope_def outcomeE_simps
proof (rule outcomeE_mono [OF rawread_outcome [OF assms]])
  fix t assume t: "scope_inv t \<and> (m_data t = None \<longrightarrow> sint (m_scoplen t) \<le> 4)"
  show "outcomeE (\<lambda>s. bindE (liftE (getaddresslen s)) (\<lambda>alen. let offset = alen - m_holdoff s - 1
     in bindE (liftE (samples s)) (\<lambda>ws. printf (if m_compressed s then print_compressed decode offset ws 0
                else concat (map (print_sample decode offset ws) [0..<length ws])))) s)
      (\<lambda>e t. scope_inv t \<and> (e \<in> bus_errors bus \<or> e = BadPointer \<and> null_data t)) (\<lambda>_. scope_inv) t"
    using t samples_error [of t] getaddresslen_error [of t]
    by (auto simp: outcomeE_def bindE_def call_defs printf_def Let_def split: prod.splits sum.splits)
qed simp

lemma write_binary_trace_error: "write_binary_trace n v k = Inl e \<Longrightarrow> e = BadShift \<and> 32 < n"
  by (auto simp: write_binary_trace_def Let_def split: if_splits)

lemma write_trace_error: "write_trace_value info w = Inl e \<Longrightarrow> e = BadShift \<and> bad_trace info"
  by (auto simp: write_trace_value_def bad_trace_def dest: write_binary_trace_error split: if_splits)

lemma write_traces_error: "mapS (\<lambda>info. write_trace_value info w) infos = Inl e \<Longrightarrow> e = BadShift \<and> (\<exists>info \<in> set infos. bad_trace info)"
  by (auto dest!: mapS_Inl write_trace_error)

lemma bindS_Inl: "bindS m f = Inl e \<longleftrightarrow> m = Inl e \<or> (\<exists>x. m = Inr x \<and> f x = Inl e)"
  by (cases m) auto

lemma vcd_compressed_error:
  "vcd_compressed fl s alen offset i ws addrv lt = Inl e \<Longrightarrow> e = BadShift \<and> (\<exists>info \<in> set (m_traces s). bad_trace info)"
proof (induction ws arbitrary: i addrv lt)
  case (Cons w ws)
  have "(31 :: busw) < 32" by simp
  then show ?case using Cons.prems
    by (auto simp: Let_def bindS_Inl split: if_splits dest: Cons.IH write_traces_error write_binary_trace_error)
qed simp

lemma vcd_sample_error: "vcd_sample fl s offset i w = Inl e \<Longrightarrow> e = BadShift \<and> (\<exists>info \<in> set (m_traces s). bad_trace info)"
  by (auto simp: vcd_sample_def bindS_Inl dest: write_traces_error write_binary_trace_error split: if_splits)

lemma writevcd_outcome:
  assumes "scope_inv s" "reads_as_asked bus"
    and traces: "\<And>t. scope_inv t \<Longrightarrow> scope_inv (define_traces t)" "\<And>t. m_data (define_traces t) = m_data t" "\<And>t. m_scoplen (define_traces t) = m_scoplen t"
  shows "outcomeE (writevcd junk fl now bus define_traces)
    (\<lambda>e t. scope_inv t \<and> (e \<in> bus_errors bus \<or> e = BadPointer \<and> null_data t \<or> e = BadShift \<and> (\<exists>info \<in> set (m_traces t). bad_trace info)))
    (\<lambda>_. scope_inv) s"
proof -
  let ?P = "\<lambda>e t. scope_inv t \<and> (e \<in> bus_errors bus \<or> e = BadPointer \<and> null_data t \<or> e = BadShift \<and> (\<exists>info \<in> set (m_traces t). bad_trace info))"
  let ?R = "\<lambda>_ t. scope_inv t \<and> (m_data t = None \<longrightarrow> sint (m_scoplen t) \<le> 4)"
  let ?rest = "\<lambda>s. bindE (liftE (getaddresslen s)) (\<lambda>alen.
     let offset = alen - m_holdoff s - 1
     in bindE (liftE (samples s)) (\<lambda>ws.
        bindE (liftE (if m_compressed s then vcd_compressed fl s alen offset 0 ws 0 True
                      else bindS (mapS (\<lambda>(i, w). vcd_sample fl s offset i w) (enumerate 0 ws)) (\<lambda>lss. Inr (concat lss)))) (\<lambda>ls.
        returnE (write_trace_header fl now offset s @ ls)))) s"
  have start: "outcomeE (\<lambda>s. if m_data s = None then rawread junk bus s else (Inr (), s)) ?P ?R s"
    using outcomeE_mono [OF rawread_outcome [OF assms(1,2), of junk], of ?P ?R] assms(1) by (cases "m_data s") (auto simp: outcomeE_def)
  have rest: "outcomeE ?rest ?P (\<lambda>_. scope_inv) t" if "?R () t" for t
    using that samples_error [of t] getaddresslen_error [of t]
    by (auto simp: outcomeE_def bindE_def call_defs Let_def bindS_Inl split: prod.splits sum.splits if_splits
        dest!: vcd_compressed_error mapS_Inl vcd_sample_error)
  show ?thesis unfolding writevcd_def outcomeE_simps
    by (rule outcomeE_mono [OF start], assumption, rule rest) (use traces in auto)
qed

subsection \<open>Reading a VCD file back\<close>

text \<open>The samples and the trigger that a reader of the file finds: the values of the raw word and the changes of the trigger wire.\<close>

definition bits_value :: "string \<Rightarrow> busw" where
  "bits_value s = fold (\<lambda>c v. push_bit 1 v OR of_bool (c = CHR ''1'')) s 0"

definition raw_word :: "string \<Rightarrow> busw list" where
  "raw_word l = (if take 1 l = ''b'' \<and> drop 33 l = '' '' @ raw_key @ nl then [bits_value (take 32 (drop 1 l))] else [])"

definition trigger_value :: "string \<Rightarrow> bool list" where
  "trigger_value l = (if l = trigger_line True then [True] else if l = trigger_line False then [False] else [])"

definition raw_words :: "string list \<Rightarrow> busw list" where
  "raw_words ls = concat (map raw_word ls)"

definition trigger_values :: "string list \<Rightarrow> bool list" where
  "trigger_values ls = concat (map trigger_value ls)"

lemma reader_append [simp]:
  "raw_words (ls @ ms) = raw_words ls @ raw_words ms" "trigger_values (ls @ ms) = trigger_values ls @ trigger_values ms"
  "raw_words (l # ms) = raw_word l @ raw_words ms" "trigger_values (l # ms) = trigger_value l @ trigger_values ms"
  "raw_words [] = []" "trigger_values [] = []"
  by (simp_all add: raw_words_def trigger_values_def)

lemma fmt_bit: "fmt_d (v AND 1) = [if bit v 0 then CHR ''1'' else CHR ''0'']"
proof -
  have "v AND 1 = of_bool (bit v 0)" by (simp add: and_one_eq bit_0 mod_2_eq_odd)
  moreover have "fmt_d 0 = ''0''" "fmt_d 1 = ''1''" by code_simp+
  ultimately show ?thesis by simp
qed

lemma bits_value_bits:
  assumes "n \<le> k" "k \<le> 32"
  shows "bits_value (map (\<lambda>i. if bit w (k - 1 - i) then CHR ''1'' else CHR ''0'') [0..<n]) = drop_bit (k - n) (take_bit k w)"
  using assms(1)
proof (induction n)
  case 0
  have "drop_bit k (take_bit k w) = 0" by (intro bit_word_eqI) (simp add: bit_simps)
  then show ?case by (simp add: bits_value_def)
next
  case (Suc n)
  have "push_bit 1 (drop_bit (k - n) (take_bit k w)) OR of_bool (bit w (k - 1 - n)) = drop_bit (k - Suc n) (take_bit k w)"
  proof (rule bit_word_eqI)
    fix j assume "j < LENGTH(32)"
    then show "bit (push_bit 1 (drop_bit (k - n) (take_bit k w)) OR of_bool (bit w (k - 1 - n))) j = bit (drop_bit (k - Suc n) (take_bit k w)) j"
      using Suc.prems assms(2) unfolding bit_or_iff bit_push_bit_iff bit_drop_bit_eq bit_take_bit_iff bit_of_bool_iff comp_def
      by (cases j) (auto simp: Suc_diff_Suc)
  qed
  then show ?case using Suc by (cases "bit w (k - Suc n)") (simp_all add: bits_value_def)
qed

lemma write_raw: "write_binary_trace 32 w raw_key = Inr (''b'' @ map (\<lambda>i. if bit w (31 - i) then CHR ''1'' else CHR ''0'') [0..<32] @ '' '' @ raw_key @ nl)"
  by (simp add: write_binary_trace_def Let_def fmt_bit bit_drop_bit_eq concat_map_singleton)

lemma raw_word_raw: "raw_word (''b'' @ map (\<lambda>i. if bit w (31 - i) then CHR ''1'' else CHR ''0'') [0..<32] @ '' '' @ raw_key @ nl) = [w]"
  using bits_value_bits [of 32 32 w] by (simp add: raw_word_def take_bit_word_eq_self)

text \<open>Lines that are neither.\<close>

definition other_line :: "string \<Rightarrow> bool" where
  "other_line l \<longleftrightarrow> raw_word l = [] \<and> trigger_value l = []"

lemma other_lines: "list_all other_line ls \<Longrightarrow> raw_words ls = [] \<and> trigger_values ls = []"
  by (induction ls) (auto simp: other_line_def)

lemma other_by_first: "l = c # m \<Longrightarrow> c \<notin> {CHR ''b'', CHR ''0'', CHR ''1''} \<Longrightarrow> other_line l"
  by (auto simp: other_line_def raw_word_def trigger_value_def trigger_line_def)

text \<open>Traces as \<open>register_trace\<close> makes them, with fields inside the word.\<close>

definition trace_ok :: "traceinfo \<Rightarrow> bool" where
  "trace_ok info \<longleftrightarrow> (\<exists>n < 62. m_key info = trace_key n) \<and> m_nbits info \<le> 32 \<and> m_nshift info < 32"

lemma key_chars:
  assumes "n < 62"
  obtains c where "c_str (trace_key n) = [CHR ''v'', c]" "c \<noteq> CHR 0x0a"
proof -
  have "list_all (\<lambda>n. c_str (trace_key n) = take 2 (trace_key n) \<and> trace_key n ! 1 \<noteq> CHR 0x0a) [0..<62]" by code_simp
  then have "c_str (trace_key n) = take 2 (trace_key n)" "trace_key n ! 1 \<noteq> CHR 0x0a" using assms by (auto simp: list_all_iff)
  then show ?thesis using that by (simp add: trace_key_def)
qed

lemma write_trace_other:
  assumes "trace_ok info"
  shows "\<exists>l. write_trace_value info w = Inr l \<and> other_line l"
proof -
  obtain n where n: "n < 62" "m_key info = trace_key n" "m_nbits info \<le> 32" "m_nshift info < 32" using assms by (auto simp: trace_ok_def)
  obtain c where c: "c_str (trace_key n) = [CHR ''v'', c]" "c \<noteq> CHR 0x0a" using key_chars [OF n(1)] .
  have scalar: "other_line (fmt_d (v AND 1) @ [CHR ''v'', c] @ nl)" for v
    by (auto simp: fmt_bit other_line_def raw_word_def trigger_value_def trigger_line_def)
  have vector: "other_line (''b'' @ bs @ '' '' @ [CHR ''v'', c] @ nl)" for bs
  proof -
    let ?l = "''b'' @ bs @ '' '' @ [CHR ''v'', c] @ nl"
    have "drop 33 ?l \<noteq> '' '' @ raw_key @ nl"
    proof
      assume d: "drop 33 ?l = '' '' @ raw_key @ nl"
      then have "?l = take 33 ?l @ '' '' @ raw_key @ nl" by (metis append_take_drop_id)
      from arg_cong [OF this, of "\<lambda>l. last (butlast l)"] show False using c(2) by (simp add: raw_key_def butlast_append)
    qed
    then show ?thesis by (simp add: other_line_def raw_word_def trigger_value_def trigger_line_def)
  qed
  show ?thesis using n(2-4) scalar vector
    by (auto simp: write_trace_value_def write_binary_trace_def Let_def c not_less [symmetric])
qed

lemma write_traces_other:
  "list_all trace_ok ts \<Longrightarrow> \<exists>ls. mapS (\<lambda>info. write_trace_value info w) ts = Inr ls \<and> list_all other_line ls"
  by (induction ts) (auto dest!: write_trace_other [where w = w])

lemma quiet_lines: "other_line (''#'' @ m)" "other_line (''1'' @ [CHR 0x27] @ ''C'' @ nl)" "other_line (''0'' @ [CHR 0x27] @ ''C'' @ nl)"
  by (simp_all add: other_line_def raw_word_def trigger_value_def trigger_line_def)

lemma vcd_sample_reads:
  assumes "list_all trace_ok (m_traces s)" "\<not> m_compressed s"
  shows "\<exists>ls. vcd_sample fl s offset i w = Inr ls \<and> raw_words ls = [w] \<and> trigger_values ls = [of_nat i = offset]"
proof -
  obtain vs where vs: "mapS (\<lambda>info. write_trace_value info w) (m_traces s) = Inr vs" "list_all other_line vs"
    using write_traces_other [OF assms(1)] by blast
  have t: "raw_word (trigger_line b) = []" "trigger_value (trigger_line b) = [b]" for b
    by (auto simp: raw_word_def trigger_value_def trigger_line_def)
  have r: "trigger_value (''b'' @ m) = []" for m by (simp add: trigger_value_def trigger_line_def)
  show ?thesis
    using assms(2) other_lines [OF vs(2)] quiet_lines
    by (simp add: vcd_sample_def vs(1) write_raw t raw_word_raw [simplified] r [simplified] other_line_def)
qed

lemma header_other: "list_all other_line (write_trace_header fl now offset s)"
proof -
  have "list_all other_line (var_line info)" for info
    by (auto simp: var_line_def intro: other_by_first)
  then have "list_all other_line (concat (map var_line (m_traces s)))" by (simp add: list_all_iff)
  then show ?thesis
    by (auto simp: write_trace_header_def write_trace_timescale_def write_trace_timezero_def intro: other_by_first)
qed

lemma samples_data: "scope_inv s \<Longrightarrow> m_data s = Some d \<Longrightarrow> samples s = Inr d"
  by (simp add: samples_def scope_inv_def)

lemma vcd_samples_read:
  assumes "list_all trace_ok (m_traces s)" "\<not> m_compressed s"
  shows "\<exists>lss. mapS (\<lambda>(i, w). vcd_sample fl s offset i w) (enumerate n ws) = Inr lss \<and>
    raw_words (concat lss) = ws \<and> trigger_values (concat lss) = map (\<lambda>i. of_nat i = offset) [n..<n + length ws]"
proof (induction ws arbitrary: n)
  case (Cons w ws)
  obtain ls where "vcd_sample fl s offset n w = Inr ls" "raw_words ls = [w]" "trigger_values ls = [of_nat n = offset]"
    using vcd_sample_reads [OF assms] by blast
  moreover obtain lss where "mapS (\<lambda>(i, w). vcd_sample fl s offset i w) (enumerate (Suc n) ws) = Inr lss"
    "raw_words (concat lss) = ws" "trigger_values (concat lss) = map (\<lambda>i. of_nat i = offset) [Suc n..<Suc n + length ws]"
    using Cons.IH by blast
  ultimately show ?case by (simp add: upt_conv_Cons del: upt_Suc)
qed simp

lemma registered_traces_ok:
  assumes "scope_inv s" "length (m_traces s) \<le> 62" "list_all (\<lambda>info. m_nbits info \<le> 32 \<and> m_nshift info < 32) (m_traces s)"
  shows "list_all trace_ok (m_traces s)"
proof -
  have key: "m_key (m_traces s ! i) = trace_key i" if "i < length (m_traces s)" for i
    using assms(1) that unfolding scope_inv_def by (metis (no_types, lifting) length_map length_upt minus_nat.diff_0 nth_map nth_upt plus_nat.add_0)
  have "trace_ok (m_traces s ! i)" if "i < length (m_traces s)" for i
    using that key [OF that] assms(2,3) unfolding trace_ok_def list_all_length by (metis less_le_trans)
  then show ?thesis by (simp add: list_all_length)
qed

text \<open>C20: The VCD file of an uncompressed scope whose samples have been read, with at most 62 registered traces inside the word, holds
  the samples: the raw words in the file are the samples in their order, and the trigger wire is high at the one sample
  that is \<open>m_holdoff\<close> samples before the last.\<close>

theorem vcd_read_back:
  assumes "scope_inv s" "m_data s = Some d" "\<not> m_compressed s" "m_traces s \<noteq> []" "length (m_traces s) \<le> 62"
    "list_all (\<lambda>info. m_nbits info \<le> 32 \<and> m_nshift info < 32) (m_traces s)"
  shows "\<exists>ls. writevcd junk fl now bus define_traces s = (Inr ls, s) \<and> raw_words ls = d \<and>
    trigger_values ls = map (\<lambda>i. of_nat i = m_scoplen s - m_holdoff s - 1) [0..<length d]"
proof -
  let ?offset = "m_scoplen s - m_holdoff s - 1"
  obtain lss where lss: "mapS (\<lambda>(i, w). vcd_sample fl s ?offset i w) (enumerate 0 d) = Inr lss"
    "raw_words (concat lss) = d" "trigger_values (concat lss) = map (\<lambda>i. of_nat i = ?offset) [0..<length d]"
    using vcd_samples_read [OF registered_traces_ok [OF assms(1,5,6)] assms(3), of fl ?offset 0 d] by auto
  moreover have "writevcd junk fl now bus define_traces s = (Inr (write_trace_header fl now ?offset s @ concat lss), s)"
    using assms(2-4) lss(1)
    by (simp add: writevcd_def bindE_def call_defs getaddresslen_def samples_data [OF assms(1,2)] Let_def)
  ultimately show ?thesis using other_lines [OF header_other, of fl now ?offset s] by simp
qed


text \<open>Eight samples of an uncompressed scope with one trace; the fifth is marked.\<close>

definition example_scope :: "unit scope" where
  "example_scope = \<lparr>m_fpga = (), m_addr = 0x300000, m_compressed = False, m_vector_read = True, m_scoplen = 8, m_holdoff = 3,
     m_data = Some [1, 2, 3, 5, 8, 13, 21, 34], m_clkfreq_hz = 100000000,
     m_traces = [\<lparr>m_name = ''state'', m_key = trace_key 0, m_nbits = 4, m_nshift = 2\<rparr>], stdout = []\<rparr>"

theorem vcd_read_back_witness:
  "\<exists>ls. writevcd (\<lambda>i. 0) \<lparr>zero_ns = \<lambda>c n. 0, addr_ns = \<lambda>c n. n, rise_ns = \<lambda>c n. 0, fall_ns = \<lambda>c n. 0\<rparr> ''now'' (undefined :: unit devbus) id example_scope =
     (Inr ls, example_scope) \<and> raw_words ls = [1, 2, 3, 5, 8, 13, 21, 34] \<and>
     trigger_values ls = [False, False, False, False, True, False, False, False]"
proof -
  have "scope_inv example_scope" by (simp add: scope_inv_def example_scope_def)
  then show ?thesis
    using vcd_read_back [of example_scope "[1, 2, 3, 5, 8, 13, 21, 34]"] by (simp add: example_scope_def)
qed

subsection \<open>Every use of a scope\<close>

inductive used :: "(nat \<Rightarrow> busw) \<Rightarrow> 'd devbus \<Rightarrow> 'd scope \<Rightarrow> bool" for junk bus where
  new: "used junk bus (SCOPE fpga addr compressed vecread h)"
| freq: "used junk bus s \<Longrightarrow> used junk bus (set_clkfreq_hz f s)"
| ready: "used junk bus s \<Longrightarrow> used junk bus (snd (ready bus s))"
| control: "used junk bus s \<Longrightarrow> used junk bus (snd (decode_control bus s))"
| len: "used junk bus s \<Longrightarrow> used junk bus (snd (scoplen bus s))"
| raw: "used junk bus s \<Longrightarrow> used junk bus (snd (rawread junk bus s))"
| print: "used junk bus s \<Longrightarrow> used junk bus (snd (print_scope junk bus decode s))"
| register: "used junk bus s \<Longrightarrow> used junk bus (register_trace name nbits shift s)"
| vcd: "used junk bus s \<Longrightarrow> used junk bus (snd (writevcd junk fl now bus (fold (\<lambda>(n, b, h). register_trace n b h) ts) s))"

lemma register_inv: "scope_inv s \<Longrightarrow> scope_inv (register_trace n b h s)"
  by (simp add: register_trace_def scope_inv_def)

lemma registers_inv: "scope_inv s \<Longrightarrow> scope_inv (fold (\<lambda>(n, b, h). register_trace n b h) ts s)"
  by (induction ts arbitrary: s) (auto simp: register_inv)

lemma registers_keep: "m_data (fold (\<lambda>(n, b, h). register_trace n b h) ts s) = m_data s"
  "m_scoplen (fold (\<lambda>(n, b, h). register_trace n b h) ts s) = m_scoplen s"
  by (induction ts arbitrary: s) (auto simp: register_trace_def)

lemma writevcd_registers:
  assumes "scope_inv s" "reads_as_asked bus"
  shows "outcomeE (writevcd junk fl now bus (fold (\<lambda>(n, b, h). register_trace n b h) ts))
    (\<lambda>e t. scope_inv t \<and> (e \<in> bus_errors bus \<or> e = BadPointer \<and> null_data t \<or> e = BadShift \<and> (\<exists>info \<in> set (m_traces t). bad_trace info)))
    (\<lambda>_. scope_inv) s"
  by (rule writevcd_outcome [OF assms registers_inv registers_keep])

lemma used_inv: "used junk bus s \<Longrightarrow> reads_as_asked bus \<Longrightarrow> scope_inv s"
proof (induction rule: used.induct)
  case (raw s)
  then show ?case by (auto intro: outcomeE_state [OF rawread_outcome])
next
  case (print s decode)
  then show ?case by (auto intro: outcomeE_state [OF print_scope_outcome])
next
  case (vcd s fl now ts)
  then show ?case by (auto intro: outcomeE_state [OF writevcd_registers])
qed (simp_all add: SCOPE_def scope_inv_def [of "SCOPE _ _ _ _ _", unfolded SCOPE_def] set_clkfreq_hz_def ready_inv decode_control_inv scoplen_inv register_inv)

lemma keys_distinct: "n \<le> 69 \<Longrightarrow> distinct (map (\<lambda>i. c_str (trace_key i)) [0..<n])"
proof -
  have "distinct (map (\<lambda>i. c_str (trace_key i)) [0..<69])" by code_simp
  then show "n \<le> 69 \<Longrightarrow> ?thesis" by (auto simp: distinct_map inj_on_def)
qed

lemma word_of_inside:
  assumes "scope_inv s"
  shows "\<exists>w. word_of addr s = Inr w"
proof (cases "m_data s")
  case (Some d)
  then have l: "length d = unat (m_scoplen s)" using assms by (simp add: scope_inv_def)
  have "unat (addr AND (m_scoplen s - 1)) < length d" if "0 < m_scoplen s"
  proof -
    have "addr AND (m_scoplen s - 1) \<le> m_scoplen s - 1" by (rule word_and_le1)
    then show ?thesis using l that by (simp add: word_less_nat_alt word_le_nat_alt unat_sub)
  qed
  then show ?thesis using Some by (simp add: word_of_def Let_def)
qed (simp add: word_of_def)


text \<open>A scope of eight samples, at address 0 of a bus whose samples count up.\<close>

definition counting_bus :: "busw devbus" where
  "counting_bus =
     (let rd = (\<lambda>a d. (Inr (if a = 0 then 0x60300002 else d), if a = 4 then d + 1 else d)) :: busw \<Rightarrow> (busw, busw) call;
          base = \<lparr>bus_writeio = \<lambda>a v. returnE (), bus_readio = rd, bus_readi = \<lambda>a n. returnE [], bus_readz = \<lambda>a n. returnE [], bus_poll = returnE False\<rparr>
      in base\<lparr>bus_readz := \<lambda>a n. read_times base a (nat n)\<rparr>)"

lemma read_times_cong: "bus_readio b = bus_readio c \<Longrightarrow> read_times b a n = read_times c a n"
  by (induction n) simp_all

lemma read_times_returns:
  "(\<And>d. \<exists>v d'. bus_readio bus a d = (Inr v, d')) \<Longrightarrow> \<exists>vs d'. read_times bus a n d = (Inr vs, d')"
proof (induction n arbitrary: d)
  case (Suc n)
  obtain v d1 where 1: "bus_readio bus a d = (Inr v, d1)" using Suc.prems by blast
  obtain vs d2 where "read_times bus a n d1 = (Inr vs, d2)" using Suc by blast
  then show ?case using 1 by (simp add: bindE_def returnE_def)
qed (simp add: returnE_def)

lemma counting_bus_errors: "bus_errors counting_bus = {}"
proof -
  have io: "\<exists>v d'. bus_readio counting_bus a d = (Inr v, d')" for a d by (simp add: counting_bus_def Let_def)
  have "bus_readz counting_bus a n = read_times counting_bus a (nat n)" for a n
    by (simp add: counting_bus_def Let_def) (rule read_times_cong, simp)
  then have "fst (bus_readz counting_bus a n d) \<noteq> Inl e" for a n d e using read_times_returns [OF io, where d = d] by (metis fst_conv Inr_not_Inl)
  moreover have "fst (bus_readio counting_bus a d) \<noteq> Inl e" for a d e using io by (metis fst_conv Inr_not_Inl)
  ultimately show ?thesis by (simp add: bus_errors_def)
qed


subsection \<open>A compressed scope never shows its trigger\<close>

text \<open>How far the rest of the words moves the address.\<close>

fun span :: "nat \<Rightarrow> busw list \<Rightarrow> nat" where
  "span i [] = 0"
| "span i (w # ws) = (if bit w 31 then (if i \<noteq> 0 then unat (w AND 0x7fffffff) + 1 else 0) else 1) + span (Suc i) ws"

lemma run_bit: "drop_bit 31 w AND 1 \<noteq> 0 \<longleftrightarrow> bit w 31" "w AND 0x80000000 \<noteq> 0 \<longleftrightarrow> bit w 31" for w :: busw
  using and_exp_eq_0_iff_not_bit [of w 31] by (simp_all add: and_one_eq bit_iff_odd_drop_bit odd_iff_mod_2_eq_one)

lemma ucast_diff: "(ucast (x - y) :: busw) = ucast x - ucast y" for x y :: u64
proof -
  have "take_bit 32 (uint x - uint y) = take_bit 32 (take_bit 32 (uint x) - take_bit 32 (uint y))" by (simp add: take_bit_diff)
  then show ?thesis by (simp add: word_uint_eq_iff uint_word_ariths unsigned_ucast_eq take_bit_eq_mod mod_simps mod_mod_cancel)
qed

lemma no_hit:
  fixes alen h :: busw and addrv :: u64
  assumes "unat addrv < unat alen" "2 * unat alen \<le> 2 ^ 32" "h < alen"
  shows "ucast (addrv - ucast alen) \<noteq> alen - h - 1"
proof
  define a :: busw where "a = ucast addrv"
  have h: "unat h < unat alen" using assms(3) by (simp add: word_less_nat_alt)
  have a: "unat a = unat addrv" using assms(1,2) by (simp add: a_def unat_ucast32)
  assume "ucast (addrv - ucast alen) = alen - h - 1"
  moreover have "(ucast (ucast alen :: u64) :: busw) = alen"
    using unat_lt32 [of alen] by (simp add: word_unat_eq_iff unat_ucast32 unat_ucast64)
  ultimately have "a - alen = alen - h - 1" by (simp only: ucast_diff a_def)
  then have "a + h + 1 = alen + alen" by (metis (no_types, lifting) add.commute add.left_commute diff_add_cancel)
  from arg_cong [OF this, of unat] have "(unat addrv + unat h + 1) mod 2 ^ 32 = (2 * unat alen) mod 2 ^ 32"
    by (simp add: unat_word_ariths a mod_simps)
  moreover have "(unat addrv + unat h + 1) mod 2 ^ 32 = unat addrv + unat h + 1" using assms(1,2) h by simp
  ultimately show False using assms(1,2) h by (cases "2 * unat alen = 2 ^ 32") simp_all
qed

lemma run_length: "unat (ucast ((w AND 0x7fffffff) + 1) :: u64) = unat (w AND 0x7fffffff) + 1" for w :: busw
proof -
  have "w AND 0x7fffffff \<le> 0x7fffffff" by (rule word_and_le1)
  then have "unat (w AND 0x7fffffff) < 2 ^ 31" by (simp add: word_le_nat_alt)
  then show ?thesis by (simp add: unat_ucast64 unat_word_ariths del: unsigned_and_eq)
qed

lemma trigger_line_read: "raw_word (trigger_line b) = []" "trigger_value (trigger_line b) = [b]"
  by (auto simp: raw_word_def trigger_value_def trigger_line_def)

lemma write_raw31:
  obtains l where "write_binary_trace 31 w raw_key = Inr l" "trigger_value l = []"
  by (simp add: write_binary_trace_def Let_def trigger_value_def trigger_line_def)

lemma vcd_compressed_untriggered:
  assumes "list_all trace_ok (m_traces s)" "2 * unat alen \<le> 2 ^ 32" "h < alen"
  shows "unat addrv + span i ws \<le> unat alen \<Longrightarrow>
    \<exists>ls. vcd_compressed fl s alen (alen - h - 1) i ws addrv lt = Inr ls \<and> True \<notin> set (trigger_values ls)"
proof (induction ws arbitrary: i addrv lt)
  case (Cons w ws)
  have small: "unat addrv + k < 2 ^ 64" if "unat addrv + k \<le> unat alen" for k using that unat_lt32 [of alen] by simp
  have time: "trigger_value (''#'' @ m) = []" for m using quiet_lines(1) by (simp add: other_line_def)
  show ?case
  proof (cases "bit w 31")
    case True
    let ?n = "ucast ((w AND 0x7fffffff) + 1) :: u64"
    have "unat (addrv + ?n) = unat addrv + unat ?n" if "i \<noteq> 0"
      by (rule unat_add_lem [THEN iffD1], unfold run_length) (use Cons.prems True that small [of "unat (w AND 0x7fffffff) + 1"] in simp)
    then have "unat (if i \<noteq> 0 then addrv + ?n else addrv) + span (Suc i) ws \<le> unat alen"
      using Cons.prems True by (cases "i = 0") (simp_all add: run_length)
    from Cons.IH [OF this, of lt] show ?thesis using True time
      by (cases "i = 0") (auto simp: run_bit trigger_line_read)
  next
    case False
    have u: "unat (addrv + 1) = unat addrv + 1" using Cons.prems False small [of 1] unat_add_lem [of addrv 1] by simp
    then have "unat (addrv + 1) + span (Suc i) ws \<le> unat alen" using Cons.prems False by simp
    moreover have "ucast (addrv - ucast alen) \<noteq> alen - h - 1"
      using Cons.prems False by (intro no_hit assms(2,3)) simp
    moreover obtain vs where "mapS (\<lambda>info. write_trace_value info w) (m_traces s) = Inr vs" "trigger_values vs = []"
      using write_traces_other [OF assms(1)] other_lines by blast
    moreover obtain l where "write_binary_trace 31 w raw_key = Inr l" "trigger_value l = []" by (rule write_raw31)
    ultimately show ?thesis using False time Cons.IH [of "addrv + 1" "Suc i" lt] 
      by (auto simp: run_bit trigger_line_read)
  qed
qed simp

text \<open>The lengths of the runs but for one in the first word.\<close>

fun run_total :: "nat \<Rightarrow> busw list \<Rightarrow> nat" where
  "run_total i [] = 0"
| "run_total i (w # ws) = (if bit w 31 \<and> i \<noteq> 0 then unat (w AND 0x7fffffff) else 0) + run_total (Suc i) ws"

lemma span_total: "span i ws \<le> length ws + run_total i ws"
  by (induction i ws rule: span.induct) auto

lemma add_runs_total: "unat alen + run_total i ws < 2 ^ 32 \<Longrightarrow> unat (add_runs i ws alen) = unat alen + run_total i ws"
proof (induction ws arbitrary: i alen)
  case (Cons w ws)
  let ?n = "w AND 0x7fffffff"
  show ?case
  proof (cases "bit w 31 \<and> i \<noteq> 0")
    case True
    then have "unat (alen + ?n) = unat alen + unat ?n" using Cons.prems by (intro unat_add_lem [THEN iffD1]) simp
    then show ?thesis using True Cons.prems Cons.IH [of "alen + ?n" "Suc i"] by (simp add: run_bit del: unsigned_and_eq)
  next
    case False
    then show ?thesis using Cons.prems Cons.IH [of alen "Suc i"] by (auto simp: run_bit)
  qed
qed simp

text \<open>The file of a compressed scope never shows the trigger wire high, wherever the trigger was in the samples: the code compares the
  address relative to the end with the trigger's address relative to the beginning.\<close>

lemma compressed_trigger_lost:
  assumes "scope_inv s" "m_data s = Some d" "m_compressed s" "m_traces s \<noteq> []" "length (m_traces s) \<le> 62"
    "list_all (\<lambda>info. m_nbits info \<le> 32 \<and> m_nshift info < 32) (m_traces s)"
    and "2 * (length d + run_total 0 d) \<le> 2 ^ 32" "unat (m_holdoff s) < length d + run_total 0 d"
  shows "\<exists>ls. writevcd junk fl now bus define_traces s = (Inr ls, s) \<and> True \<notin> set (trigger_values ls)"
proof -
  let ?alen = "add_runs 0 d (m_scoplen s)"
  have len: "length d = unat (m_scoplen s)" using assms(1,2) by (simp add: scope_inv_def)
  then have alen: "unat ?alen = length d + run_total 0 d" using assms(7) by (subst add_runs_total) simp_all
  obtain ls where ls: "vcd_compressed fl s ?alen (?alen - m_holdoff s - 1) 0 d 0 True = Inr ls" "True \<notin> set (trigger_values ls)"
    using vcd_compressed_untriggered [OF registered_traces_ok [OF assms(1,5,6)], of ?alen "m_holdoff s" 0 0 d fl True] alen assms(7,8) span_total [of 0 d]
    by (auto simp: word_less_nat_alt)
  moreover have "writevcd junk fl now bus define_traces s = (Inr (write_trace_header fl now (?alen - m_holdoff s - 1) s @ ls), s)"
    using assms(2-4) ls(1)
    by (simp add: writevcd_def bindE_def call_defs getaddresslen_def samples_data [OF assms(1,2)] Let_def)
  ultimately show ?thesis using other_lines [OF header_other, of fl now "?alen - m_holdoff s - 1" s] by simp
qed

end
