(* ===== verification/Scopes.thy ===== *)
theory Scopes
  imports ScopeCls
begin

text \<open>
  The programs that read the two scopes of the design: \<open>src/sw/host/flashscope.cpp\<close>, the flash controller's, and
  \<open>src/sw/host/erxscope.cpp\<close>, the network receiver's (\<open>etxscope.cpp\<close> is a copy of it). A program is its scope's decoding, its traces and
  its main function; opening the bus and the signal handlers are not modelled, and the bus is an argument.
\<close>

definition fmt_02x :: "busw \<Rightarrow> string" where
  "fmt_02x v = [digit (unat (drop_bit 4 v AND 0xf)), digit (unat (v AND 0xf))]"

text \<open>\<open>%x\<close> of a number below 16.\<close>

definition fmt_x4 :: "busw \<Rightarrow> string" where
  "fmt_x4 v = [digit (unat (v AND 0xf))]"

definition field :: "busw \<Rightarrow> nat \<Rightarrow> busw \<Rightarrow> busw" where
  "field val sh m = drop_bit sh val AND m"

definition if_set :: "busw \<Rightarrow> string \<Rightarrow> string \<Rightarrow> string" where
  "if_set b s t = (if b \<noteq> 0 then s else t)"

subsection \<open>The scope of the flash controller\<close>

definition R_FLASHSCOPE :: busw where "R_FLASHSCOPE = 0x00300000"
definition CLKFREQHZ :: busw where "CLKFREQHZ = 50000000"

definition flash_decode :: "busw \<Rightarrow> string list" where
  "flash_decode val =
     (let qmod = field val 18 3
      in [pad_left 3 (if_set (field val 30 1) ''CYC'' '''') @ pad_left 5 (if_set (field val 29 1) ''CSTB'' '''') @
          pad_left 5 (if_set (field val 28 1) ''DSTB'' '''') @ pad_left 3 (if_set (field val 8 1) ''WE'' '''') @
          pad_left 4 (if_set (field val 27 1) ''AK'' '''') @ pad_left 6 (if_set (field val 26 1) ''STALL'' '''') @
          pad_left 3 (if_set (field val 25 1) '''' ''CS'') @ pad_left 4 (if_set (field val 24 1) ''SCK'' '''') @ '' '',
          if qmod = 0 then ''SPI  '' else if qmod = 2 then ''WRITE'' else if qmod = 3 then ''READ '' else ''UNK['' @ fmt_d qmod @ ''] '',
          '' 0x'' @ fmt_x4 (field val 20 0xf) @ '' '' @ (if qmod = 0 then ''<->'' else if qmod = 2 then ''>--'' else ''-->'') @
            '' 0x'' @ fmt_x4 (field val 14 0xf) @ '' '',
          ''B['' @ fmt_02x (field val 0 0xff) @ '']''] @
         (if field val 13 1 \<noteq> 0
          then ['' CFG['' @ if_set (field val 12 1) ''CS'' ''  '' @ '' '' @ if_set (field val 11 1) ''HISPD'' ''     '' @ '' '' @
                if_set (field val 10 1) ''WR'' ''RD'' @ '']'']
          else []))"

definition flash_traces :: "(string \<times> busw \<times> busw) list" where
  "flash_traces =
     [(''wb_cyc'', 1, 30), (''cfg_stb'', 1, 29), (''wb_stb'', 1, 28), (''wb_ack'', 1, 27), (''wb_stall'', 1, 26), (''o_cs_n'', 1, 25),
      (''o_sck'', 1, 24), (''o_qdat'', 4, 20), (''o_qmod'', 2, 18), (''i_qdat'', 4, 14), (''cfg_mode'', 1, 13), (''cfg_cs'', 1, 12),
      (''cfg_speed'', 1, 11), (''cfg_dir'', 1, 10), (''actual_sck'', 1, 9), (''wb_we'', 1, 8), (''wb_data'', 8, 0)]"

subsection \<open>The scope of the network receiver\<close>

definition R_NETSCOPE :: busw where "R_NETSCOPE = 0x00200000"

definition erx_decode :: "busw \<Rightarrow> string list" where
  "erx_decode val =
     [if_set (field val 31 1) ''TR'' ''  '' @ ''['' @ if_set (field val 27 1) ''CLR'' '''' @ if_set (field val 28 1) ''BC'' ''  '' @
        if_set (field val 23 1) ''BSY'' ''   '' @ if_set (field val 21 1) ''P'' '' '' @ if_set (field val 9 1) ''MAC'' ''   '' @
        if_set (field val 20 1) ''MN'' ''  '' @ if_set (field val 22 1) ''WR'' ''  '' @ if_set (field val 30 1) ''EOP'' ''   '' @
        if_set (field val 24 1) ''VALID'' ''     '' @ if_set (field val 29 1) ''MACER'' '''' @ if_set (field val 10 1) ''CRCER'' '''' @
        if_set (field val 25 1) ''RXER'' '''' @ if_set (field val 26 1) ''MISS'' '''' @ '']'',
      if field val 8 1 \<noteq> 0 then ''I:'' @ fmt_02x (field val 0 0xff) @ '' '' else pad_left 4 '''' @ '' '',
      if field val 19 1 \<noteq> 0 then ''C:'' @ fmt_02x (field val 11 0xff) else pad_left 4 '''']"

definition erx_traces :: "(string \<times> busw \<times> busw) list" where
  "erx_traces =
     [(''EOP'', 1, 30), (''w_macerr'', 1, 29), (''w_broadcast'', 1, 28), (''n_rx_clear'', 1, 27), (''n_rx_miss'', 1, 26),
      (''n_rx_net_err'', 1, 25), (''n_rx_valid'', 1, 24), (''n_rx_busy'', 1, 23), (''w_rxwr'', 1, 22), (''w_npre'', 1, 21),
      (''w_rxmin'', 1, 20), (''w_rxcrc'', 1, 19), (''w_rxcrcd'', 8, 11), (''w_rxcrcerr'', 1, 10), (''w_rxmac'', 1, 9),
      (''i_net_rx_ctl'', 1, 8), (''i_net_rxd'', 8, 0)]"

subsection \<open>The programs\<close>

definition define_all :: "(string \<times> busw \<times> busw) list \<Rightarrow> 'd scope \<Rightarrow> 'd scope" where
  "define_all ts s = fold (\<lambda>(n, b, h). register_trace n b h) ts s"

text \<open>The part the two main functions share: the file they write, if they write one.\<close>

definition show_scope :: "(nat \<Rightarrow> busw) \<Rightarrow> bool \<Rightarrow> float_ns \<Rightarrow> string \<Rightarrow> 'd devbus \<Rightarrow> (busw \<Rightarrow> string list) \<Rightarrow>
    (string \<times> busw \<times> busw) list \<Rightarrow> ('d scope, string list option) call" where
  "show_scope junk opened fl now bus decode traces =
     bindE (ready bus) (\<lambda>r.
       if \<not> r then bindE (printf [''Scope is not yet ready:'' @ nl]) (\<lambda>_. bindE (decode_control bus) (\<lambda>_. returnE None))
       else bindE (print_scope junk bus decode) (\<lambda>_. writevcd_named junk opened fl now bus (define_all traces)))"

definition flashscope_main :: "(nat \<Rightarrow> busw) \<Rightarrow> busw \<Rightarrow> bool \<Rightarrow> float_ns \<Rightarrow> string \<Rightarrow> 'd devbus \<Rightarrow> 'd \<Rightarrow> (exn + string list option) \<times> 'd scope" where
  "flashscope_main junk h opened fl now bus d =
     show_scope junk opened fl now bus flash_decode flash_traces (set_clkfreq_hz CLKFREQHZ (SCOPE d R_FLASHSCOPE True True h))"

definition erxscope_main :: "(nat \<Rightarrow> busw) \<Rightarrow> busw \<Rightarrow> bool \<Rightarrow> float_ns \<Rightarrow> string \<Rightarrow> 'd devbus \<Rightarrow> 'd \<Rightarrow> (exn + string list option) \<times> 'd scope" where
  "erxscope_main junk h opened fl now bus d =
     show_scope junk opened fl now bus erx_decode erx_traces (set_clkfreq_hz 125000000 (SCOPE d R_NETSCOPE False True h))"

subsection \<open>From the scope's memory to the file\<close>

lemma scope_size:
  assumes "3 \<le> n" "n \<le> 30"
  shows "unat (push_bit n 1 :: busw) = 2 ^ n" "sint (push_bit n 1 :: busw) = int (2 ^ n)" "4 < sint (push_bit n 1 :: busw)" "(push_bit n 1 :: busw) \<noteq> 0"
proof -
  have b: "(2 :: nat) ^ n < 2 ^ 31" "(2 :: nat) ^ 3 \<le> 2 ^ n" using assms by (auto intro: power_strict_increasing power_increasing simp del: power_numeral)
  show u: "unat (push_bit n 1 :: busw) = 2 ^ n" using assms unat_pow2_lt [of n] by (simp add: push_bit_eq_mult)
  show s: "sint (push_bit n 1 :: busw) = int (2 ^ n)" using sint_small [of "push_bit n 1"] b(1) unfolding u by blast
  have "(4 :: nat) < 2 ^ n" using b(2) by simp
  then have "int 4 < int (2 ^ n)" by (simp only: of_nat_less_iff)
  then show "4 < sint (push_bit n 1 :: busw)" unfolding s by simp
  show "(push_bit n 1 :: busw) \<noteq> 0" using u by (metis power_not_zero unat_0 zero_neq_numeral)
qed

lemma writevcd_define:
  assumes "m_traces s = []" "m_traces (dt s) \<noteq> []" "m_data s = Some d" "m_data (dt s) = Some d"
  shows "writevcd junk fl now bus dt s = writevcd junk fl now bus dt (dt s)"
  using assms by (simp add: writevcd_def bindE_def modifyE_def)

lemma define_all_sel [simp]:
  "m_data (define_all ts s) = m_data s" "m_scoplen (define_all ts s) = m_scoplen s" "m_holdoff (define_all ts s) = m_holdoff s"
  "m_compressed (define_all ts s) = m_compressed s" "length (m_traces (define_all ts s)) = length (m_traces s) + length ts"
  "map (\<lambda>t. (m_name t, m_nbits t, m_nshift t)) (m_traces (define_all ts s)) = map (\<lambda>t. (m_name t, m_nbits t, m_nshift t)) (m_traces s) @ ts"
  unfolding define_all_def by (induction ts arbitrary: s) (auto simp: register_trace_def)

lemma erx_traces_fit:
  assumes "m_traces s = []"
  shows "length (m_traces (define_all erx_traces s)) = 17" "list_all (\<lambda>t. m_nbits t \<le> 32 \<and> m_nshift t < 32) (m_traces (define_all erx_traces s))"
proof -
  have "list_all (\<lambda>(n, b, h). b \<le> 32 \<and> h < 32) erx_traces" by (simp add: erx_traces_def)
  then have "list_all (\<lambda>(n, b, h). b \<le> 32 \<and> h < 32) (map (\<lambda>t. (m_name t, m_nbits t, m_nshift t)) (m_traces (define_all erx_traces s)))"
    using assms by (simp only: define_all_sel list.map append_Nil)
  then show "list_all (\<lambda>t. m_nbits t \<le> 32 \<and> m_nshift t < 32) (m_traces (define_all erx_traces s))"
    by (simp only: list.pred_map comp_def prod.case)
  show "length (m_traces (define_all erx_traces s)) = 17" using assms by (simp add: erx_traces_def)
qed

text \<open>C18: When the scope of the network receiver has stopped on its trigger, \<open>erxscope\<close> writes a file from which the contents of
  the scope's memory can be read back, with the trigger at the sample the control register says.\<close>

theorem erxscope_writes_samples:
  fixes v :: busw
  defines "lgln \<equiv> unat (drop_bit 20 v AND 0x1f)"
  assumes "reads_same_address bus" "bus_readio bus R_NETSCOPE d = (Inr v, d1)" "drop_bit 28 v AND 6 = 6" "3 \<le> lgln" "lgln \<le> 30"
    and "read_times bus (R_NETSCOPE + 4) (2 ^ lgln) d1 = (Inr vs, d2)"
  shows "\<exists>ls s. erxscope_main junk h True fl now bus d = (Inr (Some ls), s) \<and> raw_words ls = vs \<and>
    trigger_values ls = map (\<lambda>i. of_nat i = push_bit lgln 1 - (v AND 0xfffff) - 1) [0..<2 ^ lgln]"
proof -
  note size = scope_size [OF assms(5,6)]
  have len: "length vs = 2 ^ lgln" by (rule read_times_length [OF assms(7)])
  define s1 where "s1 = (set_clkfreq_hz 125000000 (SCOPE d R_NETSCOPE False True h))\<lparr>m_fpga := d1, m_scoplen := push_bit lgln 1, m_holdoff := v AND 0xfffff\<rparr>"
  have r: "ready bus (set_clkfreq_hz 125000000 (SCOPE d R_NETSCOPE False True h)) = (Inr True, s1)"
    using assms(3,4) by (simp add: ready_def bindE_def on_bus_def call_defs SCOPE_def set_clkfreq_hz_def s1_def lgln_def)
  have z: "bus_readz bus (R_NETSCOPE + 4) (sint (push_bit lgln 1 :: busw)) d1 = (Inr vs, d2)"
    using assms(2,7) unfolding size(2) reads_same_address_def by metis
  define s2 where "s2 = s1\<lparr>m_fpga := d2, m_data := Some vs\<rparr>"
  have raw: "rawread junk bus s1 = (Inr (), s2)"
    using size z len by (simp add: rawread_def put_data_def store_at_def scoplen_def bindE_def on_bus_def call_defs s1_def s2_def SCOPE_def set_clkfreq_hz_def)
  have inv: "scope_inv s2" using size len by (simp add: scope_inv_def s2_def s1_def SCOPE_def set_clkfreq_hz_def)
  obtain out where p: "print_scope junk bus erx_decode s1 = (Inr (), s2\<lparr>stdout := out\<rparr>)"
    using raw samples_data [OF inv, of vs]
    by (simp add: print_scope_def bindE_def call_defs printf_def getaddresslen_def Let_def s2_def s1_def SCOPE_def set_clkfreq_hz_def)
  define s3 where "s3 = s2\<lparr>stdout := out\<rparr>"
  define s4 where "s4 = define_all erx_traces s3"
  have s3: "m_traces s3 = []" "m_data s3 = Some vs" "\<not> m_compressed s3" "m_scoplen s3 = push_bit lgln 1" "m_holdoff s3 = v AND 0xfffff"
    by (simp_all add: s3_def s2_def s1_def SCOPE_def set_clkfreq_hz_def)
  note fit = erx_traces_fit [OF s3(1), folded s4_def]
  have ne: "m_traces s4 \<noteq> []" using fit(1) by auto
  have "scope_inv s4" unfolding s4_def define_all_def using inv by (intro registers_inv) (simp add: s3_def)
  from vcd_read_back [OF this, of vs junk fl now bus "define_all erx_traces"]
  obtain ls where ls: "writevcd junk fl now bus (define_all erx_traces) s4 = (Inr ls, s4)" "raw_words ls = vs"
    "trigger_values ls = map (\<lambda>i. of_nat i = push_bit lgln 1 - (v AND 0xfffff) - 1) [0..<2 ^ lgln]"
    using s3 ne fit len by (auto simp: s4_def)
  have "writevcd junk fl now bus (define_all erx_traces) s3 = (Inr ls, s4)"
    using ls(1) writevcd_define [of s3 "define_all erx_traces" vs] s3(1,2) ne by (simp add: s4_def)
  then have "erxscope_main junk h True fl now bus d = (Inr (Some ls), s4)"
    using r p by (simp add: erxscope_main_def show_scope_def writevcd_named_def bindE_def returnE_def s3_def)
  then show ?thesis using ls(2,3) by blast
qed

text \<open>A receiver's scope of eight samples that count up, stopped with the trigger two samples before the last.\<close>

definition receiver_bus :: "busw devbus" where
  "receiver_bus =
     (let rd = (\<lambda>a d. (Inr (if a = R_NETSCOPE then 0x60300002 else d), if a = R_NETSCOPE then d else d + 1)) :: busw \<Rightarrow> (busw, busw) call;
          base = \<lparr>bus_writeio = \<lambda>a v. returnE (), bus_readio = rd, bus_readi = \<lambda>a n. returnE [], bus_readz = \<lambda>a n. returnE [], bus_poll = returnE False\<rparr>
      in base\<lparr>bus_readz := \<lambda>a n. read_times base a (nat n)\<rparr>)"

theorem erxscope_writes_samples_witness:
  "\<exists>ls s. erxscope_main (\<lambda>i. 0) 0 True \<lparr>zero_ns = \<lambda>c n. 0, addr_ns = \<lambda>c n. n, rise_ns = \<lambda>c n. 0, fall_ns = \<lambda>c n. 0\<rparr> ''now'' receiver_bus 7 =
     (Inr (Some ls), s) \<and> raw_words ls = [7, 8, 9, 10, 11, 12, 13, 14] \<and>
     trigger_values ls = [False, False, False, False, False, True, False, False]"
proof -
  have "reads_same_address receiver_bus"
    by (auto simp: reads_same_address_def receiver_bus_def Let_def intro!: read_times_cong)
  moreover have "bus_readio receiver_bus R_NETSCOPE 7 = (Inr 0x60300002, 7)" by (simp add: receiver_bus_def Let_def)
  moreover have "read_times receiver_bus (R_NETSCOPE + 4) (2 ^ unat (drop_bit 20 0x60300002 AND 0x1f :: busw)) 7 = (Inr [7, 8, 9, 10, 11, 12, 13, 14], 15)"
    by code_simp
  ultimately show ?thesis
    using erxscope_writes_samples [of receiver_bus 7 "0x60300002" 7 "[7, 8, 9, 10, 11, 12, 13, 14]" 15] by (simp add: upt_conv_Cons)
qed
end
