(* ===== verification/WbRegs.thy ===== *)
theory WbRegs
  imports DevBus CFormat TtyWrite
begin

text \<open>
  The names of the design's registers (\<open>src/sw/host/regdefs.cpp\<close>, with the addresses of \<open>regdefs.h\<close>) and the program that
  reads and writes registers by name (\<open>src/sw/host/wbregs.cpp\<close>).

  A file is its text, or \<open>None\<close> when it cannot be opened. What the program prints is a list of strings; messages to the standard error
  stream are not kept. The host's programs are built without \<open>INCLUDE_ZIPCPU\<close>, so \<open>addrdecode\<close> has no names for a ZipCPU.
\<close>

subsection \<open>Characters and numbers\<close>

definition code :: "char \<Rightarrow> nat" where
  "code c = of_char c"

definition isspace :: "char \<Rightarrow> bool" where
  "isspace c \<longleftrightarrow> code c = 32 \<or> 9 \<le> code c \<and> code c \<le> 13"

definition isdigit :: "char \<Rightarrow> bool" where
  "isdigit c \<longleftrightarrow> 48 \<le> code c \<and> code c \<le> 57"

definition isalpha :: "char \<Rightarrow> bool" where
  "isalpha c \<longleftrightarrow> 65 \<le> code c \<and> code c \<le> 90 \<or> 97 \<le> code c \<and> code c \<le> 122"

definition isgraph :: "byte \<Rightarrow> bool" where
  "isgraph b \<longleftrightarrow> 33 \<le> b \<and> b \<le> 126"

definition digit_of :: "char \<Rightarrow> nat" where
  "digit_of c = (if isdigit c then code c - 48 else if isalpha c then code (to_upper c) - 55 else 36)"

text \<open>\<open>strtoul\<close> with base 0: the base is that of the prefix, a number too large gives \<open>ULONG_MAX\<close>.\<close>

fun digits_value :: "nat \<Rightarrow> nat \<Rightarrow> string \<Rightarrow> nat" where
  "digits_value base acc [] = acc"
| "digits_value base acc (c # cs) = (if digit_of c < base then digits_value base (acc * base + digit_of c) cs else acc)"

definition unsigned_value :: "string \<Rightarrow> nat" where
  "unsigned_value s =
     (if char_at s 0 = CHR ''0'' \<and> to_upper (char_at s 1) = CHR ''X'' \<and> digit_of (char_at s 2) < 16 then digits_value 16 0 (drop 2 s)
      else if char_at s 0 = CHR ''0'' then digits_value 8 0 s
      else digits_value 10 0 s)"

definition strtoul :: "string \<Rightarrow> u64" where
  "strtoul s =
     (let s = dropWhile isspace s; neg = (char_at s 0 = CHR ''-'');
          v = unsigned_value (if neg \<or> char_at s 0 = CHR ''+'' then drop 1 s else s)
      in if 2 ^ 64 \<le> v then -1 else if neg then - of_nat v else of_nat v)"

subsection \<open>Register names\<close>

definition bregs :: "(busw \<times> string) list" where
  "bregs =
    [(0x00100000, ''FLASHCFG''), (0x00100000, ''QSPIC''), (0x00200000, ''NETSCOPE''),
     (0x00200004, ''NETSCOPED''), (0x00300000, ''FLASHSCOPE''), (0x00300004, ''FLASHSCOPED''),
     (0x00400004, ''UFIFO''), (0x00400008, ''RX''), (0x0040000c, ''TX''),
     (0x00500000, ''RXCMD''), (0x00500000, ''NETRX''), (0x00500004, ''TXCMD''),
     (0x00500004, ''NETTX''), (0x00500008, ''MACHI''), (0x0050000c, ''MACLO''),
     (0x00500010, ''NETMISS''), (0x00500014, ''NETERR''), (0x00500018, ''NETCRCER''),
     (0x0050001c, ''NETCOL''), (0x00600000, ''BUILDTIME''), (0x00600000, ''BUILDTIME''),
     (0x00600004, ''BUSERR''), (0x00600004, ''BUSERR''), (0x00600008, ''PIC''),
     (0x00600008, ''PIC''), (0x0060000c, ''CPUACTIVEIRQ''), (0x0060000c, ''CPUACTIVEIRQ''),
     (0x00600010, ''CPUBUSERR''), (0x00600010, ''CPUBUSERR''), (0x00600014, ''CPUBUSERRPC''),
     (0x00600014, ''CPUBUSERRPC''), (0x00600018, ''GPIO''), (0x00600018, ''GPI''),
     (0x00600018, ''GPO''), (0x00600018, ''GPIO''), (0x00600018, ''GPI''),
     (0x00600018, ''GPO''), (0x0060001c, ''NET1DLY''), (0x0060001c, ''NET1DLY''),
     (0x00600020, ''PWRCOUNT''), (0x00600020, ''PWRCOUNT''), (0x00600024, ''SPIO''),
     (0x00600024, ''SPIO''), (0x00600028, ''ZIPTIMER''), (0x00600028, ''TIMER''),
     (0x00600028, ''SYSTIMER''), (0x00600028, ''ZIPTIMER''), (0x00600028, ''TIMER''),
     (0x00600028, ''SYSTIMER''), (0x0060002c, ''VERSION''), (0x0060002c, ''VERSION''),
     (0x00700000, ''BMCR''), (0x00700004, ''BMSR''), (0x00700008, ''PHYIDR1''),
     (0x0070000c, ''PHYIDR2''), (0x00700010, ''ANAR''), (0x00700014, ''ANLPAR''),
     (0x00700018, ''ANER''), (0x0070001c, ''ANNPTR''), (0x00700020, ''ANNPRR''),
     (0x00700024, ''GBECTRL''), (0x00700028, ''GBESTAT''), (0x00800000, ''NETRXB''),
     (0x00800800, ''NETTXB''), (0x00a00000, ''RAM''), (0x01000000, ''FLASH'')]"

definition addrdecode :: "string \<Rightarrow> exn + busw" where
  "addrdecode v =
     (if isalpha (char_at v 0)
      then case find (\<lambda>(a, n). casecmp v n) bregs of Some (a, n) \<Rightarrow> Inr a | None \<Rightarrow> Inl (ExitWith (-2))
      else Inr (ucast (strtoul v)))"

definition addrname :: "busw \<Rightarrow> string option" where
  "addrname v = map_option snd (find (\<lambda>(a, n). a = v) bregs)"

subsection \<open>Map files\<close>

definition isvalue :: "string \<Rightarrow> bool" where
  "isvalue v =
     (let p = dropWhile isspace v;
          p = (if char_at p 0 = CHR ''+'' \<or> char_at p 0 = CHR ''-'' then drop 1 p else p);
          p = (if char_at p 0 = CHR ''+'' then drop 1 p else p);
          p = (if char_at p 0 = CHR ''0'' then (if to_upper (char_at p 1) = CHR ''X'' then drop 2 p else drop 1 p) else p)
      in isdigit (char_at p 0))"

text \<open>\<open>fgets\<close> with a buffer of 512 characters: the file in pieces of at most 511 characters, ending after a newline.\<close>

fun piece :: "nat \<Rightarrow> string \<Rightarrow> string \<times> string" where
  "piece 0 s = ([], s)"
| "piece (Suc n) [] = ([], [])"
| "piece (Suc n) (c # cs) = (if c = CHR 0x0a then ([c], cs) else (c # fst (piece n cs), snd (piece n cs)))"

lemma piece_shorter: "length (snd (piece n s)) \<le> length s"
  by (induction n s rule: piece.induct) auto

function file_lines :: "string \<Rightarrow> string list" where
  "file_lines [] = []"
| "file_lines (c # cs) = fst (piece 511 (c # cs)) # file_lines (snd (piece 511 (c # cs)))"
  by pat_completeness auto
termination
proof (relation "measure length")
  fix c :: char and cs
  have "piece 511 (c # cs) = (if c = CHR 0x0a then ([c], cs) else (c # fst (piece 510 cs), snd (piece 510 cs)))"
    using piece.simps(3) [of 510 c cs] by simp
  then show "(snd (piece 511 (c # cs)), c # cs) \<in> measure length" using piece_shorter [of 510 cs] by simp
qed simp

text \<open>The words \<open>strtok\<close> finds in a line.\<close>

definition is_delim :: "char \<Rightarrow> bool" where
  "is_delim c \<longleftrightarrow> c \<in> {CHR '' '', CHR 0x09, CHR 0x0a}"

fun tokens_acc :: "string \<Rightarrow> string \<Rightarrow> string list" where
  "tokens_acc w [] = (if w = [] then [] else [w])"
| "tokens_acc w (c # cs) = (if is_delim c then (if w = [] then tokens_acc [] cs else w # tokens_acc [] cs) else tokens_acc (w @ [c]) cs)"

definition map_entry :: "string \<Rightarrow> (string \<times> string) option" where
  "map_entry line = (case tokens_acc [] line of [astr, nstr] \<Rightarrow> if isvalue astr then Some (astr, nstr) else None | _ \<Rightarrow> None)"

definition getmap_address :: "string option \<Rightarrow> string \<Rightarrow> exn + busw" where
  "getmap_address fmp name = (case fmp of
     None \<Rightarrow> Inl (ExitWith 1)
   | Some txt \<Rightarrow> (case find (\<lambda>(a, n). casecmp n name) (List.map_filter map_entry (file_lines txt)) of
       Some (a, n) \<Rightarrow> Inr (ucast (strtoul a)) | None \<Rightarrow> Inr 0))"

text \<open>\<open>strtoul\<close> is compared as an \<open>unsigned long\<close>.\<close>

definition getmap_name :: "string option \<Rightarrow> busw \<Rightarrow> exn + string option" where
  "getmap_name fmp val = (case fmp of
     None \<Rightarrow> Inl (ExitWith 1)
   | Some txt \<Rightarrow> Inr (map_option snd (find (\<lambda>(a, n). strtoul a = ucast val) (List.map_filter map_entry (file_lines txt)))))"

subsection \<open>The program\<close>

text \<open>The loop over the arguments, which moves those that are no options to the front of \<open>argv\<close>.\<close>

function arg_loop :: "string list \<Rightarrow> int \<Rightarrow> int \<Rightarrow> int \<Rightarrow> bool \<Rightarrow> string option \<Rightarrow> exn + string list \<times> int \<times> bool \<times> string option" where
  "arg_loop argv argc skp argn dec map_file =
     (if argn < argc - skp
      then let arg = argv ! nat (argn + skp)
           in if char_at arg 0 = CHR ''-''
              then if char_at arg 1 = CHR ''d'' then arg_loop argv argc (skp + 1) argn True map_file
                   else if char_at arg 1 = CHR ''m''
                   then if argn + skp + 1 \<ge> argc then Inl (ExitWith 0)
                        else arg_loop argv argc (skp + 2) (argn - 1) dec (Some (argv ! nat (argn + skp + 1)))
                   else Inl (ExitWith 0)
              else if argn < 0 then Inl OutOfBounds
              else arg_loop (argv[nat argn := arg]) argc skp (argn + 1) dec map_file
      else Inr (argv, argc - skp, dec, map_file))"
  by pat_completeness auto
termination by (relation "measure (\<lambda>(argv, argc, skp, argn, dec, map_file). nat (argc - skp - argn))") auto

declare arg_loop.simps [simp del]

text \<open>The address and its name. \<open>readable\<close> says whether \<open>access\<close> finds the map file readable, \<open>fmp\<close> gives its text.\<close>

definition find_register :: "(string \<Rightarrow> string option) \<Rightarrow> string option \<Rightarrow> string \<Rightarrow> exn + busw \<times> string option \<times> string list" where
  "find_register fmp map_file named_address =
     (if isvalue named_address
      then let address = ucast (strtoul named_address)
           in bindS (case map_file of Some f \<Rightarrow> getmap_name (fmp f) address | None \<Rightarrow> Inr None) (\<lambda>nm.
              Inr (address, (if nm = None then addrname address else nm), [''Named address = '' @ named_address @ [CHR 0x0a]]))
      else case map_file of
        Some f \<Rightarrow>
          bindS (getmap_address (fmp f) named_address) (\<lambda>address.
          bindS (getmap_name (fmp f) address) (\<lambda>nm.
          if nm = None then bindS (addrdecode named_address) (\<lambda>address. Inr (address, addrname address, []))
          else Inr (address, nm, [])))
      | None \<Rightarrow> bindS (addrdecode named_address) (\<lambda>address. Inr (address, addrname address, [])))"

definition shown_name :: "string option \<Rightarrow> string" where
  "shown_name nm = pad_left 8 (case nm of Some n \<Rightarrow> n | None \<Rightarrow> ''(null)'')"

definition graph_char :: "busw \<Rightarrow> char" where
  "graph_char v = (let b = ucast (v AND 0xff) :: byte in if isgraph b then char_of (unat b) else CHR ''.'')"

definition peek :: "'d devbus \<Rightarrow> bool \<Rightarrow> busw \<Rightarrow> string option \<Rightarrow> ('d, string list) call" where
  "peek bus dec address nm d =
     (case bus_readio bus address d of
        (Inr v, d) \<Rightarrow>
          (Inr [if dec then fmt_d v @ [CHR 0x0a]
                else fmt_08x address @ '' ('' @ shown_name nm @ '') : ['' @
                  [graph_char (drop_bit 24 v), graph_char (drop_bit 16 v), graph_char (drop_bit 8 v), graph_char v] @ ''] '' @ fmt_08x v @ [CHR 0x0a]], d)
      | (Inl (BUSERR b), d) \<Rightarrow> (Inr [fmt_08x address @ '' ('' @ shown_name nm @ '') : BUS-ERROR'' @ [CHR 0x0a]], d)
      | (Inl e, d) \<Rightarrow> (Inl e, d))"

definition poke :: "'d devbus \<Rightarrow> busw \<Rightarrow> string option \<Rightarrow> busw \<Rightarrow> ('d, string list) call" where
  "poke bus address nm v =
     bindE (bus_writeio bus address v) (\<lambda>_.
       returnE [fmt_08x address @ '' ('' @ shown_name nm @ '')-> '' @ fmt_08x v @ [CHR 0x0a]])"

definition wbregs_main :: "(string \<Rightarrow> bool) \<Rightarrow> (string \<Rightarrow> string option) \<Rightarrow> 'd devbus \<Rightarrow> string list \<Rightarrow> ('d, string list) call" where
  "wbregs_main readable fmp bus argv =
     bindE (liftE (arg_loop argv (int (length argv)) 1 0 False None)) (\<lambda>(argv, argc, dec, map_file).
     if argc < 1 \<or> 2 < argc then throwE (ExitWith (-1))
     else if (case map_file of Some f \<Rightarrow> \<not> readable f | None \<Rightarrow> False) then throwE (ExitWith 1)
     else
       bindE (liftE (find_register fmp map_file (argv ! 0))) (\<lambda>(address, nm, said).
       bindE (if argc < 2 then peek bus dec address nm else poke bus address nm (ucast (strtoul (argv ! 1)))) (\<lambda>out.
       bindE (bus_poll bus) (\<lambda>irq.
       returnE (said @ out @ (if irq then [''FPGA was interrupted'' @ [CHR 0x0a]] else []))))))"

subsection \<open>Names and numbers\<close>

lemma bregs_upper: "list_all (\<lambda>(a, n). map to_upper n = n \<and> isalpha (char_at n 0) \<and> a AND 3 = 0) bregs"
  by code_simp

lemma bregs_find: "list_all (\<lambda>(a, n). map_option fst (find (\<lambda>(b, m). m = n) bregs) = Some a) bregs"
  by code_simp

lemma to_upper_alpha: "isalpha (to_upper c) \<Longrightarrow> isalpha c"
  by (auto simp: isalpha_def to_upper_def code_def Let_def split: if_splits)

lemma casecmp_first: "casecmp v n \<Longrightarrow> to_upper (char_at v 0) = to_upper (char_at n 0)"
  by (cases v; cases n) (auto simp: casecmp_def char_at_def)

lemma register_name:
  assumes "(a, n) \<in> set bregs" "casecmp v n"
  shows "isalpha (char_at v 0)" "addrdecode v = Inr a" "a AND 3 = 0"
proof -
  have up: "map to_upper m = m" "isalpha (char_at m 0)" "b AND 3 = 0" if "(b, m) \<in> set bregs" for b m
    using bregs_upper that by (auto simp: list_all_iff)
  have v: "map to_upper v = n" using assms up(1) by (auto simp: casecmp_def)
  have "to_upper (char_at n 0) = char_at n 0" using up(1,2) [OF assms(1)] by (cases n) (auto simp: char_at_def isalpha_def code_def)
  then show al: "isalpha (char_at v 0)" using up(2) [OF assms(1)] casecmp_first [OF assms(2)] to_upper_alpha [of "char_at v 0"] by simp
  have same: "casecmp v m \<longleftrightarrow> m = n" if "(b, m) \<in> set bregs" for b m
    unfolding casecmp_def v up(1) [OF that] by auto
  have "find (\<lambda>(b, m). casecmp v m) bregs = find (\<lambda>(b, m). m = n) bregs"
    using same by (intro find_cong refl) auto
  moreover obtain m where "find (\<lambda>(b, m). m = n) bregs = Some (a, m)" using bregs_find assms(1) by (fastforce simp: list_all_iff)
  ultimately show "addrdecode v = Inr a" using al by (simp add: addrdecode_def)
  show "a AND 3 = 0" by (rule up(3) [OF assms(1)])
qed

text \<open>C35: Every register is found under each of its names, however they are written, and the name the program shows for an address
  is one it finds the address by.\<close>

theorem register_names_round_trip:
  "(\<forall>(a, n) \<in> set bregs. \<forall>v. casecmp v n \<longrightarrow> addrdecode v = Inr a) \<and> (\<forall>a n. addrname a = Some n \<longrightarrow> addrdecode n = Inr a)"
proof -
  have "addrdecode n = Inr a" if "addrname a = Some n" for a n
  proof -
    have "(a, n) \<in> set bregs" using that by (auto simp: addrname_def find_Some_iff) (metis nth_mem)
    then show ?thesis by (rule register_name) (simp add: casecmp_def)
  qed
  then show ?thesis using register_name(2) by auto
qed

theorem register_names_round_trip_witness: "addrdecode ''gpi'' = Inr 0x00600018 \<and> addrdecode ''GPIO'' = Inr 0x00600018"
proof -
  have r: "(0x00600018, ''GPI'') \<in> set bregs" by (simp add: bregs_def)
  have c: "casecmp ''gpi'' ''GPI''" by code_simp
  have n: "addrname 0x00600018 = Some ''GPIO''" by code_simp
  show ?thesis
    using bspec [OF conjunct1 [OF register_names_round_trip] r] c conjunct2 [OF register_names_round_trip, rule_format, OF n] by simp
qed

lemma digit_of_digit: "d < 16 \<Longrightarrow> digit_of (digit d) = d"
  by (auto simp: digit_def digit_of_def isdigit_def isalpha_def code_def to_upper_def Let_def)

lemma digits_value_digits:
  "list_all (\<lambda>d. d < base) ds \<Longrightarrow> base \<le> 16 \<Longrightarrow> digits_value base acc (map digit ds) = foldl (\<lambda>a d. base * a + d) acc ds"
  by (induction ds arbitrary: acc) (simp_all add: digit_of_digit mult.commute)

text \<open>What \<open>%08x\<close> prints, read as a hexadecimal number.\<close>

lemma strtoul_hex: "strtoul (''0x'' @ fmt_08x v) = ucast v"
proof -
  let ?ds = "map (\<lambda>i. unat v div 2 ^ i mod 16) [28, 24, 20, 16, 12, 8, 4, 0]"
  have f: "fmt_08x v = map digit ?ds" by (simp add: fmt_08x_def nibble del: unsigned_and_eq)
  have "list_all (\<lambda>d. d < 16) ?ds" by simp
  then have "digits_value 16 0 (fmt_08x v) = unat v"
    using digits_value_digits [of 16 ?ds 0] nibbles_value [of v] unfolding f by (simp add: foldl_map)
  moreover have "digit_of (char_at (fmt_08x v) 0) < 16" unfolding f by (simp add: char_at_def digit_of_digit)
  moreover have "char_at (''0x'' @ fmt_08x v) 2 = char_at (fmt_08x v) 0" by (simp add: char_at_def)
  moreover have "to_upper (CHR ''x'') = CHR ''X''" "\<not> isspace (CHR ''0'')" by code_simp+
  ultimately have "unsigned_value (''0x'' @ fmt_08x v) = unat v" "dropWhile isspace (''0x'' @ fmt_08x v) = ''0x'' @ fmt_08x v"
    by (simp_all add: unsigned_value_def) (simp_all add: char_at_def)
  then show ?thesis using unat_lt32 [of v] by (simp add: strtoul_def Let_def char_at_def) 
qed

subsection \<open>Writing a register by its name\<close>

lemma alpha_chars: "isalpha c \<Longrightarrow> \<not> isspace c \<and> \<not> isdigit c \<and> c \<notin> {CHR ''-'', CHR ''+'', CHR ''0''}"
  by (auto simp: isalpha_def isspace_def isdigit_def code_def)

lemma name_is_no_value:
  assumes "isalpha (char_at v 0)"
  shows "\<not> isvalue v"
proof -
  obtain c cs where v: "v = c # cs" using assms by (cases v) (auto simp: char_at_def isalpha_def code_def)
  then show ?thesis using alpha_chars [OF assms] by (simp add: isvalue_def Let_def char_at_def)
qed

lemma arg_loop_plain:
  "char_at x 0 \<noteq> CHR ''-'' \<Longrightarrow> char_at y 0 \<noteq> CHR ''-'' \<Longrightarrow> arg_loop [p, x, y] 3 1 0 False None = Inr ([x, y, y], 2, False, None)"
  by (simp add: arg_loop.simps)

text \<open>C14: \<open>wbregs name value\<close> over the serial debugging bus makes the design's bus interface write the value to the register's address, and
  nothing else.\<close>

theorem wbregs_writes_register:
  assumes "quiet_os os pend sent" "on_wire pend s = []" "0 < fuel" "wire_sync s u"
    and "(a, n) \<in> set bregs" "casecmp name n" "char_at val 0 \<noteq> CHR ''-''"
  shows "\<exists>out s' bs u'. wbregs_main readable fmp (tty_devbus fuel os) [prog, name, val] s = (Inr out, s') \<and>
    on_wire sent s' = on_wire sent s @ bs \<and> wbu_run bs u = ([WbWrite (drop_bit 2 a) (ucast (strtoul val))], u')"
proof -
  note reg = register_name [OF assms(5,6)]
  have nd: "char_at name 0 \<noteq> CHR ''-''" using alpha_chars [OF reg(1)] by simp
  let ?v = "ucast (strtoul val) :: busw"
  obtain s1 bs u' where w: "writev fuel os a False [?v] s = (Inr (), s1)" "on_wire sent s1 = on_wire sent s @ bs"
    "wbu_run bs u = (wr_events False (drop_bit 2 a) [?v], u')"
    using writev_sent [OF assms(1-4) reg(3), of "[?v]" False] by auto
  then have "on_wire sent (s1\<lparr>m_lastaddr := a, m_addr_set := True\<rparr>) = on_wire sent s @ bs" by (simp add: on_wire_def)
  moreover have "wr_events False (drop_bit 2 a) [?v] = [WbWrite (drop_bit 2 a) ?v]" by (simp add: wr_events_map)
  moreover have "find_register fmp None name = Inr (a, addrname a, [])"
    using reg(2) name_is_no_value [OF reg(1)] by (simp add: find_register_def)
  then have "\<exists>out. wbregs_main readable fmp (tty_devbus fuel os) [prog, name, val] s = (Inr out, s1\<lparr>m_lastaddr := a, m_addr_set := True\<rparr>)"
    using arg_loop_plain [OF nd assms(7)] w(1)
    by (simp add: wbregs_main_def bindE_def call_defs poke_def tty_devbus_def writeio_def)
  ultimately show ?thesis using w(3) by auto
qed

theorem wbregs_writes_register_witness:
  "\<exists>out s' u'. wbregs_main (\<lambda>f. False) (\<lambda>f. None) (tty_devbus 1 list_os) [''wbregs'', ''gpio'', ''0x00080008'']
      (ttybus_init (LLCOMMSI ([], [])) 0 [] (replicate 512 0)) = (Inr out, s') \<and>
    wbu_run (on_wire snd s') wbu_reset = ([WbWrite 0x00180006 0x00080008], u')"
proof -
  let ?s = "ttybus_init (LLCOMMSI ([], [])) 0 [] (replicate 512 0)"
  have w: "on_wire fst ?s = []" "on_wire snd ?s = []"
    by (simp_all add: on_wire_def ttybus_init_def LLCOMMSI_def)
  have "fmt_08x 0x00080008 = ''00080008''" by code_simp
  then have v: "(ucast (strtoul ''0x00080008'') :: busw) = 0x00080008" using strtoul_hex [of "0x00080008"] by simp
  have r: "(0x00600018, ''GPIO'') \<in> set bregs" by (simp add: bregs_def)
  have c: "casecmp ''gpio'' ''GPIO''" by code_simp
  from wbregs_writes_register [OF list_os_quiet w(1) _ init_sync r c, of 1 "''0x00080008''" "\<lambda>f. False" "\<lambda>f. None" "''wbregs''"]
  show ?thesis by (auto simp: w(2) v char_at_def)
qed

subsection \<open>Addresses the map files lose\<close>

text \<open>An address whose first digit after the prefix is a letter is not taken for a value, so the lines of a map file with such an
  address are passed over; the program then goes on with the register names.\<close>

lemma hex_letters_no_value: "\<not> isvalue ''0xa00000''" "map_entry ''0xa00000 _start'' = None" "map_entry ''0x00a00000 _start'' = Some (''0x00a00000'', ''_start'')"
  by code_simp+

text \<open>With the option for a map file, the loop over the arguments stores before the beginning of \<open>argv\<close>.\<close>

lemma map_option_out_of_bounds: "arg_loop [''wbregs'', ''-m'', ''file'', ''gpio''] 4 1 0 False None = Inl OutOfBounds"
  by (simp add: arg_loop.simps char_at_def)

end
