(* ===== verification/Spec2Isabelle.thy ===== *)
theory Spec2Isabelle
  imports TtyRead Twoc MemSim EnetCtrlSim TbClock FlashDrvr FlashSim NetArp SoftDiv UartSim DblUartSim NetUart RvConsole Bootloader ZOpcodes Scopes WbRegs
begin

text \<open>
  \<^bold>\<open>The program.\<close> ZipVersa is a system on a chip for the ECP5 Versa board with the software around it. This development
  verifies the C and C++ parts that carry its logic, and of the Verilog only what the host's protocol needs:

  \<^item> the host programs in \<open>src/sw/host\<close>, which reach the bus of the design through the debugging bus (a text protocol over a
    serial port or a socket), the bridge \<open>netuart\<close> that shares the board's one serial port between that protocol and a
    console, and the tools above it: register access by name, the logic analyzers, the flash driver, the disassembler;
  \<^item> the simulators in \<open>src/sim/verilated\<close> and \<open>src/rtl/helloworld\<close>, C++ models of the chips around the FPGA, that the
    test bench clocks together with the design: serial ports, memory, SPI flash, the management port of the Ethernet PHY;
  \<^item> the programs for the RISC-V core in \<open>src/sw/rv32\<close>: the network stack that answers pings, the console and C library
    calls, the boot loader; and the 64-bit division of the run-time library in \<open>src/sw/zlib\<close>.

  They meet as follows. A tool calls \<open>DEVBUS\<close>; \<open>TTYBUS\<close> implements it and turns requests into characters;
  \<open>LLCOMMSI\<close> carries them, on the board through \<open>netuart\<close> and in simulation through \<open>DBLUARTSIM\<close> or \<open>UARTSIM\<close>; the design
  turns the characters back into bus requests. The two ends of that path are proved to agree in this theory.

  \<^bold>\<open>Conventions\<close> (theory \<open>Prelude\<close>). A C++ \<open>int\<close> or \<open>unsigned\<close> is a 32-bit word, a \<open>long\<close> a 64-bit word, a \<open>char\<close> an
  8-bit word, read signed or unsigned as the source does; where the source's arithmetic can overflow the model wraps. A
  member function is a \<open>call\<close>: a function from the object's state to an error or a result and the new state, composed by
  \<open>bindE\<close>. The errors are values: a failed assertion, an access out of bounds, a shift by too many bits, an exception of the bus, an
  exit, and running out of fuel. What the operating system or the design
  behind the bus does is a parameter: a record of functions (\<open>os_ops\<close>, \<open>devbus\<close>) or the list of the results the calls will give.
  Memory the source leaves uninitialised is an argument. Debugging output is left out, and standard output where it carries
  no result.

  \<^bold>\<open>The debugging bus.\<close>
  \<^item> \<open>TtyCodec\<close>: the character codes of \<open>ttybus.cpp\<close> (\<open>charenc\<close>, \<open>encode\<close>, \<open>decodestr\<close>, \<open>readcmd\<close>); their round trips, and
    the locale \<open>sixbit_receiver\<close> for any decoder of the code, interpreted for the host's and the FPGA's.
  \<^item> \<open>LLComms\<close>: the byte transport of \<open>llcomms.cpp\<close>; \<open>close\<close> ends on every finite stream.
  \<^item> \<open>TtyBus\<close>: every member of \<open>TTYBUS\<close>; its state is the buffer, the addresses, the compression tables and the error flags.
    \<open>TtyHost\<close> has what they put into the output buffer, \<open>WbuInput\<close> the FPGA's input path (\<open>wbutohex.v\<close>, \<open>wbureadcw.v\<close>,
    \<open>wbudecompress.v\<close>, \<open>wbuexec.v\<close>) one step per character, \<open>TtyWire\<close> the relation \<open>tbl_sync\<close> between the two ends' tables.
  \<^item> \<open>TtyWrite\<close>, \<open>TtyRead\<close>: the design performs exactly the writes that were asked for, in requests of at least one word, aligned and not past the end
    of the address space, and while nothing comes back on the line: what \<open>readidle\<close> does to acknowledgements that arrive
    meanwhile is shown apart (\<open>readidle_lone_character_fails\<close>); a read command asks for the
    right reads; an answer is received unchanged in whatever pieces it arrives; misaligned addresses are refused.
  \<^item> \<open>DevBus\<close>: the class \<open>DEVBUS\<close> as a record of functions, and \<open>TTYBUS\<close> as one such record, whose vector reads store as many words
    as they are asked for.

  \<^bold>\<open>The host programs.\<close>
  \<^item> \<open>NetUart\<close>: \<open>LINBUFS\<close> and the loop of \<open>netuart.cpp\<close>; no buffer is overrun, and nothing is lost, reordered or unmarked.
  \<^item> \<open>WbRegs\<close>: the register table of \<open>regdefs.cpp\<close> and the program \<open>wbregs.cpp\<close>, down to the writes the design performs.
  \<^item> \<open>ScopeCls\<close>, \<open>Scopes\<close>: the class \<open>SCOPE\<close>, the VCD files it writes, and the programs \<open>flashscope\<close>, \<open>erxscope\<close>,
    \<open>etxscope\<close>; what a file says is what the scope recorded. The relation \<open>used\<close> has every way of using a scope; in none of them is the array of
    the samples left.
  \<^item> \<open>ZOpcodes\<close>: the disassembler with its tables; it is total and stays inside its tables and buffer. \<open>CFormat\<close> has the
    formats of \<open>printf\<close> that the host programs use.
  \<^item> \<open>FlashDrvr\<close>: the class \<open>FLASHDRVR\<close> (identification, erasing, programming, writing) over any \<open>DEVBUS\<close>.
  \<^item> \<open>Twoc\<close>, \<open>ByteSwap\<close>: two's complement fields and byte orders.

  \<^bold>\<open>The simulators.\<close>
  \<^item> \<open>UartLine\<close>, \<open>UartSim\<close>, \<open>DblUartSim\<close>: the serial line bit by bit (set-up word, baud rate, parity, stop bits), the simple
    port and the one shared between commands and console. One \<open>tick\<close> is one clock; a transmitted byte is received.
  \<^item> \<open>MemSim\<close>: the memory and its delay line, a refinement of a memory with a queue of pending answers.
  \<^item> \<open>FlashSim\<close>: the flash chip pin by pin. Byte transactions (\<open>transaction\<close>) are built from single clocks; over them page program,
    read and write protection are proved.
  \<^item> \<open>EnetCtrlSim\<close>: the MDIO port; read and write frames.
  \<^item> \<open>TbClock\<close>: the clocks and the test bench's tick.
  The locale \<open>clocked\<close> of the prelude is the contract of a simulator: an invariant that each clock keeps.

  \<^bold>\<open>The programs on the board.\<close>
  \<^item> \<open>IpCksum\<close>: the checksum loop, equal to the one's-complement sum. \<open>NetPkt\<close>, \<open>NetIp\<close>: packets as blocks of an explicit
    heap, Ethernet, ARP, IP, ICMP and UDP. \<open>NetPing\<close>: one round of the main loop of \<open>pingtest.c\<close>. \<open>NetSend\<close>: what is put on the wire.
    \<open>NetArp\<close>: the ARP cache. The relation \<open>arp_run\<close> has every sequence of its uses, with any value of the variable \<open>arp_table_add\<close> uses
    uninitialised; a lookup gives out only what was entered. The locale \<open>address_cache\<close> is the contract it would keep with the right value.
  \<^item> \<open>RvConsole\<close>: \<open>txfns.c\<close> and the console and heap calls of \<open>syscalls.c\<close>. \<open>Bootloader\<close>: the copy of the image to RAM.
  \<^item> \<open>SoftDiv\<close>: 64-bit division and remainder, equal to those of the natural numbers.

  \<^bold>\<open>This theory\<close> joins the parts: the locale \<open>debug_link\<close> is a link from the host to the design that keeps what the protocol needs,
  interpreted on the simulated serial port and on the bridge; over both the writes requested of \<open>TTYBUS\<close> are performed.

  \<^bold>\<open>Bounds and fuel.\<close> Loops that only count are structural recursions or functions with a measure. The loops of \<open>TTYBUS\<close> that wait
  for the device take fuel and end in \<open>OutOfFuel\<close>; the theorems on reading give the fuel that is enough
  for the characters that are due. The carry loop of the checksum takes fuel 4 and the rounding of a
  memory size to a power of two fuel 33; both are proved to be enough for all 32-bit arguments. Loops over system calls consume
  the list of the calls' answers, so they end.

  \<^bold>\<open>Not modelled\<close>, and why:
  \<^item> opening terminals and sockets, signal handlers, command-line usage texts (\<open>main\<close> functions up to the
    opened bus, \<open>udpsocket.cpp\<close>, \<open>port.h\<close>): calls to the operating system without logic of their own;
  \<^item> \<open>zipelf.cpp\<close>, \<open>zipload.cpp\<close>: a thin layer over the ELF library; \<open>zipdbg.cpp\<close>: an interactive screen over the curses
    library; both are for the ZipCPU, which this configuration of the design does not have, as are
    \<open>zipstate.cpp\<close>, \<open>src/sw/board\<close> and the start-up code in \<open>src/sw/zlib\<close>;
  \<^item> \<open>flashid.cpp\<close>, \<open>dumpflash.cpp\<close>, \<open>netstat.cpp\<close>, \<open>netsetup.cpp\<close>, \<open>readmdio.cpp\<close>, \<open>rdclocks.cpp\<close>, \<open>testfft.cpp\<close>, \<open>fftmain.c\<close>, \<open>fftsimtest.c\<close>: they read registers and
    print what the bits mean, or compare floating-point results;
  \<^item> \<open>main_tb.cpp\<close>, \<open>automaster_tb.cpp\<close>: generated calls of the simulators' \<open>tick\<close> functions on a core that
    Verilator generates; the Verilog of the design apart from the input path of the debugging bus;
  \<^item> the interpretation of time: \<open>TBCLOCK::set_frequency_hz\<close> and the times in a VCD file use floating point and are parameters.
\<close>

text \<open>The design's end of the line: of the characters received, those with the top bit set are
  handed to the bus interface, without that bit (\<open>src/rtl/wbubus/wbuconsole.v\<close>).\<close>

definition wbuconsole :: "byte list \<Rightarrow> byte list" where
  "wbuconsole bs = map (\<lambda>b. b AND 0x7f) (filter (\<lambda>b. bit b 7) bs)"

lemma wbuconsole_marked:
  assumes "ascii bs"
  shows "wbuconsole (map (\<lambda>b. b OR 0x80) bs) = bs"
proof -
  have b80: "bit (0x80 :: byte) n \<longleftrightarrow> n = 7" "bit (0x7f :: byte) n \<longleftrightarrow> n < 7" for n
  proof -
    have "(0x80 :: byte) = push_bit 7 1" "(0x7f :: byte) = mask 7" by (simp_all add: mask_eq_exp_minus_1)
    then show "bit (0x80 :: byte) n \<longleftrightarrow> n = 7" "bit (0x7f :: byte) n \<longleftrightarrow> n < 7"
      by (auto simp only: bit_push_bit_iff bit_1_iff bit_mask_iff) auto
  qed
  have "(b OR 0x80) AND 0x7f = b" if "b < 0x80" for b :: byte
  proof (rule bit_word_eqI)
    fix n assume "n < LENGTH(8)"
    moreover have "unat b < 2 ^ 7" using that by (simp add: word_less_nat_alt)
    then have "\<not> bit b 7" using not_bit_small [of "unat b" 7 7] by (simp add: bit_unsigned_iff)
    ultimately show "bit ((b OR 0x80) AND 0x7f) n = bit b n"
      unfolding bit_and_iff bit_or_iff b80 by (cases "n = 7") auto
  qed
  moreover have "bit (b OR 0x80) 7" for b :: byte by (simp only: bit_or_iff b80) simp
  ultimately show ?thesis using assms by (induction bs) (simp_all add: wbuconsole_def ascii_def)
qed

text \<open>A link from the host to the design: \<open>reaches bs ds\<close> says that the host's characters \<open>bs\<close> arrive as the characters
  \<open>ds\<close> of the line. What the debugging bus needs of it is that the design finds the host's characters again; the
  host may only use seven bits.\<close>

locale debug_link =
  fixes reaches :: "byte list \<Rightarrow> byte list \<Rightarrow> bool"
  assumes found: "ascii bs \<Longrightarrow> reaches bs ds \<Longrightarrow> wbuconsole ds = bs"
begin

lemma writes_performed:
  assumes "quiet_os os pend taken" "0 < fuel" "list_all good_request reqs" "length wt = 512" "pend (ll_os dev) = []" "taken (ll_os dev) = []"
    and "write_all fuel os reqs (ttybus_init dev la rt wt) = (Inr (), s')" "reaches (on_wire taken s') ds"
  shows "\<exists>u. wbu_run (wbuconsole ds) wbu_reset = (concat (map request_events reqs), u)"
proof -
  obtain u where u: "ascii (on_wire taken s')" "wbu_run (on_wire taken s') wbu_reset = (concat (map request_events reqs), u)"
    using write_all_sent [OF assms(1,2) _ init_sync [OF assms(4)] assms(3), of dev la rt] assms(5-7)
    by (auto simp: on_wire_def ttybus_init_def)
  then show ?thesis using found [OF u(1) assms(8)] by auto
qed

end

text \<open>The link of the simulated board: what a receiver takes from the line on which the simulator sends \<open>bs\<close>.\<close>

definition over_simulator :: "byte list \<Rightarrow> byte list \<Rightarrow> bool" where
  "over_simulator bs ds \<longleftrightarrow> (\<exists>(d :: dbluartsim) B (r :: uart_line) f t. uart_wf d \<and> uart_line.m_nbits d = 8 \<and> m_baud_counts d = int B \<and> B \<ge> 3 \<and>
     m_baud_counts r = m_baud_counts d \<and> frame_length r = frame_length d \<and> m_rx_state r = RXIDLE \<and> m_last_tx r \<and>
     ds = line_chars f t (uart_stream B (sent_frames d (map (\<lambda>b. b OR 0x80) bs)) @ replicate B True) r)"

interpretation sim_link: debug_link over_simulator
proof
  fix bs ds assume "ascii bs" "over_simulator bs ds"
  then obtain d :: dbluartsim and B and r :: uart_line and f t where
    d: "uart_wf d" "uart_line.m_nbits d = 8" "m_baud_counts d = int B" "B \<ge> 3"
      "m_baud_counts r = m_baud_counts d" "frame_length r = frame_length d" "m_rx_state r = RXIDLE" "m_last_tx r"
    and ds: "ds = line_chars f t (uart_stream B (sent_frames d (map (\<lambda>b. b OR 0x80) bs)) @ replicate B True) r"
    unfolding over_simulator_def by blast
  have "B div 2 < B" using d(4) by simp
  then show "wbuconsole ds = bs" using sent_frames_received [OF d] \<open>ascii bs\<close> by (simp add: ds wbuconsole_marked)
qed

text \<open>The link of the board: what the bridge writes to the line for the pieces \<open>bs\<close> its command socket receives, with
  console characters of seven bits between them.\<close>

definition cmd_given :: "nu_poll \<Rightarrow> byte list" where
  "cmd_given p = (if cmd_in p then rd_out 0 (cmd_rd p) else [])"

definition over_netuart :: "byte list \<Rightarrow> byte list \<Rightarrow> bool" where
  "over_netuart bs ds \<longleftrightarrow> (\<exists>ps. list_all (\<lambda>p. ascii (up_con p)) ps \<and> bs = concat (map cmd_given ps) \<and> ds = concat (map (\<lambda>p. up_cmd p @ up_con p) ps))"

lemma up_cmd_given: "up_cmd p = map (\<lambda>b. b OR 0x80) (cmd_given p)"
  by (auto simp: up_cmd_def cmd_given_def rd_out_def masked_def split: option.splits)

lemma wbuconsole_append: "wbuconsole (xs @ ys) = wbuconsole xs @ wbuconsole ys"
  by (simp add: wbuconsole_def)

lemma wbuconsole_ascii: "ascii bs \<Longrightarrow> wbuconsole bs = []"
proof -
  assume "ascii bs"
  have "\<not> bit b 7" if "b < 0x80" for b :: byte
  proof -
    have "unat b < 2 ^ 7" using that by (simp add: word_less_nat_alt)
    then show ?thesis using not_bit_small [of "unat b" 7 7] by (simp add: bit_unsigned_iff)
  qed
  then show ?thesis using \<open>ascii bs\<close> by (auto simp: wbuconsole_def ascii_def list_all_iff filter_empty_conv)
qed

interpretation nu_link: debug_link over_netuart
proof
  fix bs ds assume "ascii bs" "over_netuart bs ds"
  then obtain ps where ps: "list_all (\<lambda>p. ascii (up_con p)) ps" "bs = concat (map cmd_given ps)" "ds = concat (map (\<lambda>p. up_cmd p @ up_con p) ps)"
    unfolding over_netuart_def by blast
  have "ascii (concat (map cmd_given ps)) \<Longrightarrow> wbuconsole (concat (map (\<lambda>p. up_cmd p @ up_con p) ps)) = concat (map cmd_given ps)"
    using ps(1) by (induction ps) (simp_all add: wbuconsole_append wbuconsole_ascii up_cmd_given wbuconsole_marked ascii_def wbuconsole_def [of "[]"])
  then show "wbuconsole ds = bs" using ps(2,3) \<open>ascii bs\<close> by simp
qed

text \<open>C1: the debugging bus over the simulated serial port. The host writes a sequence of requests, each of at least one
  word, aligned and not past the end of the address space, through a fresh \<open>TTYBUS\<close> to which nothing comes back meanwhile; the characters reach the command socket of the board's serial port simulator in chunks of any size up to its buffer's,
  the simulator sends them over the line with their top bit set, a receiver with the same setup takes them from the
  line, and the design's bus interface performs exactly the requested writes, in order and at the requested addresses.\<close>

theorem debug_bus_over_serial_port:
  assumes "quiet_os os pend taken" "0 < fuel" "list_all good_request reqs" "length wt = 512" "pend (ll_os dev) = []" "taken (ll_os dev) = []"
    and "write_all fuel os reqs (ttybus_init dev la rt wt) = (Inr (), s')" "concat cs = on_wire taken s'"
    and "\<forall>t. dbl_up (dos t)" "dbl_ok d" "both_up d" "dbluartsim.m_ilen d = 0" "m_tx_state d = TXIDLE"
    and "uart_wf d" "uart_line.m_nbits d = 8" "m_baud_counts d = int B" "B \<ge> 3"
    and "dbl_feeds dos (frame_clocks d) t cs" "length is = frame_clocks d * length (concat cs) + B"
    and "m_baud_counts r = m_baud_counts d" "frame_length r = frame_length d" "m_rx_state r = RXIDLE" "m_last_tx r"
  shows "\<exists>rs d' u. dbl_run dos t is d = (Inr rs, d') \<and>
    wbu_run (wbuconsole (line_chars f t' (map fst rs) r)) wbu_reset = (concat (map request_events reqs), u)"
proof -
  obtain u where u: "ascii (on_wire taken s')"
    using write_all_sent [OF assms(1,2) _ init_sync [OF assms(4)] assms(3), of dev la rt] assms(5-7)
    by (auto simp: on_wire_def ttybus_init_def)
  let ?w = "uart_stream B (sent_frames d (map (\<lambda>b. b OR 0x80) (concat cs))) @ replicate B True"
  have "dbl_idle (line_of d) [] d" using assms(10-13) by (simp add: dbl_idle_def dbl_good_def tx_cfg_def tx_queue_def)
  moreover have "line_8 B (line_of d)" using assms(14-17) by (simp add: line_8_def)
  ultimately have "wpE (dbl_run dos t is) (\<lambda>rs v. map fst rs = ?w \<and> dbl_idle (line_of d) [] v) d"
    using dbl_sends_chunks [OF assms(9), of B "line_of d" t cs B] assms(16,18,19) by (simp add: dbl_sends_def length_sent_frames)
  then obtain rs d' where run: "dbl_run dos t is d = (Inr rs, d')" "map fst rs = ?w" by (auto simp: wpE_iff)
  have "over_simulator (on_wire taken s') (line_chars f t' (map fst rs) r)"
    unfolding over_simulator_def run(2) assms(8) [symmetric] using assms(14-17,20-23) by blast
  then show ?thesis using sim_link.writes_performed [OF assms(1-7)] run(1) by blast
qed

theorem debug_bus_over_serial_port_witness:
  "\<exists>rs d' u. dbl_run (dbl_os_example [56, 50, 79, 48, 48, 48, 48, 49, 10]) 0 (replicate 282 True) dbl_example = (Inr rs, d') \<and>
     wbu_run (wbuconsole (line_chars (\<lambda>_. None) 0 (map fst rs) (line_of dbl_example))) wbu_reset = ([WbWrite 2 1], u)"
proof -
  let ?bs = "[56, 50, 79, 48, 48, 48, 48, 49, 10] :: byte list"
  let ?s = "ttybus_init (LLCOMMSI ([], [])) 0 [] (replicate 512 0)"
  have "map_prod id (on_wire snd) (write_all 1 list_os [(8, False, [1])] ?s) = (Inr (), ?bs)" by code_simp
  then obtain s' where s': "write_all 1 list_os [(8, False, [1])] ?s = (Inr (), s')" "on_wire snd s' = ?bs"
    by (cases "write_all 1 list_os [(8, False, [1])] ?s") auto
  have good: "list_all good_request [(8, False, [1])]" by simp
  have feeds: "dbl_feeds (dbl_os_example ?bs) (frame_clocks dbl_example) 0 [?bs]"
    by (simp add: dbl_os_example_def frame_clocks_def)
  have "\<exists>rs d' u. dbl_run (dbl_os_example ?bs) 0 (replicate 282 True) dbl_example = (Inr rs, d') \<and>
     wbu_run (wbuconsole (line_chars (\<lambda>_. None) 0 (map fst rs) (line_of dbl_example))) wbu_reset =
       (concat (map request_events [(8, False, [1])]), u)"
    by (rule debug_bus_over_serial_port [OF list_os_quiet _ good _ _ _ s'(1) _ _ _ _ _ _ _ _ _ _ feeds, where B = 3])
      (simp_all add: s'(2) frame_clocks_def LLCOMMSI_def)
  then show ?thesis by simp
qed

text \<open>C2: the debugging bus over the network bridge. The host writes a sequence of requests, each of at least one
  word, aligned and not past the end of the address space, through a fresh \<open>TTYBUS\<close> to which nothing comes back meanwhile; the characters
  reach the command socket of \<open>netuart\<close> in pieces, in rounds that may also carry console characters of seven bits in both directions; the bridge
  passes all of them on, and from what it writes to the serial line the design's bus interface performs exactly the
  requested writes, in order and at the requested addresses.\<close>

theorem debug_bus_over_netuart:
  assumes "quiet_os os pend taken" "0 < fuel" "list_all good_request reqs" "length wt = 512" "pend (ll_os dev) = []" "taken (ll_os dev) = []"
    and "write_all fuel os reqs (ttybus_init dev la rt wt) = (Inr (), s')"
    and "list_all good_poll ps" "both_linked n" "tty \<noteq> m_fd (lbcmd n)" "tty \<noteq> m_fd (lbcon n)"
    and "list_all (\<lambda>a. a \<noteq> WFail \<and> a \<noteq> Wrote 0) (answers n)" "sum_list (map round_size ps) \<le> length (filter (\<lambda>a. a \<noteq> Again) (answers n))"
    and "sent_to tty n = []" "list_all (\<lambda>p. ascii (up_con p)) ps" "concat (map cmd_given ps) = on_wire taken s'"
  shows "\<exists>n' u. nu_run tty ps n = (Inr (), n') \<and>
    wbu_run (wbuconsole (sent_to tty n')) wbu_reset = (concat (map request_events reqs), u)"
proof -
  obtain n' where "nu_run tty ps n = (Inr (), n')" "sent_to tty n' = concat (map (\<lambda>p. up_cmd p @ up_con p) ps)"
    using nu_run_sends [OF assms(8-13)] unfolding assms(14) append_Nil by blast
  moreover have "over_netuart (on_wire taken s') (concat (map (\<lambda>p. up_cmd p @ up_con p) ps))"
    unfolding over_netuart_def by (intro exI [of _ ps] conjI assms(15) assms(16) [symmetric] refl)
  ultimately show ?thesis using nu_link.writes_performed [OF assms(1-7)] by auto
qed

theorem debug_bus_over_netuart_witness:
  "\<exists>n' u. nu_run 4 [quiet_poll\<lparr>cmd_in := True, cmd_rd := Some [56, 50, 79, 48], con_in := True, con_rd := Some [0x62]\<rparr>,
        quiet_poll\<lparr>cmd_in := True, cmd_rd := Some [48, 48, 48, 49, 10]\<rparr>] (nu_example (replicate 10 (Wrote 1))) = (Inr (), n') \<and>
     wbu_run (wbuconsole (sent_to 4 n')) wbu_reset = ([WbWrite 2 1], u)"
proof -
  let ?ps = "[quiet_poll\<lparr>cmd_in := True, cmd_rd := Some [56, 50, 79, 48], con_in := True, con_rd := Some [0x62]\<rparr>,
        quiet_poll\<lparr>cmd_in := True, cmd_rd := Some [48, 48, 48, 49, 10]\<rparr>]"
  let ?s = "ttybus_init (LLCOMMSI ([], [])) 0 [] (replicate 512 0)"
  have "map_prod id (on_wire snd) (write_all 1 list_os [(8, False, [1])] ?s) = (Inr (), [56, 50, 79, 48, 48, 48, 48, 49, 10])" by code_simp
  then obtain s' where s': "write_all 1 list_os [(8, False, [1])] ?s = (Inr (), s')" "on_wire snd s' = [56, 50, 79, 48, 48, 48, 48, 49, 10]"
    by (cases "write_all 1 list_os [(8, False, [1])] ?s") auto
  have good: "list_all good_request [(8, False, [1])]" by simp
  have ps: "list_all good_poll ?ps" "sum_list (map round_size ?ps) = 10" "list_all (\<lambda>p. ascii (up_con p)) ?ps"
      "concat (map cmd_given ?ps) = [56, 50, 79, 48, 48, 48, 48, 49, 10]"
    by (simp_all add: good_poll_def quiet_poll_def rd_out_def masked_def round_size_def down_def up_cmd_def up_con_def cmd_given_def ascii_def)
  have size: "sum_list (map round_size ?ps) \<le> length (filter (\<lambda>a. a \<noteq> Again) (answers (nu_example (replicate 10 (Wrote 1)))))"
    unfolding ps(2) by simp
  have given: "concat (map cmd_given ?ps) = on_wire snd s'" unfolding ps(4) s'(2) ..
  have "\<exists>n' u. nu_run 4 ?ps (nu_example (replicate 10 (Wrote 1))) = (Inr (), n') \<and>
     wbu_run (wbuconsole (sent_to 4 n')) wbu_reset = (concat (map request_events [(8, False, [1])]), u)"
    by (rule debug_bus_over_netuart [OF list_os_quiet _ good _ _ _ s'(1) ps(1) _ _ _ _ size _ ps(3) given])
      (simp_all add: list_all_iff LLCOMMSI_def)
  then show ?thesis by simp
qed

end
